(* ===== verification/Prelude.thy ===== *)
theory Prelude
  imports Main "HOL-Library.Word" "HOL-Library.Multiset" "HOL-Library.Signed_Division"
begin

text \<open>
  Shared vocabulary of the development: the ways a C++ statement of this repository can go wrong
  (\<open>cpp_error\<close>), the result type of code that can go wrong, checked 32-bit arithmetic, checked
  array access, and a heap of separately allocated objects.

  Undefined behaviour is a value: a signed overflow, a read through a null, dangling or never
  allocated pointer, a double \<^verbatim>\<open>delete\<close> and a subscript outside an array all end the computation with
  an error that names the cause, so that a theorem \<open>f x = Inr y\<close> says that \<open>f\<close> meets none of them.
\<close>

named_theorems heap_simps \<open>rewrite rules of the heap operations\<close>
named_theorems stack_laws \<open>laws of the bounded stacks\<close>
named_theorems timer_simps \<open>unfolding of the timer operations\<close>

section \<open>Errors and results\<close>

datatype cpp_error =
    NullDeref
  | UseAfterFree
  | DoubleFree
  | WildPointer
  | OutOfBounds
  | IntOverflow
  | DivByZero
  | BadArrayNewLength
  | FutureError
  | StdTerminate
  | LengthError
  | RuntimeError string

type_synonym 'a result = "cpp_error + 'a"

definition rbind :: "'a result \<Rightarrow> ('a \<Rightarrow> 'b result) \<Rightarrow> 'b result" where
  "rbind m f = (case m of Inl e \<Rightarrow> Inl e | Inr x \<Rightarrow> f x)"

lemma rbind_Inl [simp]: "rbind (Inl e) f = Inl e"
  by (simp add: rbind_def)

lemma rbind_Inr [simp]: "rbind (Inr x) f = f x"
  by (simp add: rbind_def)

lemma rbind_eq_Inr_iff: "rbind m f = Inr y \<longleftrightarrow> (\<exists>x. m = Inr x \<and> f x = Inr y)"
  by (cases m) auto

lemma rbind_Inr_right [simp]: "rbind m Inr = m"
  by (cases m) auto

lemma rbind_assoc: "rbind (rbind m f) g = rbind m (\<lambda>x. rbind (f x) g)"
  by (cases m) auto

lemma rbind_cong [fundef_cong]:
  "m = m' \<Longrightarrow> (\<And>x. m' = Inr x \<Longrightarrow> f x = f' x) \<Longrightarrow> rbind m f = rbind m' f'"
  by (cases m') auto

lemma rbindE:
  assumes "rbind m f = Inr y"
  obtains x where "m = Inr x" and "f x = Inr y"
  using assms by (auto simp: rbind_eq_Inr_iff)

section \<open>Checked 32-bit signed arithmetic\<close>

definition INT_MAX :: int where "INT_MAX = 2147483647"
definition INT_MIN :: int where "INT_MIN = - 2147483648"

definition in_int :: "int \<Rightarrow> bool" where
  "in_int x \<longleftrightarrow> INT_MIN \<le> x \<and> x \<le> INT_MAX"

text \<open>Every signed operation of the sources is followed by this check: outside the range of
  \<^verbatim>\<open>int\<close> the C++ program has no defined behaviour.\<close>

definition chk_int :: "int \<Rightarrow> int result" where
  "chk_int x = (if in_int x then Inr x else Inl IntOverflow)"

lemma chk_int_in [simp]: "in_int x \<Longrightarrow> chk_int x = Inr x"
  by (simp add: chk_int_def)

lemma chk_int_eq_Inr [simp]: "chk_int x = Inr y \<longleftrightarrow> in_int x \<and> y = x"
  by (auto simp: chk_int_def)

lemma in_int_numerals: "in_int x \<longleftrightarrow> - 2147483648 \<le> x \<and> x \<le> 2147483647"
  by (simp add: in_int_def INT_MIN_def INT_MAX_def)

text \<open>\<^verbatim>\<open>std::atomic<int>\<close> increments wrap around.\<close>

definition wrap_int :: "int \<Rightarrow> int" where
  "wrap_int x = (x + 2147483648) mod 4294967296 - 2147483648"

lemma wrap_int_in [simp]: "in_int x \<Longrightarrow> wrap_int x = x"
  by (simp add: wrap_int_def in_int_numerals)

text \<open>Division and remainder truncate towards zero.\<close>

definition c_div :: "int \<Rightarrow> int \<Rightarrow> int result" where
  "c_div a b = (if b = 0 then Inl DivByZero else chk_int (a sdiv b))"

definition c_mod :: "int \<Rightarrow> int \<Rightarrow> int result" where
  "c_mod a b = (if b = 0 then Inl DivByZero else rbind (chk_int (a sdiv b)) (\<lambda>_. Inr (a smod b)))"

lemma c_div_nonneg: "0 \<le> a \<Longrightarrow> 0 < b \<Longrightarrow> in_int a \<Longrightarrow> c_div a b = Inr (a div b)"
proof -
  assume a: "0 \<le> a" "0 < b" "in_int a"
  have e: "a sdiv b = a div b" using a by (cases "a = 0") (simp_all add: signed_divide_int_def sgn_mult)
  have "0 \<le> a div b" "a div b \<le> a" using a
    by (auto simp: pos_imp_zdiv_nonneg_iff intro: order_trans[OF zdiv_mono2[of a 1 b]])
  then show ?thesis using a by (simp add: c_div_def e in_int_numerals)
qed

lemma c_mod_nonneg: "0 \<le> a \<Longrightarrow> 0 < b \<Longrightarrow> in_int a \<Longrightarrow> c_mod a b = Inr (a mod b)"
proof -
  assume a: "0 \<le> a" "0 < b" "in_int a"
  from c_div_nonneg[OF this] have "in_int (a sdiv b)" using a by (auto simp: c_div_def)
  then show ?thesis using a by (simp add: c_mod_def smod_mod_positive)
qed

text \<open>A word counter below another word does not wrap when it is incremented.\<close>

lemma word_Suc_below:
  fixes i n :: "'a::len word"
  assumes "i < n"
  shows "unat (i + 1) = Suc (unat i)"
proof -
  have "unat i < unat n" "unat n < 2 ^ LENGTH('a)" using assms by (simp_all add: word_less_nat_alt)
  then have "Suc (unat i) < 2 ^ LENGTH('a)" by linarith
  then show ?thesis by (simp add: unat_word_ariths)
qed

section \<open>Checked arrays\<close>

definition arr_get :: "'a list \<Rightarrow> int \<Rightarrow> 'a result" where
  "arr_get xs i = (if 0 \<le> i \<and> i < int (length xs) then Inr (xs ! nat i) else Inl OutOfBounds)"

definition arr_set :: "'a list \<Rightarrow> int \<Rightarrow> 'a \<Rightarrow> 'a list result" where
  "arr_set xs i v =
     (if 0 \<le> i \<and> i < int (length xs) then Inr (xs[nat i := v]) else Inl OutOfBounds)"

lemma arr_get_in: "0 \<le> i \<Longrightarrow> i < int (length xs) \<Longrightarrow> arr_get xs i = Inr (xs ! nat i)"
  by (simp add: arr_get_def)

lemma arr_set_in: "0 \<le> i \<Longrightarrow> i < int (length xs) \<Longrightarrow> arr_set xs i v = Inr (xs[nat i := v])"
  by (simp add: arr_set_def)

lemma arr_get_out: "i < 0 \<or> int (length xs) \<le> i \<Longrightarrow> arr_get xs i = Inl OutOfBounds"
  by (auto simp: arr_get_def)

lemma take_Suc_update: "n < length xs \<Longrightarrow> take (Suc n) (xs[n := v]) = take n xs @ [v]"
  by (simp add: take_Suc_conv_app_nth)

lemma rev_take_Suc: "n < length xs \<Longrightarrow> rev (take (Suc n) xs) = xs ! n # rev (take n xs)"
  by (simp add: take_Suc_conv_app_nth)

end
