(* ===== verification/Heap.thy ===== *)
theory Heap
  imports Prelude
begin

text \<open>
  The free store the sources use through \<^verbatim>\<open>new\<close> and \<^verbatim>\<open>delete\<close>. A cell is never allocated, live with
  the value of the object, or freed. Addresses are handed out in increasing order and never reused,
  so a dangling pointer stays recognisable: every access through it is an error value.
\<close>

datatype 'c cell = Unallocated | Live 'c | Freed

record 'c heap =
  mem :: "nat \<Rightarrow> 'c cell"
  brk :: nat

type_synonym ptr = "nat option"

definition heap_empty :: "'c heap" where
  "heap_empty = \<lparr>mem = (\<lambda>_. Unallocated), brk = 0\<rparr>"

definition h_new :: "'c \<Rightarrow> 'c heap \<Rightarrow> ptr \<times> 'c heap" where
  "h_new c h = (Some (brk h), h\<lparr>mem := (mem h)(brk h := Live c), brk := Suc (brk h)\<rparr>)"

definition h_read :: "'c heap \<Rightarrow> ptr \<Rightarrow> 'c result" where
  "h_read h p = (case p of None \<Rightarrow> Inl NullDeref
     | Some a \<Rightarrow> (case mem h a of Live c \<Rightarrow> Inr c | Freed \<Rightarrow> Inl UseAfterFree
                    | Unallocated \<Rightarrow> Inl WildPointer))"

definition h_write :: "'c heap \<Rightarrow> ptr \<Rightarrow> 'c \<Rightarrow> 'c heap result" where
  "h_write h p c = rbind (h_read h p) (\<lambda>_. Inr (h\<lparr>mem := (mem h)(the p := Live c)\<rparr>))"

text \<open>\<^verbatim>\<open>delete\<close> of a null pointer does nothing; of a freed one it is a double free.\<close>

definition h_delete :: "'c heap \<Rightarrow> ptr \<Rightarrow> 'c heap result" where
  "h_delete h p = (case p of None \<Rightarrow> Inr h
     | Some a \<Rightarrow> (case mem h a of Live _ \<Rightarrow> Inr (h\<lparr>mem := (mem h)(a := Freed)\<rparr>)
                    | Freed \<Rightarrow> Inl DoubleFree | Unallocated \<Rightarrow> Inl WildPointer))"

section \<open>Well-formed heaps\<close>

definition heap_ok :: "'c heap \<Rightarrow> bool" where
  "heap_ok h \<longleftrightarrow> (\<forall>a. brk h \<le> a \<longrightarrow> mem h a = Unallocated)"

definition live :: "'c heap \<Rightarrow> nat set" where
  "live h = {a. \<exists>c. mem h a = Live c}"

lemma heap_ok_empty [heap_simps]: "heap_ok heap_empty"
  by (simp add: heap_ok_def heap_empty_def)

lemma live_empty [heap_simps]: "live heap_empty = {}"
  by (simp add: live_def heap_empty_def)

lemma live_below_brk: "heap_ok h \<Longrightarrow> a \<in> live h \<Longrightarrow> a < brk h"
  by (rule ccontr) (auto simp: heap_ok_def live_def not_less)

lemma brk_not_live: "heap_ok h \<Longrightarrow> brk h \<notin> live h"
  using live_below_brk by blast

lemma h_read_Some [heap_simps]: "mem h a = Live c \<Longrightarrow> h_read h (Some a) = Inr c"
  by (simp add: h_read_def)

lemma h_read_None [heap_simps]: "h_read h None = Inl NullDeref"
  by (simp add: h_read_def)

lemma h_read_eq_Inr: "h_read h p = Inr c \<longleftrightarrow> (\<exists>a. p = Some a \<and> mem h a = Live c)"
  by (auto simp: h_read_def split: option.splits cell.splits)

lemma h_write_Some [heap_simps]:
  "mem h a = Live c \<Longrightarrow> h_write h (Some a) c' = Inr (h\<lparr>mem := (mem h)(a := Live c')\<rparr>)"
  by (simp add: h_write_def h_read_def)

lemma h_delete_None [heap_simps]: "h_delete h None = Inr h"
  by (simp add: h_delete_def)

lemma h_delete_Some [heap_simps]:
  "mem h a = Live c \<Longrightarrow> h_delete h (Some a) = Inr (h\<lparr>mem := (mem h)(a := Freed)\<rparr>)"
  by (simp add: h_delete_def)

lemma h_delete_live: "a \<in> live h \<Longrightarrow> h_delete h (Some a) = Inr (h\<lparr>mem := (mem h)(a := Freed)\<rparr>)"
  by (auto simp: live_def h_delete_def)

lemma h_delete_twice: "mem h a = Freed \<Longrightarrow> h_delete h (Some a) = Inl DoubleFree"
  by (simp add: h_delete_def)

lemma heap_ok_new: "heap_ok h \<Longrightarrow> heap_ok (snd (h_new c h))"
  by (simp add: heap_ok_def h_new_def)

lemma heap_ok_upd: "heap_ok h \<Longrightarrow> a < brk h \<Longrightarrow> heap_ok (h\<lparr>mem := (mem h)(a := c)\<rparr>)"
  by (simp add: heap_ok_def)

lemma live_new [heap_simps]: "live (snd (h_new c h)) = insert (brk h) (live h)"
  by (auto simp: live_def h_new_def)

lemma live_freed [heap_simps]: "live (h\<lparr>mem := m(a := Freed)\<rparr>) = live (h\<lparr>mem := m\<rparr>) - {a}"
  by (auto simp: live_def)

lemma live_same [heap_simps]: "live (h\<lparr>mem := mem h\<rparr>) = live h"
  by (simp add: live_def)

lemma live_written [heap_simps]:
  "a \<in> live h \<Longrightarrow> live (h\<lparr>mem := (mem h)(a := Live c)\<rparr>) = live h"
  by (auto simp: live_def)

end
