(* ===== verification/Bounded_Stack.thy ===== *)
theory Bounded_Stack
  imports Heap
begin

text \<open>
  The bounded stacks of \<^verbatim>\<open>src/primer_plus\<close>: the array stack of \<^verbatim>\<open>chap10/stack.cpp\<close> on
  \<^verbatim>\<open>unsigned long\<close>, the class template of \<^verbatim>\<open>chap14/14_4/stacktp.h\<close>, and the template with a
  heap-allocated array, deep copy and assignment of \<^verbatim>\<open>chap14/14_4/14_4_3/stcktp1.h\<close>, with the
  in/out-basket driver \<^verbatim>\<open>stkoptr1.cpp\<close> that runs on it.

  The contract the three share is the locale \<open>bounded_lifo\<close>; the driver is verified once against
  the contract, and the properties follow by interpretation.
\<close>

section \<open>The fixed-size stacks\<close>

text \<open>\<^verbatim>\<open>chap10/stack.h\<close>: \<^verbatim>\<open>Item items[MAX]; int top;\<close>. The constructor leaves the array
  indeterminate, so its contents are an argument of the model.\<close>

definition STACK_MAX :: int where "STACK_MAX = 10"

type_synonym Item = "64 word"

record Stack10 =
  items10 :: "Item list"
  top10 :: int

definition Stack10_ctor :: "Item list \<Rightarrow> Stack10" where
  "Stack10_ctor junk = \<lparr>items10 = junk, top10 = 0\<rparr>"

definition isempty10 :: "Stack10 \<Rightarrow> bool" where
  "isempty10 s \<longleftrightarrow> top10 s = 0"

definition isfull10 :: "Stack10 \<Rightarrow> bool" where
  "isfull10 s \<longleftrightarrow> top10 s = STACK_MAX"

definition push10 :: "Item \<Rightarrow> Stack10 \<Rightarrow> (bool \<times> Stack10) result" where
  "push10 item s =
     (if top10 s < STACK_MAX
      then rbind (arr_set (items10 s) (top10 s) item)
             (\<lambda>a. Inr (True, s\<lparr>items10 := a, top10 := top10 s + 1\<rparr>))
      else Inr (False, s))"

definition pop10 :: "Item \<Rightarrow> Stack10 \<Rightarrow> (bool \<times> Item \<times> Stack10) result" where
  "pop10 item s =
     (if top10 s > 0
      then rbind (arr_get (items10 s) (top10 s - 1))
             (\<lambda>x. Inr (True, x, s\<lparr>top10 := top10 s - 1\<rparr>))
      else Inr (False, item, s))"

text \<open>\<^verbatim>\<open>chap14/14_4/stacktp.h\<close>, the same layout over a type parameter.\<close>

record 'a StackTP =
  items_tp :: "'a list"
  top_tp :: int

definition StackTP_ctor :: "'a list \<Rightarrow> 'a StackTP" where
  "StackTP_ctor junk = \<lparr>items_tp = junk, top_tp = 0\<rparr>"

definition isempty_tp :: "'a StackTP \<Rightarrow> bool" where
  "isempty_tp s \<longleftrightarrow> top_tp s = 0"

definition isfull_tp :: "'a StackTP \<Rightarrow> bool" where
  "isfull_tp s \<longleftrightarrow> top_tp s = STACK_MAX"

definition push_tp :: "'a \<Rightarrow> 'a StackTP \<Rightarrow> (bool \<times> 'a StackTP) result" where
  "push_tp item s =
     (if top_tp s < STACK_MAX
      then rbind (arr_set (items_tp s) (top_tp s) item)
             (\<lambda>a. Inr (True, s\<lparr>items_tp := a, top_tp := top_tp s + 1\<rparr>))
      else Inr (False, s))"

definition pop_tp :: "'a \<Rightarrow> 'a StackTP \<Rightarrow> (bool \<times> 'a \<times> 'a StackTP) result" where
  "pop_tp item s =
     (if top_tp s > 0
      then rbind (arr_get (items_tp s) (top_tp s - 1))
             (\<lambda>x. Inr (True, x, s\<lparr>top_tp := top_tp s - 1\<rparr>))
      else Inr (False, item, s))"

section \<open>The stack on a heap-allocated array\<close>

text \<open>\<^verbatim>\<open>stcktp1.h\<close>: \<^verbatim>\<open>int stacksize; Type * items; int top;\<close>. The array is a heap cell that holds the
  element list; \<^verbatim>\<open>new Type [n]\<close> leaves the elements indeterminate (\<open>junk\<close>) and throws on a negative
  length. A stack object together with the heap is the state of its operations.\<close>

record Stack1 =
  stacksize :: int
  items1 :: ptr
  top1 :: int

definition new_array :: "(nat \<Rightarrow> 'a) \<Rightarrow> int \<Rightarrow> 'a list heap \<Rightarrow> (ptr \<times> 'a list heap) result" where
  "new_array junk n h =
     (if n < 0 then Inl BadArrayNewLength else Inr (h_new (map junk [0..<nat n]) h))"

definition Stack1_ctor :: "(nat \<Rightarrow> 'a) \<Rightarrow> int \<Rightarrow> 'a list heap \<Rightarrow> (Stack1 \<times> 'a list heap) result" where
  "Stack1_ctor junk ss h =
     rbind (new_array junk ss h)
       (\<lambda>(p, h'). Inr (\<lparr>stacksize = ss, items1 = p, top1 = 0\<rparr>, h'))"

text \<open>The loop \<^verbatim>\<open>for (int i = 0; i < top; i++) items[i] = st.items[i];\<close> of the copy constructor and of the
  assignment, from index \<open>i\<close> on.\<close>

function copy_items :: "int \<Rightarrow> int \<Rightarrow> 'a list \<Rightarrow> 'a list \<Rightarrow> 'a list result" where
  "copy_items i n src dst =
     (if i < n then rbind (arr_get src i)
        (\<lambda>x. rbind (arr_set dst i x) (\<lambda>dst'. copy_items (i + 1) n src dst'))
      else Inr dst)"
  by pat_completeness auto
termination
  by (relation "measure (\<lambda>(i, n, src, dst). nat (n - i))") auto

declare copy_items.simps [simp del]

definition Stack1_copy :: "(nat \<Rightarrow> 'a) \<Rightarrow> Stack1 \<Rightarrow> 'a list heap \<Rightarrow> (Stack1 \<times> 'a list heap) result" where
  "Stack1_copy junk st h =
     rbind (new_array junk (stacksize st) h) (\<lambda>(p, h1).
     rbind (h_read h1 (items1 st)) (\<lambda>src.
     rbind (h_read h1 p) (\<lambda>dst.
     rbind (copy_items 0 (top1 st) src dst) (\<lambda>dst'.
     rbind (h_write h1 p dst') (\<lambda>h2.
     Inr (\<lparr>stacksize = stacksize st, items1 = p, top1 = top1 st\<rparr>, h2))))))"

definition Stack1_dtor :: "Stack1 \<Rightarrow> 'a list heap \<Rightarrow> 'a list heap result" where
  "Stack1_dtor s h = h_delete h (items1 s)"

definition isempty1 :: "Stack1 \<times> 'a list heap \<Rightarrow> bool" where
  "isempty1 sh \<longleftrightarrow> top1 (fst sh) = 0"

definition isfull1 :: "Stack1 \<times> 'a list heap \<Rightarrow> bool" where
  "isfull1 sh \<longleftrightarrow> top1 (fst sh) = stacksize (fst sh)"

definition push1 :: "'a \<Rightarrow> Stack1 \<times> 'a list heap \<Rightarrow> (bool \<times> Stack1 \<times> 'a list heap) result" where
  "push1 item sh = (case sh of (s, h) \<Rightarrow>
     if top1 s < stacksize s
     then rbind (h_read h (items1 s)) (\<lambda>a.
          rbind (arr_set a (top1 s) item) (\<lambda>a'.
          rbind (h_write h (items1 s) a') (\<lambda>h'.
          Inr (True, s\<lparr>top1 := top1 s + 1\<rparr>, h'))))
     else Inr (False, s, h))"

definition pop1 :: "'a \<Rightarrow> Stack1 \<times> 'a list heap \<Rightarrow> (bool \<times> 'a \<times> Stack1 \<times> 'a list heap) result" where
  "pop1 item sh = (case sh of (s, h) \<Rightarrow>
     if top1 s > 0
     then rbind (h_read h (items1 s)) (\<lambda>a.
          rbind (arr_get a (top1 s - 1)) (\<lambda>x.
          Inr (True, x, s\<lparr>top1 := top1 s - 1\<rparr>, h)))
     else Inr (False, item, s, h))"

text \<open>\<^verbatim>\<open>operator=\<close>. \<open>self\<close> is the test \<^verbatim>\<open>this == &st\<close>.\<close>

definition Stack1_assign ::
  "bool \<Rightarrow> (nat \<Rightarrow> 'a) \<Rightarrow> Stack1 \<Rightarrow> Stack1 \<Rightarrow> 'a list heap \<Rightarrow> (Stack1 \<times> 'a list heap) result" where
  "Stack1_assign self junk this st h =
     (if self then Inr (this, h)
      else rbind (h_delete h (items1 this)) (\<lambda>h0.
           rbind (new_array junk (stacksize st) h0) (\<lambda>(p, h1).
           rbind (h_read h1 (items1 st)) (\<lambda>src.
           rbind (h_read h1 p) (\<lambda>dst.
           rbind (copy_items 0 (top1 st) src dst) (\<lambda>dst'.
           rbind (h_write h1 p dst') (\<lambda>h2.
           Inr (\<lparr>stacksize = stacksize st, items1 = p, top1 = top1 st\<rparr>, h2)))))))) "

section \<open>The in/out-basket driver\<close>

text \<open>The loop of \<^verbatim>\<open>stkoptr1.cpp\<close> over the operations of its stack. \<open>rnd k\<close> is the truth value of the
  \<open>k\<close>-th \<^verbatim>\<open>std::rand() % 2\<close>.\<close>

function (sequential) basket_loop ::
  "('a \<Rightarrow> 's \<Rightarrow> (bool \<times> 's) result) \<Rightarrow> ('a \<Rightarrow> 's \<Rightarrow> (bool \<times> 'a \<times> 's) result) \<Rightarrow>
   ('s \<Rightarrow> bool) \<Rightarrow> ('s \<Rightarrow> bool) \<Rightarrow> 'a list \<Rightarrow> (nat \<Rightarrow> bool) \<Rightarrow>
   nat \<Rightarrow> 's \<Rightarrow> nat \<Rightarrow> nat \<Rightarrow> 'a list \<Rightarrow> 'a list result" where
  "basket_loop push pop emp full inb rnd k st processed nextin out =
     (if processed < length inb then
        if emp st then
          rbind (arr_get inb (int nextin)) (\<lambda>x.
          rbind (push x st) (\<lambda>(_, st').
          basket_loop push pop emp full inb rnd k st' processed (Suc nextin) out))
        else if full st then
          rbind (arr_get out (int processed)) (\<lambda>o0.
          rbind (pop o0 st) (\<lambda>(_, x, st').
          rbind (arr_set out (int processed) x) (\<lambda>out'.
          basket_loop push pop emp full inb rnd k st' (Suc processed) nextin out')))
        else if rnd k \<and> nextin < length inb then
          rbind (arr_get inb (int nextin)) (\<lambda>x.
          rbind (push x st) (\<lambda>(_, st').
          basket_loop push pop emp full inb rnd (Suc k) st' processed (Suc nextin) out))
        else
          rbind (arr_get out (int processed)) (\<lambda>o0.
          rbind (pop o0 st) (\<lambda>(_, x, st').
          rbind (arr_set out (int processed) x) (\<lambda>out'.
          basket_loop push pop emp full inb rnd (Suc k) st' (Suc processed) nextin out')))
      else Inr out)"
  by pat_completeness auto
termination
  by (relation "measure (\<lambda>(push, pop, emp, full, inb, rnd, k, st, processed, nextin, out).
        (length inb - processed) + (length inb - nextin))")
     (auto simp: arr_get_def split: if_splits)

declare basket_loop.simps [simp del]

definition in_basket :: "string list" where
  "in_basket = ['' 1: Hank Gilgamesh'', '' 2: Kiki Ishtar'', '' 3: Betty Rocker'',
     '' 4: Ian Flagranti'', '' 5: Wolfgang Kibble'', '' 6: Portia Koop'', '' 7: Joy Almondo'',
     '' 8: Xaverie Paprika'', '' 9: Juan Moore'', '' 10: Misha Mache'']"

text \<open>\<^verbatim>\<open>main\<close> of \<^verbatim>\<open>stkoptr1.cpp\<close> from the stack size on: the lines it prints, or the failure.\<close>

definition stkoptr1_main ::
  "int \<Rightarrow> (nat \<Rightarrow> bool) \<Rightarrow> (nat \<Rightarrow> string) \<Rightarrow> string list result" where
  "stkoptr1_main ssize rnd junk =
     rbind (Stack1_ctor junk ssize heap_empty) (\<lambda>st.
     rbind (basket_loop push1 pop1 isempty1 isfull1 in_basket rnd 0 st 0 0 (map junk [0..<10]))
       (\<lambda>out. Inr (out @ [''Bye''])))"

section \<open>The contract of a bounded stack\<close>

text \<open>Pushing a list of items in order.\<close>

fun push_all :: "('a \<Rightarrow> 's \<Rightarrow> (bool \<times> 's) result) \<Rightarrow> 'a list \<Rightarrow> 's \<Rightarrow> 's result" where
  "push_all push [] s = Inr s"
| "push_all push (x # xs) s = rbind (push x s) (\<lambda>(_, s'). push_all push xs s')"

text \<open>Popping \<open>n\<close> items into one variable, collecting what was popped.\<close>

fun pop_n :: "('a \<Rightarrow> 's \<Rightarrow> (bool \<times> 'a \<times> 's) result) \<Rightarrow> nat \<Rightarrow> 'a \<Rightarrow> 's \<Rightarrow> ('a list \<times> 's) result" where
  "pop_n pop 0 v s = Inr ([], s)"
| "pop_n pop (Suc n) v s = rbind (pop v s) (\<lambda>(_, x, s').
     rbind (pop_n pop n x s') (\<lambda>(xs, s''). Inr (x # xs, s'')))"

locale bounded_lifo =
  fixes push :: "'a \<Rightarrow> 's \<Rightarrow> (bool \<times> 's) result"
    and pop :: "'a \<Rightarrow> 's \<Rightarrow> (bool \<times> 'a \<times> 's) result"
    and emp :: "'s \<Rightarrow> bool"
    and full :: "'s \<Rightarrow> bool"
    and contents :: "'s \<Rightarrow> 'a list"
    and cap :: "'s \<Rightarrow> nat"
    and invar :: "'s \<Rightarrow> bool"
  assumes push_room: "invar s \<Longrightarrow> length (contents s) < cap s \<Longrightarrow>
      \<exists>s'. push x s = Inr (True, s') \<and> invar s' \<and> contents s' = x # contents s \<and> cap s' = cap s"
    and push_full: "invar s \<Longrightarrow> length (contents s) = cap s \<Longrightarrow> push x s = Inr (False, s)"
    and pop_cons: "invar s \<Longrightarrow> contents s = y # ys \<Longrightarrow>
      \<exists>s'. pop x s = Inr (True, y, s') \<and> invar s' \<and> contents s' = ys \<and> cap s' = cap s"
    and pop_nil: "invar s \<Longrightarrow> contents s = [] \<Longrightarrow> pop x s = Inr (False, x, s)"
    and emp_iff: "invar s \<Longrightarrow> emp s \<longleftrightarrow> contents s = []"
    and full_iff: "invar s \<Longrightarrow> full s \<longleftrightarrow> length (contents s) = cap s"
    and bounded: "invar s \<Longrightarrow> length (contents s) \<le> cap s"
begin

lemma push_all_contents:
  assumes "invar s" and "length xs + length (contents s) \<le> cap s"
  shows "\<exists>s'. push_all push xs s = Inr s' \<and> invar s' \<and>
           contents s' = rev xs @ contents s \<and> cap s' = cap s"
  using assms
proof (induction xs arbitrary: s)
  case Nil
  then show ?case by simp
next
  case (Cons x xs)
  then obtain s1 where s1: "push x s = Inr (True, s1)" "invar s1"
      "contents s1 = x # contents s" "cap s1 = cap s"
    using push_room[of s x] by auto
  with Cons.prems have "length xs + length (contents s1) \<le> cap s1" by simp
  from Cons.IH[OF s1(2) this] s1 show ?case by auto
qed

lemma pop_n_contents:
  assumes "invar s" and "n \<le> length (contents s)"
  shows "\<exists>s'. pop_n pop n v s = Inr (take n (contents s), s') \<and> invar s' \<and>
           contents s' = drop n (contents s) \<and> cap s' = cap s"
  using assms
proof (induction n arbitrary: s v)
  case 0
  then show ?case by simp
next
  case (Suc n)
  then obtain y ys where ys: "contents s = y # ys" by (cases "contents s") auto
  then obtain s1 where s1: "pop v s = Inr (True, y, s1)" "invar s1" "contents s1 = ys"
      "cap s1 = cap s"
    using pop_cons[OF Suc.prems(1)] by blast
  from Suc.prems ys s1 have "n \<le> length (contents s1)" by simp
  from Suc.IH[OF s1(2) this, of y] s1 ys show ?case by auto
qed

lemma push_all_pop_n:
  assumes "invar s" and "contents s = []" and "length xs \<le> cap s"
  shows "\<exists>s1 s2. push_all push xs s = Inr s1 \<and> pop_n pop (length xs) v s1 = Inr (rev xs, s2) \<and>
           emp s2"
proof -
  from push_all_contents[OF assms(1), of xs] assms
  obtain s1 where s1: "push_all push xs s = Inr s1" "invar s1" "contents s1 = rev xs" by auto
  from pop_n_contents[OF s1(2), of "length xs" v] s1
  obtain s2 where s2: "pop_n pop (length xs) v s1 = Inr (rev xs, s2)" "invar s2" "contents s2 = []"
    by auto
  with s1 emp_iff show ?thesis by blast
qed

text \<open>What the driver keeps: everything taken from the in basket is in the out basket or on the
  stack.\<close>

definition basket_inv :: "'a list \<Rightarrow> 's \<Rightarrow> nat \<Rightarrow> nat \<Rightarrow> 'a list \<Rightarrow> bool" where
  "basket_inv inb st processed nextin out \<longleftrightarrow> invar st \<and> 0 < cap st \<and>
     processed \<le> length inb \<and> nextin \<le> length inb \<and> length out = length inb \<and>
     mset (take processed out) + mset (contents st) = mset (take nextin inb)"

lemma basket_inv_push:
  assumes "basket_inv inb st processed nextin out" and "nextin < length inb"
    and "length (contents st) < cap st"
  shows "\<exists>st'. push (inb ! nextin) st = Inr (True, st') \<and>
           basket_inv inb st' processed (Suc nextin) out"
  using assms push_room[of st "inb ! nextin"]
  by (auto simp: basket_inv_def take_Suc_conv_app_nth)

lemma basket_inv_pop:
  assumes "basket_inv inb st processed nextin out" and "processed < length inb"
    and "contents st \<noteq> []"
  shows "\<exists>x st'. pop o0 st = Inr (True, x, st') \<and>
           basket_inv inb st' (Suc processed) nextin (out[processed := x])"
proof -
  obtain y ys where ys: "contents st = y # ys" using assms(3) by (cases "contents st") auto
  then show ?thesis
    using assms pop_cons[of st y ys o0] by (auto simp: basket_inv_def take_Suc_update)
qed

lemma basket_count:
  assumes "basket_inv inb st processed nextin out"
  shows "processed + length (contents st) = nextin"
proof -
  from assms have "size (mset (take processed out)) + size (mset (contents st)) =
      size (mset (take nextin inb))"
    by (metis basket_inv_def size_union)
  with assms show ?thesis by (simp add: basket_inv_def)
qed

lemma basket_loop_permutes:
  assumes "basket_inv inb st processed nextin out"
  shows "\<exists>out'. basket_loop push pop emp full inb rnd k st processed nextin out = Inr out' \<and>
           mset out' = mset inb"
  using assms
proof (induction "(length inb - processed) + (length inb - nextin)"
    arbitrary: k st processed nextin out rule: less_induct)
  case less
  note inv = less.prems
  note unf = basket_loop.simps[of push pop emp full inb rnd k st processed nextin out]
  have len: "length out = length inb" using inv by (simp add: basket_inv_def)
  have push_case: "\<exists>out'. rbind (arr_get inb (int nextin)) (\<lambda>x. rbind (push x st) (\<lambda>(_, st').
      basket_loop push pop emp full inb rnd k' st' processed (Suc nextin) out)) = Inr out' \<and>
      mset out' = mset inb"
    if "nextin < length inb" "length (contents st) < cap st" for k'
    using basket_inv_push[OF inv that] less.hyps[of processed "Suc nextin"] that
    by (auto simp: arr_get_in)
  have pop_case: "\<exists>out'. rbind (arr_get out (int processed)) (\<lambda>o0. rbind (pop o0 st) (\<lambda>(_, x, st').
      rbind (arr_set out (int processed) x) (\<lambda>out'.
      basket_loop push pop emp full inb rnd k' st' (Suc processed) nextin out'))) = Inr out' \<and>
      mset out' = mset inb"
    if "processed < length inb" "contents st \<noteq> []" for k'
    using basket_inv_pop[OF inv that, of "out ! processed"] less.hyps[of "Suc processed" nextin] that len
    by (auto simp: arr_get_in arr_set_in)
  have "invar st" "0 < cap st" using inv by (auto simp: basket_inv_def)
  then have room: "length (contents st) < cap st" if "\<not> full st"
    using full_iff bounded that le_neq_implies_less by blast
  show ?case
  proof (cases "processed < length inb")
    case False
    with inv basket_count[OF inv] have "contents st = []" "nextin = length inb"
        "processed = length inb"
      by (auto simp: basket_inv_def)
    moreover from False have "basket_loop push pop emp full inb rnd k st processed nextin out = Inr out"
      by (simp add: unf)
    ultimately show ?thesis using inv len by (simp add: basket_inv_def)
  next
    case True
    show ?thesis
    proof (cases "emp st")
      case e: True
      with \<open>invar st\<close> have "contents st = []" by (simp add: emp_iff)
      moreover from this basket_count[OF inv] True have "nextin < length inb" by simp
      ultimately show ?thesis using \<open>0 < cap st\<close> push_case[of k] True e by (simp add: unf)
    next
      case ne: False
      then have "contents st \<noteq> []" using \<open>invar st\<close> by (simp add: emp_iff)
      then show ?thesis
        using ne True push_case[of "Suc k"] pop_case[of k] pop_case[of "Suc k"] room
        by (simp add: unf)
    qed
  qed
qed

end

section \<open>The stacks meet the contract\<close>

definition inv10 :: "Stack10 \<Rightarrow> bool" where
  "inv10 s \<longleftrightarrow> length (items10 s) = 10 \<and> 0 \<le> top10 s \<and> top10 s \<le> STACK_MAX"

definition contents10 :: "Stack10 \<Rightarrow> Item list" where
  "contents10 s = rev (take (nat (top10 s)) (items10 s))"

definition inv_tp :: "'a StackTP \<Rightarrow> bool" where
  "inv_tp s \<longleftrightarrow> length (items_tp s) = 10 \<and> 0 \<le> top_tp s \<and> top_tp s \<le> STACK_MAX"

definition contents_tp :: "'a StackTP \<Rightarrow> 'a list" where
  "contents_tp s = rev (take (nat (top_tp s)) (items_tp s))"

lemma take_snocD:
  assumes "take (nat i) xs = ys @ [y]" and "0 < i" and "nat i \<le> length xs"
  shows "xs ! nat (i - 1) = y \<and> take (nat (i - 1)) xs = ys"
proof -
  have n: "nat i = Suc (nat (i - 1))" using assms(2) by simp
  have "take (Suc (nat (i - 1))) xs = take (nat (i - 1)) xs @ [xs ! nat (i - 1)]"
    using assms(3) n by (intro take_Suc_conv_app_nth) simp
  with assms(1) n show ?thesis by simp
qed

lemma take_upd_int:
  "0 \<le> i \<Longrightarrow> nat i < length xs \<Longrightarrow> take (nat (i + 1)) (xs[nat i := v]) = take (nat i) xs @ [v]"
  by (simp add: nat_add_distrib take_Suc_update)

lemmas stack_unfold [stack_laws] =
  push10_def pop10_def isempty10_def isfull10_def inv10_def contents10_def
  push_tp_def pop_tp_def isempty_tp_def isfull_tp_def inv_tp_def contents_tp_def
  STACK_MAX_def arr_set_def arr_get_def

interpretation s10: bounded_lifo push10 pop10 isempty10 isfull10 contents10 "\<lambda>_. 10" inv10
proof (unfold_locales, goal_cases)
  case (1 s x)
  then show ?case by (auto simp: stack_laws take_upd_int)
next
  case (3 s y ys x)
  then have "0 < top10 s" by (cases "top10 s = 0") (auto simp: stack_laws)
  with 3 show ?case by (auto simp: stack_laws dest!: take_snocD)
qed (auto simp: stack_laws)

interpretation tp: bounded_lifo push_tp pop_tp isempty_tp isfull_tp contents_tp "\<lambda>_. 10" inv_tp
proof (unfold_locales, goal_cases)
  case (1 s x)
  then show ?case by (auto simp: stack_laws take_upd_int)
next
  case (3 s y ys x)
  then have "0 < top_tp s" by (cases "top_tp s = 0") (auto simp: stack_laws)
  with 3 show ?case by (auto simp: stack_laws dest!: take_snocD)
qed (auto simp: stack_laws)

text \<open>A \<^verbatim>\<open>stcktp1.h\<close> stack owns a live array of \<^verbatim>\<open>stacksize\<close> elements.\<close>

definition inv1 :: "Stack1 \<times> 'a list heap \<Rightarrow> bool" where
  "inv1 sh \<longleftrightarrow> (case sh of (s, h) \<Rightarrow> heap_ok h \<and> 0 \<le> top1 s \<and> top1 s \<le> stacksize s \<and>
     (\<exists>a xs. items1 s = Some a \<and> mem h a = Live xs \<and> int (length xs) = stacksize s))"

definition contents1 :: "Stack1 \<times> 'a list heap \<Rightarrow> 'a list" where
  "contents1 sh = (case sh of (s, h) \<Rightarrow>
     (case h_read h (items1 s) of Inl _ \<Rightarrow> [] | Inr xs \<Rightarrow> rev (take (nat (top1 s)) xs)))"

definition cap1 :: "Stack1 \<times> 'a list heap \<Rightarrow> nat" where
  "cap1 sh = nat (stacksize (fst sh))"

lemma inv1E:
  assumes "inv1 (s, h)"
  obtains a xs where "items1 s = Some a" "mem h a = Live xs" "int (length xs) = stacksize s"
    "0 \<le> top1 s" "top1 s \<le> stacksize s" "heap_ok h"
    "contents1 (s, h) = rev (take (nat (top1 s)) xs)"
  using assms by (auto simp: inv1_def contents1_def h_read_def)

lemma inv1_live: "inv1 (s, h) \<Longrightarrow> the (items1 s) \<in> live h"
  by (auto simp: inv1_def live_def)

interpretation st1: bounded_lifo push1 pop1 isempty1 isfull1 contents1 cap1 inv1
proof (unfold_locales, goal_cases)
  case (1 sh x)
  obtain s h where sh: "sh = (s, h)" by fastforce
  with 1 obtain a xs where a: "items1 s = Some a" "mem h a = Live xs"
    "int (length xs) = stacksize s" "0 \<le> top1 s" "top1 s \<le> stacksize s" "heap_ok h"
    "contents1 sh = rev (take (nat (top1 s)) xs)" by (blast elim: inv1E)
  with 1 sh have lt: "top1 s < stacksize s" by (auto simp: cap1_def)
  have "a < brk h" using a live_below_brk by (fastforce simp: live_def)
  with a sh lt show ?case
    by (auto simp: push1_def heap_simps arr_set_def inv1_def contents1_def cap1_def heap_ok_upd
        h_read_def take_upd_int)
next
  case (2 sh x)
  then show ?case by (cases sh) (auto elim!: inv1E simp: push1_def cap1_def)
next
  case (3 sh y ys x)
  obtain s h where sh: "sh = (s, h)" by fastforce
  with 3 obtain a xs where a: "items1 s = Some a" "mem h a = Live xs"
    "int (length xs) = stacksize s" "0 \<le> top1 s" "top1 s \<le> stacksize s" "heap_ok h"
    "contents1 sh = rev (take (nat (top1 s)) xs)" by (blast elim: inv1E)
  with 3 have pos: "0 < top1 s" by (cases "top1 s = 0") auto
  with a sh 3 show ?case
    by (auto simp: pop1_def heap_simps arr_get_def inv1_def contents1_def cap1_def h_read_def
        dest!: take_snocD)
next
  case (4 sh x)
  then show ?case by (cases sh) (auto elim!: inv1E simp: pop1_def)
next
  case (5 sh)
  then show ?case by (cases sh) (auto elim!: inv1E simp: isempty1_def)
next
  case (6 sh)
  then show ?case by (cases sh) (auto elim!: inv1E simp: isfull1_def cap1_def)
next
  case (7 sh)
  then show ?case by (cases sh) (auto elim!: inv1E simp: cap1_def)
qed

section \<open>Copying a heap stack\<close>

lemma copy_items_ok:
  assumes "0 \<le> i" and "n \<le> int (length src)" and "n \<le> int (length dst)"
  shows "\<exists>dst'. copy_items i n src dst = Inr dst' \<and> length dst' = length dst \<and>
           (\<forall>j < nat n. dst' ! j = (if int j < i then dst ! j else src ! j))"
  using assms
proof (induction i n src dst rule: copy_items.induct)
  case (1 i n src dst)
  show ?case
  proof (cases "i < n")
    case False
    then show ?thesis by (auto simp: copy_items.simps[of i n src dst])
  next
    case True
    with 1 have get: "arr_get src i = Inr (src ! nat i)"
      and set: "arr_set dst i (src ! nat i) = Inr (dst[nat i := src ! nat i])"
      by (simp_all add: arr_get_def arr_set_def)
    from 1 True "1.IH"[OF True get set] obtain dst' where dst':
      "copy_items (i + 1) n src (dst[nat i := src ! nat i]) = Inr dst'" "length dst' = length dst"
      "\<forall>j < nat n. dst' ! j = (if int j < i + 1 then dst[nat i := src ! nat i] ! j else src ! j)"
      by auto
    moreover have "dst' ! j = (if int j < i then dst ! j else src ! j)" if "j < nat n" for j
      using dst'(3) that 1 True by (cases "int j = i") auto
    ultimately show ?thesis
      using True get set by (auto simp: copy_items.simps[of i n src dst])
  qed
qed

lemma copy_items_take:
  assumes "0 \<le> n" and "n \<le> int (length src)" and "n \<le> int (length dst)"
  shows "\<exists>dst'. copy_items 0 n src dst = Inr dst' \<and> length dst' = length dst \<and>
           take (nat n) dst' = take (nat n) src"
proof -
  from copy_items_ok[of 0 n src dst] assms obtain dst' where
    "copy_items 0 n src dst = Inr dst'" "length dst' = length dst"
    "\<forall>j < nat n. dst' ! j = src ! j" by auto
  then show ?thesis using assms by (intro exI[of _ dst']) (auto intro!: nth_equalityI)
qed

lemma Stack1_copy_ok:
  assumes "inv1 (st, h)"
  shows "\<exists>a c h'. Stack1_copy junk st h = Inr (c, h') \<and> items1 st = Some a \<and> items1 c = Some (brk h) \<and>
     a \<noteq> brk h \<and> inv1 (c, h') \<and> inv1 (st, h') \<and>
     contents1 (c, h') = contents1 (st, h) \<and> contents1 (st, h') = contents1 (st, h) \<and>
     live h' = insert (brk h) (live h)"
proof -
  from assms obtain a xs where a: "items1 st = Some a" "mem h a = Live xs"
    "int (length xs) = stacksize st" "0 \<le> top1 st" "top1 st \<le> stacksize st" "heap_ok h"
    by (blast elim: inv1E)
  then have ab: "a < brk h" "a \<noteq> brk h" using live_below_brk by (fastforce simp: live_def)+
  let ?dst = "map junk [0..<nat (stacksize st)]"
  from copy_items_take[of "top1 st" xs ?dst] a obtain d where d:
    "copy_items 0 (top1 st) xs ?dst = Inr d" "length d = length xs"
    "take (nat (top1 st)) d = take (nat (top1 st)) xs" by auto
  show ?thesis
    using a ab d
    by (auto simp: Stack1_copy_def new_array_def h_new_def h_read_def h_write_def inv1_def
        contents1_def heap_ok_def live_def)
qed

section \<open>Properties\<close>

text \<open>A \<^verbatim>\<open>chap10\<close> stack is last-in first-out up to its capacity and never leaves its array: pushing any
  at most ten items on a fresh stack and popping as many returns them in reverse and leaves it empty.\<close>

theorem stack10_lifo:
  assumes "length junk = 10" and "length xs \<le> 10"
  shows "\<exists>s1 s2. push_all push10 xs (Stack10_ctor junk) = Inr s1 \<and>
           pop_n pop10 (length xs) v s1 = Inr (rev xs, s2) \<and> isempty10 s2"
  using assms by (intro s10.push_all_pop_n) (auto simp: stack_laws Stack10_ctor_def)

theorem stack10_lifo_witness:
  "\<exists>s1 s2. push_all push10 [3, 1, 2] (Stack10_ctor (replicate 10 0)) = Inr s1 \<and>
     pop_n pop10 (length [3, 1, 2 :: Item]) 0 s1 = Inr (rev [3, 1, 2], s2) \<and> isempty10 s2"
  using stack10_lifo[of "replicate 10 0" "[3, 1, 2]" 0] by simp

text \<open>C30: For every stack size of at least one and whatever \<^verbatim>\<open>rand\<close> returns, the basket program of
  \<^verbatim>\<open>stkoptr1.cpp\<close> ends, stays inside its arrays and prints every entry of the in basket exactly once.\<close>

theorem stkoptr1_permutes:
  assumes "1 \<le> ssize"
  shows "\<exists>out. stkoptr1_main ssize rnd junk = Inr (out @ [''Bye'']) \<and> mset out = mset in_basket"
proof -
  let ?st = "(\<lparr>stacksize = ssize, items1 = Some 0, top1 = 0\<rparr>,
     snd (h_new (map junk [0..<nat ssize]) heap_empty))"
  have ctor: "Stack1_ctor junk ssize heap_empty = Inr ?st"
    using assms by (simp add: Stack1_ctor_def new_array_def h_new_def heap_empty_def)
  have "st1.basket_inv in_basket ?st 0 0 (map junk [0..<10])"
    using assms
    by (simp add: st1.basket_inv_def inv1_def contents1_def cap1_def h_new_def h_read_def heap_empty_def
        heap_ok_def in_basket_def)
  from st1.basket_loop_permutes[OF this, of rnd 0] ctor show ?thesis
    by (auto simp: stkoptr1_main_def)
qed

theorem stkoptr1_permutes_witness:
  "\<exists>out. stkoptr1_main 3 (\<lambda>k. even k) (\<lambda>_. []) = Inr (out @ [''Bye'']) \<and> mset out = mset in_basket"
  using stkoptr1_permutes[of 3 "\<lambda>k. even k" "\<lambda>_. []"] by simp

text \<open>With a stack size of zero the same program never returns a basket: it keeps taking names that no
  push accepts and reads past the end of the in basket.\<close>

theorem stkoptr1_size_zero: "stkoptr1_main 0 rnd junk = Inl OutOfBounds"
proof -
  let ?st = "(\<lparr>stacksize = 0, items1 = Some 0, top1 = 0\<rparr>, snd (h_new [] heap_empty))"
  have ctor: "Stack1_ctor junk 0 heap_empty = Inr ?st"
    by (simp add: Stack1_ctor_def new_array_def h_new_def heap_empty_def)
  have step: "basket_loop push1 pop1 isempty1 isfull1 in_basket rnd 0 ?st 0 n (map junk [0..<10])
      = Inl OutOfBounds" if "n \<le> 10" for n
    using that
  proof (induction "10 - n" arbitrary: n)
    case 0
    then have "n = 10" by simp
    then show ?case
      by (simp add: basket_loop.simps[of _ _ _ _ _ _ _ _ 0] isempty1_def arr_get_def in_basket_def)
  next
    case (Suc m)
    then have "n < length in_basket" by (simp add: in_basket_def)
    with Suc show ?case
      by (simp add: basket_loop.simps[of _ _ _ _ _ _ _ _ 0 n] isempty1_def arr_get_def push1_def in_basket_def)
  qed
  from step[of 0] ctor show ?thesis by (simp add: stkoptr1_main_def)
qed

text \<open>Copying a \<^verbatim>\<open>stcktp1.h\<close> stack is a deep copy: the copy has the same contents in an array of its
  own, the original keeps its contents, and destroying both frees each array exactly once.\<close>

theorem stack1_copy_deep:
  assumes "inv1 (st, h)"
  shows "\<exists>c h' h1 h2. Stack1_copy junk st h = Inr (c, h') \<and> items1 c \<noteq> items1 st \<and>
     contents1 (c, h') = contents1 (st, h) \<and> contents1 (st, h') = contents1 (st, h) \<and>
     Stack1_dtor c h' = Inr h1 \<and> Stack1_dtor st h1 = Inr h2 \<and> live h2 = live h - {the (items1 st)}"
proof -
  from Stack1_copy_ok[OF assms] obtain a c h' where c:
    "Stack1_copy junk st h = Inr (c, h')" "items1 st = Some a" "items1 c = Some (brk h)"
    "a \<noteq> brk h" "inv1 (c, h')" "inv1 (st, h')"
    "contents1 (c, h') = contents1 (st, h)" "contents1 (st, h') = contents1 (st, h)"
    "live h' = insert (brk h) (live h)" by blast
  moreover have "brk h \<notin> live h" using assms by (intro brk_not_live) (simp add: inv1_def)
  moreover have "a \<in> live h'" using inv1_live[OF c(6)] c(2) by simp
  ultimately show ?thesis by (auto simp: Stack1_dtor_def heap_simps h_delete_live)
qed

theorem stack1_copy_deep_witness:
  "\<exists>c h' h1 h2. Stack1_copy (\<lambda>_. 0) \<lparr>stacksize = 2, items1 = Some 0, top1 = 1\<rparr>
       (snd (h_new [7, 0] heap_empty)) = Inr (c, h') \<and> items1 c \<noteq> Some 0 \<and>
     contents1 (c, h') = [7 :: int] \<and>
     Stack1_dtor c h' = Inr h1 \<and>
     Stack1_dtor \<lparr>stacksize = 2, items1 = Some 0, top1 = 1\<rparr> h1 = Inr h2 \<and> live h2 = {}"
proof -
  let ?s = "\<lparr>stacksize = 2, items1 = Some 0, top1 = 1\<rparr>"
  let ?h = "snd (h_new [7, 0 :: int] heap_empty)"
  have "inv1 (?s, ?h)"
    by (simp add: inv1_def h_new_def heap_empty_def heap_ok_def)
  moreover have "contents1 (?s, ?h) = [7]" "live ?h = {0}"
    by (simp_all add: contents1_def h_read_def h_new_def heap_empty_def live_def)
  ultimately show ?thesis using stack1_copy_deep[of ?s ?h "\<lambda>_. 0"] by auto
qed

end
