(* ===== verification/Prio_Queue.thy ===== *)
theory Prio_Queue
  imports Prelude
begin

text \<open>
  \<^verbatim>\<open>std::priority_queue\<close> as the timers of \<^verbatim>\<open>src/other/timer\<close> use it: their \<^verbatim>\<open>operator<\<close> compares expiry
  times the other way round, so \<^verbatim>\<open>top()\<close> is an element with the least expiry. The queue is the list of
  its elements by expiry; \<open>pq_push\<close> is \<^verbatim>\<open>push\<close>, the head is \<^verbatim>\<open>top\<close> and the tail is what \<^verbatim>\<open>pop\<close> leaves.
  The order among equal expiries, which the standard leaves open, is used by no theorem.
\<close>

fun pq_push :: "('t \<Rightarrow> int) \<Rightarrow> 't \<Rightarrow> 't list \<Rightarrow> 't list" where
  "pq_push key x [] = [x]"
| "pq_push key x (y # ys) = (if key x < key y then x # y # ys else y # pq_push key x ys)"

definition pq_ok :: "('t \<Rightarrow> int) \<Rightarrow> 't list \<Rightarrow> bool" where
  "pq_ok key q \<longleftrightarrow> sorted (map key q)"

lemma mset_pq_push [simp]: "mset (pq_push key x q) = add_mset x (mset q)"
  by (induction q) auto

lemma set_pq_push [simp]: "set (pq_push key x q) = insert x (set q)"
  by (induction q) auto

lemma length_pq_push [simp]: "length (pq_push key x q) = Suc (length q)"
  by (induction q) auto

lemma pq_ok_push [simp]: "pq_ok key q \<Longrightarrow> pq_ok key (pq_push key x q)"
  by (induction q) (auto simp: pq_ok_def)

lemma pq_ok_tl: "pq_ok key (x # q) \<Longrightarrow> pq_ok key q"
  by (simp add: pq_ok_def)

lemma pq_top_least: "pq_ok key (x # q) \<Longrightarrow> y \<in> set (x # q) \<Longrightarrow> key x \<le> key y"
  by (auto simp: pq_ok_def)

lemma pq_ok_Nil [simp]: "pq_ok key []"
  by (simp add: pq_ok_def)

lemma distinct_map_pq_push [simp]:
  "distinct (map f (pq_push key x q)) \<longleftrightarrow> distinct (map f q) \<and> f x \<notin> f ` set q"
  by (induction q) auto

end
