(* ===== verification/Timer_Contract.thy ===== *)
theory Timer_Contract
  imports Prio_Queue
begin

text \<open>
  What a timer manager of \<^verbatim>\<open>src/other/timer\<close> promises its clients, as the locale \<open>timer_impl\<close>: adding a
  timer makes it pending under a new id, cancelling removes it, and one iteration of the manager
  thread fires at most one timer, a pending one that is due and not later than any other. The
  consequences that a client relies on are proved once, for every sequence of calls and manager
  iterations.

  Times are in nanoseconds, durations in the milliseconds of \<^verbatim>\<open>std::chrono::milliseconds\<close>.
\<close>

type_synonym time = int

definition ms :: "int \<Rightarrow> time" where
  "ms d = d * 1000000"

text \<open>A schedule: what clients call and when the manager thread runs.\<close>

datatype 'cb timer_op = OpAdd time int 'cb | OpCancel int | OpTick time

fun timer_run ::
  "(time \<Rightarrow> int \<Rightarrow> 'cb \<Rightarrow> 's \<Rightarrow> (int \<times> 's) result) \<Rightarrow> (int \<Rightarrow> 's \<Rightarrow> (bool \<times> 's) result) \<Rightarrow>
   (time \<Rightarrow> 's \<Rightarrow> (int list \<times> 's) result) \<Rightarrow> 'cb timer_op list \<Rightarrow> 's \<Rightarrow> (int list \<times> 's) result" where
  "timer_run add cancel tick [] s = Inr ([], s)"
| "timer_run add cancel tick (OpAdd now d cb # ops) s =
     rbind (add now d cb s) (\<lambda>(_, s'). timer_run add cancel tick ops s')"
| "timer_run add cancel tick (OpCancel i # ops) s =
     rbind (cancel i s) (\<lambda>(_, s'). timer_run add cancel tick ops s')"
| "timer_run add cancel tick (OpTick now # ops) s =
     rbind (tick now s) (\<lambda>(fs, s').
     rbind (timer_run add cancel tick ops s') (\<lambda>(gs, s''). Inr (fs @ gs, s'')))"

fun added :: "'cb timer_op list \<Rightarrow> nat" where
  "added [] = 0"
| "added (OpAdd now d cb # ops) = Suc (added ops)"
| "added (_ # ops) = added ops"

locale timer_impl =
  fixes add :: "time \<Rightarrow> int \<Rightarrow> 'cb \<Rightarrow> 's \<Rightarrow> (int \<times> 's) result"
    and cancel :: "int \<Rightarrow> 's \<Rightarrow> (bool \<times> 's) result"
    and tick :: "time \<Rightarrow> 's \<Rightarrow> (int list \<times> 's) result"
    and pending :: "'s \<Rightarrow> int \<Rightarrow> time option"
    and backlog :: "'s \<Rightarrow> nat"
    and last_id :: "'s \<Rightarrow> int"
    and invar :: "'s \<Rightarrow> bool"
  assumes add_ok: "invar s \<Longrightarrow> last_id s < INT_MAX - 1 \<Longrightarrow>
      \<exists>s'. add now d cb s = Inr (last_id s + 1, s') \<and> invar s' \<and>
        pending s' = (pending s)(last_id s + 1 \<mapsto> now + ms d) \<and> last_id s' = last_id s + 1"
    and ids_bounded: "invar s \<Longrightarrow> pending s i = Some w \<Longrightarrow> i \<le> last_id s"
    and cancel_ok: "invar s \<Longrightarrow>
      \<exists>b s'. cancel i s = Inr (b, s') \<and> (pending s i \<noteq> None \<longrightarrow> b) \<and> invar s' \<and>
        pending s' = (pending s)(i := None) \<and> last_id s' = last_id s"
    and tick_ok: "invar s \<Longrightarrow>
      \<exists>fs s'. tick now s = Inr (fs, s') \<and> invar s' \<and> last_id s' = last_id s \<and>
        (fs = [] \<and> pending s' = pending s \<or>
         (\<exists>i w. fs = [i] \<and> pending s i = Some w \<and> w \<le> now \<and>
            (\<forall>j v. pending s j = Some v \<longrightarrow> w \<le> v) \<and> pending s' = (pending s)(i := None)))"
    and tick_progress: "invar s \<Longrightarrow> pending s j = Some w \<Longrightarrow> w \<le> now \<Longrightarrow>
      tick now s = Inr (fs, s') \<Longrightarrow> backlog s' < backlog s"
begin

abbreviation run :: "'cb timer_op list \<Rightarrow> 's \<Rightarrow> (int list \<times> 's) result" where
  "run \<equiv> timer_run add cancel tick"

lemma tickE:
  assumes "invar s"
  obtains (idle) s' where "tick now s = Inr ([], s')" "invar s'" "last_id s' = last_id s"
      "pending s' = pending s"
  | (fire) i w s' where "tick now s = Inr ([i], s')" "invar s'" "last_id s' = last_id s"
      "pending s i = Some w" "w \<le> now" "\<And>j v. pending s j = Some v \<Longrightarrow> w \<le> v"
      "pending s' = (pending s)(i := None)"
  using tick_ok[OF assms, of now] by blast

text \<open>What a run from \<open>s\<close> to \<open>s'\<close> may fire: each timer once, and only one that was pending at the start
  or was added on the way (its id is new, and was handed out by the end); what stays pending has not fired.\<close>

definition safe_run :: "'s \<Rightarrow> int list \<Rightarrow> 's \<Rightarrow> bool" where
  "safe_run s fs s' \<longleftrightarrow> distinct fs \<and> last_id s \<le> last_id s' \<and>
     (\<forall>i. i \<in> set fs \<longrightarrow> i \<le> last_id s' \<and> (pending s i \<noteq> None \<or> last_id s < i)) \<and>
     (\<forall>i. pending s' i \<noteq> None \<longrightarrow> i \<notin> set fs \<and> (pending s i \<noteq> None \<or> last_id s < i))"

lemma safe_run_refl: "safe_run s [] s"
  by (simp add: safe_run_def)

lemma safe_run_add:
  assumes "safe_run s1 fs s'" and "pending s1 = (pending s)(last_id s + 1 \<mapsto> w)"
    and "last_id s1 = last_id s + 1"
  shows "safe_run s fs s'"
  unfolding safe_run_def
proof (intro conjI allI impI)
  show "distinct fs" "last_id s \<le> last_id s'" using assms by (auto simp: safe_run_def)
next
  fix i assume "i \<in> set fs"
  with assms show "i \<le> last_id s'" "pending s i \<noteq> None \<or> last_id s < i"
    unfolding safe_run_def by (cases "i = last_id s + 1"; force)+
next
  fix i assume p: "pending s' i \<noteq> None"
  with assms show "i \<notin> set fs" unfolding safe_run_def by blast
  from p assms show "pending s i \<noteq> None \<or> last_id s < i"
    unfolding safe_run_def by (cases "i = last_id s + 1") force+
qed

lemma safe_run_same:
  assumes "safe_run s1 fs s'" and "pending s1 \<subseteq>\<^sub>m pending s" and "last_id s1 = last_id s"
  shows "safe_run s fs s'"
proof -
  have "pending s i \<noteq> None" if "pending s1 i \<noteq> None" for i
    using assms(2) that by (auto simp: map_le_def dom_def)
  with assms(1,3) show ?thesis unfolding safe_run_def by auto
qed

lemma safe_run_fire:
  assumes "safe_run s1 fs s'" and "pending s1 = (pending s)(i := None)" and "last_id s1 = last_id s"
    and "pending s i = Some w" and "i \<le> last_id s"
  shows "safe_run s (i # fs) s'"
proof -
  have "i \<notin> set fs" "pending s' i = None"
    using assms unfolding safe_run_def by (metis fun_upd_same linorder_not_less)+
  moreover have "safe_run s fs s'"
    by (rule safe_run_same[OF assms(1) _ assms(3)]) (simp add: assms(2) map_le_def)
  ultimately show ?thesis using assms(4,5) unfolding safe_run_def by auto
qed

lemma run_total:
  assumes "invar s" and "last_id s + int (length ops) < INT_MAX"
  shows "\<exists>fs s'. run ops s = Inr (fs, s') \<and> invar s' \<and> safe_run s fs s'"
  using assms
proof (induction ops arbitrary: s)
  case Nil
  then show ?case by (simp add: safe_run_refl)
next
  case (Cons op ops)
  have next_run: "\<exists>fs s'. run ops s1 = Inr (fs, s') \<and> invar s' \<and> safe_run s1 fs s'"
    if "invar s1" "last_id s1 \<le> last_id s + 1" for s1
    using Cons.IH[OF that(1)] that(2) Cons.prems by simp
  show ?case
  proof (cases op)
    case (OpAdd now d cb)
    have "last_id s < INT_MAX - 1" using Cons.prems by simp
    with add_ok[OF Cons.prems(1)] obtain s1 where s1: "add now d cb s = Inr (last_id s + 1, s1)"
      "invar s1" "pending s1 = (pending s)(last_id s + 1 \<mapsto> now + ms d)"
      "last_id s1 = last_id s + 1" by blast
    then obtain fs s' where "run ops s1 = Inr (fs, s')" "invar s'" "safe_run s1 fs s'"
      using next_run[of s1] by auto
    with s1 OpAdd safe_run_add[OF _ s1(3,4)] show ?thesis by auto
  next
    case (OpCancel i)
    from cancel_ok[OF Cons.prems(1), of i] obtain b s1 where s1: "cancel i s = Inr (b, s1)"
      "invar s1" "pending s1 = (pending s)(i := None)" "last_id s1 = last_id s" by blast
    then obtain fs s' where "run ops s1 = Inr (fs, s')" "invar s'" "safe_run s1 fs s'"
      using next_run[of s1] by auto
    with s1 OpCancel safe_run_same[of s1 fs s' s] show ?thesis by (auto simp: map_le_def)
  next
    case (OpTick now)
    show ?thesis
    proof (cases rule: tickE[OF Cons.prems(1), of now])
      case (1 s1)
      then obtain fs s' where "run ops s1 = Inr (fs, s')" "invar s'" "safe_run s1 fs s'"
        using next_run[of s1] by auto
      with 1 OpTick safe_run_same[of s1 fs s' s] show ?thesis by auto
    next
      case (2 i w s1)
      then obtain fs s' where "run ops s1 = Inr (fs, s')" "invar s'" "safe_run s1 fs s'"
        using next_run[of s1] by auto
      with 2 OpTick ids_bounded[OF Cons.prems(1) 2(4)] safe_run_fire[of s1 fs s' s i w]
      show ?thesis by auto
    qed
  qed
qed

text \<open>The ids that a run hands out are the next ones, one for each add.\<close>

lemma run_ids:
  assumes "invar s" and "last_id s + int (length ops) < INT_MAX" and "run ops s = Inr (fs, s')"
  shows "last_id s' = last_id s + int (added ops)"
  using assms
proof (induction ops arbitrary: s fs)
  case (Cons op ops)
  show ?case
  proof (cases op)
    case (OpAdd now d cb)
    have "last_id s < INT_MAX - 1" using Cons.prems by simp
    with add_ok[OF Cons.prems(1), of now d cb] OpAdd Cons show ?thesis by fastforce
  next
    case (OpCancel i)
    then show ?thesis using cancel_ok[OF Cons.prems(1), of i] Cons by fastforce
  next
    case (OpTick now)
    show ?thesis
    proof (cases rule: tickE[OF Cons.prems(1), of now])
      case (1 s1)
      then show ?thesis using OpTick Cons.prems Cons.IH[of s1] by (auto simp: rbind_eq_Inr_iff)
    next
      case (2 i w s1)
      then show ?thesis using OpTick Cons.prems Cons.IH[of s1] by (auto simp: rbind_eq_Inr_iff)
    qed
  qed
qed simp

lemma cancelled_never_fires:
  assumes "invar s" and "i \<le> last_id s" and "cancel i s = Inr (b, s1)"
    and "last_id s + int (length ops) < INT_MAX"
  shows "\<exists>fs s2. run ops s1 = Inr (fs, s2) \<and> i \<notin> set fs"
proof -
  from cancel_ok[OF assms(1), of i] assms(3)
  have s1: "invar s1" "pending s1 = (pending s)(i := None)" "last_id s1 = last_id s" by auto
  with run_total[of s1 ops] assms obtain fs s2 where
    "run ops s1 = Inr (fs, s2)" "safe_run s1 fs s2" by auto
  with s1 assms(2) show ?thesis unfolding safe_run_def by fastforce
qed

lemma tick_not_early:
  assumes "invar s" and "tick now s = Inr (fs, s')" and "i \<in> set fs"
  shows "\<exists>w. pending s i = Some w \<and> w \<le> now \<and> (\<forall>j v. pending s j = Some v \<longrightarrow> w \<le> v)"
  using tick_ok[OF assms(1), of now] assms(2,3) by auto

text \<open>Once everything pending is due, as many manager iterations as the queue is long fire all of it.\<close>

lemma drain:
  assumes "invar s" and "\<And>i w. pending s i = Some w \<Longrightarrow> w \<le> now" and "backlog s \<le> n"
  shows "\<exists>fs s'. run (replicate n (OpTick now)) s = Inr (fs, s') \<and> set fs = dom (pending s) \<and>
           pending s' = Map.empty \<and> sorted (map (\<lambda>i. the (pending s i)) fs)"
  using assms
proof (induction n arbitrary: s)
  case 0
  have "pending s = Map.empty"
  proof (rule ccontr)
    assume "pending s \<noteq> Map.empty"
    then obtain j w where "pending s j = Some w" by fastforce
    with 0 tick_ok[of s now] tick_progress[of s j w now] show False by fastforce
  qed
  then show ?case by simp
next
  case (Suc n)
  note inv = Suc.prems(1)
  show ?case
  proof (cases rule: tickE[OF inv, of now])
    case (1 s1)
    have "backlog s1 \<le> n \<or> pending s = Map.empty"
      using 1 Suc.prems tick_progress[OF inv _ _ 1(1)] by fastforce
    then show ?thesis
    proof
      assume "backlog s1 \<le> n"
      with Suc.IH[of s1] 1 Suc.prems show ?thesis by auto
    next
      assume e: "pending s = Map.empty"
      have "\<exists>s'. run (replicate m (OpTick now)) t = Inr ([], s') \<and> pending s' = Map.empty"
        if "invar t" "pending t = Map.empty" for m t
        using that
      proof (induction m arbitrary: t)
        case (Suc m)
        then show ?case by (cases rule: tickE[OF Suc.prems(1), of now]) auto
      qed simp
      from this[OF inv e, of "Suc n"] e show ?thesis by auto
    qed
  next
    case (2 i w s1)
    then have "backlog s1 \<le> n" using tick_progress[OF inv _ _ 2(1)] Suc.prems by fastforce
    moreover have "\<And>j v. pending s1 j = Some v \<Longrightarrow> v \<le> now"
      using 2 Suc.prems by (auto split: if_splits)
    ultimately obtain fs s' where r: "run (replicate n (OpTick now)) s1 = Inr (fs, s')"
      "set fs = dom (pending s1)" "pending s' = Map.empty"
      "sorted (map (\<lambda>i. the (pending s1 i)) fs)"
      using Suc.IH[of s1] 2 by blast
    have eq: "map (\<lambda>i. the (pending s i)) fs = map (\<lambda>i. the (pending s1 i)) fs"
      using r(2) 2 by (auto split: if_splits)
    have "w \<le> the (pending s j)" if "j \<in> set fs" for j
      using that r(2) 2 by (auto split: if_splits)
    with r(4) 2(4) have "sorted (map (\<lambda>i. the (pending s i)) (i # fs))"
      by (simp flip: eq)
    with r(1-3) 2 show ?thesis by auto
  qed
qed

end

end
