(* ===== verification/Original_Timer.thy ===== *)
theory Original_Timer
  imports Timer_Contract "HOL-Library.AList"
begin

text \<open>
  \<^verbatim>\<open>class DualModeTimer\<close> of \<^verbatim>\<open>src/other/timer/dualTimer/originalTimer.cc\<close> (the class of
  \<^verbatim>\<open>src/other/timer/twomodestimer.cpp\<close> is the same text up to one message): the first version of the
  timer of \<open>Dual_Timer\<close>, with ids that start at 0, a plain \<^verbatim>\<open>int\<close> counter, detached callback threads and a
  \<^verbatim>\<open>stop()\<close> that cancels nothing. It keeps the same contract \<open>timer_impl\<close>.
\<close>

section \<open>State\<close>

datatype TimerMode = BLOCKING | NON_BLOCKING

record 'cb TimerTask =
  id :: int
  mode :: TimerMode
  duration :: int
  callback :: 'cb
  start_time :: time
  completed :: bool

definition wake_time :: "'cb TimerTask \<Rightarrow> time" where
  "wake_time t = start_time t + ms (duration t)"

datatype timer_log =
    LBlockBegin int
  | LBlockEnd int
  | LAdded int int
  | LCancelled int
  | LTriggered int

record 'cb OriginalTimer =
  running :: bool
  manager_joinable :: bool
  tasks :: "'cb TimerTask list"
  active_tasks :: "(int \<times> 'cb TimerTask) list"
  next_id :: int
  detached :: "'cb list"
  console :: "timer_log list"

definition OriginalTimer_ctor :: "'cb OriginalTimer" where
  "OriginalTimer_ctor = \<lparr>running = False, manager_joinable = False, tasks = [], active_tasks = [],
     next_id = 0, detached = [], console = []\<rparr>"

section \<open>Methods\<close>

text \<open>Assigning a \<^verbatim>\<open>std::thread\<close> over a joinable one calls \<^verbatim>\<open>std::terminate\<close>.\<close>

definition start :: "'cb OriginalTimer \<Rightarrow> 'cb OriginalTimer result" where
  "start s = (if manager_joinable s then Inl StdTerminate
              else Inr (s\<lparr>running := True, manager_joinable := True\<rparr>))"

definition stop :: "'cb OriginalTimer \<Rightarrow> 'cb OriginalTimer" where
  "stop s = s\<lparr>running := False, manager_joinable := False\<rparr>"

definition addNonBlockingTimer ::
  "time \<Rightarrow> int \<Rightarrow> 'cb \<Rightarrow> 'cb OriginalTimer \<Rightarrow> (int \<times> 'cb OriginalTimer) result" where
  "addNonBlockingTimer now d cb s =
     (let task = \<lparr>id = next_id s, mode = NON_BLOCKING, duration = d, callback = cb, start_time = now,
                  completed = False\<rparr>;
          s1 = s\<lparr>tasks := pq_push wake_time task (tasks s),
                 active_tasks := AList.update (next_id s) task (active_tasks s),
                 console := console s @ [LAdded (next_id s) d]\<rparr>
      in rbind (chk_int (next_id s1 + 1)) (\<lambda>n. Inr (next_id s1, s1\<lparr>next_id := n\<rparr>)))"

definition cancelTimer :: "int \<Rightarrow> 'cb OriginalTimer \<Rightarrow> bool \<times> 'cb OriginalTimer" where
  "cancelTimer i s = (case map_of (active_tasks s) i of
     None \<Rightarrow> (False, s)
   | Some _ \<Rightarrow> (True, s\<lparr>active_tasks := AList.delete i (active_tasks s),
                      console := console s @ [LCancelled i]\<rparr>))"

text \<open>\<^verbatim>\<open>addBlockingTimer\<close>: register the task whose callback sets \<^verbatim>\<open>finished\<close>, then wait until it is set; \<open>None\<close>
  is a caller that is still blocked.\<close>

definition addBlockingTimer_begin ::
  "time \<Rightarrow> int \<Rightarrow> 'cb \<Rightarrow> 'cb OriginalTimer \<Rightarrow> (int \<times> 'cb OriginalTimer) result" where
  "addBlockingTimer_begin now d cb s = addNonBlockingTimer now d cb (s\<lparr>console := console s @ [LBlockBegin d]\<rparr>)"

definition addBlockingTimer_end :: "bool \<Rightarrow> int \<Rightarrow> 'cb OriginalTimer \<Rightarrow> 'cb OriginalTimer option" where
  "addBlockingTimer_end finished i s =
     (if finished then Some (s\<lparr>console := console s @ [LBlockEnd i]\<rparr>) else None)"

text \<open>One iteration of the manager loop; the ids of the callbacks it starts.\<close>

definition managerThread_step :: "time \<Rightarrow> 'cb OriginalTimer \<Rightarrow> int list \<times> 'cb OriginalTimer" where
  "managerThread_step now s =
     (if \<not> running s then ([], s)
      else case tasks s of
        [] \<Rightarrow> ([], s)
      | t # ts \<Rightarrow>
          if now \<ge> wake_time t then
            let s1 = s\<lparr>tasks := ts\<rparr> in
            (case map_of (active_tasks s1) (id t) of
               None \<Rightarrow> ([], s1)
             | Some a \<Rightarrow>
                 if completed a then ([], s1)
                 else let s2 = s1\<lparr>active_tasks := AList.delete (id t) (active_tasks s1)\<rparr> in
                   if mode t = NON_BLOCKING
                   then ([id t], s2\<lparr>console := console s2 @ [LTriggered (id t)],
                                    detached := detached s2 @ [callback t]\<rparr>)
                   else ([], s2))
          else ([], s))"

section \<open>The timer contract\<close>

definition orig_inv :: "'cb OriginalTimer \<Rightarrow> bool" where
  "orig_inv s \<longleftrightarrow> running s \<and> 0 \<le> next_id s \<and> pq_ok wake_time (tasks s) \<and>
     distinct (map id (tasks s)) \<and> (\<forall>t \<in> set (tasks s). id t < next_id s \<and> mode t = NON_BLOCKING) \<and>
     (\<forall>i t. map_of (active_tasks s) i = Some t \<longrightarrow> t \<in> set (tasks s) \<and> id t = i \<and> \<not> completed t)"

definition orig_pending :: "'cb OriginalTimer \<Rightarrow> int \<Rightarrow> time option" where
  "orig_pending s i = map_option wake_time (map_of (active_tasks s) i)"

lemma orig_activeD:
  assumes "orig_inv s" and "map_of (active_tasks s) i = Some t"
  shows "t \<in> set (tasks s)" "id t = i" "\<not> completed t"
  using assms by (auto simp: orig_inv_def)

lemma orig_add_correct:
  assumes inv: "orig_inv s" and room: "next_id s < INT_MAX"
  shows "\<exists>s'. addNonBlockingTimer now d cb s = Inr (next_id s, s') \<and> orig_inv s' \<and>
     orig_pending s' = (orig_pending s)(next_id s \<mapsto> now + ms d) \<and> next_id s' = next_id s + 1"
proof -
  have c: "chk_int (next_id s + 1) = Inr (next_id s + 1)"
    using inv room by (simp add: chk_int_def orig_inv_def in_int_numerals INT_MAX_def)
  have "next_id s \<notin> id ` set (tasks s)" using inv by (fastforce simp: orig_inv_def)
  with inv c show ?thesis
    by (auto simp: addNonBlockingTimer_def Let_def orig_inv_def orig_pending_def wake_time_def
        update_conv fun_eq_iff split: if_splits)
qed

lemma orig_cancel_correct:
  assumes "orig_inv s" and "cancelTimer i s = (b, s')"
  shows "b \<longleftrightarrow> orig_pending s i \<noteq> None" "orig_inv s'" "next_id s' = next_id s"
    "orig_pending s' = (orig_pending s)(i := None)"
  using assms by (auto simp: cancelTimer_def orig_pending_def orig_inv_def delete_conv fun_eq_iff
      split: option.splits if_splits)

lemma orig_tickE:
  assumes inv: "orig_inv s"
  obtains (idle) "managerThread_step now s = ([], s)" "tasks s = [] \<or> now < wake_time (hd (tasks s))"
  | (skip) t ts where "managerThread_step now s = ([], s\<lparr>tasks := ts\<rparr>)" "tasks s = t # ts"
      "map_of (active_tasks s) (id t) = None"
  | (fire) t ts where "tasks s = t # ts" "wake_time t \<le> now"
      "map_of (active_tasks s) (id t) = Some t"
      "managerThread_step now s = ([id t],
         s\<lparr>tasks := ts, active_tasks := AList.delete (id t) (active_tasks s),
           console := console s @ [LTriggered (id t)], detached := detached s @ [callback t]\<rparr>)"
proof (cases "tasks s")
  case Nil
  with idle inv show ?thesis by (auto simp: orig_inv_def managerThread_step_def)
next
  case (Cons t ts)
  have r: "running s" "mode t = NON_BLOCKING" using inv Cons by (auto simp: orig_inv_def)
  have a: "a = t" "\<not> completed a" if "map_of (active_tasks s) (id t) = Some a" for a
    using orig_activeD[OF inv that] inv Cons by (auto simp: orig_inv_def image_iff)
  show ?thesis
  proof (cases "wake_time t \<le> now")
    case False
    with Cons idle r show ?thesis by (auto simp: managerThread_step_def)
  next
    case True
    show ?thesis
      using True Cons r a skip[OF _ Cons] fire[OF Cons True]
      by (cases "map_of (active_tasks s) (id t)") (auto simp: managerThread_step_def Let_def)
  qed
qed

lemma orig_top_least:
  assumes inv: "orig_inv s" and "tasks s = t # ts" and "orig_pending s j = Some v"
  shows "wake_time t \<le> v"
  using assms pq_top_least[of wake_time t ts] orig_activeD(1)[OF inv]
  by (auto simp: orig_pending_def orig_inv_def)

lemma orig_tick_correct:
  assumes inv: "orig_inv s" and "managerThread_step now s = (fs, s')"
  shows "orig_inv s'" "next_id s' = next_id s"
    "fs = [] \<and> orig_pending s' = orig_pending s \<or>
      (\<exists>i w. fs = [i] \<and> orig_pending s i = Some w \<and> w \<le> now \<and>
         (\<forall>j v. orig_pending s j = Some v \<longrightarrow> w \<le> v) \<and> orig_pending s' = (orig_pending s)(i := None))"
proof -
  have "orig_inv s' \<and> next_id s' = next_id s \<and> (fs = [] \<and> orig_pending s' = orig_pending s \<or>
      (\<exists>i w. fs = [i] \<and> orig_pending s i = Some w \<and> w \<le> now \<and>
         (\<forall>j v. orig_pending s j = Some v \<longrightarrow> w \<le> v) \<and> orig_pending s' = (orig_pending s)(i := None)))"
  proof (cases rule: orig_tickE[OF inv, of now])
    case 1
    with assms show ?thesis by simp
  next
    case (2 t ts)
    with inv have "orig_inv (s\<lparr>tasks := ts\<rparr>)" by (auto simp: orig_inv_def dest: pq_ok_tl) force+
    with 2 assms show ?thesis by (auto simp: orig_pending_def)
  next
    case (3 t ts)
    then have s': "fs = [id t]" "s' = s\<lparr>tasks := ts, active_tasks := AList.delete (id t) (active_tasks s),
        console := console s @ [LTriggered (id t)], detached := detached s @ [callback t]\<rparr>"
      using assms(2) by simp_all
    have "orig_inv s'"
      using inv 3(1) unfolding s' orig_inv_def
      by (auto simp: delete_conv dest: pq_ok_tl split: if_splits)
    moreover have "orig_pending s (id t) = Some (wake_time t)" using 3(3) by (simp add: orig_pending_def)
    moreover have "orig_pending s' = (orig_pending s)(id t := None)" "next_id s' = next_id s"
      unfolding s' by (auto simp: orig_pending_def delete_conv fun_eq_iff)
    ultimately show ?thesis using 3(2) s'(1) orig_top_least[OF inv 3(1)] by blast
  qed
  then show "orig_inv s'" "next_id s' = next_id s"
    "fs = [] \<and> orig_pending s' = orig_pending s \<or>
      (\<exists>i w. fs = [i] \<and> orig_pending s i = Some w \<and> w \<le> now \<and>
         (\<forall>j v. orig_pending s j = Some v \<longrightarrow> w \<le> v) \<and> orig_pending s' = (orig_pending s)(i := None))"
    by blast+
qed

lemma orig_tick_progress:
  assumes inv: "orig_inv s" and "orig_pending s j = Some w" and "w \<le> now"
    and t: "managerThread_step now s = (fs, s')"
  shows "length (tasks s') < length (tasks s)"
proof (cases rule: orig_tickE[OF inv, of now])
  case 1
  from assms obtain a where "a \<in> set (tasks s)"
    using orig_activeD(1)[OF inv] by (auto simp: orig_pending_def)
  then show ?thesis
    using 1(2) assms(3) orig_top_least[OF inv _ assms(2)] by (cases "tasks s") auto
qed (use t in auto)

interpretation orig: timer_impl addNonBlockingTimer "\<lambda>i s. Inr (cancelTimer i s)"
  "\<lambda>now s. Inr (managerThread_step now s)" orig_pending "length \<circ> tasks" "\<lambda>s. next_id s - 1" orig_inv
proof
  fix s :: "'a OriginalTimer" and now d cb
  assume "orig_inv s" "next_id s - 1 < INT_MAX - 1"
  with orig_add_correct[of s now d cb]
  show "\<exists>s'. addNonBlockingTimer now d cb s = Inr (next_id s - 1 + 1, s') \<and> orig_inv s' \<and>
     orig_pending s' = (orig_pending s)(next_id s - 1 + 1 \<mapsto> now + ms d) \<and>
     next_id s' - 1 = next_id s - 1 + 1" by auto
next
  fix s :: "'a OriginalTimer" and i w
  assume "orig_inv s" "orig_pending s i = Some w"
  then show "i \<le> next_id s - 1" by (fastforce simp: orig_inv_def orig_pending_def)
next
  fix s :: "'a OriginalTimer" and i
  assume "orig_inv s"
  from orig_cancel_correct[OF this, of i "fst (cancelTimer i s)" "snd (cancelTimer i s)"]
  show "\<exists>b s'. Inr (cancelTimer i s) = Inr (b, s') \<and> (orig_pending s i \<noteq> None \<longrightarrow> b) \<and> orig_inv s' \<and>
     orig_pending s' = (orig_pending s)(i := None) \<and> next_id s' - 1 = next_id s - 1"
    by (metis prod.collapse)
next
  fix s :: "'a OriginalTimer" and now
  assume inv: "orig_inv s"
  obtain fs s' where "managerThread_step now s = (fs, s')" by force
  with orig_tick_correct[OF inv this]
  show "\<exists>fs s'. Inr (managerThread_step now s) = Inr (fs, s') \<and> orig_inv s' \<and>
     next_id s' - 1 = next_id s - 1 \<and> (fs = [] \<and> orig_pending s' = orig_pending s \<or>
      (\<exists>i w. fs = [i] \<and> orig_pending s i = Some w \<and> w \<le> now \<and>
         (\<forall>j v. orig_pending s j = Some v \<longrightarrow> w \<le> v) \<and> orig_pending s' = (orig_pending s)(i := None)))"
    by auto
qed (use orig_tick_progress in auto)

section \<open>Properties\<close>

abbreviation orig_run where
  "orig_run \<equiv> timer_run addNonBlockingTimer (\<lambda>i s. Inr (cancelTimer i s)) (\<lambda>now s. Inr (managerThread_step now s))"

lemma orig_inv_fresh: "start OriginalTimer_ctor = Inr s \<Longrightarrow> orig_inv s \<and> next_id s = 0"
  by (auto simp: start_def OriginalTimer_ctor_def orig_inv_def)

text \<open>A blocked caller of \<^verbatim>\<open>addBlockingTimer\<close> is not left waiting by a running manager: once the time has
  passed, as many manager iterations as there are queued tasks start its callback, whatever else is
  queued.\<close>

theorem blocking_callback_started:
  assumes "orig_inv s" and "next_id s < INT_MAX" and "addBlockingTimer_begin now d cb s = Inr (i, s1)"
    and "\<forall>j w. orig_pending s1 j = Some w \<longrightarrow> w \<le> later"
  shows "\<exists>fs s2. orig_run (replicate (length (tasks s1)) (OpTick later)) s1 = Inr (fs, s2) \<and> i \<in> set fs"
proof -
  let ?s = "s\<lparr>console := console s @ [LBlockBegin d]\<rparr>"
  have "orig_inv ?s" using assms(1) by (simp add: orig_inv_def)
  from orig_add_correct[OF this, of now d cb] assms(2,3)
  have s1: "orig_inv s1" "orig_pending s1 i = Some (now + ms d)"
    by (auto simp: addBlockingTimer_begin_def)
  with orig.drain[of s1 later "length (tasks s1)"] assms(4) show ?thesis by auto
qed

definition orig_demo :: "string OriginalTimer" where
  "orig_demo = OriginalTimer_ctor\<lparr>running := True, manager_joinable := True\<rparr>"

theorem blocking_callback_started_witness:
  "\<exists>s1 fs s2. addBlockingTimer_begin 7 2 ''go'' orig_demo = Inr (0, s1) \<and>
     orig_run (replicate (length (tasks s1)) (OpTick 2000007)) s1 = Inr (fs, s2) \<and> 0 \<in> set fs"
proof -
  let ?s1 = "snd (projr (addBlockingTimer_begin 7 2 ''go'' orig_demo))"
  have b: "addBlockingTimer_begin 7 2 ''go'' orig_demo = Inr (0, ?s1)"
    and p: "\<forall>j w. orig_pending ?s1 j = Some w \<longrightarrow> w \<le> 2000007"
    and i: "orig_inv orig_demo" "next_id orig_demo < INT_MAX"
    by (auto simp: addBlockingTimer_begin_def addNonBlockingTimer_def Let_def orig_demo_def
        OriginalTimer_ctor_def chk_int_def in_int_numerals orig_pending_def wake_time_def ms_def
        orig_inv_def INT_MAX_def split: if_splits)
  from blocking_callback_started[OF i b p] b show ?thesis by blast
qed

end
