(* ===== verification/Dual_Timer.thy ===== *)
theory Dual_Timer
  imports Timer_Contract "HOL-Library.AList"
begin

text \<open>
  \<^verbatim>\<open>class DualModeTimer\<close> of \<^verbatim>\<open>src/other/timer/dualTimer/dualtimer.cc\<close>: a manager thread over a priority
  queue of timer tasks, a map of the active ones, and one thread per callback. Every public method runs
  under \<^verbatim>\<open>tasks_mutex_\<close>, so a method is one step on the state; one iteration of the manager loop, which
  holds the same mutex, is the step \<open>managerThread_step\<close>, given the time it reads.

  \<^verbatim>\<open>active_tasks_\<close> is an association list (\<^verbatim>\<open>std::map\<close>), the promises are a table of their states, and the
  console output is a list of the messages with the values they print. What a callback does is not part
  of the class: a callback is a value of type \<open>'cb\<close>, and \<open>throws\<close> says whether it throws.
\<close>

section \<open>State\<close>

datatype TimerMode = BLOCKING | NON_BLOCKING

record 'cb TimerTask =
  tid :: int
  tmode :: TimerMode
  tduration :: int
  tcallback :: 'cb
  start_time :: time
  completed :: bool
  tpromise :: "nat option"

text \<open>\<^verbatim>\<open>operator<\<close> orders tasks by \<^verbatim>\<open>start_time + duration\<close>.\<close>

definition wake_time :: "'cb TimerTask \<Rightarrow> time" where
  "wake_time t = start_time t + ms (tduration t)"

datatype promise_state = PPending | PValue bool | PException

datatype dual_log =
    LStarted
  | LStopping
  | LStopped
  | LBlockBegin int
  | LBlockFailed
  | LBlockTimeout
  | LBlockCancelled
  | LBlockEnd int
  | LAdded int int
  | LCancelled int
  | LCancelAll nat
  | LTriggered int
  | LCallbackException

record 'cb DualModeTimer =
  running :: bool
  manager :: bool
  tasks :: "'cb TimerTask list"
  active_tasks :: "(int \<times> 'cb TimerTask) list"
  next_id :: int
  callback_threads :: "('cb TimerTask \<times> bool) list"
  promises :: "nat \<Rightarrow> promise_state"
  dlog :: "dual_log list"

definition say :: "dual_log \<Rightarrow> 'cb DualModeTimer \<Rightarrow> 'cb DualModeTimer" where
  "say m s = s\<lparr>dlog := dlog s @ [m]\<rparr>"

definition DualModeTimer_ctor :: "(nat \<Rightarrow> promise_state) \<Rightarrow> 'cb DualModeTimer" where
  "DualModeTimer_ctor P = \<lparr>running = False, manager = False, tasks = [], active_tasks = [],
     next_id = 0, callback_threads = [], promises = P, dlog = []\<rparr>"

definition set_value :: "nat \<Rightarrow> bool \<Rightarrow> (nat \<Rightarrow> promise_state) \<Rightarrow> (nat \<Rightarrow> promise_state) result" where
  "set_value p b P = (if P p = PPending then Inr (P(p := PValue b)) else Inl FutureError)"

section \<open>Methods\<close>

definition dual_start :: "'cb DualModeTimer \<Rightarrow> 'cb DualModeTimer" where
  "dual_start s = (if running s then s else say LStarted (s\<lparr>running := True, manager := True\<rparr>))"

definition addTask :: "time \<Rightarrow> int \<Rightarrow> nat option \<Rightarrow> 'cb \<Rightarrow> 'cb DualModeTimer \<Rightarrow> int \<times> 'cb DualModeTimer" where
  "addTask now d pr cb s =
     (let i = wrap_int (next_id s + 1);
          task = \<lparr>tid = i, tmode = NON_BLOCKING, tduration = d, tcallback = cb, start_time = now,
                  completed = False, tpromise = pr\<rparr>
      in (i, s\<lparr>next_id := i, tasks := pq_push wake_time task (tasks s),
               active_tasks := AList.update i task (active_tasks s)\<rparr>))"

definition addNonBlockingTimer :: "time \<Rightarrow> int \<Rightarrow> 'cb \<Rightarrow> 'cb DualModeTimer \<Rightarrow> int \<times> 'cb DualModeTimer" where
  "addNonBlockingTimer now d cb s = (case addTask now d None cb s of (i, s') \<Rightarrow> (i, say (LAdded i d) s'))"

definition addNonBlockingTimerWithPromise ::
  "time \<Rightarrow> int \<Rightarrow> nat \<Rightarrow> 'cb \<Rightarrow> 'cb DualModeTimer \<Rightarrow> int \<times> 'cb DualModeTimer" where
  "addNonBlockingTimerWithPromise now d p cb s = addTask now d (Some p) cb s"

definition cancelTimer :: "int \<Rightarrow> 'cb DualModeTimer \<Rightarrow> (bool \<times> 'cb DualModeTimer) result" where
  "cancelTimer i s = (case map_of (active_tasks s) i of
     None \<Rightarrow> Inr (False, s)
   | Some t \<Rightarrow>
       rbind (case tpromise t of None \<Rightarrow> Inr (promises s) | Some p \<Rightarrow> set_value p False (promises s))
         (\<lambda>P. Inr (True, say (LCancelled i)
                (s\<lparr>promises := P, active_tasks := AList.delete i (active_tasks s)\<rparr>))))"

text \<open>\<^verbatim>\<open>cancelAllTimers\<close>: a promise that is already set raises \<^verbatim>\<open>future_error\<close>, which is caught and ignored.\<close>

fun cancel_promises :: "(int \<times> 'cb TimerTask) list \<Rightarrow> (nat \<Rightarrow> promise_state) \<Rightarrow> nat \<Rightarrow> promise_state" where
  "cancel_promises [] P = P"
| "cancel_promises ((i, t) # ts) P =
     cancel_promises ts
       (case tpromise t of None \<Rightarrow> P
        | Some p \<Rightarrow> (case set_value p False P of Inl _ \<Rightarrow> P | Inr P' \<Rightarrow> P'))"

definition cancelAllTimers :: "'cb DualModeTimer \<Rightarrow> 'cb DualModeTimer" where
  "cancelAllTimers s =
     (let s1 = say (LCancelAll (length (active_tasks s))) s
      in s1\<lparr>promises := cancel_promises (active_tasks s) (promises s), tasks := [], active_tasks := []\<rparr>)"

definition getActiveTimerCount :: "'cb DualModeTimer \<Rightarrow> nat" where
  "getActiveTimerCount s = length (active_tasks s)"

definition isRunning :: "'cb DualModeTimer \<Rightarrow> bool" where
  "isRunning s = running s"

text \<open>The body of a callback thread: run the callback, then settle the promise. An exception is logged and
  stored in the promise; settling a settled promise inside the handler escapes the thread.\<close>

definition callback_handler :: "'cb TimerTask \<Rightarrow> 'cb DualModeTimer \<Rightarrow> 'cb DualModeTimer result" where
  "callback_handler t s =
     (let s1 = say LCallbackException s in
      case tpromise t of None \<Rightarrow> Inr s1
      | Some p \<Rightarrow> if promises s1 p = PPending then Inr (s1\<lparr>promises := (promises s1)(p := PException)\<rparr>)
                  else Inl FutureError)"

definition callback_body ::
  "('cb \<Rightarrow> bool) \<Rightarrow> 'cb TimerTask \<Rightarrow> 'cb DualModeTimer \<Rightarrow> 'cb DualModeTimer result" where
  "callback_body throws t s =
     (let s1 = say (LTriggered (tid t)) s in
      if throws (tcallback t) then callback_handler t s1
      else (case tpromise t of None \<Rightarrow> Inr s1
            | Some p \<Rightarrow> (case set_value p True (promises s1) of
                  Inr P \<Rightarrow> Inr (s1\<lparr>promises := P\<rparr>)
                | Inl _ \<Rightarrow> callback_handler t s1)))"

text \<open>One iteration of the loop of \<^verbatim>\<open>managerThread\<close>, and what the thread does next: leave the loop, wait for a
  notification, wait until a time, or continue at once.\<close>

datatype mgr_action = MgrExit | MgrWait | MgrWaitUntil time | MgrFire int | MgrSkip int

definition managerThread_step :: "time \<Rightarrow> 'cb DualModeTimer \<Rightarrow> mgr_action \<times> 'cb DualModeTimer" where
  "managerThread_step now s =
     (if \<not> running s then (MgrExit, s)
      else case tasks s of
        [] \<Rightarrow> (MgrWait, s)
      | t # ts \<Rightarrow>
          if now \<ge> wake_time t then
            let s1 = s\<lparr>tasks := ts\<rparr> in
            (case map_of (active_tasks s1) (tid t) of
               None \<Rightarrow> (MgrSkip (tid t), s1)
             | Some task \<Rightarrow>
                 if completed task then (MgrSkip (tid t), s1)
                 else let s2 = s1\<lparr>active_tasks := AList.delete (tid t) (active_tasks s1)\<rparr> in
                   if tmode task = NON_BLOCKING
                   then (MgrFire (tid t), s2\<lparr>callback_threads := callback_threads s2 @ [(task, False)]\<rparr>)
                   else (MgrSkip (tid t), s2))
          else (MgrWaitUntil (wake_time t), s))"

text \<open>Joining the callback threads: each that has not finished runs to its end.\<close>

fun join_callbacks ::
  "('cb \<Rightarrow> bool) \<Rightarrow> ('cb TimerTask \<times> bool) list \<Rightarrow> 'cb DualModeTimer \<Rightarrow> 'cb DualModeTimer result" where
  "join_callbacks throws [] s = Inr (s\<lparr>callback_threads := []\<rparr>)"
| "join_callbacks throws ((t, done) # ts) s =
     (if done then join_callbacks throws ts s
      else rbind (callback_body throws t s) (join_callbacks throws ts))"

text \<open>\<^verbatim>\<open>stop\<close>, with the manager thread leaving its loop and joining the callback threads meanwhile.\<close>

definition dual_stop :: "('cb \<Rightarrow> bool) \<Rightarrow> 'cb DualModeTimer \<Rightarrow> 'cb DualModeTimer result" where
  "dual_stop throws s =
     (if \<not> running s then Inr s
      else let s1 = (say LStopping s)\<lparr>running := False\<rparr>;
               s2 = cancelAllTimers s1
           in rbind (join_callbacks throws (callback_threads s2) s2)
                (\<lambda>s3. Inr (say LStopped (s3\<lparr>manager := False\<rparr>))))"

text \<open>\<^verbatim>\<open>addBlockingTimer\<close>: registering the timer, and what happens when the wait on the future ends with a
  timeout (\<open>None\<close>) or with the value of the promise.\<close>

definition addBlockingTimer_begin :: "time \<Rightarrow> int \<Rightarrow> 'cb \<Rightarrow> 'cb DualModeTimer \<Rightarrow> int \<times> 'cb DualModeTimer" where
  "addBlockingTimer_begin now d cb s = addNonBlockingTimer now d cb (say (LBlockBegin d) s)"

definition addBlockingTimer_end ::
  "int \<Rightarrow> bool option \<Rightarrow> 'cb DualModeTimer \<Rightarrow> (bool \<times> 'cb DualModeTimer) result" where
  "addBlockingTimer_end i status s =
     (if i < 0 then Inr (False, say LBlockFailed s)
      else case status of
        None \<Rightarrow> rbind (cancelTimer i (say LBlockTimeout s)) (\<lambda>(_, s'). Inr (False, s'))
      | Some False \<Rightarrow> Inr (False, say LBlockCancelled s)
      | Some True \<Rightarrow> Inr (True, say (LBlockEnd i) s))"

section \<open>Invariant\<close>

text \<open>While the manager runs: the queue is ordered and holds every active task; ids are distinct and were
  handed out by \<^verbatim>\<open>next_id_\<close>; no active task is completed; the timers come from \<^verbatim>\<open>addNonBlockingTimer\<close>, so
  none has a promise of its own.\<close>

definition dual_inv :: "'cb DualModeTimer \<Rightarrow> bool" where
  "dual_inv s \<longleftrightarrow> running s \<and> 0 \<le> next_id s \<and> pq_ok wake_time (tasks s) \<and>
     distinct (map tid (tasks s)) \<and> (\<forall>t \<in> set (tasks s). tid t \<le> next_id s) \<and>
     (\<forall>i t. map_of (active_tasks s) i = Some t \<longrightarrow>
        t \<in> set (tasks s) \<and> tid t = i \<and> \<not> completed t \<and> tmode t = NON_BLOCKING \<and> tpromise t = None) \<and>
     (\<forall>c \<in> set (callback_threads s). tpromise (fst c) = None)"

definition dual_pending :: "'cb DualModeTimer \<Rightarrow> int \<Rightarrow> time option" where
  "dual_pending s i = map_option wake_time (map_of (active_tasks s) i)"

definition dual_add :: "time \<Rightarrow> int \<Rightarrow> 'cb \<Rightarrow> 'cb DualModeTimer \<Rightarrow> (int \<times> 'cb DualModeTimer) result" where
  "dual_add now d cb s = Inr (addNonBlockingTimer now d cb s)"

definition dual_tick :: "time \<Rightarrow> 'cb DualModeTimer \<Rightarrow> (int list \<times> 'cb DualModeTimer) result" where
  "dual_tick now s = (case managerThread_step now s of
     (MgrFire i, s') \<Rightarrow> Inr ([i], s') | (_, s') \<Rightarrow> Inr ([], s'))"

lemmas dual_ops [timer_simps] = addNonBlockingTimer_def addTask_def dual_add_def say_def Let_def

lemma dual_activeD:
  assumes "dual_inv s" and "map_of (active_tasks s) i = Some t"
  shows "t \<in> set (tasks s)" "tid t = i" "\<not> completed t" "tmode t = NON_BLOCKING" "tpromise t = None"
  using assms by (auto simp: dual_inv_def)

lemma dual_add_correct:
  assumes inv: "dual_inv s" and room: "next_id s < INT_MAX - 1"
  shows "\<exists>s'. dual_add now d cb s = Inr (next_id s + 1, s') \<and> dual_inv s' \<and>
     dual_pending s' = (dual_pending s)(next_id s + 1 \<mapsto> now + ms d) \<and> next_id s' = next_id s + 1"
proof -
  have w: "wrap_int (next_id s + 1) = next_id s + 1"
    using inv room by (intro wrap_int_in) (simp add: dual_inv_def in_int_numerals INT_MAX_def)
  have new: "next_id s + 1 \<notin> tid ` set (tasks s)" using inv by (fastforce simp: dual_inv_def)
  show ?thesis
    using inv new
    by (auto simp: timer_simps w dual_inv_def dual_pending_def wake_time_def update_conv fun_eq_iff
        split: if_splits)
qed

lemma dual_cancel_correct:
  assumes inv: "dual_inv s"
  shows "\<exists>b s'. cancelTimer i s = Inr (b, s') \<and> (b \<longleftrightarrow> dual_pending s i \<noteq> None) \<and> dual_inv s' \<and>
     dual_pending s' = (dual_pending s)(i := None) \<and> next_id s' = next_id s"
proof (cases "map_of (active_tasks s) i")
  case None
  with inv show ?thesis by (auto simp: cancelTimer_def dual_pending_def fun_eq_iff)
next
  case (Some t)
  with inv dual_activeD[OF inv Some] show ?thesis
    by (auto simp: cancelTimer_def dual_pending_def dual_inv_def say_def delete_conv fun_eq_iff
        split: if_splits)
qed

text \<open>One manager iteration, branch by branch.\<close>

lemma step_idle:
  assumes "running s" and "tasks s = [] \<or> now < wake_time (hd (tasks s))"
  shows "dual_tick now s = Inr ([], s)"
  using assms by (cases "tasks s") (auto simp: dual_tick_def managerThread_step_def)

lemma step_skip:
  assumes "running s" and "tasks s = t # ts" and "wake_time t \<le> now"
    and "map_of (active_tasks s) (tid t) = None"
  shows "dual_tick now s = Inr ([], s\<lparr>tasks := ts\<rparr>)"
  using assms by (simp add: dual_tick_def managerThread_step_def)

lemma step_fire:
  assumes "running s" and "tasks s = t # ts" and "wake_time t \<le> now"
    and "map_of (active_tasks s) (tid t) = Some a" and "\<not> completed a" and "tmode a = NON_BLOCKING"
  shows "dual_tick now s = Inr ([tid t],
    s\<lparr>tasks := ts, active_tasks := AList.delete (tid t) (active_tasks s),
      callback_threads := callback_threads s @ [(a, False)]\<rparr>)"
  using assms by (simp add: dual_tick_def managerThread_step_def Let_def)

lemma dual_inv_pop:
  assumes "dual_inv s" and "tasks s = t # ts" and "tpromise a = None"
  shows "dual_inv (s\<lparr>tasks := ts, active_tasks := AList.delete (tid t) (active_tasks s),
      callback_threads := callback_threads s @ [(a, False)]\<rparr>)"
  using assms by (auto simp: dual_inv_def delete_conv dest: pq_ok_tl split: if_splits)

lemma dual_inv_skip:
  assumes "dual_inv s" and "tasks s = t # ts" and "map_of (active_tasks s) (tid t) = None"
  shows "dual_inv (s\<lparr>tasks := ts\<rparr>)"
  using assms by (auto simp: dual_inv_def dest: pq_ok_tl) force+

lemma dual_top_least:
  assumes inv: "dual_inv s" and "tasks s = t # ts" and "dual_pending s j = Some v"
  shows "wake_time t \<le> v"
  using assms pq_top_least[of wake_time t ts] dual_activeD(1)[OF inv]
  by (auto simp: dual_pending_def dual_inv_def)

lemma dual_active_top:
  assumes inv: "dual_inv s" and "tasks s = t # ts" and "map_of (active_tasks s) (tid t) = Some a"
  shows "a = t"
proof -
  have "a \<in> set (t # ts)" "tid a = tid t" using dual_activeD(1,2)[OF inv assms(3)] assms(2) by auto
  moreover have "distinct (map tid (t # ts))" using inv assms(2) by (simp add: dual_inv_def)
  ultimately show ?thesis by (auto simp: image_iff)
qed

lemma dual_tickE:
  assumes inv: "dual_inv s"
  obtains (idle) "dual_tick now s = Inr ([], s)" "tasks s = [] \<or> now < wake_time (hd (tasks s))"
  | (skip) t ts where "dual_tick now s = Inr ([], s\<lparr>tasks := ts\<rparr>)" "tasks s = t # ts"
      "map_of (active_tasks s) (tid t) = None"
  | (fire) t ts where "tasks s = t # ts" "wake_time t \<le> now"
      "map_of (active_tasks s) (tid t) = Some t"
      "dual_tick now s = Inr ([tid t],
         s\<lparr>tasks := ts, active_tasks := AList.delete (tid t) (active_tasks s),
           callback_threads := callback_threads s @ [(t, False)]\<rparr>)"
proof (cases "tasks s")
  case Nil
  with idle step_idle inv show ?thesis by (auto simp: dual_inv_def)
next
  case (Cons t ts)
  have r: "running s" using inv by (simp add: dual_inv_def)
  show ?thesis
  proof (cases "wake_time t \<le> now")
    case False
    with Cons idle step_idle[OF r, of now] show ?thesis by auto
  next
    case True
    show ?thesis
    proof (cases "map_of (active_tasks s) (tid t)")
      case None
      then show ?thesis using skip step_skip[OF r Cons True None] Cons by blast
    next
      case (Some a)
      then have [simp]: "a = t" using dual_active_top[OF inv Cons] by blast
      show ?thesis
        using fire[OF Cons True] step_fire[OF r Cons True Some] dual_activeD(3,4)[OF inv Some] Some
        by simp
    qed
  qed
qed

lemma dual_tick_correct:
  assumes inv: "dual_inv s"
  shows "\<exists>fs s'. dual_tick now s = Inr (fs, s') \<and> dual_inv s' \<and> next_id s' = next_id s \<and>
     (fs = [] \<and> dual_pending s' = dual_pending s \<or>
      (\<exists>i w. fs = [i] \<and> dual_pending s i = Some w \<and> w \<le> now \<and>
         (\<forall>j v. dual_pending s j = Some v \<longrightarrow> w \<le> v) \<and> dual_pending s' = (dual_pending s)(i := None)))"
proof (cases rule: dual_tickE[OF inv, of now])
  case 1
  with inv show ?thesis by simp
next
  case (2 t ts)
  with dual_inv_skip[OF inv 2(2,3)] show ?thesis by (auto simp: dual_pending_def)
next
  case (3 t ts)
  have "dual_pending s (tid t) = Some (wake_time t)" using 3 by (simp add: dual_pending_def)
  with 3 dual_inv_pop[OF inv 3(1) dual_activeD(5)[OF inv 3(3)]] dual_top_least[OF inv 3(1)] show ?thesis
    by (auto simp: dual_pending_def delete_conv fun_eq_iff)
qed

lemma dual_tick_progress:
  assumes inv: "dual_inv s" and "dual_pending s j = Some w" and "w \<le> now"
    and t: "dual_tick now s = Inr (fs, s')"
  shows "length (tasks s') < length (tasks s)"
proof (cases rule: dual_tickE[OF inv, of now])
  case 1
  from assms obtain a where "a \<in> set (tasks s)" "wake_time a = w"
    using dual_activeD(1)[OF inv] by (auto simp: dual_pending_def)
  then show ?thesis
    using 1(2) assms(3) dual_top_least[OF inv _ assms(2)] by (cases "tasks s") auto
qed (use t in auto)

section \<open>Properties\<close>

interpretation dual: timer_impl dual_add cancelTimer dual_tick dual_pending "length \<circ> tasks" next_id
  dual_inv
proof
  fix s :: "'a DualModeTimer" and i w
  assume "dual_inv s" "dual_pending s i = Some w"
  then show "i \<le> next_id s" by (fastforce simp: dual_inv_def dual_pending_def)
next
  fix s :: "'a DualModeTimer" and i
  assume "dual_inv s"
  from dual_cancel_correct[OF this, of i]
  show "\<exists>b s'. cancelTimer i s = Inr (b, s') \<and> (dual_pending s i \<noteq> None \<longrightarrow> b) \<and> dual_inv s' \<and>
        dual_pending s' = (dual_pending s)(i := None) \<and> next_id s' = next_id s" by blast
qed (use dual_add_correct dual_tick_correct dual_tick_progress in auto)

lemma dom_dual_pending: "dom (dual_pending s) = fst ` set (active_tasks s)"
  unfolding dom_map_of_conv_image_fst[symmetric] by (auto simp: dual_pending_def)

lemma dual_inv_fresh: "dual_inv (dual_start (DualModeTimer_ctor P))"
  by (simp add: dual_inv_def dual_start_def DualModeTimer_ctor_def say_def)

lemma dual_fresh_simps [simp]:
  "next_id (dual_start (DualModeTimer_ctor P)) = 0"
  "dual_pending (dual_start (DualModeTimer_ctor P)) = Map.empty"
  by (simp_all add: dual_start_def DualModeTimer_ctor_def say_def dual_pending_def fun_eq_iff)

text \<open>C32: From a freshly started timer, every sequence of adds, cancels and manager iterations runs
  without error as long as the ids fit an \<^verbatim>\<open>int\<close>, fires no timer twice, and fires only ids that were
  handed out: the adds return the ids from 1 on, one after the other, and every id that has fired is
  one of those and is no longer active.\<close>

theorem dual_history:
  assumes "int (length ops) < 2147483647"
  shows "\<exists>fs s. timer_run dual_add cancelTimer dual_tick ops (dual_start (DualModeTimer_ctor P)) = Inr (fs, s) \<and>
     distinct fs \<and> (\<forall>i. i \<in> set fs \<longrightarrow> 1 \<le> i \<and> i \<le> int (added ops) \<and> map_of (active_tasks s) i = None) \<and>
     (int (length ops) < 2147483646 \<longrightarrow> (\<forall>now d cb. fst (addNonBlockingTimer now d cb s) = int (added ops) + 1))"
proof -
  have le: "next_id (dual_start (DualModeTimer_ctor P)) + int (length ops) < INT_MAX"
    using assms by (simp add: INT_MAX_def)
  from dual.run_total[OF dual_inv_fresh this] obtain fs s where
    r: "timer_run dual_add cancelTimer dual_tick ops (dual_start (DualModeTimer_ctor P)) = Inr (fs, s)" "dual_inv s"
    and sr: "dual.safe_run (dual_start (DualModeTimer_ctor P)) fs s" by blast
  have n: "next_id s = int (added ops)" using dual.run_ids[OF dual_inv_fresh le r(1)] by simp
  have "map_of (active_tasks s) i = None" if "i \<in> set fs" for i
    using sr that by (cases "map_of (active_tasks s) i") (auto simp: dual.safe_run_def dual_pending_def)
  moreover have "fst (addNonBlockingTimer now d cb s) = int (added ops) + 1" if "int (length ops) < 2147483646" for now d cb
  proof -
    have "added ops \<le> length ops" by (induction ops rule: added.induct) auto
    then have "next_id s < INT_MAX - 1" using n that by (simp add: INT_MAX_def)
    from dual_add_correct[OF r(2) this, of now d cb] show ?thesis using n by (auto simp: dual_add_def)
  qed
  ultimately show ?thesis using r(1) sr n by (fastforce simp: dual.safe_run_def)
qed

theorem dual_history_witness:
  "\<exists>fs s. timer_run dual_add cancelTimer dual_tick [OpAdd 0 5 ''a'', OpAdd 1 3 ''b'', OpTick 5000000, OpCancel 1]
     (dual_start (DualModeTimer_ctor (\<lambda>_. PPending))) = Inr (fs, s) \<and>
     distinct fs \<and> set fs \<subseteq> {1, 2}"
proof -
  let ?ops = "[OpAdd 0 5 ''a'', OpAdd 1 3 ''b'', OpTick 5000000, OpCancel 1]"
  from dual_history[of ?ops "\<lambda>_. PPending"] obtain fs s where
    h: "timer_run dual_add cancelTimer dual_tick ?ops (dual_start (DualModeTimer_ctor (\<lambda>_. PPending))) = Inr (fs, s)" "distinct fs"
      "\<forall>i. i \<in> set fs \<longrightarrow> 1 \<le> i \<and> i \<le> int (added ?ops)" by auto
  have "i = 1 \<or> i = 2" if "i \<in> set fs" for i using h(3) that by fastforce
  with h(1,2) show ?thesis by blast
qed

text \<open>C14: A timer that has been cancelled never fires afterwards, whatever clients and the manager do.\<close>

theorem dual_cancelled_never_fires:
  assumes "dual_inv s" and "i \<le> next_id s" and "cancelTimer i s = Inr (b, s1)"
    and "next_id s + int (length ops) < INT_MAX"
  shows "\<exists>fs s2. timer_run dual_add cancelTimer dual_tick ops s1 = Inr (fs, s2) \<and> i \<notin> set fs"
  using assms by (rule dual.cancelled_never_fires)

definition dual_demo :: "string DualModeTimer" where
  "dual_demo = snd (addNonBlockingTimer 1 3 ''b''
     (snd (addNonBlockingTimer 0 5 ''a'' (dual_start (DualModeTimer_ctor (\<lambda>_. PPending))))))"

lemma dual_demo_ok: "dual_inv dual_demo" "next_id dual_demo = 2"
  "dual_pending dual_demo i = (if i = 1 then Some 5000000 else if i = 2 then Some 3000001 else None)"
  "length (tasks dual_demo) = 2"
  by (auto simp: dual_demo_def timer_simps dual_inv_def DualModeTimer_ctor_def dual_start_def
      wrap_int_def wake_time_def pq_ok_def ms_def dual_pending_def split: if_splits)

theorem dual_cancelled_never_fires_witness:
  "\<exists>s1 fs s2. cancelTimer 1 dual_demo = Inr (True, s1) \<and>
     timer_run dual_add cancelTimer dual_tick [OpTick 9000000, OpAdd 9000000 1 ''c'', OpTick 9000001] s1 =
       Inr (fs, s2) \<and> 1 \<notin> set fs"
proof -
  from dual_cancel_correct[OF dual_demo_ok(1), of 1] obtain s1 where
    c: "cancelTimer 1 dual_demo = Inr (True, s1)" by (auto simp: dual_demo_ok)
  have "next_id dual_demo + int (length [OpTick 9000000, OpAdd 9000000 1 ''c'', OpTick 9000001]) < INT_MAX"
    "1 \<le> next_id dual_demo" by (simp_all add: dual_demo_ok INT_MAX_def)
  from dual_cancelled_never_fires[OF dual_demo_ok(1) this(2) c this(1)] c show ?thesis by blast
qed

text \<open>Once every active timer is due, as many manager iterations as the queue is long fire all of
  them, each once, in the order of their expiry, and leave no timer active.\<close>

theorem dual_drain:
  assumes "dual_inv s" and "\<forall>i w. dual_pending s i = Some w \<longrightarrow> w \<le> now" and "length (tasks s) \<le> n"
  shows "\<exists>fs s'. timer_run dual_add cancelTimer dual_tick (replicate n (OpTick now)) s = Inr (fs, s') \<and>
     set fs = fst ` set (active_tasks s) \<and> map_of (active_tasks s') = Map.empty \<and>
     sorted (map (\<lambda>i. the (dual_pending s i)) fs)"
proof -
  have "(length \<circ> tasks) s \<le> n" using assms(3) by simp
  with assms(1,2) obtain fs s' where
    r: "timer_run dual_add cancelTimer dual_tick (replicate n (OpTick now)) s = Inr (fs, s')"
      "set fs = dom (dual_pending s)" "dual_pending s' = Map.empty"
      "sorted (map (\<lambda>i. the (dual_pending s i)) fs)"
    using dual.drain[of s now n] by blast
  have "map_of (active_tasks s') = Map.empty"
    using r(3) by (auto simp: dual_pending_def fun_eq_iff)
  with r show ?thesis unfolding dom_dual_pending by blast
qed

theorem dual_drain_witness:
  "\<exists>fs s'. timer_run dual_add cancelTimer dual_tick (replicate 2 (OpTick 5000000)) dual_demo = Inr (fs, s') \<and>
     set fs = fst ` set (active_tasks dual_demo) \<and> map_of (active_tasks s') = Map.empty \<and>
     sorted (map (\<lambda>i. the (dual_pending dual_demo i)) fs)"
  by (rule dual_drain) (simp_all add: dual_demo_ok)

lemma callback_body_plain:
  assumes "tpromise t = None"
  shows "callback_body throws t s = Inr (s\<lparr>dlog := dlog s @
    LTriggered (tid t) # (if throws (tcallback t) then [LCallbackException] else [])\<rparr>)"
  using assms by (simp add: callback_body_def callback_handler_def say_def)

definition callback_output :: "('cb \<Rightarrow> bool) \<Rightarrow> 'cb TimerTask \<times> bool \<Rightarrow> dual_log list" where
  "callback_output throws c = (if snd c then [] else
     LTriggered (tid (fst c)) # (if throws (tcallback (fst c)) then [LCallbackException] else []))"

lemma join_callbacks_plain:
  assumes "\<forall>c \<in> set cs. tpromise (fst c) = None"
  shows "\<exists>s'. join_callbacks throws cs s = Inr s' \<and> running s' = running s \<and> tasks s' = tasks s \<and>
    active_tasks s' = active_tasks s \<and> callback_threads s' = [] \<and> promises s' = promises s \<and>
    dlog s' = dlog s @ concat (map (callback_output throws) cs)"
  using assms
proof (induction cs arbitrary: s)
  case (Cons c cs)
  obtain t fin where [simp]: "c = (t, fin)" by force
  show ?case
  proof (cases fin)
    case True
    with Cons show ?thesis by (simp add: callback_output_def)
  next
    case False
    from Cons.prems have "tpromise t = None" by simp
    note body = callback_body_plain[OF this, of throws s]
    let ?s1 = "s\<lparr>dlog := dlog s @
      LTriggered (tid t) # (if throws (tcallback t) then [LCallbackException] else [])\<rparr>"
    from Cons.IH[of ?s1] Cons.prems body False show ?thesis by (auto simp: callback_output_def)
  qed
qed simp

text \<open>\<^verbatim>\<open>stop()\<close> on a running timer whose manager leaves its loop returns without error: nothing is active
  or queued, no callback thread is left, and the console shows the callbacks that were still running,
  between the cancellation of all timers and the final message.\<close>

theorem dual_stop_clean:
  assumes "dual_inv s"
  shows "\<exists>s'. dual_stop throws s = Inr s' \<and> \<not> isRunning s' \<and> getActiveTimerCount s' = 0 \<and> tasks s' = [] \<and>
     callback_threads s' = [] \<and>
     dlog s' = dlog s @ [LStopping, LCancelAll (getActiveTimerCount s)] @
       concat (map (callback_output throws) (callback_threads s)) @ [LStopped]"
proof -
  let ?s2 = "cancelAllTimers ((say LStopping s)\<lparr>running := False\<rparr>)"
  have "\<forall>c \<in> set (callback_threads s). tpromise (fst c) = None" using assms by (simp add: dual_inv_def)
  from join_callbacks_plain[OF this, of throws ?s2] show ?thesis
    using assms by (auto simp: dual_stop_def dual_inv_def isRunning_def getActiveTimerCount_def
        cancelAllTimers_def say_def Let_def)
qed

theorem dual_stop_clean_witness:
  "\<exists>s'. dual_stop (\<lambda>_. False) dual_demo = Inr s' \<and> \<not> isRunning s' \<and> getActiveTimerCount s' = 0 \<and>
     tasks s' = [] \<and> callback_threads s' = [] \<and>
     dlog s' = dlog dual_demo @ [LStopping, LCancelAll (getActiveTimerCount dual_demo)] @
       concat (map (callback_output (\<lambda>_. False)) (callback_threads dual_demo)) @ [LStopped]"
  by (rule dual_stop_clean[OF dual_demo_ok(1)])

text \<open>Cancelling the timer behind \<^verbatim>\<open>addBlockingTimer\<close> settles no promise: the blocked caller is not woken
  and leaves by its own timeout, duration plus 100 ms.\<close>

lemma cancel_does_not_wake:
  assumes "dual_inv s" and "cancelTimer i s = Inr (b, s')"
  shows "promises s' = promises s"
  using assms dual_activeD(5)[OF assms(1), of i]
  by (auto simp: cancelTimer_def say_def split: option.splits)

end
