(* ===== verification/Graceful_Timer.thy ===== *)
theory Graceful_Timer
  imports Timer_Contract "HOL-Library.AList"
begin

text \<open>
  \<^verbatim>\<open>class GracefulTimer\<close> of \<^verbatim>\<open>src/other/timer/dualTimer/timer_demo.cpp\<close>. The manager thread runs the callbacks
  itself; \<^verbatim>\<open>cancelTimer\<close> only marks the entry of \<^verbatim>\<open>active_tasks_\<close>, which the manager drops when it expires; a
  global \<^verbatim>\<open>should_exit\<close> set by a signal handler makes every operation refuse or leave.

  The two polling loops read the clock, the callback counter and the flag on every round: those readings
  are functions of the round number, and the loops take fuel. The properties show how much fuel is
  enough when the clock advances with the sleeps of the loop.
\<close>

section \<open>State\<close>

record 'cb TimerTask =
  id :: int
  expiry_time :: time
  callback :: 'cb
  is_cancelled :: bool

datatype graceful_log =
    GStarted
  | GStopping
  | GStopped
  | GWaiting int
  | GWaitTimeout
  | GWaitExit
  | GWaitDone
  | GBlockBegin int
  | GBlockExit
  | GBlockStop
  | GBlockEnd
  | GRefuseExit
  | GRefuseStopped
  | GAdded int int int
  | GCancelled int
  | GRun int
  | GCbBegin int int
  | GCbException int
  | GCbEnd int int
  | GSkip int
  | GSignal int

record 'cb GracefulTimer =
  running :: bool
  should_exit :: bool
  tasks_queue :: "'cb TimerTask list"
  active_tasks :: "(int \<times> 'cb TimerTask) list"
  next_id :: int
  active_callbacks :: int
  pending_timers :: "int set"
  glog :: "graceful_log list"

definition say :: "graceful_log \<Rightarrow> 'cb GracefulTimer \<Rightarrow> 'cb GracefulTimer" where
  "say m s = s\<lparr>glog := glog s @ [m]\<rparr>"

definition signal_handler :: "int \<Rightarrow> 'cb GracefulTimer \<Rightarrow> 'cb GracefulTimer" where
  "signal_handler sig s = (say (GSignal sig) s)\<lparr>should_exit := True\<rparr>"

definition GracefulTimer_ctor :: "'cb GracefulTimer" where
  "GracefulTimer_ctor = \<lparr>running = False, should_exit = False, tasks_queue = [], active_tasks = [],
     next_id = 0, active_callbacks = 0, pending_timers = {}, glog = []\<rparr>"

section \<open>Methods\<close>

definition start :: "'cb GracefulTimer \<Rightarrow> 'cb GracefulTimer" where
  "start s = (if running s then s else say GStarted (s\<lparr>running := True\<rparr>))"

text \<open>The loop of \<^verbatim>\<open>waitForAllCallbacks\<close>; \<open>act\<close>, \<open>clk\<close> and \<open>ex\<close> are what round \<open>k\<close> reads.\<close>

fun wait_loop ::
  "nat \<Rightarrow> (nat \<Rightarrow> int) \<Rightarrow> (nat \<Rightarrow> time) \<Rightarrow> (nat \<Rightarrow> bool) \<Rightarrow> time \<Rightarrow> int \<Rightarrow> nat \<Rightarrow> (graceful_log \<times> bool) option" where
  "wait_loop 0 act clk ex st timeout k = None"
| "wait_loop (Suc n) act clk ex st timeout k =
     (if act k > 0 then
        if clk k - st \<ge> ms timeout then Some (GWaitTimeout, False)
        else if ex k then Some (GWaitExit, False)
        else wait_loop n act clk ex st timeout (Suc k)
      else Some (GWaitDone, True))"

definition waitForAllCallbacks ::
  "nat \<Rightarrow> (nat \<Rightarrow> int) \<Rightarrow> (nat \<Rightarrow> time) \<Rightarrow> (nat \<Rightarrow> bool) \<Rightarrow> time \<Rightarrow> int \<Rightarrow> 'cb GracefulTimer \<Rightarrow>
   (bool \<times> 'cb GracefulTimer) option" where
  "waitForAllCallbacks n act clk ex st timeout s =
     map_option (\<lambda>(m, b). (b, say m (say (GWaiting (active_callbacks s)) s)))
       (wait_loop n act clk ex st timeout 0)"

text \<open>\<^verbatim>\<open>stop\<close>: the manager thread is joined, then the callbacks are waited for (at most 10 s) if asked.\<close>

definition stop ::
  "nat \<Rightarrow> (nat \<Rightarrow> int) \<Rightarrow> (nat \<Rightarrow> time) \<Rightarrow> (nat \<Rightarrow> bool) \<Rightarrow> time \<Rightarrow> bool \<Rightarrow> 'cb GracefulTimer \<Rightarrow> 'cb GracefulTimer option" where
  "stop n act clk ex st wait_for_callbacks s =
     (if \<not> running s then Some s
      else let s1 = (say GStopping s)\<lparr>running := False\<rparr> in
        Option.bind (if wait_for_callbacks then map_option snd (waitForAllCallbacks n act clk ex st 10000 s1)
                     else Some s1)
          (\<lambda>s2. Some (say GStopped (s2\<lparr>tasks_queue := [], active_tasks := [], pending_timers := {}\<rparr>))))"

text \<open>The polling loop of \<^verbatim>\<open>addBlockingTimer\<close>: \<open>c1\<close> is the clock reading of the loop condition, the result also
  carries the last round. The second reading of a round only sets the length of its sleep, \<open>sleep_of\<close>.\<close>

fun block_loop ::
  "nat \<Rightarrow> (nat \<Rightarrow> time) \<Rightarrow> (nat \<Rightarrow> bool) \<Rightarrow> (nat \<Rightarrow> bool) \<Rightarrow> time \<Rightarrow> nat \<Rightarrow> (graceful_log \<times> bool \<times> nat) option" where
  "block_loop 0 c1 ex should_stop e k = None"
| "block_loop (Suc n) c1 ex should_stop e k =
     (if c1 k < e then
        if ex k then Some (GBlockExit, False, k)
        else if should_stop k then Some (GBlockStop, False, k)
        else block_loop n c1 ex should_stop e (Suc k)
      else Some (GBlockEnd, True, k))"

definition sleep_of :: "time \<Rightarrow> time \<Rightarrow> time" where
  "sleep_of e now = min (e - now) (ms 100)"

definition addBlockingTimer ::
  "nat \<Rightarrow> (nat \<Rightarrow> time) \<Rightarrow> (nat \<Rightarrow> bool) \<Rightarrow> (nat \<Rightarrow> bool) option \<Rightarrow> time \<Rightarrow> int \<Rightarrow> 'cb GracefulTimer \<Rightarrow>
   (bool \<times> 'cb GracefulTimer) option" where
  "addBlockingTimer n c1 ex should_stop st d s =
     map_option (\<lambda>(m, b, k). (b, say m (say (GBlockBegin d) s)))
       (block_loop n c1 ex (case should_stop of None \<Rightarrow> (\<lambda>_. False) | Some f \<Rightarrow> f) (st + ms d) 0)"

definition addNonBlockingTimer :: "time \<Rightarrow> int \<Rightarrow> 'cb \<Rightarrow> 'cb GracefulTimer \<Rightarrow> int \<times> 'cb GracefulTimer" where
  "addNonBlockingTimer now d cb s =
     (if should_exit s then (- 1, say GRefuseExit s)
      else if \<not> running s then (- 1, say GRefuseStopped s)
      else let i = wrap_int (next_id s + 1);
               task = \<lparr>id = i, expiry_time = now + ms d, callback = cb, is_cancelled = False\<rparr>;
               s1 = s\<lparr>next_id := i, pending_timers := insert i (pending_timers s),
                      tasks_queue := pq_push expiry_time task (tasks_queue s),
                      active_tasks := AList.update i task (active_tasks s)\<rparr>
           in (i, say (GAdded i d (active_callbacks s1)) s1))"

definition cancelTimer :: "int \<Rightarrow> 'cb GracefulTimer \<Rightarrow> bool \<times> 'cb GracefulTimer" where
  "cancelTimer i s = (case map_of (active_tasks s) i of
     None \<Rightarrow> (False, s)
   | Some t \<Rightarrow> (True, say (GCancelled i)
       (s\<lparr>active_tasks := AList.update i (t\<lparr>is_cancelled := True\<rparr>) (active_tasks s),
          pending_timers := pending_timers s - {i}\<rparr>)))"

definition getActiveCallbackCount :: "'cb GracefulTimer \<Rightarrow> int" where
  "getActiveCallbackCount s = active_callbacks s"

definition getPendingTimerCount :: "'cb GracefulTimer \<Rightarrow> nat" where
  "getPendingTimerCount s = card (pending_timers s)"

definition isRunning :: "'cb GracefulTimer \<Rightarrow> bool" where
  "isRunning s = running s"

text \<open>The callback that \<^verbatim>\<open>addNonBlockingTimer\<close> wraps around the caller's.\<close>

definition run_callback :: "('cb \<Rightarrow> bool) \<Rightarrow> 'cb TimerTask \<Rightarrow> 'cb GracefulTimer \<Rightarrow> 'cb GracefulTimer" where
  "run_callback throws t s =
     (let s1 = s\<lparr>active_callbacks := wrap_int (active_callbacks s + 1)\<rparr>;
          s2 = say (GCbBegin (id t) (active_callbacks s1)) s1;
          s3 = (if throws (callback t) then say (GCbException (id t)) s2 else s2);
          s4 = s3\<lparr>active_callbacks := wrap_int (active_callbacks s3 - 1)\<rparr>;
          s5 = say (GCbEnd (id t) (active_callbacks s4)) s4
      in s5\<lparr>pending_timers := pending_timers s5 - {id t}\<rparr>)"

text \<open>One round of \<^verbatim>\<open>managerThread\<close>, the callback included. A round that meets an empty queue only
  waits; if the wait ends because a task has come, the next round of the model is the rest of it.\<close>

definition managerThread_step :: "('cb \<Rightarrow> bool) \<Rightarrow> time \<Rightarrow> 'cb GracefulTimer \<Rightarrow> int list \<times> 'cb GracefulTimer" where
  "managerThread_step throws now s =
     (if \<not> running s then ([], s)
      else case tasks_queue s of
        [] \<Rightarrow> ([], s)
      | t # ts \<Rightarrow>
          if now \<ge> expiry_time t then
            let s1 = s\<lparr>tasks_queue := ts\<rparr> in
            (case map_of (active_tasks s1) (id t) of
               Some a \<Rightarrow>
                 let s2 = s1\<lparr>active_tasks := AList.delete (id t) (active_tasks s1)\<rparr> in
                 if \<not> is_cancelled a then ([id a], run_callback throws a (say (GRun (id a)) s2))
                 else ([], say (GSkip (id t)) (s2\<lparr>pending_timers := pending_timers s2 - {id t}\<rparr>))
             | None \<Rightarrow> ([], s1\<lparr>pending_timers := pending_timers s1 - {id t}\<rparr>))
          else ([], s))"

section \<open>The timer contract\<close>

text \<open>The queue holds every active task up to the cancel mark; \<^verbatim>\<open>pending_timers_\<close> is exactly the set of active
  timers that are not cancelled.\<close>

definition graceful_inv :: "'cb GracefulTimer \<Rightarrow> bool" where
  "graceful_inv s \<longleftrightarrow> running s \<and> \<not> should_exit s \<and> 0 \<le> next_id s \<and> active_callbacks s = 0 \<and>
     pq_ok expiry_time (tasks_queue s) \<and> distinct (map id (tasks_queue s)) \<and>
     (\<forall>t \<in> set (tasks_queue s). id t \<le> next_id s \<and> \<not> is_cancelled t) \<and>
     (\<forall>i t. map_of (active_tasks s) i = Some t \<longrightarrow> id t = i \<and> t\<lparr>is_cancelled := False\<rparr> \<in> set (tasks_queue s)) \<and>
     pending_timers s = {i. \<exists>t. map_of (active_tasks s) i = Some t \<and> \<not> is_cancelled t}"

definition graceful_pending :: "'cb GracefulTimer \<Rightarrow> int \<Rightarrow> time option" where
  "graceful_pending s i = (case map_of (active_tasks s) i of
     Some t \<Rightarrow> if is_cancelled t then None else Some (expiry_time t) | None \<Rightarrow> None)"

lemma graceful_activeD:
  assumes "graceful_inv s" and "map_of (active_tasks s) i = Some t"
  shows "id t = i" "t\<lparr>is_cancelled := False\<rparr> \<in> set (tasks_queue s)" "i \<le> next_id s"
proof -
  show "id t = i" and q: "t\<lparr>is_cancelled := False\<rparr> \<in> set (tasks_queue s)"
    using assms by (auto simp: graceful_inv_def)
  with assms(1) have "id (t\<lparr>is_cancelled := False\<rparr>) \<le> next_id s" unfolding graceful_inv_def by blast
  with \<open>id t = i\<close> show "i \<le> next_id s" by simp
qed

lemma graceful_add_correct:
  assumes inv: "graceful_inv s" and room: "next_id s < INT_MAX - 1"
  shows "\<exists>s'. addNonBlockingTimer now d cb s = (next_id s + 1, s') \<and> graceful_inv s' \<and>
     graceful_pending s' = (graceful_pending s)(next_id s + 1 \<mapsto> now + ms d) \<and> next_id s' = next_id s + 1"
proof -
  have w: "wrap_int (next_id s + 1) = next_id s + 1"
    using inv room by (intro wrap_int_in) (simp add: graceful_inv_def in_int_numerals INT_MAX_def)
  have "next_id s + 1 \<notin> id ` set (tasks_queue s)" using inv by (fastforce simp: graceful_inv_def)
  with inv w show ?thesis
    by (auto simp: addNonBlockingTimer_def Let_def say_def graceful_inv_def graceful_pending_def
        update_conv fun_eq_iff split: if_splits)
qed

lemma graceful_cancel_correct:
  assumes inv: "graceful_inv s" and c: "cancelTimer i s = (b, s')"
  shows "b \<longleftrightarrow> map_of (active_tasks s) i \<noteq> None" "graceful_inv s'" "next_id s' = next_id s"
    "graceful_pending s' = (graceful_pending s)(i := None)"
  using inv c
  by (auto simp: cancelTimer_def say_def graceful_pending_def graceful_inv_def update_conv fun_eq_iff
      split: option.splits if_splits)

lemma run_callback_frame:
  assumes "active_callbacks s = 0"
  shows "running (run_callback throws t s) = running s"
    "should_exit (run_callback throws t s) = should_exit s"
    "tasks_queue (run_callback throws t s) = tasks_queue s"
    "active_tasks (run_callback throws t s) = active_tasks s"
    "next_id (run_callback throws t s) = next_id s"
    "active_callbacks (run_callback throws t s) = 0"
    "pending_timers (run_callback throws t s) = pending_timers s - {id t}"
  using assms by (simp_all add: run_callback_def say_def Let_def wrap_int_def)

text \<open>Dropping the queue's first task together with its active entry keeps the invariant.\<close>

lemma graceful_inv_pop:
  assumes inv: "graceful_inv s" and q: "tasks_queue s = t # ts"
    and s': "running s' = running s" "should_exit s' = should_exit s" "next_id s' = next_id s"
      "active_callbacks s' = 0" "tasks_queue s' = ts"
      "active_tasks s' = AList.delete (id t) (active_tasks s)"
      "pending_timers s' = pending_timers s - {id t}"
  shows "graceful_inv s'"
    "graceful_pending s' = (graceful_pending s)(id t := None)"
proof -
  show "graceful_pending s' = (graceful_pending s)(id t := None)"
    by (auto simp: graceful_pending_def s' delete_conv fun_eq_iff)
  have "a\<lparr>is_cancelled := False\<rparr> \<in> set ts" if "map_of (active_tasks s) i = Some a" "i \<noteq> id t" for i a
  proof -
    have "a\<lparr>is_cancelled := False\<rparr> \<noteq> t" using graceful_activeD(1)[OF inv that(1)] that(2) by auto
    then show ?thesis using graceful_activeD(2)[OF inv that(1)] q by simp
  qed
  then show "graceful_inv s'" using inv q unfolding graceful_inv_def s'
    by (auto simp: delete_conv dest: pq_ok_tl split: if_splits)
qed

lemma graceful_active_top:
  assumes inv: "graceful_inv s" and q: "tasks_queue s = t # ts"
    and a: "map_of (active_tasks s) (id t) = Some a"
  shows "id a = id t" "expiry_time a = expiry_time t"
proof -
  show i: "id a = id t" by (rule graceful_activeD(1)[OF inv a])
  have "distinct (map id (t # ts))" using inv q by (simp add: graceful_inv_def)
  moreover have "a\<lparr>is_cancelled := False\<rparr> \<in> set (t # ts)" using graceful_activeD(2)[OF inv a] q by simp
  moreover have "id (a\<lparr>is_cancelled := False\<rparr>) = id t" using i by simp
  ultimately have "a\<lparr>is_cancelled := False\<rparr> = t" by (metis distinct.simps(2) image_eqI list.simps(9) list.set_map set_ConsD)
  then show "expiry_time a = expiry_time t" by auto
qed

lemma graceful_top_least:
  assumes inv: "graceful_inv s" and q: "tasks_queue s = t # ts" and "graceful_pending s j = Some v"
  shows "expiry_time t \<le> v"
proof -
  from assms(3) obtain a where a: "map_of (active_tasks s) j = Some a" "v = expiry_time a"
    by (auto simp: graceful_pending_def split: option.splits if_splits)
  have "pq_ok expiry_time (t # ts)" using inv q by (simp add: graceful_inv_def)
  from pq_top_least[OF this, of "a\<lparr>is_cancelled := False\<rparr>"] graceful_activeD(2)[OF inv a(1)] q a(2)
  show ?thesis by simp
qed

lemma graceful_tickE:
  assumes inv: "graceful_inv s" and m: "managerThread_step throws now s = (fs, s')"
  obtains (idle) "fs = []" "s' = s" "tasks_queue s = [] \<or> now < expiry_time (hd (tasks_queue s))"
  | (skip) t ts where "fs = []" "tasks_queue s = t # ts" "graceful_pending s (id t) = None"
      "graceful_inv s'" "graceful_pending s' = graceful_pending s" "next_id s' = next_id s"
      "tasks_queue s' = ts"
  | (fire) t ts where "fs = [id t]" "tasks_queue s = t # ts" "expiry_time t \<le> now"
      "graceful_pending s (id t) = Some (expiry_time t)" "graceful_inv s'"
      "graceful_pending s' = (graceful_pending s)(id t := None)" "next_id s' = next_id s"
      "tasks_queue s' = ts"
proof (cases "tasks_queue s")
  case Nil
  with m inv idle show ?thesis by (simp add: managerThread_step_def graceful_inv_def)
next
  case (Cons t ts)
  have r: "running s" "active_callbacks s = 0" using inv by (auto simp: graceful_inv_def)
  show ?thesis
  proof (cases "expiry_time t \<le> now")
    case False
    with m Cons r idle show ?thesis by (simp add: managerThread_step_def)
  next
    case True
    note step = m[symmetric] r Cons True
    note pop = graceful_inv_pop[OF inv Cons, of s']
    show ?thesis
    proof (cases "map_of (active_tasks s) (id t)")
      case None
      then have s': "fs = []" "s' = s\<lparr>tasks_queue := ts, pending_timers := pending_timers s - {id t}\<rparr>"
        using step by (auto simp: managerThread_step_def Let_def)
      have np: "graceful_pending s (id t) = None" by (simp add: graceful_pending_def None)
      have "AList.delete (id t) (active_tasks s) = active_tasks s"
        using None by (auto simp: AList.delete_eq map_of_eq_None_iff filter_id_conv image_iff)
      with pop r s'(2) have "graceful_inv s'" "graceful_pending s' = (graceful_pending s)(id t := None)"
        by simp_all
      with skip[OF s'(1) Cons np] np s'(2) show ?thesis by (simp add: fun_upd_idem)
    next
      case (Some a)
      note top = graceful_active_top[OF inv Cons Some]
      show ?thesis
      proof (cases "is_cancelled a")
        case True
        have np: "graceful_pending s (id t) = None" by (simp add: graceful_pending_def Some True)
        from step Some True have s': "fs = []" "s' = say (GSkip (id t)) (s\<lparr>tasks_queue := ts,
            active_tasks := AList.delete (id t) (active_tasks s), pending_timers := pending_timers s - {id t}\<rparr>)"
          by (auto simp: managerThread_step_def Let_def)
        with pop r have "graceful_inv s'" "graceful_pending s' = (graceful_pending s)(id t := None)"
          by (simp_all add: say_def)
        with skip[OF s'(1) Cons np] np s'(2) show ?thesis by (simp add: fun_upd_idem say_def)
      next
        case False
        have p: "graceful_pending s (id t) = Some (expiry_time t)"
          by (simp add: graceful_pending_def Some False top)
        from step Some False have s': "fs = [id t]" "s' = run_callback throws a (say (GRun (id a))
            (s\<lparr>tasks_queue := ts, active_tasks := AList.delete (id t) (active_tasks s)\<rparr>))"
          by (auto simp: managerThread_step_def Let_def top)
        have rest: "next_id s' = next_id s" "tasks_queue s' = ts"
          using r unfolding s'(2) by (simp_all add: run_callback_frame say_def)
        from pop r s'(2) have "graceful_inv s'" "graceful_pending s' = (graceful_pending s)(id t := None)"
          by (simp_all add: run_callback_frame say_def top)
        from fire[OF s'(1) Cons \<open>expiry_time t \<le> now\<close> p this rest] show ?thesis .
      qed
    qed
  qed
qed

lemma graceful_tick_progress:
  assumes inv: "graceful_inv s" and p: "graceful_pending s j = Some w" and "w \<le> now"
    and m: "managerThread_step throws now s = (fs, s')"
  shows "length (tasks_queue s') < length (tasks_queue s)"
proof (cases rule: graceful_tickE[OF inv m])
  case 1
  from p obtain a where "map_of (active_tasks s) j = Some a"
    by (auto simp: graceful_pending_def split: option.splits)
  with graceful_activeD(2)[OF inv] have "tasks_queue s \<noteq> []" by fastforce
  then show ?thesis
    using 1(3) assms(3) graceful_top_least[OF inv _ p] by (cases "tasks_queue s") auto
qed auto

abbreviation graceful_cancel :: "int \<Rightarrow> 'cb GracefulTimer \<Rightarrow> (bool \<times> 'cb GracefulTimer) result" where
  "graceful_cancel i s \<equiv> Inr (cancelTimer i s)"

abbreviation graceful_tick :: "('cb \<Rightarrow> bool) \<Rightarrow> time \<Rightarrow> 'cb GracefulTimer \<Rightarrow> (int list \<times> 'cb GracefulTimer) result" where
  "graceful_tick throws now s \<equiv> Inr (managerThread_step throws now s)"

abbreviation graceful_add :: "time \<Rightarrow> int \<Rightarrow> 'cb \<Rightarrow> 'cb GracefulTimer \<Rightarrow> (int \<times> 'cb GracefulTimer) result" where
  "graceful_add now d cb s \<equiv> Inr (addNonBlockingTimer now d cb s)"

interpretation graceful: timer_impl graceful_add graceful_cancel "graceful_tick throws" graceful_pending
  "length \<circ> tasks_queue" next_id graceful_inv for throws
proof
  fix s :: "'a GracefulTimer" and i w
  assume inv: "graceful_inv s" and "graceful_pending s i = Some w"
  then obtain t where "map_of (active_tasks s) i = Some t"
    by (auto simp: graceful_pending_def split: option.splits)
  then show "i \<le> next_id s" by (rule graceful_activeD(3)[OF inv])
next
  fix s :: "'a GracefulTimer" and i
  assume inv: "graceful_inv s"
  obtain b s' where c: "cancelTimer i s = (b, s')" by force
  have "graceful_pending s i \<noteq> None \<longrightarrow> map_of (active_tasks s) i \<noteq> None"
    by (auto simp: graceful_pending_def split: option.splits)
  with graceful_cancel_correct[OF inv c] c
  show "\<exists>b s'. graceful_cancel i s = Inr (b, s') \<and> (graceful_pending s i \<noteq> None \<longrightarrow> b) \<and>
     graceful_inv s' \<and> graceful_pending s' = (graceful_pending s)(i := None) \<and> next_id s' = next_id s" by simp
next
  fix s :: "'a GracefulTimer" and now
  assume inv: "graceful_inv s"
  obtain fs s' where m: "managerThread_step throws now s = (fs, s')" by force
  show "\<exists>fs s'. graceful_tick throws now s = Inr (fs, s') \<and> graceful_inv s' \<and> next_id s' = next_id s \<and>
      (fs = [] \<and> graceful_pending s' = graceful_pending s \<or>
       (\<exists>i w. fs = [i] \<and> graceful_pending s i = Some w \<and> w \<le> now \<and>
         (\<forall>j v. graceful_pending s j = Some v \<longrightarrow> w \<le> v) \<and>
         graceful_pending s' = (graceful_pending s)(i := None)))"
  proof (cases rule: graceful_tickE[OF inv m])
    case (3 t ts)
    with m graceful_top_least[OF inv 3(2)] show ?thesis by auto
  qed (use m inv in auto)
qed (use graceful_add_correct graceful_tick_progress in auto)

section \<open>Properties\<close>

lemma graceful_fresh:
  "graceful_inv (start GracefulTimer_ctor)" "next_id (start GracefulTimer_ctor) = 0"
  by (simp_all add: graceful_inv_def start_def GracefulTimer_ctor_def say_def)

text \<open>\<^verbatim>\<open>getPendingTimerCount\<close> is right at every moment: after any sequence of adds, cancels and manager
  rounds on a started timer it is the number of timers that are neither fired nor cancelled, and no
  callback is counted as running.\<close>

theorem graceful_pending_count:
  assumes "int (length ops) < 2147483647"
  shows "\<exists>fs s. timer_run graceful_add graceful_cancel (graceful_tick throws) ops (start GracefulTimer_ctor) =
     Inr (fs, s) \<and> distinct fs \<and> getPendingTimerCount s = card (dom (graceful_pending s)) \<and>
     getActiveCallbackCount s = 0 \<and> set fs \<inter> dom (graceful_pending s) = {}"
proof -
  have "next_id (start GracefulTimer_ctor :: 'a GracefulTimer) + int (length ops) < INT_MAX"
    using assms by (simp add: graceful_fresh INT_MAX_def)
  from graceful.run_total[OF graceful_fresh(1) this, of throws] obtain fs s where
    r: "timer_run graceful_add graceful_cancel (graceful_tick throws) ops (start GracefulTimer_ctor) = Inr (fs, s)"
    "graceful_inv s" "graceful.safe_run (start GracefulTimer_ctor) fs s" by blast
  have "pending_timers s = dom (graceful_pending s)"
    using r(2) by (auto simp: graceful_inv_def graceful_pending_def split: option.splits if_splits)
  moreover have "active_callbacks s = 0" using r(2) by (simp add: graceful_inv_def)
  moreover have "set fs \<inter> dom (graceful_pending s) = {}" "distinct fs"
    using r(3) by (auto simp: graceful.safe_run_def)
  ultimately show ?thesis using r(1) by (simp add: getPendingTimerCount_def getActiveCallbackCount_def)
qed

theorem graceful_pending_count_witness:
  "\<exists>fs s. timer_run graceful_add graceful_cancel (graceful_tick (\<lambda>_. False))
     [OpAdd 0 5 ''a'', OpAdd 0 9 ''b'', OpCancel 1, OpTick 6000000] (start GracefulTimer_ctor) =
     Inr (fs, s) \<and> distinct fs \<and> getPendingTimerCount s = card (dom (graceful_pending s)) \<and>
     getActiveCallbackCount s = 0 \<and> set fs \<inter> dom (graceful_pending s) = {}"
  by (rule graceful_pending_count) simp

text \<open>A timer of the other two classes disappears from \<^verbatim>\<open>active_tasks_\<close> when cancelled; here it stays, so a
  second cancel of the same id succeeds as well.\<close>

lemma cancel_twice:
  assumes "cancelTimer i s = (True, s1)"
  shows "fst (cancelTimer i s1)"
  using assms by (auto simp: cancelTimer_def say_def update_conv split: option.splits)

lemma block_loop_rounds:
  assumes clk: "\<And>k. c1 k \<le> c2 k \<and> c2 k + sleep_of e (c2 k) \<le> c1 (Suc k)"
    and "e \<le> c1 k + ms (100 * int n)"
  shows "\<exists>m b k'. block_loop (Suc n) c1 ex stp e k = Some (m, b, k')"
  using assms(2)
proof (induction n arbitrary: k)
  case (Suc n)
  have "e \<le> c1 (Suc k) + ms (100 * int n) \<or> c1 (Suc k) \<ge> e"
    using clk[of k] Suc.prems by (auto simp: sleep_of_def ms_def min_def algebra_simps split: if_splits)
  then have "e \<le> c1 (Suc k) + ms (100 * int n)" by (auto simp: ms_def)
  from Suc.IH[OF this] show ?case by (subst block_loop.simps) auto
qed (auto simp: ms_def)

lemma block_loop_result:
  "block_loop n c1 ex stp e k = Some (m, b, k') \<Longrightarrow>
     k \<le> k' \<and> (b \<longrightarrow> m = GBlockEnd \<and> e \<le> c1 k') \<and> (\<not> b \<longrightarrow> c1 k' < e \<and> (ex k' \<or> stp k'))"
proof (induction n arbitrary: k)
  case (Suc n)
  show ?case
  proof (cases "c1 k < e \<and> \<not> ex k \<and> \<not> stp k")
    case True
    with Suc.prems Suc.IH[of "Suc k"] show ?thesis by (auto dest: Suc_leD)
  qed (use Suc.prems in \<open>auto split: if_splits\<close>)
qed simp

text \<open>A blocking timer always comes back: with a clock that advances with the loop's sleeps, a wait of \<open>d\<close>
  milliseconds ends within \<open>d / 100 + 2\<close> rounds; it answers true exactly when the clock had reached the
  end, and false only because the program is exiting or the caller's condition held.\<close>

theorem blocking_returns:
  assumes clk: "\<forall>k. c1 k \<le> c2 k \<and> c2 k + sleep_of (st + ms d) (c2 k) \<le> c1 (Suc k)" and "st \<le> c1 0"
    and "0 \<le> d"
  shows "\<exists>b s' k. addBlockingTimer (nat (d div 100) + 2) c1 ex stp st d s = Some (b, s') \<and>
     (b \<longrightarrow> st + ms d \<le> c1 k) \<and>
     (\<not> b \<longrightarrow> c1 k < st + ms d \<and> (ex k \<or> (\<exists>f. stp = Some f \<and> f k)))"
proof -
  let ?stp = "case stp of None \<Rightarrow> (\<lambda>_. False) | Some f \<Rightarrow> f"
  let ?n = "nat (d div 100) + 1"
  have "d \<le> 100 * (d div 100 + 1)" using assms(3) by simp
  then have "d \<le> 100 * int ?n" using assms(3) by (simp add: pos_imp_zdiv_nonneg_iff)
  then have "st + ms d \<le> c1 0 + ms (100 * int ?n)" using assms(2) unfolding ms_def by linarith
  from block_loop_rounds[of c1 c2, OF _ this, of ex ?stp] clk obtain m b k where
    l: "block_loop (Suc ?n) c1 ex ?stp (st + ms d) 0 = Some (m, b, k)" by blast
  have sp: "\<exists>f. stp = Some f \<and> f k" if "?stp k" using that by (cases stp) auto
  from l have "addBlockingTimer (nat (d div 100) + 2) c1 ex stp st d s = Some (b, say m (say (GBlockBegin d) s))"
    by (simp only: addBlockingTimer_def add_2_eq_Suc' Suc_eq_plus1[symmetric]) simp
  with block_loop_result[OF l] sp show ?thesis by blast
qed

theorem blocking_returns_witness:
  "\<exists>b s' k. addBlockingTimer 4 (\<lambda>k. int k * 100000000) (\<lambda>_. False) None 0 250
     (start (GracefulTimer_ctor :: string GracefulTimer)) = Some (b, s') \<and>
     (b \<longrightarrow> 0 + ms 250 \<le> int k * 100000000) \<and>
     (\<not> b \<longrightarrow> int k * 100000000 < 0 + ms 250 \<and> (False \<or> (\<exists>f. None = Some f \<and> f k)))"
proof -
  have c: "\<forall>k. int k * 100000000 \<le> int k * 100000000 \<and>
    int k * 100000000 + sleep_of (0 + ms 250) (int k * 100000000) \<le> int (Suc k) * 100000000"
    by (auto simp: sleep_of_def ms_def)
  have n: "nat (250 div 100) + 2 = 4" by simp
  show ?thesis
    using blocking_returns[OF c, where ex = "\<lambda>_. False" and stp = None and s = "start (GracefulTimer_ctor :: string GracefulTimer)"] unfolding n by simp
qed

lemma wait_loop_rounds:
  assumes clk: "\<And>k. clk k + ms 100 \<le> clk (Suc k)"
    and "st + ms timeout \<le> clk k + ms (100 * int n)"
  shows "\<exists>m b. wait_loop (Suc n) act clk ex st timeout k = Some (m, b)"
  using assms(2)
proof (induction n arbitrary: k)
  case (Suc n)
  have "st + ms timeout \<le> clk (Suc k) + ms (100 * int n)"
    using clk[of k] Suc.prems by (simp add: ms_def algebra_simps)
  from Suc.IH[OF this] show ?case by (subst wait_loop.simps) auto
qed (auto simp: ms_def)

text \<open>\<^verbatim>\<open>stop()\<close> always comes back: with a clock that advances 100 ms per round, waiting for the callbacks takes
  at most 101 rounds, and then nothing is queued, active or pending.\<close>

theorem stop_returns:
  assumes "running s" and "\<forall>k. clk k + ms 100 \<le> clk (Suc k)" and "st \<le> clk 0"
  shows "\<exists>s'. stop 101 act clk ex st wt s = Some s' \<and> \<not> isRunning s' \<and> tasks_queue s' = [] \<and>
     active_tasks s' = [] \<and> getPendingTimerCount s' = 0"
proof -
  have "st + ms 10000 \<le> clk 0 + ms (100 * int 100)" using assms(3) by simp
  from wait_loop_rounds[of clk, OF _ this, of act ex] assms(2) obtain m b where
    "wait_loop (Suc 100) act clk ex st 10000 0 = Some (m, b)" by blast
  then have "waitForAllCallbacks 101 act clk ex st 10000 t =
      Some (b, say m (say (GWaiting (active_callbacks t)) t))" for t :: "'a GracefulTimer"
    unfolding waitForAllCallbacks_def by (simp del: wait_loop.simps)
  with assms(1) show ?thesis
    by (simp add: stop_def Let_def say_def isRunning_def getPendingTimerCount_def)
qed

theorem stop_returns_witness:
  "\<exists>s'. stop 101 (\<lambda>_. 1) (\<lambda>k. int k * 100000000) (\<lambda>_. False) 0 True
     (start (GracefulTimer_ctor :: string GracefulTimer)) = Some s' \<and>
     \<not> isRunning s' \<and> tasks_queue s' = [] \<and> active_tasks s' = [] \<and> getPendingTimerCount s' = 0"
  by (rule stop_returns) (auto simp: start_def GracefulTimer_ctor_def say_def ms_def)

end
