(* ===== verification/Stop_Race.thy ===== *)
theory Stop_Race
  imports Dual_Timer Graceful_Timer
begin

text \<open>
  The manager thread and a thread that calls \<^verbatim>\<open>stop()\<close>, interleaved: each step is one access to
  \<^verbatim>\<open>running_\<close>, the mutex or the condition variable. \<open>Dual_Timer\<close> and \<open>Graceful_Timer\<close> take a manager iteration and
  a call of \<^verbatim>\<open>stop()\<close> as wholes; here the order of their parts matters.

  The same step relation serves both classes. They differ in the wait on an empty queue, which is
  untimed in \<^verbatim>\<open>dualtimer.cc\<close> (and in \<^verbatim>\<open>originalTimer.cc\<close>, \<^verbatim>\<open>twomodestimer.cpp\<close>) and limited to 100 ms in
  \<^verbatim>\<open>timer_demo.cpp\<close> (\<open>timed\<close>), and in \<^verbatim>\<open>cancelAllTimers()\<close> between the store to \<^verbatim>\<open>running_\<close> and the notification
  (\<open>cancels\<close>). Spurious wake-ups, which the standard allows and does not promise, are no steps.
\<close>

datatype mgr_pc =
    MCheck       \<comment> \<open>at the test of \<^verbatim>\<open>running_\<close>, lock not held\<close>
  | MLock        \<comment> \<open>test passed, about to lock\<close>
  | MBody        \<comment> \<open>in the loop body, lock held\<close>
  | MWait        \<comment> \<open>blocked in \<^verbatim>\<open>cv_.wait\<close>\<close>
  | MWaitUntil   \<comment> \<open>blocked in a wait with a time limit\<close>
  | MRelock      \<comment> \<open>woken, about to lock again\<close>
  | MDone        \<comment> \<open>the thread function has returned\<close>

datatype stop_pc = SStore | SCancel | SNotify | SJoin | SDone

record race =
  run_flag :: bool
  held :: bool
  queue :: nat
  mpc :: mgr_pc
  spc :: stop_pc

definition race_init :: "nat \<Rightarrow> race" where
  "race_init q = \<lparr>run_flag = True, held = False, queue = q, mpc = MCheck, spc = SStore\<rparr>"

definition notified :: "mgr_pc \<Rightarrow> mgr_pc" where
  "notified p = (if p = MWait \<or> p = MWaitUntil then MRelock else p)"

inductive race_step :: "bool \<Rightarrow> bool \<Rightarrow> race \<Rightarrow> race \<Rightarrow> bool" for timed cancels where
  m_enter: "mpc s = MCheck \<Longrightarrow> run_flag s \<Longrightarrow> race_step timed cancels s (s\<lparr>mpc := MLock\<rparr>)"
| m_leave: "mpc s = MCheck \<Longrightarrow> \<not> run_flag s \<Longrightarrow> race_step timed cancels s (s\<lparr>mpc := MDone\<rparr>)"
| m_lock: "mpc s = MLock \<Longrightarrow> \<not> held s \<Longrightarrow> race_step timed cancels s (s\<lparr>mpc := MBody, held := True\<rparr>)"
| m_wait: "mpc s = MBody \<Longrightarrow> queue s = 0 \<Longrightarrow>
    race_step timed cancels s (s\<lparr>mpc := if timed then MWaitUntil else MWait, held := False\<rparr>)"
| m_wait_until: "mpc s = MBody \<Longrightarrow> queue s > 0 \<Longrightarrow>
    race_step timed cancels s (s\<lparr>mpc := MWaitUntil, held := False\<rparr>)"
| m_pop: "mpc s = MBody \<Longrightarrow> queue s > 0 \<Longrightarrow>
    race_step timed cancels s (s\<lparr>mpc := MCheck, held := False, queue := queue s - 1\<rparr>)"
| m_timeout: "mpc s = MWaitUntil \<Longrightarrow> race_step timed cancels s (s\<lparr>mpc := MRelock\<rparr>)"
| m_relock: "mpc s = MRelock \<Longrightarrow> \<not> held s \<Longrightarrow> race_step timed cancels s (s\<lparr>mpc := MCheck\<rparr>)"
| s_store: "spc s = SStore \<Longrightarrow>
    race_step timed cancels s (s\<lparr>run_flag := False, spc := if cancels then SCancel else SNotify\<rparr>)"
| s_cancel: "spc s = SCancel \<Longrightarrow> \<not> held s \<Longrightarrow> race_step timed cancels s (s\<lparr>queue := 0, spc := SNotify\<rparr>)"
| s_notify: "spc s = SNotify \<Longrightarrow> race_step timed cancels s (s\<lparr>mpc := notified (mpc s), spc := SJoin\<rparr>)"
| s_join: "spc s = SJoin \<Longrightarrow> mpc s = MDone \<Longrightarrow> race_step timed cancels s (s\<lparr>spc := SDone\<rparr>)"

inductive_simps race_stuck_simps: "race_step timed cancels \<lparr>run_flag = r, held = h, queue = q, mpc = m, spc = p\<rparr> t"

inductive race_reach :: "bool \<Rightarrow> bool \<Rightarrow> race \<Rightarrow> race \<Rightarrow> bool" for timed cancels where
  reach_refl: "race_reach timed cancels s s"
| reach_step: "race_reach timed cancels s t \<Longrightarrow> race_step timed cancels t u \<Longrightarrow> race_reach timed cancels s u"

lemma reach_trans: "race_reach b c t u \<Longrightarrow> race_reach b c s t \<Longrightarrow> race_reach b c s u"
  by (induction rule: race_reach.induct) (auto intro: race_reach.intros)

section \<open>The lost wake-up\<close>

text \<open>The manager has tested \<^verbatim>\<open>running_\<close>; \<^verbatim>\<open>stop()\<close> runs up to \<^verbatim>\<open>join()\<close>; the manager locks and waits.\<close>

definition lost :: race where
  "lost = \<lparr>run_flag = False, held = False, queue = 0, mpc = MWait, spc = SJoin\<rparr>"

lemma lost_stuck: "\<not> race_step timed cancels lost t"
  by (simp add: lost_def race_stuck_simps)

lemma lost_reached: "race_reach False True (race_init q) lost"
proof -
  let ?st = "\<lambda>r h q m p. \<lparr>run_flag = r, held = h, queue = q, mpc = m, spc = p\<rparr>"
  note step = reach_step[where timed = False and cancels = True]
  have "race_reach False True (race_init q) (?st True False q MCheck SStore)"
    by (simp add: race_init_def reach_refl)
  from step[OF this m_enter] have "race_reach False True (race_init q) (?st True False q MLock SStore)" by simp
  from step[OF this s_store] have "race_reach False True (race_init q) (?st False False q MLock SCancel)" by simp
  from step[OF this s_cancel] have "race_reach False True (race_init q) (?st False False 0 MLock SNotify)" by simp
  from step[OF this s_notify] have "race_reach False True (race_init q) (?st False False 0 MLock SJoin)"
    by (simp add: notified_def)
  from step[OF this m_lock] have "race_reach False True (race_init q) (?st False True 0 MBody SJoin)" by simp
  from step[OF this m_wait] show ?thesis by (simp add: lost_def)
qed

text \<open>C33: \<^verbatim>\<open>DualModeTimer::stop()\<close> can hang for ever: from every state in which the timer is running there is an
  interleaving after which the stopping thread is in \<^verbatim>\<open>join()\<close>, the manager waits on the condition variable,
  and neither can move.\<close>

theorem dual_stop_can_hang:
  "\<exists>t. race_reach False True (race_init q) t \<and> spc t = SJoin \<and> mpc t = MWait \<and> (\<forall>u. \<not> race_step False True t u)"
  using lost_reached[of q] lost_stuck by (intro exI[of _ lost]) (simp add: lost_def)

section \<open>Timed waits\<close>

definition race_inv :: "race \<Rightarrow> bool" where
  "race_inv s \<longleftrightarrow> mpc s \<noteq> MWait \<and> (held s \<longleftrightarrow> mpc s = MBody) \<and> (run_flag s \<longleftrightarrow> spc s = SStore) \<and>
     (mpc s = MDone \<longrightarrow> \<not> run_flag s)"

lemma race_inv_step: "race_step True c s t \<Longrightarrow> race_inv s \<Longrightarrow> race_inv t"
  by (induction rule: race_step.induct) (auto simp: race_inv_def notified_def)

lemma race_inv_reach: "race_reach b c s t \<Longrightarrow> b \<Longrightarrow> race_inv s \<Longrightarrow> race_inv t"
proof (induction rule: race_reach.induct)
  case (reach_step s t u)
  then show ?case using race_inv_step[of c t u] by (cases b) auto
qed

lemma race_inv_init: "race_inv (race_init q)"
  by (simp add: race_inv_def race_init_def)

text \<open>How far the stopping thread, then the manager, are from their end.\<close>

fun stop_left :: "stop_pc \<Rightarrow> nat" where
  "stop_left SStore = 4" | "stop_left SCancel = 3" | "stop_left SNotify = 2" | "stop_left SJoin = 1" | "stop_left SDone = 0"

fun mgr_left :: "mgr_pc \<Rightarrow> nat" where
  "mgr_left MLock = 5" | "mgr_left MBody = 4" | "mgr_left MWait = 3" | "mgr_left MWaitUntil = 3" | "mgr_left MRelock = 2" | "mgr_left MCheck = 1" | "mgr_left MDone = 0"

definition race_left :: "race \<Rightarrow> nat" where
  "race_left s = 6 * stop_left (spc s) + mgr_left (mpc s)"

lemma closer:
  assumes "race_inv s" and "spc s \<noteq> SDone"
  shows "\<exists>t. race_step True c s t \<and> race_left t < race_left s"
proof -
  have m: "\<exists>t. race_step True c s t \<and> race_left t < race_left s"
    if "race_step True c s t" "race_left t < race_left s" for t using that by blast
  show ?thesis
  proof (cases "spc s")
    case SStore
    show ?thesis by (rule m[OF s_store[OF SStore]]) (auto simp: race_left_def SStore)
  next
    case SNotify
    show ?thesis by (rule m[OF s_notify[OF SNotify]])
      (cases "mpc s"; simp add: race_left_def SNotify notified_def)
  next
    case SCancel
    show ?thesis
    proof (cases "mpc s = MBody")
      case True
      show ?thesis
      proof (cases "queue s = 0")
        case q: True
        show ?thesis by (rule m[OF m_wait[OF True q]]) (simp add: race_left_def True)
      next
        case q: False
        then have "0 < queue s" by simp
        show ?thesis by (rule m[OF m_pop[OF True \<open>0 < queue s\<close>]]) (simp add: race_left_def True)
      qed
    next
      case False
      then have "\<not> held s" using assms by (simp add: race_inv_def)
      then show ?thesis by (intro m[OF s_cancel[OF SCancel]]) (auto simp: race_left_def SCancel)
    qed
  next
    case SJoin
    have r: "\<not> run_flag s" using assms SJoin by (simp add: race_inv_def)
    show ?thesis
    proof (cases "mpc s")
      case MCheck
      show ?thesis by (rule m[OF m_leave[OF MCheck r]]) (simp add: race_left_def MCheck)
    next
      case MLock
      then have "\<not> held s" using assms by (simp add: race_inv_def)
      then show ?thesis by (intro m[OF m_lock[OF MLock]]) (auto simp: race_left_def MLock)
    next
      case MBody
      show ?thesis
      proof (cases "queue s = 0")
        case q: True
        show ?thesis by (rule m[OF m_wait[OF MBody q]]) (simp add: race_left_def MBody)
      next
        case q: False
        then have "0 < queue s" by simp
        show ?thesis by (rule m[OF m_pop[OF MBody \<open>0 < queue s\<close>]]) (simp add: race_left_def MBody)
      qed
    next
      case MWaitUntil
      show ?thesis by (rule m[OF m_timeout[OF MWaitUntil]]) (simp add: race_left_def MWaitUntil)
    next
      case MRelock
      then have "\<not> held s" using assms by (simp add: race_inv_def)
      then show ?thesis by (intro m[OF m_relock[OF MRelock]]) (auto simp: race_left_def MRelock)
    next
      case MDone
      show ?thesis by (rule m[OF s_join[OF SJoin MDone]]) (simp add: race_left_def MDone SJoin)
    qed (use assms in \<open>simp add: race_inv_def\<close>)
  qed (use assms in simp)
qed

lemma can_finish: "race_inv s \<Longrightarrow> \<exists>u. race_reach True c s u \<and> spc u = SDone"
proof (induction "race_left s" arbitrary: s rule: less_induct)
  case less
  show ?case
  proof (cases "spc s = SDone")
    case True
    then show ?thesis using reach_refl by blast
  next
    case False
    from closer[OF less.prems False] obtain t where t: "race_step True c s t" "race_left t < race_left s" by blast
    from less.hyps[OF t(2) race_inv_step[OF t(1) less.prems]] obtain u where
      "race_reach True c t u" "spc u = SDone" by blast
    with reach_trans[OF this(1) reach_step[OF reach_refl t(1)]] show ?thesis by blast
  qed
qed

text \<open>\<^verbatim>\<open>GracefulTimer\<close>, whose waits all have a time limit, has no lost wake-up: whatever the two threads have
  done so far, \<^verbatim>\<open>stop()\<close> can still return; no reachable state is stuck before it has.\<close>

theorem graceful_stop_never_stuck:
  assumes "race_reach True False (race_init q) s"
  shows "(\<exists>u. race_reach True False s u \<and> spc u = SDone) \<and>
     (spc s = SDone \<or> (\<exists>t. race_step True False s t))"
proof -
  have inv: "race_inv s" by (rule race_inv_reach[OF assms _ race_inv_init]) simp
  with can_finish[OF inv] closer[OF inv] show ?thesis by blast
qed

theorem graceful_stop_never_stuck_witness:
  "(\<exists>u. race_reach True False (race_init 3) u \<and> spc u = SDone) \<and>
     (spc (race_init 3) = SDone \<or> (\<exists>t. race_step True False (race_init 3) t))"
  by (rule graceful_stop_never_stuck[OF reach_refl])

end
