(* ===== verification/Wheel_Timer.thy ===== *)
theory Wheel_Timer
  imports Prelude
begin

text \<open>
  \<^verbatim>\<open>class TimeWheel\<close> of \<^verbatim>\<open>src/other/timer/timeWheel.cpp\<close>: a ring of callback lists, one per tick of
  \<^verbatim>\<open>interval_ms_\<close> milliseconds. A round of the worker thread runs and clears the list of the current slot
  and moves on by one slot. The class has no mutex; the model is of calls that do not overlap a round.
\<close>

record 'cb TimeWheel =
  slots :: int
  interval_ms :: int
  current_slot :: int
  wrunning :: bool
  wheel :: "'cb list list"

definition TimeWheel_ctor :: "int \<Rightarrow> int \<Rightarrow> 'cb TimeWheel result" where
  "TimeWheel_ctor n iv =
     (if n < 0 then Inl LengthError
      else Inr \<lparr>slots = n, interval_ms = iv, current_slot = 0, wrunning = False, wheel = replicate (nat n) []\<rparr>)"

definition wheel_ticks :: "int \<Rightarrow> 'cb TimeWheel \<Rightarrow> int result" where
  "wheel_ticks delay s =
     rbind (chk_int (delay + interval_ms s)) (\<lambda>a. rbind (chk_int (a - 1)) (\<lambda>b. c_div b (interval_ms s)))"

definition addTimer :: "int \<Rightarrow> 'cb \<Rightarrow> 'cb TimeWheel \<Rightarrow> 'cb TimeWheel result" where
  "addTimer delay cb s =
     rbind (wheel_ticks delay s) (\<lambda>ticks.
     rbind (chk_int (current_slot s + ticks)) (\<lambda>c.
     rbind (c_mod c (slots s)) (\<lambda>slot.
     rbind (arr_get (wheel s) slot) (\<lambda>cbs.
     rbind (arr_set (wheel s) slot (cbs @ [cb])) (\<lambda>w. Inr (s\<lparr>wheel := w\<rparr>))))))"

definition start :: "'cb TimeWheel \<Rightarrow> 'cb TimeWheel" where
  "start s = s\<lparr>wrunning := True\<rparr>"

definition stop :: "'cb TimeWheel \<Rightarrow> 'cb TimeWheel" where
  "stop s = s\<lparr>wrunning := False\<rparr>"

text \<open>A round of the worker: the callbacks it runs, in order, and the state it leaves.\<close>

definition worker_step :: "'cb TimeWheel \<Rightarrow> ('cb list \<times> 'cb TimeWheel) result" where
  "worker_step s =
     rbind (arr_get (wheel s) (current_slot s)) (\<lambda>cbs.
     rbind (arr_set (wheel s) (current_slot s) []) (\<lambda>w.
     rbind (chk_int (current_slot s + 1)) (\<lambda>c.
     rbind (c_mod c (slots s)) (\<lambda>n. Inr (cbs, s\<lparr>wheel := w, current_slot := n\<rparr>)))))"

text \<open>How long the worker then sleeps: the interval less the time the callbacks took, both in
  microseconds.\<close>

definition sleep_time :: "int \<Rightarrow> 'cb TimeWheel \<Rightarrow> int" where
  "sleep_time elapsed_us s = (let t = interval_ms s * 1000 - elapsed_us in if t > 0 then t else 0)"

fun worker_rounds :: "nat \<Rightarrow> 'cb TimeWheel \<Rightarrow> ('cb list list \<times> 'cb TimeWheel) result" where
  "worker_rounds 0 s = Inr ([], s)"
| "worker_rounds (Suc n) s =
     rbind (worker_step s) (\<lambda>(cbs, s1). rbind (worker_rounds n s1) (\<lambda>(r, s2). Inr (cbs # r, s2)))"

section \<open>Invariant\<close>

definition wheel_ok :: "'cb TimeWheel \<Rightarrow> bool" where
  "wheel_ok s \<longleftrightarrow> 0 < slots s \<and> slots s < INT_MAX \<and> 0 < interval_ms s \<and> length (wheel s) = nat (slots s) \<and>
     0 \<le> current_slot s \<and> current_slot s < slots s"

lemma wheel_ok_ctor:
  "0 < n \<Longrightarrow> n < INT_MAX \<Longrightarrow> 0 < iv \<Longrightarrow> \<exists>s. TimeWheel_ctor n iv = Inr s \<and> wheel_ok s"
  by (simp add: TimeWheel_ctor_def wheel_ok_def)

lemma worker_step_ok:
  assumes "wheel_ok s"
  shows "worker_step s = Inr (wheel s ! nat (current_slot s),
    s\<lparr>wheel := (wheel s)[nat (current_slot s) := []], current_slot := (current_slot s + 1) mod slots s\<rparr>)"
  using assms unfolding wheel_ok_def worker_step_def
  by (simp add: arr_get_in arr_set_in c_mod_nonneg in_int_numerals INT_MAX_def)

lemma wheel_ok_step: "wheel_ok s \<Longrightarrow> worker_step s = Inr (cbs, s') \<Longrightarrow> wheel_ok s'"
  by (auto simp: worker_step_ok) (simp add: wheel_ok_def)

text \<open>The list that round \<open>k\<close> from now will run.\<close>

definition due_at :: "'cb TimeWheel \<Rightarrow> nat \<Rightarrow> 'cb list" where
  "due_at s k = (if int k < slots s then wheel s ! nat ((current_slot s + int k) mod slots s) else [])"

lemma due_at_step:
  assumes ok: "wheel_ok s" and st: "worker_step s = Inr (cbs, s')"
  shows "cbs = due_at s 0" "due_at s' k = due_at s (Suc k)"
proof -
  show "cbs = due_at s 0"
    using st ok by (auto simp: worker_step_ok due_at_def wheel_ok_def)
  have s': "s' = s\<lparr>wheel := (wheel s)[nat (current_slot s) := []],
      current_slot := (current_slot s + 1) mod slots s\<rparr>"
    using st ok by (simp add: worker_step_ok)
  have bnd: "0 \<le> (current_slot s + int (Suc k)) mod slots s" "(current_slot s + int (Suc k)) mod slots s < slots s"
    using ok by (simp_all add: wheel_ok_def)
  have pos: "((current_slot s + 1) mod slots s + int k) mod slots s = (current_slot s + int (Suc k)) mod slots s"
    by (simp add: mod_simps add.assoc)
  consider "int (Suc k) < slots s" | "int (Suc k) = slots s" | "int (Suc k) > slots s" by linarith
  then show "due_at s' k = due_at s (Suc k)"
  proof cases
    case 1
    have "(current_slot s + int (Suc k)) mod slots s \<noteq> current_slot s"
    proof
      assume "(current_slot s + int (Suc k)) mod slots s = current_slot s"
      then have "(current_slot s + int (Suc k)) mod slots s = current_slot s mod slots s"
        using ok by (simp add: wheel_ok_def)
      then have "slots s dvd int (Suc k)" by (simp add: mod_eq_dvd_iff)
      with 1 show False using zdvd_imp_le[of "slots s" "int (Suc k)"] by simp
    qed
    then have "nat (current_slot s) \<noteq> nat ((current_slot s + int (Suc k)) mod slots s)"
      using ok bnd by (simp add: wheel_ok_def eq_nat_nat_iff)
    with 1 show ?thesis using pos by (simp add: due_at_def s')
  next
    case 2
    then have "(current_slot s + int (Suc k)) mod slots s = current_slot s"
      using ok by (simp add: wheel_ok_def)
    with 2 pos ok show ?thesis by (simp add: due_at_def s' wheel_ok_def nat_less_iff)
  next
    case 3
    then show ?thesis by (simp add: due_at_def s')
  qed
qed

lemma worker_rounds_due:
  "wheel_ok s \<Longrightarrow> \<exists>s'. worker_rounds n s = Inr (map (due_at s) [0..<n], s')"
proof (induction n arbitrary: s)
  case (Suc n)
  obtain cbs s1 where st: "worker_step s = Inr (cbs, s1)" using worker_step_ok[OF Suc.prems] by blast
  from Suc.IH[OF wheel_ok_step[OF Suc.prems st]] obtain s2 where
    "worker_rounds n s1 = Inr (map (due_at s1) [0..<n], s2)" by blast
  moreover have "map (due_at s) [0..<Suc n] = due_at s 0 # map (due_at s1) [0..<n]"
    by (simp only: upt_conv_Cons[of 0 "Suc n"] map_Suc_upt[symmetric])
      (simp add: due_at_step[OF Suc.prems st] comp_def)
  ultimately show ?case using st due_at_step(1)[OF Suc.prems st] by simp
qed simp

section \<open>Properties\<close>

lemma wheel_ticks_ok:
  assumes "wheel_ok s" and "0 \<le> d" and "d + interval_ms s \<le> INT_MAX"
  shows "wheel_ticks d s = Inr ((d + interval_ms s - 1) div interval_ms s)"
  using assms by (simp add: wheel_ticks_def wheel_ok_def c_div_nonneg in_int_numerals INT_MAX_def)

lemma addTimer_due:
  assumes ok: "wheel_ok s" and t: "wheel_ticks d s = Inr t" "0 \<le> t" "slots s + t \<le> INT_MAX"
  shows "\<exists>s'. addTimer d cb s = Inr s' \<and> wheel_ok s' \<and>
     (\<forall>k. due_at s' k = due_at s k @ (if int k = t mod slots s then [cb] else []))"
proof -
  let ?p = "(current_slot s + t) mod slots s"
  have p: "0 \<le> ?p" "?p < slots s" using ok by (simp_all add: wheel_ok_def)
  have add: "addTimer d cb s = Inr (s\<lparr>wheel := (wheel s)[nat ?p := wheel s ! nat ?p @ [cb]]\<rparr>)"
    using ok t p unfolding addTimer_def wheel_ok_def
    by (simp add: arr_get_in arr_set_in c_mod_nonneg in_int_numerals INT_MAX_def)
  have ok': "wheel_ok (s\<lparr>wheel := (wheel s)[nat ?p := wheel s ! nat ?p @ [cb]]\<rparr>)"
    using ok by (simp add: wheel_ok_def)
  have "due_at (s\<lparr>wheel := (wheel s)[nat ?p := wheel s ! nat ?p @ [cb]]\<rparr>) k =
      due_at s k @ (if int k = t mod slots s then [cb] else [])" for k
  proof (cases "int k < slots s")
    case True
    let ?q = "(current_slot s + int k) mod slots s"
    have q: "0 \<le> ?q" "?q < slots s" using ok by (simp_all add: wheel_ok_def)
    have "nat ?q = nat ?p \<longleftrightarrow> ?q = ?p" using p q by (simp add: eq_nat_nat_iff)
    also have "\<dots> \<longleftrightarrow> slots s dvd (int k - t)" by (simp add: mod_eq_dvd_iff)
    also have "\<dots> \<longleftrightarrow> int k mod slots s = t mod slots s" by (simp add: mod_eq_dvd_iff)
    also have "\<dots> \<longleftrightarrow> int k = t mod slots s" using True by simp
    finally have "nat ?q = nat ?p \<longleftrightarrow> int k = t mod slots s" .
    with True q ok show ?thesis
      by (auto simp: due_at_def nth_list_update wheel_ok_def nat_less_iff)
  next
    case False
    then have "int k \<noteq> t mod slots s"
      using ok pos_mod_bound[of "slots s" t] by (auto simp: wheel_ok_def)
    with False show ?thesis by (simp add: due_at_def)
  qed
  with add ok' show ?thesis by blast
qed

text \<open>A timer added with a delay of less than one turn of the wheel is run by exactly one of the following
  rounds, the first one that starts at or after its delay, behind the callbacks already due there; no
  other round changes.\<close>

theorem wheel_on_time:
  assumes "wheel_ok s" and "0 \<le> d" and "d + interval_ms s \<le> INT_MAX"
    and "d \<le> (slots s - 1) * interval_ms s" and "2 * slots s \<le> INT_MAX"
  shows "\<exists>s' t r r' u u'. addTimer d cb s = Inr s' \<and>
     worker_rounds n s = Inr (r, u) \<and> worker_rounds n s' = Inr (r', u') \<and>
     d \<le> int t * interval_ms s \<and> int t * interval_ms s < d + interval_ms s \<and>
     (\<forall>k. k < n \<longrightarrow> r' ! k = r ! k @ (if k = t then [cb] else []))"
proof -
  let ?iv = "interval_ms s"
  let ?t = "(d + ?iv - 1) div ?iv"
  have iv: "0 < ?iv" and sl: "0 < slots s" using assms(1) by (simp_all add: wheel_ok_def)
  have t0: "0 \<le> ?t" using iv assms(2) by (simp add: pos_imp_zdiv_nonneg_iff)
  have m: "?t * ?iv = (d + ?iv - 1) - (d + ?iv - 1) mod ?iv" by (simp add: minus_mod_eq_div_mult)
  have md: "0 \<le> (d + ?iv - 1) mod ?iv" "(d + ?iv - 1) mod ?iv < ?iv" using iv by simp_all
  have lo: "d \<le> ?t * ?iv" and hi: "?t * ?iv < d + ?iv" using m md by linarith+
  have "?t * ?iv < slots s * ?iv" using hi assms(4) by (simp add: algebra_simps)
  then have ts: "?t < slots s" using iv by simp
  from addTimer_due[OF assms(1) wheel_ticks_ok[OF assms(1-3)] t0] ts assms(5)
  obtain s' where s': "addTimer d cb s = Inr s'" "wheel_ok s'"
    "\<And>k. due_at s' k = due_at s k @ (if int k = ?t mod slots s then [cb] else [])" by force
  have tn: "int (nat ?t) = ?t" "?t mod slots s = ?t" using t0 ts by simp_all
  have r: "(\<forall>k. k < n \<longrightarrow> map (due_at s') [0..<n] ! k =
      map (due_at s) [0..<n] ! k @ (if k = nat ?t then [cb] else []))"
    using s'(3) tn by auto
  from worker_rounds_due[OF assms(1), of n] worker_rounds_due[OF s'(2), of n] s'(1) r lo hi tn(1)
  show ?thesis by metis
qed

definition wheel_demo :: "string TimeWheel" where
  "wheel_demo = \<lparr>slots = 8, interval_ms = 100, current_slot = 6, wrunning = True, wheel = replicate 8 []\<rparr>"

lemma wheel_demo_ok: "wheel_ok wheel_demo"
  by (simp add: wheel_ok_def wheel_demo_def INT_MAX_def)

theorem wheel_on_time_witness:
  "\<exists>s' t r r' u u'. addTimer 250 ''cb'' wheel_demo = Inr s' \<and>
     worker_rounds 5 wheel_demo = Inr (r, u) \<and> worker_rounds 5 s' = Inr (r', u') \<and>
     250 \<le> int t * interval_ms wheel_demo \<and> int t * interval_ms wheel_demo < 250 + interval_ms wheel_demo \<and>
     (\<forall>k. k < 5 \<longrightarrow> r' ! k = r ! k @ (if k = t then [''cb''] else []))"
  by (rule wheel_on_time[OF wheel_demo_ok]) (simp_all add: wheel_demo_def INT_MAX_def)

text \<open>The wheel keeps no turn count: a delay of a whole number of turns and \<open>j\<close> ticks is run in round \<open>j\<close> of
  the very first turn, early by whole turns.\<close>

theorem wheel_early:
  assumes "wheel_ok s" and "0 < turns" and "0 \<le> j" and "j < slots s" and "d = (turns * slots s + j) * interval_ms s"
    and "d + interval_ms s \<le> INT_MAX" and "(turns + 2) * slots s \<le> INT_MAX"
  shows "\<exists>s' r u. addTimer d cb s = Inr s' \<and> worker_rounds (Suc (nat j)) s' = Inr (r, u) \<and>
     cb \<in> set (r ! nat j) \<and> j * interval_ms s < d"
proof -
  let ?iv = "interval_ms s"
  have iv: "0 < ?iv" and sl: "0 < slots s" using assms(1) by (simp_all add: wheel_ok_def)
  have d0: "0 \<le> d" unfolding assms(5) using assms(2,3) iv sl by simp
  have "(d + ?iv - 1) div ?iv = (?iv - 1 + (turns * slots s + j) * ?iv) div ?iv" unfolding assms(5) by (simp add: algebra_simps)
  also have "\<dots> = turns * slots s + j" using iv by simp
  finally have t: "wheel_ticks d s = Inr (turns * slots s + j)"
    using wheel_ticks_ok[OF assms(1) d0 assms(6)] by simp
  have "0 \<le> turns * slots s + j" "slots s + (turns * slots s + j) \<le> INT_MAX"
    using assms(2-4,7) sl by (simp_all add: algebra_simps)
  from addTimer_due[OF assms(1) t this] obtain s' where s': "addTimer d cb s = Inr s'" "wheel_ok s'"
    "\<And>k. due_at s' k = due_at s k @ (if int k = (turns * slots s + j) mod slots s then [cb] else [])" by blast
  have "(turns * slots s + j) mod slots s = j" using assms(3,4) by simp
  then have "cb \<in> set (due_at s' (nat j))" using s'(3) assms(3) by simp
  moreover have "map (due_at s') [0..<Suc (nat j)] ! nat j = due_at s' (nat j)"
    by (simp del: upt_Suc)
  moreover have "j * ?iv < d"
  proof -
    have "0 < turns * slots s * ?iv" using assms(2) sl iv by simp
    then show ?thesis unfolding assms(5) by (simp add: algebra_simps)
  qed
  ultimately show ?thesis using s'(1) worker_rounds_due[OF s'(2), of "Suc (nat j)"] by metis
qed

theorem wheel_early_witness:
  "\<exists>s' r u. addTimer 800 ''cb'' wheel_demo = Inr s' \<and> worker_rounds (Suc (nat 0)) s' = Inr (r, u) \<and>
     ''cb'' \<in> set (r ! nat 0) \<and> 0 * interval_ms wheel_demo < 800"
  by (rule wheel_early[OF wheel_demo_ok, of 1]) (simp_all add: wheel_demo_def INT_MAX_def)

end
