(* ===== verification/Periodic_Timer.thy ===== *)
theory Periodic_Timer
  imports Timer_Contract
begin

text \<open>
  \<^verbatim>\<open>class TimerManager\<close> of \<^verbatim>\<open>src/other/timer/singleThreadPriQueue.cpp\<close>: one worker thread over a priority queue of
  one-shot and periodic tasks, the latter re-armed after each run. Callbacks are values of type \<open>'cb\<close>.
\<close>

record 'cb TimerTask =
  expire_time :: time
  callback :: 'cb
  intervals :: int
  id :: int

record 'cb TimerManager =
  tasks :: "'cb TimerTask list"
  mrunning :: bool
  next_id :: int

definition TimerManager_ctor :: "'cb TimerManager" where
  "TimerManager_ctor = \<lparr>tasks = [], mrunning = False, next_id = 0\<rparr>"

definition addTimer :: "time \<Rightarrow> int \<Rightarrow> int \<Rightarrow> 'cb \<Rightarrow> 'cb TimerManager \<Rightarrow> (int \<times> 'cb TimerManager) result" where
  "addTimer now delay_ms interval_ms cb s =
     rbind (chk_int (next_id s + 1)) (\<lambda>n.
       let task = \<lparr>expire_time = now + ms delay_ms, callback = cb, intervals = interval_ms, id = next_id s\<rparr>
       in Inr (id task, s\<lparr>next_id := n, tasks := pq_push expire_time task (tasks s)\<rparr>))"

definition start :: "'cb TimerManager \<Rightarrow> 'cb TimerManager" where
  "start s = s\<lparr>mrunning := True\<rparr>"

definition stop :: "'cb TimerManager \<Rightarrow> 'cb TimerManager" where
  "stop s = s\<lparr>mrunning := False\<rparr>"

text \<open>\<^verbatim>\<open>std::chrono::microseconds\<close> as nanoseconds.\<close>

definition us :: "int \<Rightarrow> time" where
  "us d = d * 1000"

definition rearm :: "time \<Rightarrow> 'cb TimerTask \<Rightarrow> 'cb TimerTask" where
  "rearm now t = t\<lparr>expire_time := now + us (intervals t)\<rparr>"

text \<open>One round of \<^verbatim>\<open>run\<close>: the callback that runs, if any.\<close>

definition run_step :: "time \<Rightarrow> 'cb TimerManager \<Rightarrow> 'cb TimerTask option \<times> 'cb TimerManager" where
  "run_step now s =
     (if \<not> mrunning s then (None, s)
      else case tasks s of
        [] \<Rightarrow> (None, s)
      | t # ts \<Rightarrow>
          if expire_time t \<le> now then
            (Some t, s\<lparr>tasks := if intervals t > 0 then pq_push expire_time (rearm now t) ts else ts\<rparr>)
          else (None, s))"

fun run_steps :: "time list \<Rightarrow> 'cb TimerManager \<Rightarrow> 'cb TimerTask list \<times> 'cb TimerManager" where
  "run_steps [] s = ([], s)"
| "run_steps (now # ns) s =
     (case run_step now s of (f, s1) \<Rightarrow> case run_steps ns s1 of (fs, s2) \<Rightarrow>
        ((case f of None \<Rightarrow> fs | Some t \<Rightarrow> t # fs), s2))"

definition mgr_ok :: "'cb TimerManager \<Rightarrow> bool" where
  "mgr_ok s \<longleftrightarrow> mrunning s \<and> 0 \<le> next_id s \<and> pq_ok expire_time (tasks s) \<and> distinct (map id (tasks s)) \<and>
     (\<forall>t \<in> set (tasks s). id t < next_id s)"

lemma addTimer_ok:
  assumes "mgr_ok s" and "next_id s < INT_MAX"
  obtains s' where "addTimer now d iv cb s = Inr (next_id s, s')" "mgr_ok s'"
    "mset (tasks s') =
       add_mset \<lparr>expire_time = now + ms d, callback = cb, intervals = iv, id = next_id s\<rparr> (mset (tasks s))"
proof -
  have "chk_int (next_id s + 1) = Inr (next_id s + 1)"
    using assms by (simp add: mgr_ok_def in_int_numerals INT_MAX_def)
  with assms that show ?thesis
    by (fastforce simp: addTimer_def mgr_ok_def Let_def)
qed

lemma run_step_fire:
  assumes "mgr_ok s" and "tasks s = t # ts" and "expire_time t \<le> now"
  shows "run_step now s =
    (Some t, s\<lparr>tasks := if intervals t > 0 then pq_push expire_time (rearm now t) ts else ts\<rparr>)"
  using assms by (simp add: run_step_def mgr_ok_def)

lemma mgr_ok_step:
  assumes "mgr_ok s"
  shows "mgr_ok (snd (run_step now s))"
proof (cases "tasks s")
  case (Cons t ts)
  show ?thesis
  proof (cases "expire_time t \<le> now")
    case True
    have "id (rearm now t) = id t" by (simp add: rearm_def)
    with assms Cons show ?thesis unfolding run_step_fire[OF assms Cons True]
      by (auto simp: mgr_ok_def dest: pq_ok_tl)
  qed (use assms Cons in \<open>simp add: run_step_def\<close>)
qed (use assms in \<open>simp add: run_step_def\<close>)

lemma mgr_ok_steps: "mgr_ok s \<Longrightarrow> mgr_ok (snd (run_steps ns s))"
proof (induction ns arbitrary: s)
  case (Cons now ns)
  then show ?case using mgr_ok_step[of s now] by (auto split: prod.splits) (metis snd_conv)
qed simp

text \<open>One-shot tasks run at most once, for every schedule of the worker.\<close>

lemma oneshot_gone:
  assumes "mgr_ok s" and "i \<notin> id ` set (tasks s)"
  shows "i \<notin> id ` set (tasks (snd (run_step now s))) \<and> (\<forall>t. fst (run_step now s) = Some t \<longrightarrow> id t \<noteq> i)"
  using assms by (cases "tasks s") (auto simp: run_step_def rearm_def)

lemma gone_stays_gone:
  "mgr_ok s \<Longrightarrow> i \<notin> id ` set (tasks s) \<Longrightarrow> i \<notin> id ` set (fst (run_steps ns s))"
proof (induction ns arbitrary: s)
  case (Cons now ns)
  obtain f s1 where st: "run_step now s = (f, s1)" by force
  have "mgr_ok s1" using mgr_ok_step[OF Cons.prems(1), of now] st by simp
  moreover have "i \<notin> id ` set (tasks s1)" "\<forall>t. f = Some t \<longrightarrow> id t \<noteq> i"
    using oneshot_gone[OF Cons.prems, of now] st by auto
  ultimately show ?case using Cons.IH[of s1] st
    by (auto split: prod.splits option.splits)
qed simp

section \<open>Properties\<close>

text \<open>A one-shot task runs at most once, whatever rounds the worker makes at whatever times: no later round
  runs a task with its id.\<close>

theorem oneshot_once:
  assumes "mgr_ok s" and "tasks s = t # ts" and "expire_time t \<le> now" and "intervals t \<le> 0"
  shows "fst (run_step now s) = Some t \<and> id t \<notin> id ` set (fst (run_steps ns (snd (run_step now s))))"
proof -
  have "run_step now s = (Some t, s\<lparr>tasks := ts\<rparr>)" using run_step_fire[OF assms(1-3)] assms(4) by simp
  moreover have "id t \<notin> id ` set ts" using assms(1,2) by (auto simp: mgr_ok_def)
  ultimately show ?thesis using gone_stays_gone[OF mgr_ok_step[OF assms(1), of now]] by simp
qed

definition per_demo :: "string TimerManager" where
  "per_demo = \<lparr>tasks = [\<lparr>expire_time = 5, callback = ''single'', intervals = 0, id = 0\<rparr>,
      \<lparr>expire_time = 9, callback = ''period'', intervals = 1000, id = 1\<rparr>], mrunning = True, next_id = 2\<rparr>"

lemma per_demo_ok: "mgr_ok per_demo"
  by (simp add: mgr_ok_def per_demo_def pq_ok_def)

theorem oneshot_once_witness:
  "fst (run_step 7 per_demo) = Some (hd (tasks per_demo)) \<and>
     id (hd (tasks per_demo)) \<notin> id ` set (fst (run_steps [8, 9, 2000] (snd (run_step 7 per_demo))))"
  by (rule oneshot_once[OF per_demo_ok, of _ "tl (tasks per_demo)"]) (simp_all add: per_demo_def)

text \<open>A periodic task is re-armed a thousandth of its interval later: the interval given in milliseconds is
  added as microseconds, so the task runs again although only \<open>iv\<close> microseconds have passed.\<close>

theorem periodic_runs_early:
  assumes "mgr_ok s" and "tasks s = [t]" and "expire_time t \<le> now" and "0 < intervals t"
  shows "\<exists>t' s'. run_steps [now, now + us (intervals t)] s = ([t, t'], s') \<and> id t' = id t \<and>
     now + us (intervals t) < now + ms (intervals t)"
proof -
  have "run_step now s = (Some t, s\<lparr>tasks := [rearm now t]\<rparr>)"
    using run_step_fire[OF assms(1-3)] assms(4) by simp
  moreover have "mrunning s" using assms(1) by (simp add: mgr_ok_def)
  ultimately show ?thesis using assms(4)
    by (auto simp: run_step_def rearm_def us_def ms_def split: if_splits)
qed

theorem periodic_runs_early_witness:
  "\<exists>t' s'. run_steps [9, 9 + us 1000] (per_demo\<lparr>tasks := tl (tasks per_demo)\<rparr>) =
       ([(tasks per_demo) ! 1, t'], s') \<and> id t' = id (tasks per_demo ! 1) \<and> 9 + us 1000 < 9 + ms 1000"
proof -
  have t: "intervals (tasks per_demo ! 1) = 1000" "tl (tasks per_demo) = [tasks per_demo ! 1]"
    "expire_time (tasks per_demo ! 1) \<le> 9" by (simp_all add: per_demo_def)
  have "mgr_ok (per_demo\<lparr>tasks := tl (tasks per_demo)\<rparr>)" by (simp add: mgr_ok_def per_demo_def pq_ok_def)
  from periodic_runs_early[OF this _ t(3)] t show ?thesis by simp
qed

end
