(* ===== verification/Gear_Monitor.thy ===== *)
theory Gear_Monitor
  imports Timer_Contract
begin

text \<open>
  The gear and power monitors of \<^verbatim>\<open>src/other/timer\<close>: \<^verbatim>\<open>PstateMonitor\<close> (\<^verbatim>\<open>pstate.cpp\<close>), which should run a callback
  when no change from P to another gear is seen for a given time; \<^verbatim>\<open>GearMonitor\<close> (\<^verbatim>\<open>pState.cpp\<close>), the same
  with a timer thread that is restarted on such a change; and the power state observer of
  \<^verbatim>\<open>state_check.cpp\<close>. The timer threads are steps over the clock readings they make.
\<close>

unbundle bit_operations_syntax

section \<open>PstateMonitor\<close>

datatype PState = P | NON_P

datatype TimerState = STOPPED | RUNNING | EXPIRED

record PstateMonitor =
  current_p_state :: PState
  last_p_state :: PState
  timer_state :: TimerState
  remaining_ms :: "64 word"
  total_duration_ms :: "64 word"
  has_callback :: bool
  timeouts :: nat          \<comment> \<open>how often the callback has run\<close>
  loop_start :: time       \<comment> \<open>\<^verbatim>\<open>start_time\<close> of the timer thread\<close>

definition PstateMonitor_ctor :: "64 word \<Rightarrow> PstateMonitor" where
  "PstateMonitor_ctor d = \<lparr>current_p_state = P, last_p_state = P, timer_state = STOPPED, remaining_ms = d,
     total_duration_ms = d, has_callback = False, timeouts = 0, loop_start = 0\<rparr>"

definition default_duration_ms :: "64 word" where
  "default_duration_ms = 30000"

definition parseCanSignal :: "8 word list \<Rightarrow> PState result" where
  "parseCanSignal can_data = rbind (arr_get can_data 0) (\<lambda>b. Inr (if b AND 1 \<noteq> 0 then NON_P else P))"

definition checkPToNonPJump :: "PstateMonitor \<Rightarrow> bool" where
  "checkPToNonPJump s \<longleftrightarrow> last_p_state s = P \<and> current_p_state s = NON_P"

definition setTimeoutCallback :: "PstateMonitor \<Rightarrow> PstateMonitor" where
  "setTimeoutCallback s = s\<lparr>has_callback := True\<rparr>"

definition resetTimer :: "PstateMonitor \<Rightarrow> PstateMonitor" where
  "resetTimer s = (if timer_state s = RUNNING then s\<lparr>remaining_ms := total_duration_ms s\<rparr> else s)"

definition processCanMessage :: "8 word list \<Rightarrow> PstateMonitor \<Rightarrow> PstateMonitor result" where
  "processCanMessage can_data s =
     (let s1 = s\<lparr>last_p_state := current_p_state s\<rparr> in
      rbind (parseCanSignal can_data) (\<lambda>p.
        let s2 = s1\<lparr>current_p_state := p\<rparr> in
        Inr (if checkPToNonPJump s2 then resetTimer s2 else s2)))"

definition startMonitor :: "time \<Rightarrow> PstateMonitor \<Rightarrow> PstateMonitor" where
  "startMonitor now s = (if timer_state s = STOPPED then s\<lparr>timer_state := RUNNING, loop_start := now\<rparr> else s)"

definition stopMonitor :: "PstateMonitor \<Rightarrow> PstateMonitor" where
  "stopMonitor s = (if timer_state s = RUNNING then s\<lparr>timer_state := STOPPED\<rparr> else s)"

definition elapsed_ms :: "time \<Rightarrow> PstateMonitor \<Rightarrow> 64 word" where
  "elapsed_ms now s = word_of_int ((now - loop_start s) sdiv 1000000)"

text \<open>One round of \<^verbatim>\<open>timerLoop\<close>, with its two clock readings.\<close>

definition timerLoop_step :: "time \<Rightarrow> time \<Rightarrow> PstateMonitor \<Rightarrow> PstateMonitor" where
  "timerLoop_step now1 now2 s =
     (if timer_state s \<noteq> RUNNING then s
      else if elapsed_ms now1 s \<ge> total_duration_ms s then
        (let s1 = s\<lparr>timer_state := EXPIRED\<rparr> in
         if has_callback s1 then s1\<lparr>timeouts := timeouts s1 + 1\<rparr> else s1)
      else if remaining_ms s \<noteq> total_duration_ms s then
        s\<lparr>loop_start := now2, remaining_ms := total_duration_ms s\<rparr>
      else s)"

datatype pstate_event = Can "8 word list" | Round time time

fun pstate_run :: "pstate_event list \<Rightarrow> PstateMonitor \<Rightarrow> PstateMonitor result" where
  "pstate_run [] s = Inr s"
| "pstate_run (Can d # es) s = rbind (processCanMessage d s) (pstate_run es)"
| "pstate_run (Round a b # es) s = pstate_run es (timerLoop_step a b s)"

lemma parseCanSignal_ok: "d \<noteq> [] \<Longrightarrow> \<exists>p. parseCanSignal d = Inr p"
  by (simp add: parseCanSignal_def arr_get_in)

lemma processCanMessage_frame:
  assumes "processCanMessage d s = Inr s'" and "remaining_ms s = total_duration_ms s"
  shows "loop_start s' = loop_start s" "total_duration_ms s' = total_duration_ms s"
    "remaining_ms s' = total_duration_ms s'" "timer_state s' = timer_state s"
    "has_callback s' = has_callback s" "timeouts s' = timeouts s"
  using assms by (auto simp: processCanMessage_def resetTimer_def Let_def rbind_eq_Inr_iff split: if_splits)

lemma timerLoop_frame:
  assumes "remaining_ms s = total_duration_ms s"
  shows "loop_start (timerLoop_step a b s) = loop_start s"
    "total_duration_ms (timerLoop_step a b s) = total_duration_ms s"
    "remaining_ms (timerLoop_step a b s) = total_duration_ms (timerLoop_step a b s)"
  using assms by (auto simp: timerLoop_step_def Let_def)

lemma pstate_run_frame:
  assumes "pstate_run es s = Inr s'" and "remaining_ms s = total_duration_ms s"
  shows "loop_start s' = loop_start s \<and> total_duration_ms s' = total_duration_ms s \<and>
    remaining_ms s' = total_duration_ms s'"
  using assms
proof (induction es arbitrary: s)
  case (Cons e es)
  show ?case
  proof (cases e)
    case (Can d)
    with Cons.prems obtain s1 where s1: "processCanMessage d s = Inr s1" "pstate_run es s1 = Inr s'"
      by (auto simp: rbind_eq_Inr_iff)
    with Cons.IH[of s1] processCanMessage_frame[OF s1(1) Cons.prems(2)] show ?thesis by auto
  next
    case (Round a b)
    with Cons.prems Cons.IH[of "timerLoop_step a b s"] timerLoop_frame[OF Cons.prems(2)] show ?thesis by auto
  qed
qed simp

text \<open>A change from P to another gear never restarts the five minutes: after any CAN messages and timer
  rounds the timer still counts from its start, so the first round that finds the total duration elapsed
  since then expires, and runs the callback, however recently the gear changed.\<close>

theorem jump_never_restarts_timer:
  assumes "pstate_run es (startMonitor t0 (setTimeoutCallback (PstateMonitor_ctor d))) = Inr s"
    and "timer_state s = RUNNING" and "word_of_int ((now - t0) sdiv 1000000) \<ge> d"
  shows "loop_start s = t0 \<and> timer_state (timerLoop_step now now2 s) = EXPIRED \<and>
     (has_callback s \<longrightarrow> timeouts (timerLoop_step now now2 s) = timeouts s + 1)"
proof -
  let ?s0 = "startMonitor t0 (setTimeoutCallback (PstateMonitor_ctor d))"
  have "remaining_ms ?s0 = total_duration_ms ?s0" "loop_start ?s0 = t0" "total_duration_ms ?s0 = d"
    by (simp_all add: startMonitor_def setTimeoutCallback_def PstateMonitor_ctor_def)
  with pstate_run_frame[OF assms(1)] have "loop_start s = t0" "total_duration_ms s = d" by auto
  with assms(2,3) show ?thesis by (simp add: timerLoop_step_def elapsed_ms_def Let_def)
qed

text \<open>The P to non-P change after 900 ms of a 1000 ms timer, and the round 100 ms later.\<close>

theorem jump_never_restarts_timer_witness:
  "\<exists>s. pstate_run [Can [0], Round 500000000 500000001, Can [1], Round 900000000 900000001]
       (startMonitor 0 (setTimeoutCallback (PstateMonitor_ctor 1000))) = Inr s \<and>
     current_p_state s = NON_P \<and> last_p_state s = P \<and>
     loop_start s = 0 \<and> timer_state (timerLoop_step 1000000000 1000000001 s) = EXPIRED \<and>
     (has_callback s \<longrightarrow> timeouts (timerLoop_step 1000000000 1000000001 s) = timeouts s + 1)"
proof -
  let ?s = "\<lparr>current_p_state = NON_P, last_p_state = P, timer_state = RUNNING, remaining_ms = 1000,
     total_duration_ms = 1000, has_callback = True, timeouts = 0, loop_start = 0\<rparr>"
  have r: "pstate_run [Can [0], Round 500000000 500000001, Can [1], Round 900000000 900000001]
       (startMonitor 0 (setTimeoutCallback (PstateMonitor_ctor 1000))) = Inr ?s"
    by (simp add: startMonitor_def setTimeoutCallback_def PstateMonitor_ctor_def processCanMessage_def
        parseCanSignal_def arr_get_def checkPToNonPJump_def resetTimer_def timerLoop_step_def
        elapsed_ms_def Let_def)
  have "timer_state ?s = RUNNING" "(1000 :: 64 word) \<le> word_of_int ((1000000000 - 0) sdiv 1000000)"
    by simp_all
  from jump_never_restarts_timer[OF r this, of 1000000001] r show ?thesis by auto
qed

section \<open>GearMonitor: the hanging reset\<close>

datatype GearPosition = GP | GNON_P

record GearMonitor =
  gtimer_active :: bool
  monitoring_active :: bool
  remaining_time :: int
  current_gear :: GearPosition
  last_gear :: GearPosition

definition gear_timeout :: time where
  "gear_timeout = ms 300000"

definition startMonitoring :: "GearMonitor \<Rightarrow> GearMonitor" where
  "startMonitoring s = (if monitoring_active s then s
     else s\<lparr>monitoring_active := True, current_gear := GP, last_gear := GP, gtimer_active := True\<rparr>)"

text \<open>\<^verbatim>\<open>processCanMessage\<close>, up to the call of \<^verbatim>\<open>resetTimer\<close>: whether it is made.\<close>

definition gear_processCanMessage :: "GearPosition \<Rightarrow> GearMonitor \<Rightarrow> bool \<times> GearMonitor" where
  "gear_processCanMessage g s =
     (if \<not> monitoring_active s then (False, s)
      else let s1 = s\<lparr>last_gear := current_gear s, current_gear := g\<rparr>
           in (last_gear s1 = GP \<and> current_gear s1 = GNON_P, s1))"

definition gear_timer_round :: "time \<Rightarrow> time \<Rightarrow> GearMonitor \<Rightarrow> bool \<times> GearMonitor" where
  "gear_timer_round start now s =
     (let remaining = gear_timeout - (now - start);
          s1 = s\<lparr>remaining_time := remaining sdiv 1000000\<rparr>
      in if remaining \<le> 0 then (True, s1\<lparr>gtimer_active := False\<rparr>) else (False, s1))"

text \<open>The two threads around \<^verbatim>\<open>timer_mutex_\<close>: the timer thread's loop, and the CAN thread that calls
  \<^verbatim>\<open>resetTimer\<close>, which locks the mutex, tests \<^verbatim>\<open>timer_active_\<close>, and joins the timer thread with the lock held.\<close>

datatype timer_pc = TCheck | TLock | TBody | TWait | TRelock | TDone
datatype can_pc = CIdle | CLock | CTest | CJoin | CRestart
datatype holder = HTimer | HCan

record gear_threads =
  active :: bool
  mutex :: "holder option"
  tpc :: timer_pc
  cpc :: can_pc

definition gear_init :: gear_threads where
  "gear_init = \<lparr>active = True, mutex = None, tpc = TCheck, cpc = CIdle\<rparr>"

inductive gear_step :: "gear_threads \<Rightarrow> gear_threads \<Rightarrow> bool" where
  t_enter: "tpc s = TCheck \<Longrightarrow> active s \<Longrightarrow> gear_step s (s\<lparr>tpc := TLock\<rparr>)"
| t_leave: "tpc s = TCheck \<Longrightarrow> \<not> active s \<Longrightarrow> gear_step s (s\<lparr>tpc := TDone\<rparr>)"
| t_lock: "tpc s = TLock \<Longrightarrow> mutex s = None \<Longrightarrow> gear_step s (s\<lparr>tpc := TBody, mutex := Some HTimer\<rparr>)"
| t_expire: "tpc s = TBody \<Longrightarrow> gear_step s (s\<lparr>tpc := TDone, active := False, mutex := None\<rparr>)"
| t_wait: "tpc s = TBody \<Longrightarrow> gear_step s (s\<lparr>tpc := TWait, mutex := None\<rparr>)"
| t_wake: "tpc s = TWait \<Longrightarrow> gear_step s (s\<lparr>tpc := TRelock\<rparr>)"
| t_relock: "tpc s = TRelock \<Longrightarrow> mutex s = None \<Longrightarrow> gear_step s (s\<lparr>tpc := if active s then TCheck else TDone\<rparr>)"
| c_call: "cpc s = CIdle \<Longrightarrow> gear_step s (s\<lparr>cpc := CLock\<rparr>)"
| c_lock: "cpc s = CLock \<Longrightarrow> mutex s = None \<Longrightarrow> gear_step s (s\<lparr>cpc := CTest, mutex := Some HCan\<rparr>)"
| c_skip: "cpc s = CTest \<Longrightarrow> \<not> active s \<Longrightarrow> gear_step s (s\<lparr>cpc := CIdle, mutex := None\<rparr>)"
| c_join: "cpc s = CTest \<Longrightarrow> active s \<Longrightarrow> gear_step s (s\<lparr>cpc := CJoin\<rparr>)"
| c_joined: "cpc s = CJoin \<Longrightarrow> tpc s = TDone \<Longrightarrow> gear_step s (s\<lparr>cpc := CRestart\<rparr>)"

inductive gear_reach :: "gear_threads \<Rightarrow> gear_threads \<Rightarrow> bool" where
  gear_refl: "gear_reach s s"
| gear_next: "gear_reach s t \<Longrightarrow> gear_step t u \<Longrightarrow> gear_reach s u"

definition gear_inv :: "gear_threads \<Rightarrow> bool" where
  "gear_inv s \<longleftrightarrow> (mutex s = Some HTimer \<longleftrightarrow> tpc s = TBody) \<and> (mutex s = Some HCan \<longleftrightarrow> cpc s = CTest \<or> cpc s = CJoin) \<and>
     (tpc s = TDone \<longrightarrow> \<not> active s) \<and> (cpc s = CJoin \<longrightarrow> active s) \<and> cpc s \<noteq> CRestart"

lemma gear_inv_step: "gear_step s t \<Longrightarrow> gear_inv s \<Longrightarrow> gear_inv t \<and> (cpc s = CJoin \<longrightarrow> cpc t = CJoin)"
  by (induction rule: gear_step.induct) (auto simp: gear_inv_def)

lemma gear_inv_reach: "gear_reach s t \<Longrightarrow> gear_inv s \<Longrightarrow> gear_inv t \<and> (cpc s = CJoin \<longrightarrow> cpc t = CJoin)"
  by (induction rule: gear_reach.induct) (use gear_inv_step in blast)+

lemma gear_inv_init: "gear_inv gear_init"
  by (simp add: gear_inv_def gear_init_def)

text \<open>\<^verbatim>\<open>GearMonitor::resetTimer\<close> never gets past \<^verbatim>\<open>join()\<close>: the timer thread needs the mutex that the caller
  holds to leave its wait, so once a change of gear has brought the CAN thread to the join it stays there
  for ever, and the timer is never restarted.\<close>

theorem reset_never_returns:
  assumes "gear_reach gear_init s"
  shows "cpc s \<noteq> CRestart \<and> (\<forall>t. cpc s = CJoin \<and> gear_reach s t \<longrightarrow> cpc t = CJoin)"
proof -
  have "gear_inv s" using gear_inv_reach[OF assms gear_inv_init] by simp
  then show ?thesis using gear_inv_reach[of s] by (auto simp: gear_inv_def)
qed

lemma join_reached: "gear_reach gear_init \<lparr>active = True, mutex = Some HCan, tpc = TCheck, cpc = CJoin\<rparr>"
proof -
  let ?st = "\<lambda>m c. \<lparr>active = True, mutex = m, tpc = TCheck, cpc = c\<rparr>"
  have "gear_reach gear_init (?st None CIdle)" by (simp add: gear_init_def gear_refl)
  from gear_next[OF this c_call] have "gear_reach gear_init (?st None CLock)" by simp
  from gear_next[OF this c_lock] have "gear_reach gear_init (?st (Some HCan) CTest)" by simp
  from gear_next[OF this c_join] show ?thesis by simp
qed

theorem reset_never_returns_witness:
  "\<exists>s. gear_reach gear_init s \<and> cpc s = CJoin \<and> cpc s \<noteq> CRestart \<and>
     (\<forall>t. cpc s = CJoin \<and> gear_reach s t \<longrightarrow> cpc t = CJoin)"
  using reset_never_returns[OF join_reached] join_reached
  by (intro exI[of _ "\<lparr>active = True, mutex = Some HCan, tpc = TCheck, cpc = CJoin\<rparr>"]) simp

end
