(* ===== verification/Power_State.thy ===== *)
theory Power_State
  imports Prelude
begin

text \<open>
  The power state observer of \<^verbatim>\<open>src/other/timer/state_check.cpp\<close>: one thread cycles the global power state,
  one watches it and raises \<^verbatim>\<open>auto_slpmod_flag\<close> when the power goes off, one ends the run, one waits for the
  flag. A round of each thread is a step on the global variables; the console output is a list.
\<close>

datatype pwrState = OFF | ACC | ON | START

datatype power_log = Th1 int pwrState | Th2Last pwrState | Th2Current pwrState | Th2Same pwrState

record power =
  flag :: bool
  auto_slpmod_flag :: bool
  current_state :: pwrState
  last_state :: pwrState
  count_i :: int
  plog :: "power_log list"

text \<open>The globals at the start of \<^verbatim>\<open>main\<close>: zero means \<open>OFF\<close>.\<close>

definition power_init :: power where
  "power_init = \<lparr>flag = True, auto_slpmod_flag = False, current_state = OFF, last_state = OFF, count_i = 0, plog = []\<rparr>"

definition state_change_step :: "power \<Rightarrow> power" where
  "state_change_step s =
     (if count_i s < 4 \<and> flag s then
        let c = (if count_i s = 3 then OFF else if count_i s = 2 then ACC else if count_i s = 1 then ON
                 else if count_i s = 0 then START else current_state s);
            n = count_i s + 1
        in s\<lparr>current_state := c, plog := plog s @ [Th1 (count_i s) c], count_i := if n = 4 then 0 else n\<rparr>
      else s)"

definition state_check_begin :: "power \<Rightarrow> power" where
  "state_check_begin s = s\<lparr>last_state := current_state s\<rparr>"

definition state_check_step :: "power \<Rightarrow> power" where
  "state_check_step s =
     (if \<not> flag s then s
      else if last_state s \<noteq> current_state s then
        (if auto_slpmod_flag s = False \<and> last_state s \<noteq> OFF \<and> current_state s = OFF
         then s\<lparr>auto_slpmod_flag := True, plog := plog s @ [Th2Last (last_state s), Th2Current (current_state s)]\<rparr>
         else s)
      else s\<lparr>plog := plog s @ [Th2Same (current_state s)]\<rparr>)"

definition state_flag :: "power \<Rightarrow> power" where
  "state_flag s = s\<lparr>flag := False\<rparr>"

text \<open>A round of \<^verbatim>\<open>slpmod_nonoff_run\<close>: \<open>Some b\<close> when the thread returns, \<open>b\<close> for the message of a raised flag.\<close>

definition slpmod_nonoff_run_step :: "power \<Rightarrow> bool option" where
  "slpmod_nonoff_run_step s = (if flag s then if auto_slpmod_flag s then Some True else None else Some False)"

datatype power_event = Change | Check | EndRun

fun power_event_step :: "power_event \<Rightarrow> power \<Rightarrow> power" where
  "power_event_step Change s = state_change_step s"
| "power_event_step Check s = state_check_step s"
| "power_event_step EndRun s = state_flag s"

definition power_run :: "power_event list \<Rightarrow> power \<Rightarrow> power" where
  "power_run es s = fold power_event_step es s"

lemma power_run_simps [simp]:
  "power_run [] s = s" "power_run (es @ [e]) s = power_event_step e (power_run es s)"
  by (simp_all add: power_run_def)

text \<open>The watcher never moves \<^verbatim>\<open>last_state\<close>, and only it raises the flag.\<close>

lemma power_step_last: "last_state (power_event_step e s) = last_state s"
  by (cases e) (auto simp: state_change_step_def state_check_step_def state_flag_def Let_def)

lemma power_run_last: "last_state (power_run es s) = last_state s"
  by (induction es rule: rev_induct) (simp_all add: power_step_last)

lemma power_step_auto:
  "auto_slpmod_flag (power_event_step e s) \<longleftrightarrow>
     auto_slpmod_flag s \<or> (e = Check \<and> flag s \<and> last_state s \<noteq> OFF \<and> current_state s = OFF)"
  by (cases e) (auto simp: state_change_step_def state_check_step_def state_flag_def Let_def)

lemma power_run_auto:
  assumes "\<not> auto_slpmod_flag s"
  shows "auto_slpmod_flag (power_run es s) \<longleftrightarrow>
     last_state s \<noteq> OFF \<and> (\<exists>es1 es2. es = es1 @ Check # es2 \<and> flag (power_run es1 s) \<and> current_state (power_run es1 s) = OFF)"
proof (induction es rule: rev_induct)
  case Nil
  then show ?case using assms by simp
next
  case (snoc e es)
  have split: "(\<exists>es1 es2. es @ [e] = es1 @ Check # es2 \<and> Q es1) \<longleftrightarrow>
      (\<exists>es1 es2. es = es1 @ Check # es2 \<and> Q es1) \<or> (e = Check \<and> Q es)" for Q
  proof
    assume "\<exists>es1 es2. es @ [e] = es1 @ Check # es2 \<and> Q es1"
    then obtain es1 es2 where "es @ [e] = es1 @ Check # es2" "Q es1" by blast
    then show "(\<exists>es1 es2. es = es1 @ Check # es2 \<and> Q es1) \<or> (e = Check \<and> Q es)"
      by (cases es2 rule: rev_cases) auto
  qed (auto, blast)
  show ?case
    unfolding power_run_simps power_step_auto snoc power_run_last split[of "\<lambda>es1. flag (power_run es1 s) \<and> current_state (power_run es1 s) = OFF"]
    by blast
qed

text \<open>The sleep flag under every interleaving of the threads: it is raised exactly when a check happens while
  the power is off and the watcher was started with the power on. The watcher compares with the state it
  found at its start only, so if it starts with the power off, later falls to off are never noticed.\<close>

theorem sleep_flag_iff:
  assumes "\<not> auto_slpmod_flag s"
  shows "auto_slpmod_flag (power_run es (state_check_begin s)) \<longleftrightarrow>
     current_state s \<noteq> OFF \<and>
     (\<exists>es1 es2. es = es1 @ Check # es2 \<and> flag (power_run es1 (state_check_begin s)) \<and>
        current_state (power_run es1 (state_check_begin s)) = OFF)"
proof -
  have "\<not> auto_slpmod_flag (state_check_begin s)" "last_state (state_check_begin s) = current_state s"
    using assms by (simp_all add: state_check_begin_def)
  from power_run_auto[OF this(1), of es] this(2) show ?thesis by simp
qed

text \<open>A full power cycle watched from the initial state, which is off: the flag stays down.\<close>

theorem sleep_flag_iff_witness:
  "\<not> auto_slpmod_flag (power_run [Change, Check, Change, Check, Change, Change, Check] (state_check_begin power_init))"
  using sleep_flag_iff[of power_init "[Change, Check, Change, Check, Change, Change, Check]"]
  by (simp add: power_init_def)

end
