(* ===== verification/Can_Signal.thy ===== *)
theory Can_Signal
  imports Prelude
begin

text \<open>
  \<^verbatim>\<open>class CanSignalJumpDetector\<close> of \<^verbatim>\<open>src/other/timer/state.cpp\<close>: extract a signal from the bytes of a CAN frame,
  scale it, and report jumps of the value. The configuration structures are not declared in the
  repository; the records hold the fields that the code uses, at the widths its arithmetic gives them.
  Physical values are of an arbitrary ordered type \<open>'v\<close> with the conversion \<open>scale\<close> from the raw value
  as a parameter, since \<^verbatim>\<open>float\<close> rounding plays no part in what is shown.
\<close>

unbundle bit_operations_syntax

datatype jump_type = JUMP_ANY | JUMP_FROM_TO | JUMP_RANGE_TO_RANGE

record 'v JumpCondition =
  jtype :: jump_type
  from_val :: 'v
  to_val :: 'v
  from_min :: 'v
  from_max :: 'v
  to_min :: 'v
  to_max :: 'v

record 'v CanSignalConfig =
  cfg_can_id :: "32 word"
  start_bit :: "8 word"
  signal_length :: "8 word"
  is_signed :: bool
  min_val :: 'v
  max_val :: 'v

record 'v CanSignalJumpDetector =
  signal_cfg :: "'v CanSignalConfig"
  jump_condition :: "'v JumpCondition"
  last_valid_val :: 'v
  current_val :: 'v
  is_initialized :: bool
  jumps :: "('v \<times> 'v) list"     \<comment> \<open>the calls of the callback\<close>

text \<open>\<^verbatim>\<open>1 << n\<close> as an \<^verbatim>\<open>int\<close>: defined for results that fit.\<close>

definition shl_int :: "int \<Rightarrow> nat \<Rightarrow> int result" where
  "shl_int b n = (if n \<ge> 32 then Inl IntOverflow else chk_int (push_bit n b))"

text \<open>The extraction loop from bit \<open>i\<close> on; all index arithmetic is in \<^verbatim>\<open>uint8_t\<close>.\<close>

function extract_bits :: "8 word \<Rightarrow> 8 word \<Rightarrow> 8 word list \<Rightarrow> 8 word \<Rightarrow> 8 word \<Rightarrow> int \<Rightarrow> int result" where
  "extract_bits start len data data_len i raw =
     (if i < len then
        let bit_pos = start + i;
            byte_idx = bit_pos div 8;
            bit_in_byte = bit_pos mod 8
        in if byte_idx \<ge> data_len then Inr raw
           else rbind (arr_get data (uint byte_idx)) (\<lambda>byte.
                rbind (shl_int (uint ((drop_bit (unat bit_in_byte) byte) AND 1)) (unat i)) (\<lambda>b.
                  extract_bits start len data data_len (i + 1) (raw OR b)))
      else Inr raw)"
  by pat_completeness auto
termination
proof (relation "measure (\<lambda>(start, len, data, data_len, i, raw). unat len - unat i)")
  fix start len data_len i :: "8 word" and data raw x xa xb y ya
  assume lt: "i < len"
  then have "unat (i + 1) = Suc (unat i)" by (rule word_Suc_below)
  with lt show "((start, len, data, data_len, i + 1, raw OR ya), start, len, data, data_len, i, raw)
      \<in> measure (\<lambda>(start, len, data, data_len, i, raw). unat len - unat i)"
    by (simp add: word_less_nat_alt)
qed simp

declare extract_bits.simps [simp del]

definition parseRawValue :: "'v CanSignalConfig \<Rightarrow> 8 word list \<Rightarrow> 8 word \<Rightarrow> int result" where
  "parseRawValue cfg data data_len =
     rbind (extract_bits (start_bit cfg) (signal_length cfg) data data_len 0 0) (\<lambda>raw.
       if is_signed cfg then
         (if signal_length cfg = 0 then Inl IntOverflow
          else rbind (shl_int 1 (unat (signal_length cfg) - 1)) (\<lambda>top.
            if raw AND top \<noteq> 0 then
              rbind (shl_int 1 (unat (signal_length cfg))) (\<lambda>m. chk_int (raw - m))
            else Inr raw))
       else Inr raw)"

definition isValidValue :: "'v::linorder CanSignalConfig \<Rightarrow> 'v \<Rightarrow> bool" where
  "isValidValue cfg v \<longleftrightarrow> v \<ge> min_val cfg \<and> v \<le> max_val cfg"

definition checkJumpCondition :: "'v::linorder JumpCondition \<Rightarrow> 'v \<Rightarrow> 'v \<Rightarrow> bool" where
  "checkJumpCondition c prev cur = (case jtype c of
     JUMP_ANY \<Rightarrow> prev \<noteq> cur
   | JUMP_FROM_TO \<Rightarrow> prev = from_val c \<and> cur = to_val c
   | JUMP_RANGE_TO_RANGE \<Rightarrow>
       (prev \<ge> from_min c \<and> prev \<le> from_max c) \<and> (cur \<ge> to_min c \<and> cur \<le> to_max c))"

definition CanSignalJumpDetector_ctor ::
  "'v::zero CanSignalConfig \<Rightarrow> 'v JumpCondition \<Rightarrow> 'v CanSignalJumpDetector" where
  "CanSignalJumpDetector_ctor cfg cond = \<lparr>signal_cfg = cfg, jump_condition = cond, last_valid_val = 0,
     current_val = 0, is_initialized = False, jumps = []\<rparr>"

definition processCanMessage ::
  "(int \<Rightarrow> 'v::linorder) \<Rightarrow> 32 word \<Rightarrow> 8 word list \<Rightarrow> 8 word \<Rightarrow> 'v CanSignalJumpDetector \<Rightarrow>
   'v CanSignalJumpDetector result" where
  "processCanMessage scale can_id data data_len s =
     (if can_id \<noteq> cfg_can_id (signal_cfg s) then Inr s
      else rbind (parseRawValue (signal_cfg s) data data_len) (\<lambda>raw.
        let s1 = s\<lparr>current_val := scale raw\<rparr> in
        if \<not> isValidValue (signal_cfg s1) (current_val s1) then Inr s1
        else if \<not> is_initialized s1 then Inr (s1\<lparr>last_valid_val := current_val s1, is_initialized := True\<rparr>)
        else let s2 = (if checkJumpCondition (jump_condition s1) (last_valid_val s1) (current_val s1)
                       then s1\<lparr>jumps := jumps s1 @ [(last_valid_val s1, current_val s1)]\<rparr> else s1)
             in Inr (s2\<lparr>last_valid_val := current_val s2\<rparr>)))"

fun process_all ::
  "(int \<Rightarrow> 'v::linorder) \<Rightarrow> (32 word \<times> 8 word list \<times> 8 word) list \<Rightarrow> 'v CanSignalJumpDetector \<Rightarrow>
   'v CanSignalJumpDetector result" where
  "process_all scale [] s = Inr s"
| "process_all scale ((i, d, n) # ms) s = rbind (processCanMessage scale i d n s) (process_all scale ms)"

section \<open>Extraction\<close>

text \<open>The frame as one number, byte 0 lowest.\<close>

fun frame :: "8 word list \<Rightarrow> int" where
  "frame [] = 0"
| "frame (b # bs) = uint b OR push_bit 8 (frame bs)"

lemma bit_frame:
  "bit (frame data) n \<longleftrightarrow> n div 8 < length data \<and> bit (data ! (n div 8)) (n mod 8)"
proof (induction data arbitrary: n)
  case (Cons b bs)
  show ?case
  proof (cases "n < 8")
    case True
    then show ?thesis by (simp add: bit_or_iff bit_push_bit_iff bit_uint_iff)
  next
    case False
    then have "n div 8 = Suc ((n - 8) div 8)" "n mod 8 = (n - 8) mod 8"
      by (simp_all add: le_div_geq le_mod_geq)
    with False Cons show ?thesis by (auto simp: bit_or_iff bit_push_bit_iff bit_uint_iff)
  qed
qed simp

lemma take_bit_next: "take_bit (Suc i) x = take_bit i x OR push_bit i (of_bool (bit x i))" for x :: int
  by (rule bit_eqI) (auto simp: bit_simps less_Suc_eq)

lemma pow2_bound: "n \<le> 30 \<Longrightarrow> (2::int) ^ n \<le> 1073741824"
  using power_increasing[of n 30 "2::int"] by simp

lemma in_int_diff: "0 \<le> a \<Longrightarrow> a < p \<Longrightarrow> p \<le> 1073741824 \<Longrightarrow> in_int (a - p) \<and> in_int p"
  by (simp add: in_int_numerals)

lemma shl_int_bit: "n \<le> 30 \<Longrightarrow> shl_int (of_bool b) n = Inr (push_bit n (of_bool b))"
  using in_int_diff[of 0 "2 ^ n"] pow2_bound[of n]
  by (cases b) (simp_all add: shl_int_def push_bit_eq_mult in_int_numerals)

lemma byte_bit: "n < 8 \<Longrightarrow> uint ((drop_bit n (b :: 8 word)) AND 1) = of_bool (bit b n)"
  by (simp add: and_one_eq odd_iff_mod_2_eq_one bit_iff_odd_drop_bit)

text \<open>A frame that is too short reads as if zero bytes followed.\<close>

lemma extract_bits_any:
  assumes fit: "unat start + unat len \<le> 256" and n: "unat n \<le> length data" and len: "unat len \<le> 31" and i: "i \<le> len"
    and raw: "raw = take_bit (unat i) (drop_bit (unat start) (frame (take (unat n) data)))"
  shows "extract_bits start len data n i raw = Inr (take_bit (unat len) (drop_bit (unat start) (frame (take (unat n) data))))"
  using i raw
proof (induction "unat len - unat i" arbitrary: i raw)
  case 0
  then have "i = len" by (simp add: word_le_nat_alt word_unat_eq_iff)
  with 0 show ?case by (simp add: extract_bits.simps[of start len data n len])
next
  case (Suc k)
  then have lt: "i < len" by (simp add: word_less_nat_alt)
  let ?p = "unat start + unat i" and ?x = "drop_bit (unat start) (frame (take (unat n) data))"
  have ul: "unat i < unat len" using lt by (simp add: word_less_nat_alt)
  have p: "unat (start + i) = ?p" using fit ul by (simp add: unat_word_ariths)
  have d: "unat ((start + i) div 8) = ?p div 8" "unat ((start + i) mod 8) = ?p mod 8"
    by (simp_all add: unat_div_distrib unat_mod_distrib p)
  have bx: "bit ?x j \<longleftrightarrow> (unat start + j) div 8 < unat n \<and> bit (data ! ((unat start + j) div 8)) ((unat start + j) mod 8)" for j
    using n by (auto simp add: bit_drop_bit_eq bit_frame)
  show ?case
  proof (cases "?p div 8 < unat n")
    case False
    have z: "bit ?x j \<Longrightarrow> j < unat i" for j
      using False div_le_mono[of ?p "unat start + j" 8] unfolding bx by linarith
    have "bit ?x j \<Longrightarrow> j < unat len" for j using z[of j] ul by linarith
    with z have "take_bit (unat len) ?x = take_bit (unat i) ?x"
      by (intro bit_eqI) (auto simp: bit_take_bit_iff)
    moreover have "n \<le> (start + i) div 8" using False by (simp add: word_le_nat_alt d)
    ultimately show ?thesis using lt Suc.prems(2) by (subst extract_bits.simps) (simp add: Let_def)
  next
    case True
    then have idx: "?p div 8 < length data" using n by linarith
    have in_frame: "\<not> n \<le> (start + i) div 8" using True by (simp add: word_le_nat_alt d)
    have u: "uint ((start + i) div 8) = int (?p div 8)" using d(1) by (metis uint_nat)
    have nxt: "unat (i + 1) = Suc (unat i)" by (rule word_Suc_below[OF lt])
    have b: "uint (drop_bit (unat ((start + i) mod 8)) (data ! (?p div 8)) AND 1) = of_bool (bit ?x (unat i))"
      by (subst byte_bit) (use True in \<open>simp_all add: d bx\<close>)
    have "extract_bits start len data n i raw = extract_bits start len data n (i + 1) (take_bit (Suc (unat i)) ?x)"
      unfolding take_bit_next Suc.prems(2)[symmetric]
      by (subst extract_bits.simps) (use ul len idx in_frame lt in \<open>simp add: Let_def u arr_get_in b shl_int_bit\<close>)
    also have "\<dots> = Inr (take_bit (unat len) ?x)"
      by (rule Suc.hyps(1)) (use Suc.hyps(2) nxt ul in \<open>simp_all add: word_le_nat_alt\<close>)
    finally show ?thesis .
  qed
qed

text \<open>The signal in the bytes of a frame.\<close>

definition signal_of :: "'v CanSignalConfig \<Rightarrow> 8 word list \<Rightarrow> int" where
  "signal_of cfg bytes = (let x = drop_bit (unat (start_bit cfg)) (frame bytes) in
     if is_signed cfg then signed_take_bit (unat (signal_length cfg) - 1) x else take_bit (unat (signal_length cfg)) x)"

definition signal_ok :: "'v CanSignalConfig \<Rightarrow> bool" where
  "signal_ok cfg \<longleftrightarrow> unat (start_bit cfg) + unat (signal_length cfg) \<le> 256 \<and> 0 < unat (signal_length cfg) \<and>
     unat (signal_length cfg) \<le> 30"

lemma parseRawValue_any:
  assumes ok: "signal_ok cfg" and n: "unat n \<le> length data"
  shows "parseRawValue cfg data n = Inr (signal_of cfg (take (unat n) data))"
proof -
  let ?len = "unat (signal_length cfg)" and ?x = "drop_bit (unat (start_bit cfg)) (frame (take (unat n) data))"
  have l: "unat (start_bit cfg) + ?len \<le> 256" "0 < ?len" "?len \<le> 30" using ok by (simp_all add: signal_ok_def)
  have ex: "extract_bits (start_bit cfg) (signal_length cfg) data n 0 0 = Inr (take_bit ?len ?x)"
    by (rule extract_bits_any) (use l n in simp_all)
  obtain m where m: "?len = Suc m" using l(2) gr0_implies_Suc by blast
  have nz: "signal_length cfg \<noteq> 0" using l(2) by auto
  have top: "take_bit ?len ?x AND push_bit m 1 \<noteq> 0 \<longleftrightarrow> bit ?x m"
    by (simp add: m push_bit_eq_mult and_exp_eq_0_iff_not_bit bit_take_bit_iff)
  have sh: "shl_int 1 m = Inr (push_bit m 1)" "shl_int 1 ?len = Inr (push_bit ?len 1)"
    using shl_int_bit[of m True] shl_int_bit[of ?len True] m l(3) by simp_all
  have "in_int (take_bit ?len ?x - 2 ^ ?len)"
    using in_int_diff[of "take_bit ?len ?x" "2 ^ ?len"] pow2_bound[OF l(3)] by simp
  then show ?thesis
    using nz top sh by (simp add: parseRawValue_def signal_of_def ex m signed_take_bit_eq_take_bit_minus push_bit_eq_mult)
qed

section \<open>Properties\<close>

text \<open>C39: \<^verbatim>\<open>parseRawValue\<close> on a frame that holds the whole signal of at most 30 bits returns the signal: the
  \<open>signal_length\<close> bits from \<open>start_bit\<close> of the frame read lowest byte first, as an unsigned number or in two's
  complement.\<close>

theorem parseRawValue_correct:
  assumes "unat (start_bit cfg) + unat (signal_length cfg) \<le> 8 * length data" and "8 * length data < 256"
    and "unat n = length data" and "0 < unat (signal_length cfg)" and "unat (signal_length cfg) \<le> 30"
  shows "parseRawValue cfg data n =
     Inr (if is_signed cfg
          then signed_take_bit (unat (signal_length cfg) - 1) (drop_bit (unat (start_bit cfg)) (frame data))
          else take_bit (unat (signal_length cfg)) (drop_bit (unat (start_bit cfg)) (frame data)))"
proof -
  have "signal_ok cfg" "unat n \<le> length data" using assms by (simp_all add: signal_ok_def)
  then show ?thesis using parseRawValue_any[of cfg n data] assms(3) by (simp add: signal_of_def)
qed

definition can_demo :: "int CanSignalConfig" where
  "can_demo = \<lparr>cfg_can_id = 0x123, start_bit = 4, signal_length = 12, is_signed = True, min_val = - 500, max_val = 500\<rparr>"

theorem parseRawValue_correct_witness: "parseRawValue can_demo [0x5F, 0xFF, 0x00] 3 = Inr (- 11)"
  by (subst parseRawValue_correct) (simp_all add: can_demo_def signed_take_bit_eq_take_bit_minus
      drop_bit_eq_div push_bit_eq_mult bit_iff_odd take_bit_eq_mod)

text \<open>The physical values that the detector accepts, in the order they arrive: of its id and in range, also when the frame is
  too short for the signal.\<close>

fun accepted ::
  "(int \<Rightarrow> 'v::linorder) \<Rightarrow> 'v CanSignalConfig \<Rightarrow> (32 word \<times> 8 word list \<times> 8 word) list \<Rightarrow> 'v list" where
  "accepted scale cfg [] = []"
| "accepted scale cfg ((i, d, n) # ms) =
     (let v = scale (signal_of cfg (take (unat n) d)) in
      (if i = cfg_can_id cfg \<and> isValidValue cfg v then [v] else []) @ accepted scale cfg ms)"

fun jump_pairs :: "'v::linorder JumpCondition \<Rightarrow> 'v list \<Rightarrow> ('v \<times> 'v) list" where
  "jump_pairs c (x # y # vs) = (if checkJumpCondition c x y then [(x, y)] else []) @ jump_pairs c (y # vs)"
| "jump_pairs c vs = []"

lemma process_accepts:
  assumes "i = cfg_can_id (signal_cfg s)" and "parseRawValue (signal_cfg s) d n = Inr raw"
  shows "\<exists>s1. processCanMessage scale i d n s = Inr s1 \<and> signal_cfg s1 = signal_cfg s \<and>
    jump_condition s1 = jump_condition s \<and>
    (isValidValue (signal_cfg s) (scale raw) \<longrightarrow> is_initialized s1 \<and> last_valid_val s1 = scale raw \<and>
       jumps s1 = jumps s @ (if is_initialized s \<and> checkJumpCondition (jump_condition s) (last_valid_val s) (scale raw)
                             then [(last_valid_val s, scale raw)] else [])) \<and>
    (\<not> isValidValue (signal_cfg s) (scale raw) \<longrightarrow> is_initialized s1 = is_initialized s \<and>
       last_valid_val s1 = last_valid_val s \<and> jumps s1 = jumps s)"
  using assms by (cases "isValidValue (signal_cfg s) (scale raw)"; cases "is_initialized s")
    (auto simp: processCanMessage_def Let_def)

lemma process_all_jumps:
  assumes "signal_ok (signal_cfg s)" and "\<forall>(i, d, n) \<in> set ms. unat n \<le> length d"
  shows "\<exists>s'. process_all scale ms s = Inr s' \<and>
    jumps s' = jumps s @ jump_pairs (jump_condition s)
      ((if is_initialized s then [last_valid_val s] else []) @ accepted scale (signal_cfg s) ms)"
  using assms
proof (induction ms arbitrary: s)
  case (Cons m ms)
  obtain i d n where [simp]: "m = (i, d, n)" by (cases m)
  show ?case
  proof (cases "i = cfg_can_id (signal_cfg s)")
    case False
    then have "accepted scale (signal_cfg s) (m # ms) = accepted scale (signal_cfg s) ms"
      "process_all scale (m # ms) s = process_all scale ms s"
      by (simp_all add: processCanMessage_def Let_def)
    with Cons.IH[of s] Cons.prems show ?thesis by (simp only: list.set_intros(2) ball_simps) auto
  next
    case True
    have raw: "parseRawValue (signal_cfg s) d n = Inr (signal_of (signal_cfg s) (take (unat n) d))"
      by (rule parseRawValue_any) (use Cons.prems in auto)
    let ?v = "scale (signal_of (signal_cfg s) (take (unat n) d))"
    obtain s1 where s1: "processCanMessage scale i d n s = Inr s1" "signal_cfg s1 = signal_cfg s"
      "jump_condition s1 = jump_condition s"
      "isValidValue (signal_cfg s) ?v \<longrightarrow> is_initialized s1 \<and> last_valid_val s1 = ?v \<and>
         jumps s1 = jumps s @ (if is_initialized s \<and> checkJumpCondition (jump_condition s) (last_valid_val s) ?v
                               then [(last_valid_val s, ?v)] else [])"
      "\<not> isValidValue (signal_cfg s) ?v \<longrightarrow> is_initialized s1 = is_initialized s \<and>
         last_valid_val s1 = last_valid_val s \<and> jumps s1 = jumps s"
      using process_accepts[OF True raw, of scale] by blast
    from Cons.IH[of s1] Cons.prems s1 True show ?thesis
      by (cases "isValidValue (signal_cfg s) ?v"; cases "is_initialized s") (auto simp: Let_def)
  qed
qed auto

text \<open>C40: The jumps that a new detector reports on any sequence of messages, for a signal of 1 to 30 bits within the first 256
  bits of a frame and lengths that do not exceed the data. They are exactly the pairs of successive accepted values that
  satisfy the jump condition; messages of other ids and values out of range are skipped, and the first accepted value
  reports nothing. The value of a message is the signal in the bytes it has: a frame that is too short for the signal is not
  skipped, as a comment in the code says, but read as if zero bytes followed, and its value can be accepted and reported.\<close>

theorem detector_jumps:
  assumes "signal_ok cfg" and "\<forall>(i, d, n) \<in> set ms. unat n \<le> length d"
  shows "\<exists>s'. process_all scale ms (CanSignalJumpDetector_ctor cfg cond) = Inr s' \<and>
     jumps s' = jump_pairs cond (accepted scale cfg ms)"
  using process_all_jumps[of "CanSignalJumpDetector_ctor cfg cond" ms scale] assms
  by (simp add: CanSignalJumpDetector_ctor_def)

definition any_jump :: "int JumpCondition" where
  "any_jump = \<lparr>jtype = JUMP_ANY, from_val = 0, to_val = 0, from_min = 0, from_max = 0, to_min = 0, to_max = 0\<rparr>"

text \<open>A frame with the value 5, one of another id, an empty frame, which reads as 0, and one with the value 6.\<close>

theorem detector_jumps_witness:
  "\<exists>s'. process_all (\<lambda>r. r) [(0x123, [0x50, 0], 2), (0x7, [], 0), (0x123, [], 0), (0x123, [0x60, 0], 2)]
      (CanSignalJumpDetector_ctor (can_demo\<lparr>is_signed := False\<rparr>) any_jump) = Inr s' \<and> jumps s' = [(5, 0), (0, 6)]"
proof -
  let ?ms = "[(0x123, [0x50, 0], 2), (0x7, [], 0), (0x123, [], 0), (0x123, [0x60, 0], 2)] :: (32 word \<times> 8 word list \<times> 8 word) list"
  let ?cfg = "can_demo\<lparr>is_signed := False\<rparr>"
  have h: "signal_ok ?cfg" "\<forall>(i, d, n) \<in> set ?ms. unat n \<le> length d" by (simp_all add: signal_ok_def can_demo_def)
  have "jump_pairs any_jump (accepted (\<lambda>r. r) ?cfg ?ms) = [(5, 0), (0, 6)]"
    by (simp add: signal_of_def can_demo_def isValidValue_def any_jump_def checkJumpCondition_def drop_bit_eq_div take_bit_eq_mod
        push_bit_eq_mult)
  then show ?thesis using detector_jumps[OF h, of "\<lambda>r. r" any_jump] by simp
qed

text \<open>Every frame that is too short and leaves a value in range counts as a valid one.\<close>

lemma short_frame_is_accepted:
  assumes "signal_ok cfg" and "isValidValue cfg (scale 0)"
  shows "parseRawValue cfg [] 0 = Inr 0" and "accepted scale cfg [(cfg_can_id cfg, [], 0)] = [scale 0]"
  using parseRawValue_any[OF assms(1), of 0 "[]"] assms(2) by (simp_all add: signal_of_def Let_def)

end
