(* ===== verification/Matched_Status.thy ===== *)
theory Matched_Status
  imports Prelude "HOL-Library.AList"
begin

text \<open>
  \<^verbatim>\<open>RemoteServerMatchedStatus\<close> and \<^verbatim>\<open>RemoteClientMatchedStatus\<close> of
  \<^verbatim>\<open>src/other/pubsub/dds/request-response/app_utils.hpp\<close>: which of the two endpoints of each remote participant
  are matched. \<^verbatim>\<open>std::map<GuidPrefix_t, std::bitset<2>>\<close> is an association list; \<^verbatim>\<open>operator[]\<close> creates a missing
  entry with both bits clear.

  What client and server rely on is the locale \<open>endpoint_pair\<close>, interpreted on both classes.
\<close>

type_synonym 'g matched_status = "('g \<times> bool \<times> bool) list"

definition bits_of :: "'g matched_status \<Rightarrow> 'g \<Rightarrow> bool \<times> bool" where
  "bits_of m g = (case map_of m g of None \<Rightarrow> (False, False) | Some b \<Rightarrow> b)"

section \<open>RemoteServerMatchedStatus\<close>

definition match_request_reader :: "'g \<Rightarrow> bool \<Rightarrow> 'g matched_status \<Rightarrow> 'g matched_status" where
  "match_request_reader g st m = AList.update g (st, snd (bits_of m g)) m"

definition match_reply_writer :: "'g \<Rightarrow> bool \<Rightarrow> 'g matched_status \<Rightarrow> 'g matched_status" where
  "match_reply_writer g st m = AList.update g (fst (bits_of m g), st) m"

definition is_server_matched :: "'g \<Rightarrow> 'g matched_status \<Rightarrow> bool" where
  "is_server_matched g m = (case map_of m g of None \<Rightarrow> False | Some (a, b) \<Rightarrow> a \<and> b)"

definition is_any_server_matched :: "'g matched_status \<Rightarrow> bool" where
  "is_any_server_matched m = list_ex (\<lambda>(g, a, b). a \<and> b) m"

section \<open>RemoteClientMatchedStatus\<close>

definition match_request_writer :: "'g \<Rightarrow> bool \<Rightarrow> 'g matched_status \<Rightarrow> 'g matched_status" where
  "match_request_writer g st m = AList.update g (st, snd (bits_of m g)) m"

definition match_reply_reader :: "'g \<Rightarrow> bool \<Rightarrow> 'g matched_status \<Rightarrow> 'g matched_status" where
  "match_reply_reader g st m = AList.update g (fst (bits_of m g), st) m"

definition is_client_matched :: "'g \<Rightarrow> 'g matched_status \<Rightarrow> bool" where
  "is_client_matched g m = (case map_of m g of None \<Rightarrow> False | Some (a, b) \<Rightarrow> a \<and> b)"

text \<open>The result is \<^verbatim>\<open>!none()\<close>: true when an endpoint \<^emph>\<open>is\<close> matched.\<close>

definition is_fully_unmatched :: "'g \<Rightarrow> 'g matched_status \<Rightarrow> bool" where
  "is_fully_unmatched g m = (case map_of m g of None \<Rightarrow> False | Some (a, b) \<Rightarrow> \<not> (\<not> a \<and> \<not> b))"

definition no_client_matched :: "'g matched_status \<Rightarrow> bool" where
  "no_client_matched m = (\<not> list_ex (\<lambda>(g, a, b). a \<or> b) m)"

section \<open>The contract of the two classes\<close>

datatype 'g endpoint_event = First 'g bool | Second 'g bool

locale endpoint_pair =
  fixes set_first set_second :: "'g \<Rightarrow> bool \<Rightarrow> 'm \<Rightarrow> 'm"
    and both :: "'g \<Rightarrow> 'm \<Rightarrow> bool"
    and bits :: "'m \<Rightarrow> 'g \<Rightarrow> bool \<times> bool"
  assumes first_bits: "bits (set_first g b m) = (bits m)(g := (b, snd (bits m g)))"
    and second_bits: "bits (set_second g b m) = (bits m)(g := (fst (bits m g), b))"
    and both_iff: "both g m \<longleftrightarrow> fst (bits m g) \<and> snd (bits m g)"
begin

fun endpoint_step :: "'g endpoint_event \<Rightarrow> 'm \<Rightarrow> 'm" where
  "endpoint_step (First g b) m = set_first g b m"
| "endpoint_step (Second g b) m = set_second g b m"

fun last_first :: "'g \<Rightarrow> bool \<Rightarrow> 'g endpoint_event list \<Rightarrow> bool" where
  "last_first g d [] = d"
| "last_first g d (First h b # es) = last_first g (if h = g then b else d) es"
| "last_first g d (Second h b # es) = last_first g d es"

fun last_second :: "'g \<Rightarrow> bool \<Rightarrow> 'g endpoint_event list \<Rightarrow> bool" where
  "last_second g d [] = d"
| "last_second g d (First h b # es) = last_second g d es"
| "last_second g d (Second h b # es) = last_second g (if h = g then b else d) es"

lemma bits_fold:
  "bits (fold endpoint_step es m) g = (last_first g (fst (bits m g)) es, last_second g (snd (bits m g)) es)"
proof (induction es arbitrary: m)
  case (Cons e es)
  show ?case by (cases e) (simp_all add: Cons first_bits second_bits)
qed simp

text \<open>A participant counts as matched exactly when the last event of each of its endpoints was a match.\<close>

lemma both_fold:
  "both g (fold endpoint_step es m) \<longleftrightarrow>
     last_first g (fst (bits m g)) es \<and> last_second g (snd (bits m g)) es"
  by (simp add: both_iff bits_fold)

lemma both_after_matches: "both g (set_second g True (set_first g True m))" "both g (set_first g True (set_second g True m))"
  by (simp_all add: both_iff first_bits second_bits)

lemma other_untouched: "g \<noteq> h \<Longrightarrow> both g (set_first h b m) = both g m" "g \<noteq> h \<Longrightarrow> both g (set_second h b m) = both g m"
  by (simp_all add: both_iff first_bits second_bits)

end

lemma bits_update: "bits_of (AList.update g v m) = (bits_of m)(g := v)"
  by (auto simp: bits_of_def update_conv fun_eq_iff)

interpretation server_status: endpoint_pair match_request_reader match_reply_writer is_server_matched bits_of
  by unfold_locales (auto simp: match_request_reader_def match_reply_writer_def bits_update
      is_server_matched_def bits_of_def split: option.splits)

interpretation client_status: endpoint_pair match_request_writer match_reply_reader is_client_matched bits_of
  by unfold_locales (auto simp: match_request_writer_def match_reply_reader_def bits_update
      is_client_matched_def bits_of_def split: option.splits)

lemma is_fully_unmatched_iff: "is_fully_unmatched g m \<longleftrightarrow> fst (bits_of m g) \<or> snd (bits_of m g)"
  by (auto simp: is_fully_unmatched_def bits_of_def split: option.splits)

lemma client_matched_some: "is_client_matched g m \<Longrightarrow> is_fully_unmatched g m"
  by (simp add: client_status.both_iff is_fully_unmatched_iff)

lemma distinct_matched:
  "distinct (map fst m) \<Longrightarrow> distinct (map fst (match_request_reader g b m))"
  "distinct (map fst m) \<Longrightarrow> distinct (map fst (match_reply_writer g b m))"
  "distinct (map fst m) \<Longrightarrow> distinct (map fst (match_request_writer g b m))"
  "distinct (map fst m) \<Longrightarrow> distinct (map fst (match_reply_reader g b m))"
  by (simp_all add: match_request_reader_def match_reply_writer_def match_request_writer_def
      match_reply_reader_def distinct_update)

lemma is_server_matched_iff: "is_server_matched g m \<longleftrightarrow> map_of m g = Some (True, True)"
  by (auto simp: is_server_matched_def split: option.splits)

lemma any_server_iff:
  assumes "distinct (map fst m)"
  shows "is_any_server_matched m \<longleftrightarrow> (\<exists>g. is_server_matched g m)"
  unfolding is_server_matched_iff map_of_eq_Some_iff[OF assms]
  by (auto simp: is_any_server_matched_def list_ex_iff)

lemma no_client_iff:
  assumes "distinct (map fst m)"
  shows "no_client_matched m \<longleftrightarrow> (\<forall>g. \<not> is_fully_unmatched g m)"
  using assms
  by (auto simp: no_client_matched_def is_fully_unmatched_def list_ex_iff split: option.splits)

end
