(* ===== verification/Calc_Server.thy ===== *)
theory Calc_Server
  imports Matched_Status
begin

text \<open>
  The calculator server of \<^verbatim>\<open>src/other/pubsub/dds/request-response/ServerApp.cpp\<close>
  (\<^verbatim>\<open>request_reply/src/ServerApp.cpp\<close> has the same logic): DDS callbacks fill a queue of requests, the reply
  thread empties it. Every callback and every round of the reply thread runs under \<^verbatim>\<open>mtx_\<close> and is a step.

  DDS itself is outside: what \<^verbatim>\<open>take_next_sample\<close> delivers is a list of samples, whether \<^verbatim>\<open>write\<close> succeeds is an
  argument, and so is which entity creations fail. Requests are objects behind \<^verbatim>\<open>shared_ptr\<close>: the queue holds
  addresses into \<open>store\<close>. Messages on the console are left out.
\<close>

section \<open>Data\<close>

datatype CalculatorOperationType = ADDITION | SUBTRACTION | MULTIPLICATION | DIVISION | UnknownOperation int

record CalculatorRequestType =
  client_id :: string
  req_x :: int
  req_y :: int
  operation :: CalculatorOperationType

record 'g SampleInfo =
  alive_instance :: bool
  valid_data :: bool
  publication :: 'g                  \<comment> \<open>GUID prefix of \<^verbatim>\<open>publication_handle\<close>\<close>
  sample_identity :: "'g \<times> int"      \<comment> \<open>writer GUID and sequence number\<close>

record 'g CalculatorReply =
  related :: "'g \<times> int"
  reply_client :: string
  reply_result :: int

record 'g ServerApp =
  stopped :: bool
  client_matched :: "'g matched_status"
  requests :: "('g SampleInfo \<times> nat) list"
  store :: "nat \<Rightarrow> CalculatorRequestType"
  next_addr :: nat
  replies :: "'g CalculatorReply list"
  history_cleared :: nat

definition empty_request :: CalculatorRequestType where
  "empty_request = \<lparr>client_id = [], req_x = 0, req_y = 0, operation = ADDITION\<rparr>"

section \<open>Construction\<close>

text \<open>The calls to DDS that can fail, in the order of \<^verbatim>\<open>create_participant\<close>, \<^verbatim>\<open>create_request_entities\<close> and
  \<^verbatim>\<open>create_reply_entities\<close>; \<open>fails\<close> says which do.\<close>

datatype dds_call =
    GetFactory | CreateParticipant
  | NewType string | RegisterType string | DefaultTopicQos string | CreateTopic string
  | DefaultSubscriberQos | CreateSubscriber | DefaultReaderQos | CreateReader
  | DefaultPublisherQos | CreatePublisher | DefaultWriterQos | CreateWriter
  | CreateFilteredTopic string

definition attempt :: "(dds_call \<Rightarrow> bool) \<Rightarrow> dds_call \<Rightarrow> string \<Rightarrow> unit result" where
  "attempt fails c msg = (if fails c then Inl (RuntimeError msg) else Inr ())"

definition create_topic :: "(dds_call \<Rightarrow> bool) \<Rightarrow> string \<Rightarrow> unit result" where
  "create_topic fails name =
     rbind (attempt fails (NewType name) ''Failed to create type'') (\<lambda>_.
     rbind (attempt fails (RegisterType name) ''Failed to register type'') (\<lambda>_.
     rbind (attempt fails (DefaultTopicQos name) ''Failed to get default topic qos'') (\<lambda>_.
     attempt fails (CreateTopic name) ''Request topic initialization failed'')))"

text \<open>The transport and peer settings that the code puts into the participant's QoS are data for DDS; \<open>Calc_Setup\<close> has them.\<close>

definition create_participant :: "(dds_call \<Rightarrow> bool) \<Rightarrow> unit result" where
  "create_participant fails =
     rbind (attempt fails GetFactory ''Failed to get participant factory instance'') (\<lambda>_.
     attempt fails CreateParticipant ''Participant initialization failed'')"

definition create_request_entities :: "(dds_call \<Rightarrow> bool) \<Rightarrow> string \<Rightarrow> unit result" where
  "create_request_entities fails service_name =
     rbind (create_topic fails (''rq/'' @ service_name)) (\<lambda>_.
     rbind (attempt fails DefaultSubscriberQos ''Failed to get default subscriber qos'') (\<lambda>_.
     rbind (attempt fails CreateSubscriber ''Subscriber initialization failed'') (\<lambda>_.
     rbind (attempt fails DefaultReaderQos ''Failed to get default datareader qos'') (\<lambda>_.
     attempt fails CreateReader ''Request reader initialization failed''))))"

definition create_reply_entities :: "(dds_call \<Rightarrow> bool) \<Rightarrow> string \<Rightarrow> unit result" where
  "create_reply_entities fails service_name =
     rbind (create_topic fails (''rr/'' @ service_name)) (\<lambda>_.
     rbind (attempt fails DefaultPublisherQos ''Failed to get default publisher qos'') (\<lambda>_.
     rbind (attempt fails CreatePublisher ''Publisher initialization failed'') (\<lambda>_.
     rbind (attempt fails DefaultWriterQos ''Failed to get default datawriter qos'') (\<lambda>_.
     attempt fails CreateWriter ''Reply writer initialization failed''))))"

definition create_entities :: "(dds_call \<Rightarrow> bool) \<Rightarrow> string \<Rightarrow> unit result" where
  "create_entities fails service_name =
     rbind (create_participant fails) (\<lambda>_.
     rbind (create_request_entities fails service_name) (\<lambda>_.
     create_reply_entities fails service_name))"

text \<open>The reply thread is started before the entities are created. When one of those calls throws, the members
  are destroyed, and destroying a joinable \<^verbatim>\<open>std::thread\<close> ends the program.\<close>

definition ServerApp_ctor :: "(dds_call \<Rightarrow> bool) \<Rightarrow> string \<Rightarrow> 'g ServerApp result" where
  "ServerApp_ctor fails service_name = (case create_entities fails service_name of
     Inl _ \<Rightarrow> Inl StdTerminate
   | Inr _ \<Rightarrow> Inr \<lparr>stopped = False, client_matched = [], requests = [], store = (\<lambda>_. empty_request), next_addr = 0,
          replies = [], history_cleared = 0\<rparr>)"

section \<open>Callbacks\<close>

definition stop :: "'g ServerApp \<Rightarrow> 'g ServerApp" where
  "stop s = s\<lparr>stopped := True\<rparr>"

definition server_run_returns :: "'g ServerApp \<Rightarrow> bool" where
  "server_run_returns s \<longleftrightarrow> stopped s"

text \<open>The destructor joins the reply thread, which leaves its loop only when the server is stopped; \<open>None\<close> is a
  destructor that waits for ever.\<close>

definition ServerApp_dtor :: "'g ServerApp \<Rightarrow> 'g ServerApp option" where
  "ServerApp_dtor s = (if stopped s then Some (s\<lparr>requests := [], client_matched := []\<rparr>) else None)"

datatype discovery_status = DISCOVERED | CHANGED_QOS | REMOVED | DROPPED | IGNORED

datatype EntityKind = SERVER | CLIENT | UNDEFINED

text \<open>\<^verbatim>\<open>user_data\<close> is a list of bytes; a byte is cast to \<^verbatim>\<open>EntityKind\<close>.\<close>

definition entity_kind :: "nat \<Rightarrow> EntityKind" where
  "entity_kind n = (if n = 0 then SERVER else if n = 1 then CLIENT else UNDEFINED)"

definition on_participant_discovery ::
  "discovery_status \<Rightarrow> nat list \<Rightarrow> 'g \<Rightarrow> 'g ServerApp \<Rightarrow> bool \<times> 'g ServerApp" where
  "on_participant_discovery status user_data g s =
     (if length user_data \<noteq> 1 then (True, s)
      else if entity_kind (user_data ! 0) \<noteq> CLIENT then (True, s)
      else if status = REMOVED \<or> status = DROPPED then
        (False, s\<lparr>client_matched := match_request_writer g False (match_reply_reader g False (client_matched s))\<rparr>)
      else (False, s))"

text \<open>Replies nobody waits for are cleared from the writer's history.\<close>

definition clear_if_unmatched :: "'g ServerApp \<Rightarrow> 'g ServerApp" where
  "clear_if_unmatched s =
     (if no_client_matched (client_matched s) then s\<lparr>history_cleared := history_cleared s + 1\<rparr> else s)"

definition on_publication_matched :: "int \<Rightarrow> 'g \<Rightarrow> 'g ServerApp \<Rightarrow> 'g ServerApp" where
  "on_publication_matched change g s =
     (if change = 1 then s\<lparr>client_matched := match_reply_reader g True (client_matched s)\<rparr>
      else if change = - 1 then
        clear_if_unmatched (s\<lparr>client_matched := match_reply_reader g False (client_matched s)\<rparr>)
      else s)"

definition on_subscription_matched :: "int \<Rightarrow> 'g \<Rightarrow> 'g ServerApp \<Rightarrow> 'g ServerApp" where
  "on_subscription_matched change g s =
     (if change = 1 then s\<lparr>client_matched := match_request_writer g True (client_matched s)\<rparr>
      else if change = - 1 then
        clear_if_unmatched (s\<lparr>client_matched := match_request_writer g False (client_matched s)\<rparr>)
      else s)"

text \<open>\<^verbatim>\<open>on_data_available\<close>: one request object is made before the loop, every sample is taken into it, and the
  queue entries share it.\<close>

fun take_loop :: "nat \<Rightarrow> ('g SampleInfo \<times> CalculatorRequestType) list \<Rightarrow> 'g ServerApp \<Rightarrow> 'g ServerApp" where
  "take_loop a [] s = s"
| "take_loop a ((info, d) # xs) s =
     (if stopped s then s
      else let s1 = (if valid_data info then s\<lparr>store := (store s)(a := d)\<rparr> else s);
               s2 = (if alive_instance info \<and> valid_data info then s1\<lparr>requests := requests s1 @ [(info, a)]\<rparr> else s1)
           in take_loop a xs s2)"

definition on_data_available :: "('g SampleInfo \<times> CalculatorRequestType) list \<Rightarrow> 'g ServerApp \<Rightarrow> 'g ServerApp" where
  "on_data_available xs s =
     (let a = next_addr s in take_loop a xs (s\<lparr>next_addr := a + 1, store := (store s)(a := empty_request)\<rparr>))"

section \<open>The reply thread\<close>

text \<open>\<^verbatim>\<open>calculate\<close>: the operands are \<^verbatim>\<open>int16_t\<close>, promoted to \<^verbatim>\<open>int\<close>; \<open>None\<close> is the result false.\<close>

definition calculate :: "CalculatorRequestType \<Rightarrow> int option result" where
  "calculate r = (case operation r of
     ADDITION \<Rightarrow> rbind (chk_int (req_x r + req_y r)) (\<lambda>v. Inr (Some v))
   | SUBTRACTION \<Rightarrow> rbind (chk_int (req_x r - req_y r)) (\<lambda>v. Inr (Some v))
   | MULTIPLICATION \<Rightarrow> rbind (chk_int (req_x r * req_y r)) (\<lambda>v. Inr (Some v))
   | DIVISION \<Rightarrow> if req_y r = 0 then Inr None else rbind (c_div (req_x r) (req_y r)) (\<lambda>v. Inr (Some v))
   | UnknownOperation _ \<Rightarrow> Inr None)"

datatype reply_outcome = Leave | Wait | Gone | Later | Malformed | Sent | Retry

text \<open>One round of \<^verbatim>\<open>reply_routine\<close>.\<close>

definition reply_routine_step :: "bool \<Rightarrow> 'g ServerApp \<Rightarrow> (reply_outcome \<times> 'g ServerApp) result" where
  "reply_routine_step write_ok s =
     (if stopped s then Inr (Leave, s)
      else case requests s of
        [] \<Rightarrow> Inr (Wait, s)
      | (info, a) # rs \<Rightarrow>
          let s1 = s\<lparr>requests := rs\<rparr>; g = publication info; r = store s a in
          if \<not> is_fully_unmatched g (client_matched s1) then Inr (Gone, s1)
          else if \<not> is_client_matched g (client_matched s1) then
            Inr (Later, s1\<lparr>requests := requests s1 @ [(info, a)]\<rparr>)
          else rbind (calculate r) (\<lambda>res. case res of
              None \<Rightarrow> Inr (Malformed, s1)
            | Some v \<Rightarrow>
                if write_ok then
                  Inr (Sent, s1\<lparr>replies := replies s1 @
                    [\<lparr>related = sample_identity info, reply_client = client_id r, reply_result = v\<rparr>]\<rparr>)
                else Inr (Retry, s1\<lparr>requests := requests s1 @ [(info, a)]\<rparr>)))"

fun reply_rounds :: "bool list \<Rightarrow> 'g ServerApp \<Rightarrow> (reply_outcome list \<times> 'g ServerApp) result" where
  "reply_rounds [] s = Inr ([], s)"
| "reply_rounds (w # ws) s = rbind (reply_routine_step w s) (\<lambda>(out, s1).
     rbind (reply_rounds ws s1) (\<lambda>(outs, s2). Inr (out # outs, s2)))"

section \<open>Lemmas\<close>

definition int16 :: "int \<Rightarrow> bool" where
  "int16 x \<longleftrightarrow> - 32768 \<le> x \<and> x \<le> 32767"

lemma int16_mult: "int16 x \<Longrightarrow> int16 y \<Longrightarrow> \<bar>x * y\<bar> \<le> 1073741824"
proof -
  assume "int16 x" "int16 y"
  then have "\<bar>x\<bar> \<le> 32768" "\<bar>y\<bar> \<le> 32768" by (auto simp: int16_def)
  then have "\<bar>x\<bar> * \<bar>y\<bar> \<le> 32768 * 32768" by (intro mult_mono) auto
  then show ?thesis by (simp add: abs_mult)
qed

lemma int16_sdiv: "int16 x \<Longrightarrow> y \<noteq> 0 \<Longrightarrow> \<bar>x sdiv y\<bar> \<le> 32768"
proof -
  assume "int16 x" "y \<noteq> 0"
  then have "\<bar>x\<bar> div \<bar>y\<bar> \<le> \<bar>x\<bar>" "0 \<le> \<bar>x\<bar> div \<bar>y\<bar>" "\<bar>x\<bar> \<le> 32768"
    using zdiv_mono2[of "\<bar>x\<bar>" 1 "\<bar>y\<bar>"] by (auto simp: int16_def pos_imp_zdiv_nonneg_iff)
  then show ?thesis by (auto simp: signed_divide_int_def abs_mult sgn_mult abs_sgn_eq)
qed

text \<open>On 16-bit operands nothing overflows, not even \<open>- 32768 / - 1\<close>.\<close>

lemma calculate_ok:
  assumes "int16 (req_x r)" and "int16 (req_y r)"
  shows "calculate r = Inr (case operation r of
     ADDITION \<Rightarrow> Some (req_x r + req_y r) | SUBTRACTION \<Rightarrow> Some (req_x r - req_y r)
   | MULTIPLICATION \<Rightarrow> Some (req_x r * req_y r)
   | DIVISION \<Rightarrow> if req_y r = 0 then None else Some (req_x r sdiv req_y r)
   | UnknownOperation _ \<Rightarrow> None)"
proof -
  have "in_int (req_x r * req_y r)" using int16_mult[OF assms] by (simp add: in_int_numerals abs_le_iff)
  moreover have "in_int (req_x r sdiv req_y r)" if "req_y r \<noteq> 0"
    using int16_sdiv[OF assms(1) that] by (simp add: in_int_numerals abs_le_iff)
  ultimately show ?thesis using assms
    by (auto simp: calculate_def c_div_def in_int_numerals int16_def
        split: CalculatorOperationType.splits)
qed

text \<open>The server answers only what it can calculate.\<close>

definition answer :: "CalculatorRequestType \<Rightarrow> int option" where
  "answer r = (case calculate r of Inr v \<Rightarrow> v | Inl _ \<Rightarrow> None)"

definition reply_to :: "'g SampleInfo \<Rightarrow> CalculatorRequestType \<Rightarrow> 'g CalculatorReply list" where
  "reply_to info r = (case answer r of None \<Rightarrow> []
     | Some v \<Rightarrow> [\<lparr>related = sample_identity info, reply_client = client_id r, reply_result = v\<rparr>])"

definition served :: "'g ServerApp \<Rightarrow> bool" where
  "served s \<longleftrightarrow> \<not> stopped s \<and> (\<forall>(info, a) \<in> set (requests s).
     is_client_matched (publication info) (client_matched s) \<and>
     int16 (req_x (store s a)) \<and> int16 (req_y (store s a)))"

lemma reply_step_served:
  assumes "served s" and "requests s = (info, a) # rs"
  shows "\<exists>out. reply_routine_step True s = Inr (out, s\<lparr>requests := rs, replies := replies s @ reply_to info (store s a)\<rparr>)"
proof -
  have m: "is_client_matched (publication info) (client_matched s)"
    and r: "int16 (req_x (store s a))" "int16 (req_y (store s a))" "\<not> stopped s"
    using assms by (auto simp: served_def)
  obtain v where "calculate (store s a) = Inr v" using calculate_ok[OF r(1,2)] by blast
  with m r client_matched_some[OF m] assms(2) show ?thesis
    by (cases v) (simp_all add: reply_routine_step_def Let_def reply_to_def answer_def)
qed

text \<open>With all clients matched and a writer that works, as many rounds as there are requests answer them all,
  in order.\<close>

lemma reply_rounds_served:
  assumes "served s"
  shows "\<exists>outs. reply_rounds (replicate (length (requests s)) True) s =
    Inr (outs, s\<lparr>requests := [], replies := replies s @
      concat (map (\<lambda>(info, a). reply_to info (store s a)) (requests s))\<rparr>)"
  using assms
proof (induction "requests s" arbitrary: s)
  case (Cons q rs)
  obtain info a where [simp]: "q = (info, a)" by force
  let ?s1 = "s\<lparr>requests := rs, replies := replies s @ reply_to info (store s a)\<rparr>"
  have q: "requests s = (info, a) # rs" using Cons.hyps(2) by simp
  from reply_step_served[OF Cons.prems q] obtain out where st: "reply_routine_step True s = Inr (out, ?s1)" ..
  have "served ?s1" using Cons.prems q by (auto simp: served_def)
  from Cons.hyps(1)[of ?s1] this obtain outs where
    "reply_rounds (replicate (length rs) True) ?s1 = Inr (outs, ?s1\<lparr>requests := [], replies := replies ?s1 @
      concat (map (\<lambda>(info, a). reply_to info (store ?s1 a)) rs)\<rparr>)" by auto
  with st q show ?case by simp
qed simp

lemma take_loop_entries:
  assumes "\<not> stopped s" and "\<forall>(info, d) \<in> set xs. alive_instance info \<and> valid_data info"
  shows "take_loop a xs s = s\<lparr>requests := requests s @ map (\<lambda>(info, d). (info, a)) xs,
    store := if xs = [] then store s else (store s)(a := snd (last xs))\<rparr>"
  using assms
proof (induction xs arbitrary: s)
  case (Cons x xs)
  obtain info d where [simp]: "x = (info, d)" by force
  have "take_loop a (x # xs) s =
      take_loop a xs (s\<lparr>store := (store s)(a := d), requests := requests s @ [(info, a)]\<rparr>)"
    using Cons.prems by simp
  also have "\<dots> = s\<lparr>requests := requests s @ map (\<lambda>(info, d). (info, a)) (x # xs),
      store := if (x # xs) = [] then store s else (store s)(a := snd (last (x # xs)))\<rparr>"
    using Cons.prems by (subst Cons.IH) (auto simp: fun_eq_iff)
  finally show ?case .
qed simp

text \<open>The queue as the reply thread sees it: each entry with the request its pointer leads to.\<close>

definition pending :: "'g ServerApp \<Rightarrow> ('g SampleInfo \<times> CalculatorRequestType) list" where
  "pending s = map (\<lambda>(info, a). (info, store s a)) (requests s)"

definition addr_ok :: "'g ServerApp \<Rightarrow> bool" where
  "addr_ok s \<longleftrightarrow> (\<forall>(info, a) \<in> set (requests s). a < next_addr s)"

definition proper :: "'g SampleInfo \<times> CalculatorRequestType \<Rightarrow> bool" where
  "proper x \<longleftrightarrow> alive_instance (fst x) \<and> valid_data (fst x)"

lemma pending_on_data:
  assumes "\<not> stopped s" and "addr_ok s" and "\<forall>x \<in> set xs. proper x"
  shows "pending (on_data_available xs s) = pending s @ map (\<lambda>(info, d). (info, snd (last xs))) xs"
    and "addr_ok (on_data_available xs s)" and "\<not> stopped (on_data_available xs s)"
    and "client_matched (on_data_available xs s) = client_matched s"
    and "replies (on_data_available xs s) = replies s"
proof -
  let ?a = "next_addr s"
  let ?s0 = "s\<lparr>next_addr := ?a + 1, store := (store s)(?a := empty_request)\<rparr>"
  have "\<forall>(info, d) \<in> set xs. alive_instance info \<and> valid_data info" using assms(3) by (auto simp: proper_def)
  from take_loop_entries[of ?s0 xs ?a, OF _ this] assms(1)
  have e: "on_data_available xs s = ?s0\<lparr>requests := requests s @ map (\<lambda>(info, d). (info, ?a)) xs,
      store := if xs = [] then store ?s0 else (store ?s0)(?a := snd (last xs))\<rparr>"
    by (simp add: on_data_available_def Let_def)
  have old: "store s a = ((store s)(?a := v)) a" if "(i, a) \<in> set (requests s)" for i a v
    using assms(2) that by (auto simp: addr_ok_def)
  show "pending (on_data_available xs s) = pending s @ map (\<lambda>(info, d). (info, snd (last xs))) xs"
    unfolding e pending_def using old by (auto simp: fun_eq_iff)
  show "addr_ok (on_data_available xs s)" "\<not> stopped (on_data_available xs s)"
    "client_matched (on_data_available xs s) = client_matched s" "replies (on_data_available xs s) = replies s"
    using assms unfolding e by (auto simp: addr_ok_def)
qed

lemma pending_singles:
  assumes "\<not> stopped s" and "addr_ok s" and "\<forall>x \<in> set xs. proper x"
  shows "pending (fold (\<lambda>x. on_data_available [x]) xs s) = pending s @ xs \<and>
    \<not> stopped (fold (\<lambda>x. on_data_available [x]) xs s) \<and>
    client_matched (fold (\<lambda>x. on_data_available [x]) xs s) = client_matched s \<and>
    replies (fold (\<lambda>x. on_data_available [x]) xs s) = replies s"
  using assms
proof (induction xs arbitrary: s)
  case (Cons x xs)
  have p: "\<forall>y \<in> set [x]. proper y" using Cons.prems(3) by simp
  note one = pending_on_data[OF Cons.prems(1,2) p]
  from Cons.IH[OF one(3,2)] Cons.prems(3) one show ?case by (auto split: prod.splits)
qed simp

lemma served_pending:
  "served s \<longleftrightarrow> \<not> stopped s \<and> (\<forall>(info, r) \<in> set (pending s).
     is_client_matched (publication info) (client_matched s) \<and> int16 (req_x r) \<and> int16 (req_y r))"
  by (auto simp: served_def pending_def)

lemma replies_pending:
  assumes "served s"
  shows "\<exists>outs s'. reply_rounds (replicate (length (pending s)) True) s = Inr (outs, s') \<and> requests s' = [] \<and>
    replies s' = replies s @ concat (map (\<lambda>(info, r). reply_to info r) (pending s))"
proof -
  have "length (pending s) = length (requests s)" by (simp add: pending_def)
  moreover have "map (\<lambda>(info, r). reply_to info r) (pending s) = map (\<lambda>(info, a). reply_to info (store s a)) (requests s)"
    by (auto simp: pending_def)
  ultimately show ?thesis using reply_rounds_served[OF assms] by auto
qed

text \<open>What clients may send: 16-bit operands, from a matched client.\<close>

definition good_sample :: "'g ServerApp \<Rightarrow> 'g SampleInfo \<times> CalculatorRequestType \<Rightarrow> bool" where
  "good_sample s x \<longleftrightarrow> proper x \<and> is_client_matched (publication (fst x)) (client_matched s) \<and>
     int16 (req_x (snd x)) \<and> int16 (req_y (snd x))"

lemma server_answers_all:
  assumes "\<not> stopped s" and "requests s = []" and "\<forall>x \<in> set xs. good_sample s x"
  shows "\<exists>outs s'. reply_rounds (replicate (length xs) True) (fold (\<lambda>x. on_data_available [x]) xs s) = Inr (outs, s') \<and>
     requests s' = [] \<and> replies s' = replies s @ concat (map (\<lambda>(info, r). reply_to info r) xs)"
proof -
  let ?t = "fold (\<lambda>x. on_data_available [x]) xs s"
  have "addr_ok s" "pending s = []" using assms(2) by (simp_all add: addr_ok_def pending_def)
  with pending_singles[OF assms(1)] assms(3)
  have t: "pending ?t = xs" "\<not> stopped ?t" "client_matched ?t = client_matched s" "replies ?t = replies s"
    by (auto simp: good_sample_def)
  then have "served ?t" using assms(3) by (auto simp: served_pending good_sample_def)
  from replies_pending[OF this] t show ?thesis by simp
qed

section \<open>Properties\<close>

text \<open>When every request comes in a callback of its own, the reply thread answers each of them once, in the
  order of arrival, with the result of its own operands, addressed to its own request.\<close>

theorem server_answers_each:
  assumes "\<not> stopped s" and "requests s = []" and "\<forall>x \<in> set xs. good_sample s x"
  shows "\<exists>outs s'. reply_rounds (replicate (length xs) True) (fold (\<lambda>x. on_data_available [x]) xs s) = Inr (outs, s') \<and>
     requests s' = [] \<and> replies s' = replies s @ concat (map (\<lambda>(info, r). reply_to info r) xs)"
  using assms by (rule server_answers_all)

definition calc_demo_server :: "string ServerApp" where
  "calc_demo_server = \<lparr>stopped = False, client_matched = [(''c1'', True, True)], requests = [],
     store = (\<lambda>_. empty_request), next_addr = 0, replies = [], history_cleared = 0\<rparr>"

definition calc_demo_sample :: "int \<Rightarrow> CalculatorOperationType \<Rightarrow> string SampleInfo \<times> CalculatorRequestType" where
  "calc_demo_sample n opr = (\<lparr>alive_instance = True, valid_data = True, publication = ''c1'', sample_identity = (''c1'', n)\<rparr>,
     \<lparr>client_id = ''c1'', req_x = 7, req_y = 2, operation = opr\<rparr>)"

lemma calc_demo_good: "good_sample calc_demo_server (calc_demo_sample n opr)"
  by (simp add: good_sample_def proper_def calc_demo_server_def calc_demo_sample_def int16_def is_client_matched_def)

theorem server_answers_each_witness:
  "\<exists>outs s'. reply_rounds (replicate 2 True) (fold (\<lambda>x. on_data_available [x])
        [calc_demo_sample 1 ADDITION, calc_demo_sample 2 DIVISION] calc_demo_server) = Inr (outs, s') \<and>
     requests s' = [] \<and> map reply_result (replies s') = [9, 3]"
proof -
  have "reply_to i r = [\<lparr>related = sample_identity i, reply_client = client_id r, reply_result = v\<rparr>]"
    if "calculate r = Inr (Some v)" for i :: "string SampleInfo" and r v using that by (simp add: reply_to_def answer_def)
  moreover have "calculate (snd (calc_demo_sample 1 ADDITION)) = Inr (Some 9)"
    "calculate (snd (calc_demo_sample 2 DIVISION)) = Inr (Some 3)"
    by (simp_all add: calc_demo_sample_def calculate_ok int16_def)
  ultimately have r: "map reply_result (concat (map (\<lambda>(i, r). reply_to i r)
      [calc_demo_sample 1 ADDITION, calc_demo_sample 2 DIVISION])) = [9, 3]"
    by (simp add: calc_demo_sample_def)
  have "\<not> stopped calc_demo_server" "requests calc_demo_server = []" "replies calc_demo_server = []"
    by (simp_all add: calc_demo_server_def)
  with server_answers_each[of calc_demo_server "[calc_demo_sample 1 ADDITION, calc_demo_sample 2 DIVISION]"]
    calc_demo_good r show ?thesis by (auto simp: numeral_2_eq_2)
qed

text \<open>When several requests are taken in one callback they share one request object: every reply to them is
  calculated from the last of them, also the replies addressed to the earlier ones.\<close>

theorem server_batch_aliases:
  assumes "\<not> stopped s" and "requests s = []" and "\<forall>x \<in> set xs. good_sample s x" and "xs \<noteq> []"
  shows "\<exists>outs s'. reply_rounds (replicate (length xs) True) (on_data_available xs s) = Inr (outs, s') \<and>
     replies s' = replies s @ concat (map (\<lambda>(info, r). reply_to info (snd (last xs))) xs)"
proof -
  let ?t = "on_data_available xs s"
  have "addr_ok s" "pending s = []" using assms(2) by (simp_all add: addr_ok_def pending_def)
  moreover have pr: "\<forall>x \<in> set xs. proper x" using assms(3) by (simp add: good_sample_def)
  ultimately have t: "pending ?t = map (\<lambda>(info, d). (info, snd (last xs))) xs" "\<not> stopped ?t"
    "client_matched ?t = client_matched s" "replies ?t = replies s"
    using pending_on_data[OF assms(1) _ pr] by auto
  have l: "good_sample s (last xs)" using assms(3,4) by simp
  have "served ?t" unfolding served_pending t using t(2) assms(3) l by (auto simp: good_sample_def)
  moreover have "concat (map (\<lambda>(info, r). reply_to info r) (pending ?t)) =
      concat (map (\<lambda>(info, r). reply_to info (snd (last xs))) xs)"
    unfolding t by (simp add: comp_def split_def)
  ultimately show ?thesis using replies_pending[of ?t] t by auto
qed

theorem server_batch_aliases_witness:
  "\<exists>outs s'. reply_rounds (replicate 2 True)
        (on_data_available [calc_demo_sample 1 ADDITION, calc_demo_sample 2 DIVISION] calc_demo_server) = Inr (outs, s') \<and>
     map (\<lambda>r. (related r, reply_result r)) (replies s') = [((''c1'', 1), 3), ((''c1'', 2), 3)]"
proof -
  have "calculate (snd (calc_demo_sample 2 DIVISION)) = Inr (Some 3)"
    by (simp add: calc_demo_sample_def calculate_ok int16_def)
  then have r: "map (\<lambda>r. (related r, reply_result r)) (concat (map (\<lambda>(i, r). reply_to i (snd (calc_demo_sample 2 DIVISION)))
      [calc_demo_sample 1 ADDITION, calc_demo_sample 2 DIVISION])) = [((''c1'', 1), 3), ((''c1'', 2), 3)]"
    by (simp add: reply_to_def answer_def calc_demo_sample_def)
  have "\<not> stopped calc_demo_server" "requests calc_demo_server = []" "replies calc_demo_server = []"
    by (simp_all add: calc_demo_server_def)
  with server_batch_aliases[of calc_demo_server "[calc_demo_sample 1 ADDITION, calc_demo_sample 2 DIVISION]"]
    calc_demo_good r show ?thesis by (auto simp: numeral_2_eq_2)
qed

end
