(* ===== verification/Calc_Client.thy ===== *)
theory Calc_Client
  imports Calc_Server
begin

text \<open>
  The calculator client of \<^verbatim>\<open>src/other/pubsub/dds/request-response/ClientApp.cpp\<close>: it waits until a server is
  matched, writes one request per operation and stops when all four have been answered. The identity that
  \<^verbatim>\<open>write\<close> gives a request, and whether it succeeds, are arguments.
\<close>

section \<open>State and construction\<close>

record 'g ClientApp =
  request_input :: "int \<times> int"
  client_stopped :: bool
  server_matched :: "'g matched_status"
  requests_status :: "(('g \<times> int) \<times> bool) list"
  sent :: "(('g \<times> int) \<times> CalculatorRequestType) list"
  results :: "(('g \<times> int) \<times> int) list"        \<comment> \<open>the replies reported on the console\<close>

definition client_create_request_entities :: "(dds_call \<Rightarrow> bool) \<Rightarrow> string \<Rightarrow> unit result" where
  "client_create_request_entities fails service_name =
     rbind (create_topic fails (''rq/'' @ service_name)) (\<lambda>_.
     rbind (attempt fails DefaultPublisherQos ''Failed to get default publisher qos'') (\<lambda>_.
     rbind (attempt fails CreatePublisher ''Publisher initialization failed'') (\<lambda>_.
     rbind (attempt fails DefaultWriterQos ''Failed to get default datawriter qos'') (\<lambda>_.
     attempt fails CreateWriter ''Request writer initialization failed''))))"

definition client_create_reply_entities :: "(dds_call \<Rightarrow> bool) \<Rightarrow> string \<Rightarrow> unit result" where
  "client_create_reply_entities fails service_name =
     rbind (create_topic fails (''rr/'' @ service_name)) (\<lambda>_.
     rbind (attempt fails (CreateFilteredTopic (''rr/'' @ service_name @ ''_cft'')) ''Failed to create CFT'') (\<lambda>_.
     rbind (attempt fails DefaultSubscriberQos ''Failed to get default subscriber qos'') (\<lambda>_.
     rbind (attempt fails CreateSubscriber ''Subscriber initialization failed'') (\<lambda>_.
     rbind (attempt fails DefaultReaderQos ''Failed to get default datareader qos'') (\<lambda>_.
     attempt fails CreateReader ''Reply reader initialization failed'')))))"

definition ClientApp_ctor :: "(dds_call \<Rightarrow> bool) \<Rightarrow> int \<times> int \<Rightarrow> string \<Rightarrow> 'g ClientApp result" where
  "ClientApp_ctor fails xy service_name =
     rbind (create_participant fails) (\<lambda>_.
     rbind (client_create_request_entities fails service_name) (\<lambda>_.
     rbind (client_create_reply_entities fails service_name) (\<lambda>_.
     Inr \<lparr>request_input = xy, client_stopped = False, server_matched = [], requests_status = [], sent = [],
          results = []\<rparr>)))"

section \<open>Callbacks\<close>

definition client_stop :: "'g ClientApp \<Rightarrow> 'g ClientApp" where
  "client_stop s = s\<lparr>client_stopped := True\<rparr>"

text \<open>Whether a discovered participant is ignored; the client keeps no state about it.\<close>

definition client_on_participant_discovery :: "nat list \<Rightarrow> bool" where
  "client_on_participant_discovery user_data =
     (if length user_data \<noteq> 1 then True else entity_kind (user_data ! 0) \<noteq> SERVER)"

definition client_on_publication_matched :: "int \<Rightarrow> 'g \<Rightarrow> 'g ClientApp \<Rightarrow> 'g ClientApp" where
  "client_on_publication_matched change g s =
     (if change = 1 then s\<lparr>server_matched := match_request_reader g True (server_matched s)\<rparr>
      else if change = - 1 then s\<lparr>server_matched := match_request_reader g False (server_matched s)\<rparr>
      else s)"

definition client_on_subscription_matched :: "int \<Rightarrow> 'g \<Rightarrow> 'g ClientApp \<Rightarrow> 'g ClientApp" where
  "client_on_subscription_matched change g s =
     (if change = 1 then s\<lparr>server_matched := match_reply_writer g True (server_matched s)\<rparr>
      else if change = - 1 then s\<lparr>server_matched := match_reply_writer g False (server_matched s)\<rparr>
      else s)"

text \<open>A reply sample: its flags, \<^verbatim>\<open>related_sample_identity\<close> and result.\<close>

type_synonym 'g reply_sample = "bool \<times> bool \<times> ('g \<times> int) \<times> int"

fun client_on_data_available :: "'g reply_sample list \<Rightarrow> 'g ClientApp \<Rightarrow> 'g ClientApp" where
  "client_on_data_available [] s = s"
| "client_on_data_available ((alive, valid, rid, v) # xs) s =
     (if client_stopped s then s
      else if alive \<and> valid then
        (case map_of (requests_status s) rid of
           Some False \<Rightarrow>
             let s1 = s\<lparr>requests_status := AList.update rid True (requests_status s), results := results s @ [(rid, v)]\<rparr>
             in if length (requests_status s1) = 4 \<and> list_all snd (requests_status s1)
                then client_stop s1
                else client_on_data_available xs s1
         | Some True \<Rightarrow> client_on_data_available xs s
         | None \<Rightarrow> client_on_data_available xs s)
      else client_on_data_available xs s)"

section \<open>Requests\<close>

text \<open>\<^verbatim>\<open>send_request\<close>: the entry is made whether or not the write succeeded.\<close>

definition send_request :: "('g \<times> int) \<times> bool \<Rightarrow> CalculatorRequestType \<Rightarrow> 'g ClientApp \<Rightarrow> bool \<times> 'g ClientApp" where
  "send_request w r s =
     (snd w, s\<lparr>requests_status := AList.update (fst w) False (requests_status s),
       sent := sent s @ (if snd w then [(fst w, r)] else [])\<rparr>)"

fun send_all ::
  "(('g \<times> int) \<times> bool) list \<Rightarrow> CalculatorRequestType list \<Rightarrow> 'g ClientApp \<Rightarrow> bool \<times> 'g ClientApp" where
  "send_all (w # ws) (r # rs) s = (case send_request w r s of (ok, s1) \<Rightarrow> if ok then send_all ws rs s1 else (False, s1))"
| "send_all ws rs s = (True, s)"

definition the_requests :: "string \<Rightarrow> int \<times> int \<Rightarrow> CalculatorRequestType list" where
  "the_requests cid xy = map (\<lambda>opr. \<lparr>client_id = cid, req_x = fst xy, req_y = snd xy, operation = opr\<rparr>)
     [ADDITION, SUBTRACTION, MULTIPLICATION, DIVISION]"

definition send_requests :: "string \<Rightarrow> (('g \<times> int) \<times> bool) list \<Rightarrow> 'g ClientApp \<Rightarrow> bool \<times> 'g ClientApp" where
  "send_requests cid ws s = send_all ws (the_requests cid (request_input s)) s"

text \<open>\<^verbatim>\<open>run\<close>: \<open>ready\<close> is the condition of its first wait; after the waits it sends, or leaves when stopped; it
  returns once \<^verbatim>\<open>wait_for_replies\<close> sees the stop flag.\<close>

definition ready :: "'g ClientApp \<Rightarrow> bool" where
  "ready s \<longleftrightarrow> is_any_server_matched (server_matched s) \<or> client_stopped s"

definition run_send :: "string \<Rightarrow> (('g \<times> int) \<times> bool) list \<Rightarrow> 'g ClientApp \<Rightarrow> 'g ClientApp result" where
  "run_send cid ws s =
     (if client_stopped s then Inr s
      else case send_requests cid ws s of
        (True, s1) \<Rightarrow> Inr s1
      | (False, s1) \<Rightarrow> Inl (RuntimeError ''Failed to send request''))"

definition run_returns :: "'g ClientApp \<Rightarrow> bool" where
  "run_returns s \<longleftrightarrow> client_stopped s"

section \<open>Lemmas\<close>

text \<open>The requests waiting for a reply; the client stops exactly when the last of the four is answered.\<close>

definition client_inv :: "'g ClientApp \<Rightarrow> bool" where
  "client_inv s \<longleftrightarrow> distinct (map fst (requests_status s)) \<and> length (requests_status s) = 4 \<and>
     (client_stopped s \<longleftrightarrow> list_all snd (requests_status s))"

definition answered :: "'g ClientApp \<Rightarrow> ('g \<times> int) set" where
  "answered s = {rid. map_of (requests_status s) rid = Some True}"

lemma all_answered_iff:
  assumes "distinct (map fst m)"
  shows "list_all snd m \<longleftrightarrow> (\<forall>rid \<in> fst ` set m. map_of m rid = Some True)"
proof
  assume "list_all snd m"
  then show "\<forall>rid \<in> fst ` set m. map_of m rid = Some True"
    using assms by (auto simp: list_all_iff)
next
  assume a: "\<forall>rid \<in> fst ` set m. map_of m rid = Some True"
  have "b" if "(rid, b) \<in> set m" for rid b
  proof -
    have "map_of m rid = Some b" "rid \<in> fst ` set m" using assms that by force+
    with a show b by fastforce
  qed
  then show "list_all snd m" by (auto simp: list_all_iff)
qed

lemma keys_update: "rid \<in> fst ` set m \<Longrightarrow> fst ` set (AList.update rid b m) = fst ` set m"
proof (induction m)
  case (Cons x m)
  then show ?case by (cases x) auto
qed simp

lemma length_update_old: "rid \<in> fst ` set m \<Longrightarrow> length (AList.update rid b m) = length m"
proof (induction m)
  case (Cons x m)
  then show ?case by (cases x) auto
qed simp

lemma client_step:
  assumes inv: "client_inv s" and ns: "\<not> client_stopped s" and r: "map_of (requests_status s) rid = Some False"
    and s1: "s1 = s\<lparr>requests_status := AList.update rid True (requests_status s), results := rs\<rparr>"
  shows "length (requests_status s1) = 4" "distinct (map fst (requests_status s1))"
    "answered s1 = insert rid (answered s)"
    "fst ` set (requests_status s1) = fst ` set (requests_status s)"
proof -
  have k: "rid \<in> fst ` set (requests_status s)" using r by (force dest: map_of_SomeD)
  show "length (requests_status s1) = 4" "distinct (map fst (requests_status s1))"
    "fst ` set (requests_status s1) = fst ` set (requests_status s)"
    using inv by (simp_all add: s1 client_inv_def length_update_old[OF k] keys_update[OF k] distinct_update)
  show "answered s1 = insert rid (answered s)" by (auto simp: answered_def s1 update_conv)
qed

lemma client_data:
  assumes "client_inv s"
  shows "client_inv (client_on_data_available xs s) \<and>
    fst ` set (requests_status (client_on_data_available xs s)) = fst ` set (requests_status s) \<and>
    answered (client_on_data_available xs s) =
      (if client_stopped s then answered s
       else answered s \<union> {rid. rid \<in> fst ` set (requests_status s) \<and> (\<exists>v. (True, True, rid, v) \<in> set xs)})"
  using assms
proof (induction xs arbitrary: s)
  case Nil
  then show ?case by simp
next
  case (Cons x xs)
  obtain al vd rid v where [simp]: "x = (al, vd, rid, v)" by (cases x)
  show ?case
  proof (cases "client_stopped s \<or> \<not> (al \<and> vd)")
    case True
    then show ?thesis using Cons.prems Cons.IH[OF Cons.prems] by (cases "client_stopped s") auto
  next
    case False
    then have ns: "\<not> client_stopped s" and [simp]: "al" "vd" by auto
    show ?thesis
    proof (cases "map_of (requests_status s) rid")
      case None
      then have "rid \<notin> fst ` set (requests_status s)" by (simp add: map_of_eq_None_iff)
      with None ns Cons.IH[OF Cons.prems] show ?thesis by auto
    next
      case (Some b)
      then have key: "rid \<in> fst ` set (requests_status s)" by (force dest: map_of_SomeD)
      show ?thesis
      proof (cases b)
        case True
        then have "rid \<in> answered s" using Some by (simp add: answered_def)
        with True Some ns key Cons.IH[OF Cons.prems] show ?thesis by auto
      next
        case b: False
        define s1 where "s1 = s\<lparr>requests_status := AList.update rid True (requests_status s), results := results s @ [(rid, v)]\<rparr>"
        have Some': "map_of (requests_status s) rid = Some False" using Some b by simp
        note st = client_step[OF Cons.prems ns Some' s1_def]
        have n1: "\<not> client_stopped s1" using ns by (simp add: s1_def)
        have step: "client_on_data_available (x # xs) s = (if list_all snd (requests_status s1) then client_stop s1
            else client_on_data_available xs s1)"
          using ns Some' st(1) by (simp add: s1_def Let_def)
        show ?thesis
        proof (cases "list_all snd (requests_status s1)")
          case True
          have "fst ` set (requests_status s) \<subseteq> answered s1"
            using True st(4) unfolding all_answered_iff[OF st(2)] answered_def by auto
          moreover have "answered (client_stop s1) = answered s1" by (simp add: answered_def client_stop_def)
          moreover have "client_inv (client_stop s1)" using st(1,2) True by (simp add: client_inv_def client_stop_def)
          moreover have "requests_status (client_stop s1) = requests_status s1" by (simp add: client_stop_def)
          ultimately show ?thesis using step True st(3,4) ns key by auto
        next
          case False
          have "client_inv s1" using st(1,2) False n1 by (simp add: client_inv_def)
          from Cons.IH[OF this] step False st(3,4) n1 ns key show ?thesis by auto
        qed
      qed
    qed
  qed
qed

lemma stopped_all_answered:
  assumes "client_inv s" and "client_stopped s"
  shows "answered s = fst ` set (requests_status s)"
proof -
  have d: "distinct (map fst (requests_status s))" "list_all snd (requests_status s)"
    using assms by (auto simp: client_inv_def)
  then have "fst ` set (requests_status s) \<subseteq> answered s"
    using all_answered_iff[OF d(1)] by (auto simp: answered_def)
  moreover have "answered s \<subseteq> fst ` set (requests_status s)" by (force simp: answered_def dest: map_of_SomeD)
  ultimately show ?thesis by blast
qed

lemma client_stays_stopped: "client_stopped s \<Longrightarrow> client_on_data_available xs s = s"
  by (cases xs) (auto split: prod.splits)

lemma client_batches:
  assumes "client_inv s"
  shows "client_inv (fold client_on_data_available bs s) \<and>
    fst ` set (requests_status (fold client_on_data_available bs s)) = fst ` set (requests_status s) \<and>
    answered (fold client_on_data_available bs s) =
      (if client_stopped s then answered s
       else answered s \<union> {rid. rid \<in> fst ` set (requests_status s) \<and> (\<exists>v. (True, True, rid, v) \<in> set (concat bs))})"
  using assms
proof (induction bs arbitrary: s)
  case (Cons b bs)
  note one = client_data[OF Cons.prems, of b]
  let ?s1 = "client_on_data_available b s"
  show ?case
  proof (cases "client_stopped s")
    case True
    then have "fold client_on_data_available bs s = s"
      by (induction bs) (simp_all add: client_stays_stopped)
    with True Cons.prems show ?thesis by (simp add: client_stays_stopped)
  next
    case False
    show ?thesis
      using Cons.IH[of ?s1] one False stopped_all_answered[of ?s1]
      by (cases "client_stopped ?s1") auto
  qed
qed simp

lemma send_all_ok:
  assumes "length ws = length rs" and "\<forall>w \<in> set ws. snd w"
  shows "send_all ws rs s = (True, s\<lparr>requests_status := fold (\<lambda>w. AList.update (fst w) False) ws (requests_status s),
     sent := sent s @ zip (map fst ws) rs\<rparr>)"
  using assms
proof (induction ws rs arbitrary: s rule: list_induct2)
  case (Cons w ws r rs)
  then show ?case by (simp add: send_request_def)
qed simp

lemma fold_update_new:
  assumes "distinct (map fst ws)" and "fst ` set ws \<inter> fst ` set m = {}"
  shows "fold (\<lambda>w. AList.update (fst w) False) ws m = m @ map (\<lambda>w. (fst w, False)) ws"
  using assms
proof (induction ws arbitrary: m)
  case (Cons w ws)
  have new: "AList.update (fst w) False m = m @ [(fst w, False)]" if "fst w \<notin> fst ` set m" for m
    using that by (induction m) auto
  from Cons show ?case by (simp add: new image_Un)
qed simp

lemma client_stops_when_answered:
  assumes "length ws = 4" and "\<forall>w \<in> set ws. snd w" and "distinct (map fst ws)"
    and "requests_status s = []" and "\<not> client_stopped s"
  shows "\<exists>s1. run_send cid ws s = Inr s1 \<and>
     (run_returns (fold client_on_data_available batches s1) \<longleftrightarrow>
       (\<forall>w \<in> set ws. \<exists>v. (True, True, fst w, v) \<in> set (concat batches)))"
proof -
  let ?s1 = "s\<lparr>requests_status := map (\<lambda>w. (fst w, False)) ws, sent := sent s @ zip (map fst ws) (the_requests cid (request_input s))\<rparr>"
  have run: "run_send cid ws s = Inr ?s1"
    using assms by (simp add: run_send_def send_requests_def send_all_ok the_requests_def fold_update_new)
  obtain w0 where w0: "w0 \<in> set ws" using assms(1) by (cases ws) auto
  have inv: "client_inv ?s1"
    using assms w0 by (cases w0) (auto simp: client_inv_def comp_def list_all_iff)
  have a0: "answered ?s1 = {}"
    by (auto simp: answered_def dest: map_of_SomeD)
  have k0: "fst ` set (requests_status ?s1) = fst ` set ws" by force
  let ?t = "fold client_on_data_available batches ?s1"
  have fin: "client_inv ?t" "fst ` set (requests_status ?t) = fst ` set ws"
    "answered ?t = {rid. rid \<in> fst ` set ws \<and> (\<exists>v. (True, True, rid, v) \<in> set (concat batches))}"
    using client_batches[OF inv, of batches] a0 k0 assms(5) by auto
  have "client_stopped ?t \<longleftrightarrow> (\<forall>rid \<in> fst ` set ws. rid \<in> answered ?t)"
    using fin(1,2) all_answered_iff[of "requests_status ?t"] by (auto simp: client_inv_def answered_def)
  also have "\<dots> \<longleftrightarrow> (\<forall>w \<in> set ws. \<exists>v. (True, True, fst w, v) \<in> set (concat batches))"
    unfolding fin(3) by auto
  finally show ?thesis using run by (auto simp: run_returns_def)
qed

text \<open>After its four requests have been written, the client stops exactly when every one of them has been
  answered, whatever replies arrive in whatever batches: duplicates, replies to other requests and samples
  without data change nothing.\<close>

theorem client_stops_iff_answered:
  assumes "length ws = 4" and "\<forall>w \<in> set ws. snd w" and "distinct (map fst ws)"
    and "requests_status s = []" and "\<not> client_stopped s"
  shows "\<exists>s1. run_send cid ws s = Inr s1 \<and>
     (run_returns (fold client_on_data_available batches s1) \<longleftrightarrow>
       (\<forall>w \<in> set ws. \<exists>v. (True, True, fst w, v) \<in> set (concat batches)))"
  using assms by (rule client_stops_when_answered)

definition calc_demo_client :: "int \<times> int \<Rightarrow> string ClientApp" where
  "calc_demo_client xy = \<lparr>request_input = xy, client_stopped = False, server_matched = [(''srv'', True, True)],
     requests_status = [], sent = [], results = []\<rparr>"

definition calc_demo_writes :: "((string \<times> int) \<times> bool) list" where
  "calc_demo_writes = map (\<lambda>n. ((''c1'', n), True)) [1, 2, 3, 4]"

theorem client_stops_iff_answered_witness:
  "\<exists>s1. run_send ''c1'' calc_demo_writes (calc_demo_client (7, 2)) = Inr s1 \<and>
     \<not> run_returns (fold client_on_data_available [[(True, True, (''c1'', 1), 9)], [(True, True, (''c1'', 1), 9)]] s1)"
proof -
  have w: "length calc_demo_writes = 4" "\<forall>w \<in> set calc_demo_writes. snd w" "distinct (map fst calc_demo_writes)"
    "requests_status (calc_demo_client (7, 2)) = []" "\<not> client_stopped (calc_demo_client (7, 2))"
    by (simp_all add: calc_demo_writes_def calc_demo_client_def)
  from client_stops_iff_answered[OF w, of "''c1''" "[[(True, True, (''c1'', 1), 9)], [(True, True, (''c1'', 1), 9)]]"]
  show ?thesis by (auto simp: calc_demo_writes_def)
qed

end
