(* ===== verification/Decimal.thy ===== *)
theory Decimal
  imports Prelude
begin

text \<open>
  \<^verbatim>\<open>std::stoi\<close> and its inverse, decimal printing, as the command line parsers use them: \<^verbatim>\<open>stoi\<close> skips white
  space, takes an optional sign and the digits that follow, and ignores the rest; it throws
  \<^verbatim>\<open>invalid_argument\<close> when there is no digit and \<^verbatim>\<open>out_of_range\<close> when the value does not fit an \<^verbatim>\<open>int\<close>.
\<close>

datatype parse_error = InvalidArgument | OutOfRange

definition is_digit :: "char \<Rightarrow> bool" where
  "is_digit c \<longleftrightarrow> 48 \<le> (of_char c :: nat) \<and> (of_char c :: nat) \<le> 57"

definition digit_value :: "char \<Rightarrow> nat" where
  "digit_value c = of_char c - 48"

definition is_space :: "char \<Rightarrow> bool" where
  "is_space c \<longleftrightarrow> (of_char c :: nat) = 32 \<or> 9 \<le> (of_char c :: nat) \<and> (of_char c :: nat) \<le> 13"

fun read_digits :: "nat \<Rightarrow> string \<Rightarrow> nat" where
  "read_digits acc [] = acc"
| "read_digits acc (c # cs) = (if is_digit c then read_digits (acc * 10 + digit_value c) cs else acc)"

definition read_sign :: "string \<Rightarrow> int \<times> string" where
  "read_sign s = (case s of
     c # cs \<Rightarrow> if c = CHR ''-'' then (- 1, cs) else if c = CHR ''+'' then (1, cs) else (1, s)
   | [] \<Rightarrow> (1, []))"

definition stoi :: "string \<Rightarrow> parse_error + int" where
  "stoi s = (case read_sign (dropWhile is_space s) of (sg, ds) \<Rightarrow>
     if ds = [] \<or> \<not> is_digit (hd ds) then Inl InvalidArgument
     else let v = sg * int (read_digits 0 ds) in if in_int v then Inr v else Inl OutOfRange)"

definition digit_char :: "nat \<Rightarrow> char" where
  "digit_char d = char_of (48 + d)"

fun show_nat :: "nat \<Rightarrow> string" where
  "show_nat n = (if n < 10 then [digit_char n] else show_nat (n div 10) @ [digit_char (n mod 10)])"

declare show_nat.simps [simp del]

definition show_int :: "int \<Rightarrow> string" where
  "show_int x = (if x < 0 then CHR ''-'' # show_nat (nat (- x)) else show_nat (nat x))"

lemma of_digit_char: "d < 10 \<Longrightarrow> (of_char (digit_char d) :: nat) = 48 + d"
  by (simp add: digit_char_def)

lemma digit_char [simp]: "d < 10 \<Longrightarrow> is_digit (digit_char d)" "d < 10 \<Longrightarrow> digit_value (digit_char d) = d"
  by (simp_all add: is_digit_def digit_value_def of_digit_char)

lemma read_digits_append:
  "list_all is_digit xs \<Longrightarrow> read_digits acc (xs @ ys) = read_digits (read_digits acc xs) ys"
  by (induction xs arbitrary: acc) auto

lemma show_nat_digits: "list_all is_digit (show_nat n) \<and> show_nat n \<noteq> []"
proof (induction n rule: show_nat.induct)
  case (1 n)
  then show ?case by (subst show_nat.simps, subst (2) show_nat.simps) auto
qed

lemma read_show_nat: "read_digits 0 (show_nat n) = n"
proof (induction n rule: show_nat.induct)
  case (1 n)
  show ?case
  proof (cases "n < 10")
    case True
    then show ?thesis by (simp add: show_nat.simps)
  next
    case False
    then have "show_nat n = show_nat (n div 10) @ [digit_char (n mod 10)]" by (subst show_nat.simps) simp
    then show ?thesis using 1[OF False] show_nat_digits[of "n div 10"]
      by (simp add: read_digits_append)
  qed
qed

lemma digit_not_sign: "is_digit c \<Longrightarrow> c \<noteq> CHR ''-'' \<and> c \<noteq> CHR ''+'' \<and> \<not> is_space c"
  by (auto simp: is_digit_def is_space_def)

lemma stoi_digits:
  assumes "list_all is_digit ds" and "ds \<noteq> []" and "rest = [] \<or> \<not> is_digit (hd rest)"
  shows "stoi (ds @ rest) = (if in_int (int (read_digits 0 ds)) then Inr (int (read_digits 0 ds)) else Inl OutOfRange)"
    "stoi (CHR ''-'' # ds @ rest) = (if in_int (- int (read_digits 0 ds)) then Inr (- int (read_digits 0 ds)) else Inl OutOfRange)"
proof -
  obtain d ds' where ds: "ds = d # ds'" using assms(2) by (cases ds) auto
  have d: "is_digit d" using assms(1) ds by simp
  have r: "read_digits 0 (ds @ rest) = read_digits 0 ds"
    using assms(1,3) by (cases rest) (auto simp: read_digits_append)
  have sp: "\<not> is_space CHR ''-''" by (simp add: is_space_def)
  show "stoi (ds @ rest) = (if in_int (int (read_digits 0 ds)) then Inr (int (read_digits 0 ds)) else Inl OutOfRange)"
    using r d digit_not_sign[OF d] by (simp add: stoi_def read_sign_def ds Let_def)
  show "stoi (CHR ''-'' # ds @ rest) = (if in_int (- int (read_digits 0 ds)) then Inr (- int (read_digits 0 ds)) else Inl OutOfRange)"
    using r d sp by (simp add: stoi_def read_sign_def ds Let_def)
qed

lemma stoi_show_rest:
  assumes "rest = [] \<or> \<not> is_digit (hd rest)"
  shows "stoi (show_int x @ rest) = (if in_int x then Inr x else Inl OutOfRange)"
proof (cases "x < 0")
  case True
  then show ?thesis
    using stoi_digits(2)[OF _ _ assms, of "show_nat (nat (- x))"] show_nat_digits[of "nat (- x)"] read_show_nat[of "nat (- x)"]
    by (simp add: show_int_def)
next
  case False
  then show ?thesis
    using stoi_digits(1)[OF _ _ assms, of "show_nat (nat x)"] show_nat_digits[of "nat x"] read_show_nat[of "nat x"]
    by (simp add: show_int_def)
qed

lemma stoi_show: "stoi (show_int x) = (if in_int x then Inr x else Inl OutOfRange)"
  using stoi_show_rest[of "[]" x] by simp

end
