(* ===== verification/Calc_Cli.thy ===== *)
theory Calc_Cli
  imports Decimal Calc_Server
begin

text \<open>
  \<^verbatim>\<open>class CLIParser\<close> of \<^verbatim>\<open>src/other/pubsub/dds/request-response/CLIParser.hpp\<close> and the factory and \<^verbatim>\<open>main\<close> around it.
  Printing the help ends the program: a parser result is an exit code or a configuration. The text of the
  help and log messages is left out.
\<close>

record config =
  entity :: EntityKind
  cfg_x :: int
  cfg_y :: int

text \<open>\<^verbatim>\<open>EXIT_FAILURE\<close> is 1, \<^verbatim>\<open>EXIT_SUCCESS\<close> is 0.\<close>

definition print_help :: "nat \<Rightarrow> nat + 'a" where
  "print_help return_code = Inl return_code"

definition consume_int16_argument :: "string \<Rightarrow> nat + int" where
  "consume_int16_argument arg = (case stoi arg of
     Inl InvalidArgument \<Rightarrow> print_help 1
   | Inl OutOfRange \<Rightarrow> print_help 1
   | Inr input \<Rightarrow> if input < - 32768 \<or> input > 32767 then print_help 1 else Inr input)"

definition consume_client_arguments :: "string list \<Rightarrow> config \<Rightarrow> nat + config" where
  "consume_client_arguments argv cfg = (case consume_int16_argument (argv ! 2) of
     Inl e \<Rightarrow> Inl e
   | Inr x \<Rightarrow> (case consume_int16_argument (argv ! 3) of
       Inl e \<Rightarrow> Inl e
     | Inr y \<Rightarrow> Inr (cfg\<lparr>cfg_x := x, cfg_y := y\<rparr>)))"

definition is_help :: "string \<Rightarrow> bool" where
  "is_help a \<longleftrightarrow> a = ''-h'' \<or> a = ''--help''"

definition parse_entity :: "string \<Rightarrow> nat + EntityKind" where
  "parse_entity a = (if a = ''server'' then Inr SERVER else if a = ''client'' then Inr CLIENT
     else if is_help a then print_help 0 else print_help 1)"

definition parse_cli_options :: "string list \<Rightarrow> nat + config" where
  "parse_cli_options argv =
     (if length argv < 2 then print_help 1
      else case parse_entity (argv ! 1) of
        Inl e \<Rightarrow> Inl e
      | Inr k \<Rightarrow>
          if list_ex is_help (drop 2 argv) then print_help 0
          else let cfg = \<lparr>entity = k, cfg_x = 0, cfg_y = 0\<rparr> in
            if k = CLIENT then
              if length argv \<noteq> 4 then print_help 1 else consume_client_arguments argv cfg
            else Inr cfg)"

definition parse_signal :: "int \<Rightarrow> string" where
  "parse_signal signum = (if signum = 2 then ''SIGINT'' else if signum = 15 then ''SIGTERM''
     else if signum = 3 then ''SIGQUIT'' else if signum = 1 then ''SIGHUP'' else ''UNKNOWN SIGNAL'')"

definition parse_entity_kind :: "EntityKind \<Rightarrow> string" where
  "parse_entity_kind k = (case k of SERVER \<Rightarrow> ''Server'' | CLIENT \<Rightarrow> ''Client'' | UNDEFINED \<Rightarrow> ''Undefined entity'')"

text \<open>\<^verbatim>\<open>TypeConverter\<close> of \<^verbatim>\<open>app_utils.hpp\<close>.\<close>

definition operation_to_string :: "CalculatorOperationType \<Rightarrow> string" where
  "operation_to_string opr = (case opr of ADDITION \<Rightarrow> ''+'' | SUBTRACTION \<Rightarrow> ''-'' | MULTIPLICATION \<Rightarrow> ''*''
     | DIVISION \<Rightarrow> ''/'' | UnknownOperation _ \<Rightarrow> ''Unknown'')"

definition request_to_string :: "CalculatorRequestType \<Rightarrow> string" where
  "request_to_string r = show_int (req_x r) @ '' '' @ operation_to_string (operation r) @ '' '' @ show_int (req_y r)"

definition status_to_string :: "discovery_status \<Rightarrow> string" where
  "status_to_string st = (case st of DISCOVERED \<Rightarrow> ''discovered'' | CHANGED_QOS \<Rightarrow> ''changed QoS''
     | REMOVED \<Rightarrow> ''removed'' | DROPPED \<Rightarrow> ''dropped'' | IGNORED \<Rightarrow> ''ignored'')"

section \<open>Properties\<close>

lemma consume_show:
  assumes "rest = [] \<or> \<not> is_digit (hd rest)"
  shows "consume_int16_argument (show_int x @ rest) = (if int16 x then Inr x else Inl 1)"
  using stoi_show_rest[OF assms, of x]
  by (auto simp: consume_int16_argument_def print_help_def int16_def in_int_numerals)

lemma show_not_help: "\<not> is_help (show_int x)"
proof -
  have "is_digit (last (show_nat n))" for n
    using show_nat_digits[of n] by (simp add: list_all_iff)
  then have "is_digit (last (show_int x))" using show_nat_digits by (simp add: show_int_def)
  then have "last (show_int x) \<noteq> CHR ''h''" "last (show_int x) \<noteq> CHR ''p''" by (auto simp: is_digit_def)
  then show ?thesis by (auto simp: is_help_def)
qed

lemma parse_client_args:
  "parse_cli_options [prog, ''client'', show_int x, show_int y] =
     (if int16 x \<and> int16 y then Inr \<lparr>entity = CLIENT, cfg_x = x, cfg_y = y\<rparr> else Inl 1)"
proof -
  have "consume_int16_argument (show_int v) = (if int16 v then Inr v else Inl 1)" for v
    using consume_show[of "[]" v] by simp
  then show ?thesis
    using show_not_help[of x] show_not_help[of y]
    by (simp add: parse_cli_options_def parse_entity_def consume_client_arguments_def)
qed

lemma parse_client:
  "int16 x \<Longrightarrow> int16 y \<Longrightarrow>
   parse_cli_options [prog, ''client'', show_int x, show_int y] = Inr \<lparr>entity = CLIENT, cfg_x = x, cfg_y = y\<rparr>"
  by (simp add: parse_client_args)

text \<open>The client's command line round trip: two decimal numbers in the 16-bit range are parsed to exactly
  those numbers, and any pair with a number outside the range ends the program with the failure code.\<close>

theorem cli_client_roundtrip:
  "parse_cli_options [prog, ''client'', show_int x, show_int y] =
     (if int16 x \<and> int16 y then Inr \<lparr>entity = CLIENT, cfg_x = x, cfg_y = y\<rparr> else Inl 1)"
  by (rule parse_client_args)

text \<open>What follows the digits is ignored, so arguments that are not numbers are accepted.\<close>

lemma cli_trailing_accepted: "consume_int16_argument ''4x5'' = Inr 4"
  by (simp add: consume_int16_argument_def stoi_def read_sign_def is_space_def is_digit_def digit_value_def
      in_int_numerals Let_def)

end
