(* ===== verification/Calc_Service.thy ===== *)
theory Calc_Service
  imports Calc_Client Calc_Cli
begin

text \<open>
  Client and server of the calculator service together. The network between them is DDS: a request that the
  client wrote arrives at the server as a sample with the identity it was written under, and a reply arrives
  at the client with the identity it is related to. \<open>make_app\<close> and \<open>app_main\<close> are \<^verbatim>\<open>Application::make_app\<close> and
  \<^verbatim>\<open>main\<close>.
\<close>

definition make_app ::
  "(dds_call \<Rightarrow> bool) \<Rightarrow> config \<Rightarrow> string \<Rightarrow> ('g ServerApp + 'g ClientApp) result" where
  "make_app fails cfg service_name = (case entity cfg of
     SERVER \<Rightarrow> rbind (ServerApp_ctor fails service_name) (\<lambda>s. Inr (Inl s))
   | CLIENT \<Rightarrow> rbind (ClientApp_ctor fails (cfg_x cfg, cfg_y cfg) service_name) (\<lambda>c. Inr (Inr c))
   | UNDEFINED \<Rightarrow> Inl (RuntimeError ''Entity initialization failed''))"

text \<open>\<^verbatim>\<open>main\<close> up to the start of the application: an exit code, or the application that runs. It catches
  \<^verbatim>\<open>std::runtime_error\<close>.\<close>

definition app_main :: "(dds_call \<Rightarrow> bool) \<Rightarrow> string list \<Rightarrow> (nat + 'g ServerApp + 'g ClientApp) result" where
  "app_main fails argv = (case parse_cli_options argv of
     Inl code \<Rightarrow> Inr (Inl code)
   | Inr cfg \<Rightarrow> (case make_app fails cfg ''calculator_service'' of
       Inl (RuntimeError msg) \<Rightarrow> Inr (Inl 1)
     | Inl e \<Rightarrow> Inl e
     | Inr app \<Rightarrow> Inr (Inr app)))"

definition wire_request :: "'g \<Rightarrow> ('g \<times> int) \<times> CalculatorRequestType \<Rightarrow> 'g SampleInfo \<times> CalculatorRequestType" where
  "wire_request g q = (\<lparr>alive_instance = True, valid_data = True, publication = g, sample_identity = fst q\<rparr>, snd q)"

definition wire_reply :: "'g CalculatorReply \<Rightarrow> 'g reply_sample" where
  "wire_reply r = (True, True, related r, reply_result r)"

text \<open>The server's part: each request in a callback of its own, then one round of the reply thread per request.\<close>

definition serve ::
  "('g SampleInfo \<times> CalculatorRequestType) list \<Rightarrow> 'g ServerApp \<Rightarrow> (reply_outcome list \<times> 'g ServerApp) result" where
  "serve xs srv = reply_rounds (replicate (length xs) True) (fold (\<lambda>x. on_data_available [x]) xs srv)"

lemma sent_requests:
  assumes "length ws = 4" and "\<forall>w \<in> set ws. snd w" and "distinct (map fst ws)" and "requests_status c = []"
    and "\<not> client_stopped c" and "sent c = []" and "request_input c = (x, y)"
  shows "run_send cid ws c = Inr (c\<lparr>requests_status := map (\<lambda>w. (fst w, False)) ws,
     sent := zip (map fst ws) (the_requests cid (x, y))\<rparr>)"
  using assms by (simp add: run_send_def send_requests_def send_all_ok the_requests_def fold_update_new)

lemma the_requests_good:
  assumes "int16 x" and "int16 y" and "is_client_matched g (client_matched srv)"
    and "q \<in> set (zip ids (the_requests cid (x, y)))"
  shows "good_sample srv (wire_request g q)"
proof -
  have "snd q \<in> set (the_requests cid (x, y))" using assms(4) set_zip_rightD[of "fst q" "snd q"] by simp
  then show ?thesis using assms(1-3) by (auto simp: good_sample_def proper_def wire_request_def the_requests_def)
qed

lemma serve_requests:
  assumes "int16 x" and "int16 y" and "is_client_matched g (client_matched srv)" and "\<not> stopped srv"
    and "requests srv = []" and "replies srv = []"
  shows "\<exists>outs srv'. serve (map (wire_request g) (zip ids (the_requests cid (x, y)))) srv = Inr (outs, srv') \<and>
     replies srv' = concat (map (\<lambda>q. reply_to (fst (wire_request g q)) (snd q)) (zip ids (the_requests cid (x, y))))"
proof -
  let ?xs = "map (wire_request g) (zip ids (the_requests cid (x, y)))"
  have "\<forall>s \<in> set ?xs. good_sample srv s" using the_requests_good[OF assms(1-3)] by auto
  from server_answers_all[OF assms(4,5) this] assms(6) show ?thesis
    by (auto simp: serve_def wire_request_def comp_def split_def)
qed

lemma client_four_replies:
  assumes "distinct [i1, i2, i3, i4]" and "\<not> client_stopped c" and "results c = []"
    and "requests_status c = [(i1, False), (i2, False), (i3, False), (i4, False)]"
  shows "client_on_data_available [(True, True, i1, a), (True, True, i2, b), (True, True, i3, d), (True, True, i4, e)] c =
     c\<lparr>client_stopped := True, requests_status := [(i1, True), (i2, True), (i3, True), (i4, True)],
       results := [(i1, a), (i2, b), (i3, d), (i4, e)]\<rparr>"
proof -
  have "i1 \<noteq> i2" "i1 \<noteq> i3" "i1 \<noteq> i4" "i2 \<noteq> i3" "i2 \<noteq> i4" "i3 \<noteq> i4"
    "i2 \<noteq> i1" "i3 \<noteq> i1" "i4 \<noteq> i1" "i3 \<noteq> i2" "i4 \<noteq> i2" "i4 \<noteq> i3" using assms(1) by auto
  with assms(2-4) show ?thesis by (simp add: client_stop_def Let_def)
qed

lemma length4E:
  assumes "length ws = 4"
  obtains a b c d where "ws = [a, b, c, d]"
  using assms by (auto simp: numeral_eq_Suc length_Suc_conv)

section \<open>Properties\<close>

text \<open>C1: The calculator service works end to end: a client with 16-bit operands, the second not zero, and a server
  that has matched it and takes each request in a callback of its own; the client writes its four requests,
  the server answers them, and the client reports the sum, difference, product and quotient, each under its
  own request, and returns.\<close>

theorem calculator_end_to_end:
  assumes "int16 x" and "int16 y" and "y \<noteq> 0"
    and "is_client_matched g (client_matched srv)" and "\<not> stopped srv" and "requests srv = []" and "replies srv = []"
    and "c = \<lparr>request_input = (x, y), client_stopped = False, server_matched = m, requests_status = [], sent = [], results = []\<rparr>"
    and "length ws = 4" and "\<forall>w \<in> set ws. snd w" and "distinct (map fst ws)"
  shows "\<exists>c1 outs srv1 c2. run_send cid ws c = Inr c1 \<and>
     serve (map (wire_request g) (sent c1)) srv = Inr (outs, srv1) \<and>
     c2 = client_on_data_available (map wire_reply (replies srv1)) c1 \<and> run_returns c2 \<and>
     results c2 = zip (map fst ws) [x + y, x - y, x * y, x sdiv y]"
proof -
  obtain w1 w2 w3 w4 where ws: "ws = [w1, w2, w3, w4]" by (rule length4E[OF assms(9)])
  let ?c1 = "c\<lparr>requests_status := map (\<lambda>w. (fst w, False)) ws, sent := zip (map fst ws) (the_requests cid (x, y))\<rparr>"
  have run: "run_send cid ws c = Inr ?c1"
    by (rule sent_requests) (use assms in simp_all)
  obtain outs srv1 where srv: "serve (map (wire_request g) (sent ?c1)) srv = Inr (outs, srv1)"
    and rp: "replies srv1 = concat (map (\<lambda>q. reply_to (fst (wire_request g q)) (snd q)) (zip (map fst ws) (the_requests cid (x, y))))"
    using serve_requests[OF assms(1,2,4-7), of "map fst ws" cid] by auto
  have calc: "answer \<lparr>client_id = cid, req_x = x, req_y = y, operation = opr\<rparr> =
      (case opr of ADDITION \<Rightarrow> Some (x + y) | SUBTRACTION \<Rightarrow> Some (x - y) | MULTIPLICATION \<Rightarrow> Some (x * y)
       | DIVISION \<Rightarrow> Some (x sdiv y) | UnknownOperation _ \<Rightarrow> None)" for opr
    using assms(1-3) by (simp add: answer_def calculate_ok split: CalculatorOperationType.splits)
  have batch: "map wire_reply (replies srv1) = [(True, True, fst w1, x + y), (True, True, fst w2, x - y),
      (True, True, fst w3, x * y), (True, True, fst w4, x sdiv y)]"
    by (simp add: rp ws the_requests_def reply_to_def calc wire_reply_def wire_request_def)
  have "client_on_data_available (map wire_reply (replies srv1)) ?c1 =
      ?c1\<lparr>client_stopped := True, requests_status := [(fst w1, True), (fst w2, True), (fst w3, True), (fst w4, True)],
        results := [(fst w1, x + y), (fst w2, x - y), (fst w3, x * y), (fst w4, x sdiv y)]\<rparr>"
    unfolding batch by (rule client_four_replies) (use assms(8,11) ws in auto)
  with run srv ws show ?thesis by (auto simp: run_returns_def)
qed

theorem calculator_end_to_end_witness:
  "\<exists>c1 outs srv1 c2. run_send ''c1'' calc_demo_writes (calc_demo_client (7, 2)) = Inr c1 \<and>
     serve (map (wire_request ''c1'') (sent c1)) calc_demo_server = Inr (outs, srv1) \<and>
     c2 = client_on_data_available (map wire_reply (replies srv1)) c1 \<and> run_returns c2 \<and>
     results c2 = [((''c1'', 1), 9), ((''c1'', 2), 5), ((''c1'', 3), 14), ((''c1'', 4), 3)]"
proof -
  have "is_client_matched ''c1'' (client_matched calc_demo_server)" "\<not> stopped calc_demo_server"
    "requests calc_demo_server = []" "replies calc_demo_server = []" "int16 7" "int16 2" "(2::int) \<noteq> 0"
    "length calc_demo_writes = 4" "\<forall>w \<in> set calc_demo_writes. snd w" "distinct (map fst calc_demo_writes)"
    by (simp_all add: calc_demo_server_def is_client_matched_def int16_def calc_demo_writes_def)
  from calculator_end_to_end[OF this(5,6,7,1-4) calc_demo_client_def this(8-10)] show ?thesis
    by (simp add: calc_demo_writes_def)
qed

text \<open>C34: With zero as the second operand the client never returns: the server drops the division request as
  malformed and sends no reply to it, while the client waits for four; no batches made of the server's replies,
  repeated and in any order, end the wait.\<close>

theorem calculator_div_zero_hangs:
  assumes "int16 x"
    and "is_client_matched g (client_matched srv)" and "\<not> stopped srv" and "requests srv = []" and "replies srv = []"
    and "c = \<lparr>request_input = (x, 0), client_stopped = False, server_matched = m, requests_status = [], sent = [], results = []\<rparr>"
    and "length ws = 4" and "\<forall>w \<in> set ws. snd w" and "distinct (map fst ws)"
  shows "\<exists>c1 outs srv1. run_send cid ws c = Inr c1 \<and>
     serve (map (wire_request g) (sent c1)) srv = Inr (outs, srv1) \<and> length (replies srv1) = 3 \<and>
     (\<forall>batches. set (concat batches) \<subseteq> wire_reply ` set (replies srv1) \<longrightarrow>
        \<not> run_returns (fold client_on_data_available batches c1))"
proof -
  obtain w1 w2 w3 w4 where ws: "ws = [w1, w2, w3, w4]" by (rule length4E[OF assms(7)])
  let ?c1 = "c\<lparr>requests_status := map (\<lambda>w. (fst w, False)) ws, sent := zip (map fst ws) (the_requests cid (x, 0))\<rparr>"
  have run: "run_send cid ws c = Inr ?c1"
    by (rule sent_requests) (use assms in simp_all)
  have z: "int16 0" by (simp add: int16_def)
  obtain outs srv1 where srv: "serve (map (wire_request g) (sent ?c1)) srv = Inr (outs, srv1)"
    and rp: "replies srv1 = concat (map (\<lambda>q. reply_to (fst (wire_request g q)) (snd q)) (zip (map fst ws) (the_requests cid (x, 0))))"
    using serve_requests[OF assms(1) z assms(2-5), of "map fst ws" cid] by auto
  have calc: "answer \<lparr>client_id = cid, req_x = x, req_y = 0, operation = opr\<rparr> =
      (case opr of ADDITION \<Rightarrow> Some x | SUBTRACTION \<Rightarrow> Some x | MULTIPLICATION \<Rightarrow> Some 0
       | DIVISION \<Rightarrow> None | UnknownOperation _ \<Rightarrow> None)" for opr
    using assms(1) z by (simp add: answer_def calculate_ok split: CalculatorOperationType.splits)
  have rel: "map related (replies srv1) = [fst w1, fst w2, fst w3]"
    by (simp add: rp ws the_requests_def reply_to_def calc wire_request_def)
  have "\<not> run_returns (fold client_on_data_available bs ?c1)"
    if sub: "set (concat bs) \<subseteq> wire_reply ` set (replies srv1)" for bs
  proof -
    have "requests_status c = []" "\<not> client_stopped c" using assms(6) by simp_all
    from client_stops_when_answered[OF assms(7-9) this, of cid bs] run
    have iff: "run_returns (fold client_on_data_available bs ?c1) \<longleftrightarrow>
        (\<forall>w \<in> set ws. \<exists>v. (True, True, fst w, v) \<in> set (concat bs))" by simp
    have "(True, True, fst w4, v) \<notin> wire_reply ` set (replies srv1)" for v
    proof
      assume "(True, True, fst w4, v) \<in> wire_reply ` set (replies srv1)"
      then have "fst w4 \<in> set (map related (replies srv1))" by (auto simp: wire_reply_def)
      then show False unfolding rel using assms(9) ws by auto
    qed
    with sub iff ws show ?thesis by auto
  qed
  moreover have "length (replies srv1) = 3" using rel by (metis length_map length_Cons list.size(3) numeral_3_eq_3)
  ultimately show ?thesis using run srv by blast
qed

theorem calculator_div_zero_hangs_witness:
  "\<exists>c1 outs srv1. run_send ''c1'' calc_demo_writes (calc_demo_client (7, 0)) = Inr c1 \<and>
     serve (map (wire_request ''c1'') (sent c1)) calc_demo_server = Inr (outs, srv1) \<and> length (replies srv1) = 3 \<and>
     (\<forall>batches. set (concat batches) \<subseteq> wire_reply ` set (replies srv1) \<longrightarrow>
        \<not> run_returns (fold client_on_data_available batches c1))"
proof -
  have "is_client_matched ''c1'' (client_matched calc_demo_server)" "\<not> stopped calc_demo_server"
    "requests calc_demo_server = []" "replies calc_demo_server = []" "int16 7"
    "length calc_demo_writes = 4" "\<forall>w \<in> set calc_demo_writes. snd w" "distinct (map fst calc_demo_writes)"
    by (simp_all add: calc_demo_server_def is_client_matched_def int16_def calc_demo_writes_def)
  from calculator_div_zero_hangs[OF this(5,1-4) calc_demo_client_def this(6-8)] show ?thesis .
qed

text \<open>When DDS refuses to create the participant, the client reports it and \<^verbatim>\<open>main\<close> returns the failure code; the
  server, which has already started its reply thread, ends in \<^verbatim>\<open>std::terminate\<close>, and the handler in \<^verbatim>\<open>main\<close> is
  never reached.\<close>

theorem construction_failure:
  assumes "fails CreateParticipant" and "int16 x" and "int16 y"
  shows "app_main fails [prog, ''client'', show_int x, show_int y] = Inr (Inl 1) \<and>
     app_main fails [prog, ''server''] = Inl StdTerminate"
proof
  have c: "create_participant fails = Inl (RuntimeError (if fails GetFactory
      then ''Failed to get participant factory instance'' else ''Participant initialization failed''))"
    using assms(1) by (simp add: create_participant_def attempt_def)
  have "parse_cli_options [prog, ''client'', show_int x, show_int y] = Inr \<lparr>entity = CLIENT, cfg_x = x, cfg_y = y\<rparr>"
    using assms(2,3) by (rule parse_client)
  then show "app_main fails [prog, ''client'', show_int x, show_int y] = Inr (Inl 1)"
    by (simp add: app_main_def make_app_def ClientApp_ctor_def c)
  have "parse_cli_options [prog, ''server''] = Inr \<lparr>entity = SERVER, cfg_x = 0, cfg_y = 0\<rparr>"
    by (simp add: parse_cli_options_def parse_entity_def)
  then show "app_main fails [prog, ''server''] = Inl StdTerminate"
    by (simp add: app_main_def make_app_def ServerApp_ctor_def create_entities_def c)
qed

theorem construction_failure_witness:
  "(app_main (\<lambda>c. c = CreateParticipant) [''rr'', ''client'', show_int 4, show_int 5] :: (nat + string ServerApp + string ClientApp) result)
       = Inr (Inl 1) \<and>
     (app_main (\<lambda>c. c = CreateParticipant) [''rr'', ''server''] :: (nat + string ServerApp + string ClientApp) result) = Inl StdTerminate"
  by (rule construction_failure) (simp_all add: int16_def)

end
