(* ===== verification/Fifo_Queue.thy ===== *)
theory Fifo_Queue
  imports Heap
begin

text \<open>
  Two queues: the linked queue \<^verbatim>\<open>QueueTP\<close> of \<^verbatim>\<open>src/primer_plus/chap15/15.2/queuetp.h\<close>, with its nodes on the heap, and
  \<^verbatim>\<open>ThreadSafeQueue\<close> of \<^verbatim>\<open>src/other/share_data/multicom.cpp\<close>, a \<^verbatim>\<open>std::queue\<close> under a lock that can be stopped. Both keep
  the contract \<open>fifo\<close>: what comes out, followed by what is still inside, is what was accepted, in order.
\<close>

section \<open>The contract\<close>

datatype 'a queue_op = Enq 'a | Deq

fun queue_run ::
  "('a \<Rightarrow> 's \<Rightarrow> (bool \<times> 's) result) \<Rightarrow> ('s \<Rightarrow> ('a option \<times> 's) result) \<Rightarrow> 'a queue_op list \<Rightarrow> 's \<Rightarrow>
   ('a list \<times> 'a list \<times> 's) result" where
  "queue_run enq deq [] s = Inr ([], [], s)"
| "queue_run enq deq (Enq x # ops) s = rbind (enq x s) (\<lambda>(ok, s1).
     rbind (queue_run enq deq ops s1) (\<lambda>(acc, out, s2). Inr ((if ok then x # acc else acc), out, s2)))"
| "queue_run enq deq (Deq # ops) s = rbind (deq s) (\<lambda>(v, s1).
     rbind (queue_run enq deq ops s1) (\<lambda>(acc, out, s2).
       Inr (acc, (case v of None \<Rightarrow> out | Some x \<Rightarrow> x # out), s2)))"

locale fifo =
  fixes enq :: "'a \<Rightarrow> 's \<Rightarrow> (bool \<times> 's) result"
    and deq :: "'s \<Rightarrow> ('a option \<times> 's) result"
    and contents :: "'s \<Rightarrow> 'a list"
    and room :: "'s \<Rightarrow> bool"
    and invar :: "'s \<Rightarrow> bool"
  assumes enq_ok: "invar s \<Longrightarrow> \<exists>s'. enq x s = Inr (room s, s') \<and> invar s' \<and>
      contents s' = (if room s then contents s @ [x] else contents s)"
    and deq_ok: "invar s \<Longrightarrow> \<exists>v s'. deq s = Inr (v, s') \<and> invar s' \<and>
      (v = None \<and> contents s' = contents s \<or> (\<exists>x. v = Some x \<and> contents s = x # contents s'))"
begin

lemma run_fifo:
  "invar s \<Longrightarrow> \<exists>acc out s'. queue_run enq deq ops s = Inr (acc, out, s') \<and> invar s' \<and>
     contents s @ acc = out @ contents s'"
proof (induction ops arbitrary: s)
  case (Cons op ops)
  show ?case
  proof (cases op)
    case (Enq x)
    from enq_ok[OF Cons.prems, of x] obtain s1 where s1: "enq x s = Inr (room s, s1)" "invar s1"
      "contents s1 = (if room s then contents s @ [x] else contents s)" by blast
    from Cons.IH[OF s1(2)] obtain acc out s' where
      "queue_run enq deq ops s1 = Inr (acc, out, s')" "invar s'" "contents s1 @ acc = out @ contents s'" by blast
    with s1 Enq show ?thesis by (cases "room s") auto
  next
    case Deq
    from deq_ok[OF Cons.prems] obtain v s1 where s1: "deq s = Inr (v, s1)" "invar s1"
      "v = None \<and> contents s1 = contents s \<or> (\<exists>x. v = Some x \<and> contents s = x # contents s1)" by blast
    from Cons.IH[OF s1(2)] obtain acc out s' where
      "queue_run enq deq ops s1 = Inr (acc, out, s')" "invar s'" "contents s1 @ acc = out @ contents s'" by blast
    with s1 Deq show ?thesis by auto
  qed
qed simp

end

section \<open>QueueTP\<close>

record 'a node =
  item :: 'a
  next_node :: ptr

record QueueTP =
  front :: ptr
  rear :: ptr
  nitems :: int
  qsize :: int

definition Q_SIZE :: int where
  "Q_SIZE = 10"

definition QueueTP_ctor :: "int \<Rightarrow> QueueTP" where
  "QueueTP_ctor qs = \<lparr>front = None, rear = None, nitems = 0, qsize = qs\<rparr>"

definition isempty :: "QueueTP \<Rightarrow> bool" where
  "isempty q \<longleftrightarrow> nitems q = 0"

definition isfull :: "QueueTP \<Rightarrow> bool" where
  "isfull q \<longleftrightarrow> nitems q = qsize q"

definition queuecount :: "QueueTP \<Rightarrow> int" where
  "queuecount q = nitems q"

definition enqueue :: "'a \<Rightarrow> QueueTP \<times> 'a node heap \<Rightarrow> (bool \<times> QueueTP \<times> 'a node heap) result" where
  "enqueue x = (\<lambda>(q, h).
     if isfull q then Inr (False, q, h)
     else let (add, h1) = h_new \<lparr>item = x, next_node = None\<rparr> h in
       rbind (chk_int (nitems q + 1)) (\<lambda>n.
         let q1 = q\<lparr>nitems := n\<rparr> in
         if front q1 = None then Inr (True, q1\<lparr>front := add, rear := add\<rparr>, h1)
         else rbind (h_read h1 (rear q1)) (\<lambda>r.
              rbind (h_write h1 (rear q1) (r\<lparr>next_node := add\<rparr>)) (\<lambda>h2.
              Inr (True, q1\<lparr>rear := add\<rparr>, h2)))))"

text \<open>\<^verbatim>\<open>dequeue(Item & item)\<close>: the argument keeps its value when the queue is empty.\<close>

definition dequeue :: "'a \<Rightarrow> QueueTP \<times> 'a node heap \<Rightarrow> (bool \<times> 'a \<times> QueueTP \<times> 'a node heap) result" where
  "dequeue old = (\<lambda>(q, h).
     if front q = None then Inr (False, old, q, h)
     else rbind (h_read h (front q)) (\<lambda>f.
          rbind (chk_int (nitems q - 1)) (\<lambda>n.
          rbind (h_delete h (front q)) (\<lambda>h1.
            let q1 = q\<lparr>nitems := n, front := next_node f\<rparr> in
            Inr (True, item f, (if nitems q1 = 0 then q1\<lparr>rear := None\<rparr> else q1), h1)))))"

text \<open>The loop of the destructor, with fuel for the nodes it visits.\<close>

fun dtor_loop :: "nat \<Rightarrow> ptr \<Rightarrow> 'a node heap \<Rightarrow> 'a node heap option result" where
  "dtor_loop 0 p h = Inr (if p = None then Some h else None)"
| "dtor_loop (Suc k) p h =
     (if p = None then Inr (Some h)
      else rbind (h_read h p) (\<lambda>n. rbind (h_delete h p) (dtor_loop k (next_node n))))"

definition QueueTP_dtor :: "nat \<Rightarrow> QueueTP \<times> 'a node heap \<Rightarrow> 'a node heap option result" where
  "QueueTP_dtor k = (\<lambda>(q, h). dtor_loop k (front q) h)"

section \<open>Linked lists in the heap\<close>

fun chain :: "'a node heap \<Rightarrow> ptr \<Rightarrow> (nat \<times> 'a) list \<Rightarrow> bool" where
  "chain h p [] \<longleftrightarrow> p = None"
| "chain h p ((a, x) # as) \<longleftrightarrow>
     (\<exists>n. p = Some a \<and> mem h a = Live \<lparr>item = x, next_node = n\<rparr> \<and> chain h n as)"

lemma chain_frame:
  "chain h p as \<Longrightarrow> (\<And>b. b \<in> fst ` set as \<Longrightarrow> mem h' b = mem h b) \<Longrightarrow> chain h' p as"
proof (induction as arbitrary: p)
  case (Cons ax as)
  obtain a x where [simp]: "ax = (a, x)" by force
  from Cons.prems(1) obtain n where n: "p = Some a" "mem h a = Live \<lparr>item = x, next_node = n\<rparr>" "chain h n as" by auto
  have "chain h' n as" using Cons.IH[OF n(3)] Cons.prems(2) by simp
  moreover have "mem h' a = mem h a" using Cons.prems(2)[of a] by simp
  ultimately show ?case using n by simp
qed simp

lemma chain_live: "chain h p as \<Longrightarrow> fst ` set as \<subseteq> live h"
  by (induction as arbitrary: p) (force simp: live_def)+

lemma chain_last:
  assumes "chain h p (as @ [(l, x)])" and "distinct (map fst (as @ [(l, x)]))" and "a \<notin> insert l (fst ` set as)"
    and h': "mem h' = (mem h)(a := Live \<lparr>item = y, next_node = None\<rparr>, l := Live \<lparr>item = x, next_node = Some a\<rparr>)"
  shows "chain h' p (as @ [(l, x), (a, y)])"
  using assms(1-3)
proof (induction as arbitrary: p)
  case Nil
  then show ?case by (auto simp: h')
next
  case (Cons bz as)
  obtain b z where [simp]: "bz = (b, z)" by force
  from Cons.prems(1) obtain n where n: "p = Some b" "mem h b = Live \<lparr>item = z, next_node = n\<rparr>"
    "chain h n (as @ [(l, x)])" by auto
  have "chain h' n (as @ [(l, x), (a, y)])" using Cons.IH[OF n(3)] Cons.prems(2,3) by auto
  moreover have "mem h' b = mem h b" using Cons.prems(2,3) by (auto simp: h')
  ultimately show ?case using n by simp
qed

lemma chain_last_live: "chain h p (as @ [(l, x)]) \<Longrightarrow> mem h l = Live \<lparr>item = x, next_node = None\<rparr>"
  by (induction as arbitrary: p) auto

definition queue_at :: "(nat \<times> 'a) list \<Rightarrow> QueueTP \<times> 'a node heap \<Rightarrow> bool" where
  "queue_at as s \<longleftrightarrow> heap_ok (snd s) \<and> chain (snd s) (front (fst s)) as \<and> distinct (map fst as) \<and>
     nitems (fst s) = int (length as) \<and> int (length as) \<le> qsize (fst s) \<and> qsize (fst s) \<le> INT_MAX \<and>
     (as \<noteq> [] \<longrightarrow> rear (fst s) = Some (fst (last as)))"

lemma queue_at_ctor:
  "heap_ok h \<Longrightarrow> 0 \<le> qs \<Longrightarrow> qs \<le> INT_MAX \<Longrightarrow> queue_at [] (QueueTP_ctor qs, h)"
  by (simp add: queue_at_def QueueTP_ctor_def)

lemma enqueue_full:
  assumes "queue_at as (q, h)" and "int (length as) = qsize q"
  shows "enqueue x (q, h) = Inr (False, q, h)"
  using assms by (simp add: enqueue_def isfull_def queue_at_def)

lemma enqueue_room:
  assumes at: "queue_at as (q, h)" and room: "int (length as) < qsize q"
  shows "\<exists>q' h'. enqueue x (q, h) = Inr (True, q', h') \<and> queue_at (as @ [(brk h, x)]) (q', h') \<and>
    live h' = insert (brk h) (live h) \<and> qsize q' = qsize q"
proof -
  let ?n = "\<lparr>item = x, next_node = None\<rparr>" and ?a = "brk h"
  let ?h1 = "h\<lparr>mem := (mem h)(?a := Live ?n), brk := Suc ?a\<rparr>"
  have ok: "heap_ok h" "chain h (front q) as" "distinct (map fst as)" "nitems q = int (length as)"
    "qsize q \<le> INT_MAX" using at by (auto simp: queue_at_def)
  have n: "chk_int (nitems q + 1) = Inr (nitems q + 1)"
    using ok(4,5) room by (simp add: in_int_numerals INT_MAX_def)
  have fresh: "?a \<notin> fst ` set as" using chain_live[OF ok(2)] brk_not_live[OF ok(1)] by blast
  show ?thesis
  proof (cases as rule: rev_cases)
    case Nil
    then show ?thesis using at room n
      by (auto simp: enqueue_def isfull_def h_new_def queue_at_def heap_ok_def live_def Let_def)
  next
    case (snoc as' lx)
    obtain l y where [simp]: "lx = (l, y)" by force
    have l: "mem h l = Live \<lparr>item = y, next_node = None\<rparr>" using chain_last_live[of h "front q" as' l y] ok(2) snoc by simp
    have la: "l \<noteq> ?a" using fresh snoc by auto
    obtain f where fr: "front q = Some f" using ok(2) snoc by (cases as') auto
    have re: "rear q = Some l" using at snoc by (simp add: queue_at_def)
    let ?h2 = "?h1\<lparr>mem := (mem ?h1)(l := Live \<lparr>item = y, next_node = Some ?a\<rparr>)\<rparr>"
    have "enqueue x (q, h) = Inr (True, q\<lparr>nitems := nitems q + 1, rear := Some ?a\<rparr>, ?h2)"
      using n room ok(4) fr re l la
      by (simp add: enqueue_def isfull_def h_new_def Let_def h_read_def h_write_def)
    moreover have "chain ?h2 (front q) (as' @ [(l, y), (?a, x)])"
      by (rule chain_last[of h]) (use ok(2,3) snoc fresh in auto)
    moreover have "heap_ok ?h2"
      using ok(1) live_below_brk[OF ok(1), of l] l by (auto simp: heap_ok_def live_def)
    moreover have "live ?h2 = insert ?a (live h)" using l la by (auto simp: live_def)
    ultimately show ?thesis using ok fresh room snoc by (auto simp: queue_at_def)
  qed
qed

lemma dequeue_empty: "queue_at [] (q, h) \<Longrightarrow> dequeue old (q, h) = Inr (False, old, q, h)"
  by (simp add: queue_at_def dequeue_def)

lemma dequeue_some:
  assumes at: "queue_at ((a, x) # as) (q, h)"
  shows "\<exists>q' h'. dequeue old (q, h) = Inr (True, x, q', h') \<and> queue_at as (q', h') \<and>
    live h' = live h - {a} \<and> qsize q' = qsize q"
proof -
  obtain n where n: "front q = Some a" "mem h a = Live \<lparr>item = x, next_node = n\<rparr>" "chain h n as"
    using at by (auto simp: queue_at_def)
  have ok: "heap_ok h" "distinct (map fst ((a, x) # as))" "nitems q = 1 + int (length as)"
    "1 + int (length as) \<le> qsize q" "qsize q \<le> INT_MAX"
    using at by (auto simp: queue_at_def)
  let ?h1 = "h\<lparr>mem := (mem h)(a := Freed)\<rparr>"
  let ?q1 = "q\<lparr>nitems := int (length as), front := n\<rparr>"
  have "dequeue old (q, h) = Inr (True, x, (if as = [] then ?q1\<lparr>rear := None\<rparr> else ?q1), ?h1)"
    using n ok by (simp add: dequeue_def h_read_def h_delete_def Let_def in_int_numerals INT_MAX_def)
  moreover have "chain ?h1 n as" by (rule chain_frame[OF n(3)]) (use ok(2) in auto)
  moreover have "heap_ok ?h1"
    using ok(1) live_below_brk[OF ok(1), of a] n(2) by (auto simp: heap_ok_def live_def)
  moreover have "live ?h1 = live h - {a}" by (auto simp: live_def)
  moreover have "as \<noteq> [] \<longrightarrow> rear q = Some (fst (last as))" using at by (auto simp: queue_at_def)
  ultimately show ?thesis using ok by (auto simp: queue_at_def)
qed

lemma dtor_chain:
  assumes "chain h p as" and "distinct (map fst as)" and "length as \<le> k"
  shows "\<exists>h'. dtor_loop k p h = Inr (Some h') \<and> live h' = live h - fst ` set as"
  using assms
proof (induction as arbitrary: p h k)
  case Nil
  then show ?case by (cases k) auto
next
  case (Cons ax as)
  obtain a x where [simp]: "ax = (a, x)" by force
  from Cons.prems(1) obtain n where n: "p = Some a" "mem h a = Live \<lparr>item = x, next_node = n\<rparr>" "chain h n as" by auto
  obtain k' where k: "k = Suc k'" using Cons.prems(3) by (cases k) auto
  let ?h1 = "h\<lparr>mem := (mem h)(a := Freed)\<rparr>"
  have "chain ?h1 n as" by (rule chain_frame[OF n(3)]) (use Cons.prems(2) in auto)
  from Cons.IH[OF this, of k'] Cons.prems(2,3) k obtain h' where
    "dtor_loop k' n ?h1 = Inr (Some h')" "live h' = live ?h1 - fst ` set as" by auto
  with n k show ?case by (auto simp: h_read_def h_delete_def live_def)
qed

section \<open>QueueTP keeps the contract\<close>

text \<open>The items from the front on, read off the heap.\<close>

fun walk :: "nat \<Rightarrow> ptr \<Rightarrow> 'a node heap \<Rightarrow> 'a list" where
  "walk (Suc k) (Some a) h = (case mem h a of Live n \<Rightarrow> item n # walk k (next_node n) h | _ \<Rightarrow> [])"
| "walk _ _ h = []"

definition tp_contents :: "QueueTP \<times> 'a node heap \<Rightarrow> 'a list" where
  "tp_contents s = walk (nat (nitems (fst s))) (front (fst s)) (snd s)"

definition tp_room :: "QueueTP \<times> 'a node heap \<Rightarrow> bool" where
  "tp_room s \<longleftrightarrow> \<not> isfull (fst s)"

definition tp_deq :: "'a \<Rightarrow> QueueTP \<times> 'a node heap \<Rightarrow> ('a option \<times> QueueTP \<times> 'a node heap) result" where
  "tp_deq old s = rbind (dequeue old s) (\<lambda>(ok, x, s'). Inr (if ok then Some x else None, s'))"

text \<open>\<open>L\<close> are the objects that do not belong to the queue.\<close>

definition tp_inv :: "nat set \<Rightarrow> QueueTP \<times> 'a node heap \<Rightarrow> bool" where
  "tp_inv L s \<longleftrightarrow> (\<exists>as. queue_at as s \<and> live (snd s) = L \<union> fst ` set as \<and> L \<inter> fst ` set as = {})"

lemma walk_chain: "chain h p as \<Longrightarrow> walk (length as) p h = map snd as"
  by (induction as arbitrary: p) auto

lemma tp_contents_at: "queue_at as s \<Longrightarrow> tp_contents s = map snd as"
  by (simp add: tp_contents_def queue_at_def walk_chain)

lemma tp_enqueue:
  assumes "tp_inv L s"
  shows "\<exists>s'. enqueue x s = Inr (tp_room s, s') \<and> tp_inv L s' \<and>
    tp_contents s' = (if tp_room s then tp_contents s @ [x] else tp_contents s)"
proof -
  obtain q h where [simp]: "s = (q, h)" by force
  from assms obtain as where as: "queue_at as (q, h)" "live h = L \<union> fst ` set as" "L \<inter> fst ` set as = {}"
    by (auto simp: tp_inv_def)
  have c: "nitems q = int (length as)" "int (length as) \<le> qsize q" "heap_ok h" using as(1) by (auto simp: queue_at_def)
  show ?thesis
  proof (cases "int (length as) = qsize q")
    case True
    then show ?thesis using enqueue_full[OF as(1) True, of x] assms c by (auto simp: tp_room_def isfull_def)
  next
    case False
    then have r: "int (length as) < qsize q" using c by simp
    from enqueue_room[OF as(1) r, of x] obtain q' h' where e: "enqueue x (q, h) = Inr (True, q', h')"
      "queue_at (as @ [(brk h, x)]) (q', h')" "live h' = insert (brk h) (live h)" by blast
    have "brk h \<notin> live h" by (rule brk_not_live[OF c(3)])
    with e as have "tp_inv L (q', h')" unfolding tp_inv_def by (intro exI[of _ "as @ [(brk h, x)]"]) auto
    moreover have "tp_room s" using False c by (simp add: tp_room_def isfull_def)
    ultimately show ?thesis using e tp_contents_at[OF as(1)] tp_contents_at[OF e(2)] by auto
  qed
qed

lemma tp_dequeue:
  assumes "tp_inv L s"
  shows "\<exists>v s'. tp_deq old s = Inr (v, s') \<and> tp_inv L s' \<and>
    (v = None \<and> tp_contents s' = tp_contents s \<or> (\<exists>x. v = Some x \<and> tp_contents s = x # tp_contents s'))"
proof -
  obtain q h where [simp]: "s = (q, h)" by force
  from assms obtain as where as: "queue_at as (q, h)" "live h = L \<union> fst ` set as" "L \<inter> fst ` set as = {}"
    by (auto simp: tp_inv_def)
  show ?thesis
  proof (cases as)
    case Nil
    then show ?thesis using dequeue_empty[of q h old] as(1) assms by (simp add: tp_deq_def)
  next
    case (Cons ax as')
    obtain a x where [simp]: "ax = (a, x)" by force
    from dequeue_some[of a x as' q h old] as(1) Cons obtain q' h' where
      d: "dequeue old (q, h) = Inr (True, x, q', h')" "queue_at as' (q', h')" "live h' = live h - {a}" by auto
    have "distinct (map fst as)" using as(1) by (simp add: queue_at_def)
    with d as Cons have "tp_inv L (q', h')" unfolding tp_inv_def by (intro exI[of _ as']) auto
    with d tp_contents_at[OF as(1)] tp_contents_at[OF d(2)] Cons show ?thesis by (simp add: tp_deq_def)
  qed
qed

interpretation qtp: fifo enqueue "tp_deq old" tp_contents tp_room "tp_inv L" for old L
  by unfold_locales (fact tp_enqueue, fact tp_dequeue)

section \<open>ThreadSafeQueue\<close>

record 'a ThreadSafeQueue =
  tsq :: "'a list"
  stop_flag :: bool

text \<open>\<^verbatim>\<open>push\<close> tests the flag without the lock; what it does under the lock is \<open>tsq_put\<close>, which puts the item in even when the
  queue is stopped in between.\<close>

definition tsq_put :: "'a \<Rightarrow> 'a ThreadSafeQueue \<Rightarrow> 'a ThreadSafeQueue" where
  [simp]: "tsq_put x s = s\<lparr>tsq := tsq s @ [x]\<rparr>"

definition tsq_push :: "'a \<Rightarrow> 'a ThreadSafeQueue \<Rightarrow> 'a ThreadSafeQueue" where
  "tsq_push x s = (if stop_flag s then s else tsq_put x s)"

definition try_pop :: "'a \<Rightarrow> 'a ThreadSafeQueue \<Rightarrow> bool \<times> 'a \<times> 'a ThreadSafeQueue" where
  "try_pop old s = (case tsq s of
     [] \<Rightarrow> (False, old, s)
   | x # xs \<Rightarrow> if stop_flag s then (False, old, s) else (True, x, s\<lparr>tsq := xs\<rparr>))"

text \<open>\<^verbatim>\<open>wait_and_pop\<close>, on the state in which its wait ends: by timeout when there is neither an item nor a stop.\<close>

definition wait_and_pop :: "'a \<Rightarrow> 'a ThreadSafeQueue \<Rightarrow> bool \<times> 'a \<times> 'a ThreadSafeQueue" where
  "wait_and_pop old s =
     (if \<not> (tsq s \<noteq> [] \<or> stop_flag s) then (False, old, s)
      else if stop_flag s \<or> tsq s = [] then (False, old, s)
      else (True, hd (tsq s), s\<lparr>tsq := tl (tsq s)\<rparr>))"

definition tsq_stop :: "'a ThreadSafeQueue \<Rightarrow> 'a ThreadSafeQueue" where
  "tsq_stop s = s\<lparr>stop_flag := True\<rparr>"

definition tsq_empty :: "'a ThreadSafeQueue \<Rightarrow> bool" where
  "tsq_empty s \<longleftrightarrow> tsq s = []"

definition is_stopped :: "'a ThreadSafeQueue \<Rightarrow> bool" where
  "is_stopped s = stop_flag s"

lemma wait_and_pop_eq: "wait_and_pop old s = try_pop old s"
  by (cases "tsq s") (auto simp: wait_and_pop_def try_pop_def)

definition tsq_enq :: "'a \<Rightarrow> 'a ThreadSafeQueue \<Rightarrow> (bool \<times> 'a ThreadSafeQueue) result" where
  "tsq_enq x s = Inr (\<not> is_stopped s, tsq_push x s)"

definition tsq_deq :: "'a \<Rightarrow> 'a ThreadSafeQueue \<Rightarrow> ('a option \<times> 'a ThreadSafeQueue) result" where
  "tsq_deq old s = (case wait_and_pop old s of (ok, x, s') \<Rightarrow> Inr (if ok then Some x else None, s'))"

interpretation ts: fifo tsq_enq "tsq_deq old" tsq "Not \<circ> is_stopped" "\<lambda>_. True" for old
  by unfold_locales (auto simp: tsq_enq_def tsq_push_def is_stopped_def tsq_deq_def wait_and_pop_eq try_pop_def
      split: list.splits)

section \<open>Properties\<close>

text \<open>C38: The linked queue is first-in first-out and leaks nothing: from a new queue of any capacity, any sequence of
  enqueues and dequeues runs without a memory error; what came out, followed by what is inside, is what was
  accepted, in order; and the destructor then returns with exactly the objects live that were live before
  the queue was made.\<close>

theorem queue_fifo_no_leak:
  assumes "heap_ok h" and "0 \<le> qs" and "qs \<le> INT_MAX"
  shows "\<exists>acc out q h1 h2. queue_run enqueue (tp_deq old) ops (QueueTP_ctor qs, h) = Inr (acc, out, q, h1) \<and>
     acc = out @ tp_contents (q, h1) \<and>
     QueueTP_dtor (nat (queuecount q)) (q, h1) = Inr (Some h2) \<and> live h2 = live h"
proof -
  have at: "queue_at [] (QueueTP_ctor qs, h)" by (rule queue_at_ctor[OF assms])
  then have inv: "tp_inv (live h) (QueueTP_ctor qs, h)" by (auto simp: tp_inv_def)
  have "tp_contents (QueueTP_ctor qs, h) = []" using tp_contents_at[OF at] by simp
  with qtp.run_fifo[OF inv, of old ops] obtain acc out q h1 where
    r: "queue_run enqueue (tp_deq old) ops (QueueTP_ctor qs, h) = Inr (acc, out, q, h1)"
      "tp_inv (live h) (q, h1)" "acc = out @ tp_contents (q, h1)" by auto
  from r(2) obtain as where as: "queue_at as (q, h1)" "live h1 = live h \<union> fst ` set as" "live h \<inter> fst ` set as = {}"
    by (auto simp: tp_inv_def)
  have "chain h1 (front q) as" "distinct (map fst as)" "nat (queuecount q) = length as"
    using as(1) by (auto simp: queue_at_def queuecount_def)
  moreover have "live h1 - fst ` set as = live h" using as(2,3) by auto
  ultimately obtain h2 where "QueueTP_dtor (nat (queuecount q)) (q, h1) = Inr (Some h2)" "live h2 = live h"
    using dtor_chain[of h1 "front q" as "length as"] by (auto simp: QueueTP_dtor_def)
  with r show ?thesis by blast
qed

theorem queue_fifo_no_leak_witness:
  "\<exists>acc out q h1 h2. queue_run enqueue (tp_deq 0) [Enq 4, Enq 5, Enq 6, Deq, Enq (7::int)] (QueueTP_ctor 2, heap_empty) =
       Inr (acc, out, q, h1) \<and>
     acc = out @ tp_contents (q, h1) \<and>
     QueueTP_dtor (nat (queuecount q)) (q, h1) = Inr (Some h2) \<and> live h2 = live (heap_empty :: int node heap)"
  by (rule queue_fifo_no_leak) (simp_all add: heap_ok_empty INT_MAX_def)

end
