(* ===== verification/Heap_String.thy ===== *)
theory Heap_String
  imports Heap
begin

text \<open>
  The string classes of \<^verbatim>\<open>src/primer_plus/chap12\<close>: \<^verbatim>\<open>String\<close> (\<^verbatim>\<open>12_3/string1.cpp\<close>), with deep copies, and \<^verbatim>\<open>StringBad\<close>
  (\<^verbatim>\<open>12_2/strngbad.cpp\<close>), whose implicit copies share the character array, with the program \<^verbatim>\<open>vegnews.cpp\<close> that uses it.
  A character array is a heap object with the list of its characters, the terminating zero included; reading
  a string runs to the zero and is an error when there is none. \<open>num_strings\<close> is threaded with the heap.
\<close>

section \<open>C strings\<close>

definition NUL :: char where
  "NUL = CHR 0x00"

definition c_str :: "string \<Rightarrow> string result" where
  "c_str buf = (if NUL \<in> set buf then Inr (takeWhile (\<lambda>c. c \<noteq> NUL) buf) else Inl OutOfBounds)"

text \<open>\<^verbatim>\<open>strcpy\<close> of the string \<open>s\<close> (without its zero) into the array \<open>buf\<close>.\<close>

definition strcpy :: "string \<Rightarrow> string \<Rightarrow> string result" where
  "strcpy buf s = (if length s < length buf then Inr (s @ NUL # drop (Suc (length s)) buf) else Inl OutOfBounds)"

fun strcmp :: "string \<Rightarrow> string \<Rightarrow> int" where
  "strcmp [] [] = 0"
| "strcmp [] (_ # _) = - 1"
| "strcmp (_ # _) [] = 1"
| "strcmp (c # cs) (d # ds) =
     (if c = d then strcmp cs ds else if (of_char c :: nat) < of_char d then - 1 else 1)"

section \<open>String\<close>

record Str =
  str :: ptr
  len :: int

record world =
  num_strings :: int
  chars :: "string heap"

definition text_of :: "Str \<Rightarrow> world \<Rightarrow> string result" where
  "text_of s w = rbind (h_read (chars w) (str s)) c_str"

text \<open>\<^verbatim>\<open>new char[n]\<close> with the indeterminate contents \<open>junk\<close>, then \<^verbatim>\<open>strcpy\<close>.\<close>

definition new_string :: "(nat \<Rightarrow> char) \<Rightarrow> int \<Rightarrow> string \<Rightarrow> world \<Rightarrow> (ptr \<times> world) result" where
  "new_string junk n s w =
     rbind (strcpy (map junk [0..<nat n]) s) (\<lambda>buf.
       case h_new buf (chars w) of (p, h) \<Rightarrow> Inr (p, w\<lparr>chars := h\<rparr>))"

definition String_cstr :: "(nat \<Rightarrow> char) \<Rightarrow> string \<Rightarrow> world \<Rightarrow> (Str \<times> world) result" where
  "String_cstr junk s w =
     rbind (chk_int (int (length s))) (\<lambda>l.
     rbind (chk_int (l + 1)) (\<lambda>n.
     rbind (new_string junk n s w) (\<lambda>(p, w1).
     rbind (chk_int (num_strings w1 + 1)) (\<lambda>k.
     Inr (\<lparr>str = p, len = l\<rparr>, w1\<lparr>num_strings := k\<rparr>)))))"

definition String_default :: "(nat \<Rightarrow> char) \<Rightarrow> world \<Rightarrow> (Str \<times> world) result" where
  "String_default junk w =
     rbind (new_string junk 1 [] w) (\<lambda>(p, w1).
     rbind (chk_int (num_strings w1 + 1)) (\<lambda>k.
     Inr (\<lparr>str = p, len = 4\<rparr>, w1\<lparr>num_strings := k\<rparr>)))"

definition String_copy :: "(nat \<Rightarrow> char) \<Rightarrow> Str \<Rightarrow> world \<Rightarrow> (Str \<times> world) result" where
  "String_copy junk st w =
     rbind (chk_int (num_strings w + 1)) (\<lambda>k.
     rbind (chk_int (len st + 1)) (\<lambda>n.
     rbind (text_of st w) (\<lambda>s.
     rbind (new_string junk n s (w\<lparr>num_strings := k\<rparr>)) (\<lambda>(p, w1).
     Inr (\<lparr>str = p, len = len st\<rparr>, w1)))))"

text \<open>The destructor prints the string and the count, then frees the array.\<close>

definition String_dtor :: "Str \<Rightarrow> world \<Rightarrow> ((string \<times> int) \<times> world) result" where
  "String_dtor st w =
     rbind (text_of st w) (\<lambda>s.
     rbind (chk_int (num_strings w - 1)) (\<lambda>k.
     rbind (h_delete (chars w) (str st)) (\<lambda>h.
     Inr ((s, k), w\<lparr>num_strings := k, chars := h\<rparr>))))"

definition String_assign :: "(nat \<Rightarrow> char) \<Rightarrow> bool \<Rightarrow> Str \<Rightarrow> Str \<Rightarrow> world \<Rightarrow> (Str \<times> world) result" where
  "String_assign junk same this st w =
     (if same then Inr (this, w)
      else rbind (h_delete (chars w) (str this)) (\<lambda>h.
           rbind (chk_int (len st + 1)) (\<lambda>n.
           rbind (text_of st (w\<lparr>chars := h\<rparr>)) (\<lambda>s.
           rbind (new_string junk n s (w\<lparr>chars := h\<rparr>)) (\<lambda>(p, w1).
           Inr (\<lparr>str = p, len = len st\<rparr>, w1))))))"

definition String_assign_cstr :: "(nat \<Rightarrow> char) \<Rightarrow> Str \<Rightarrow> string \<Rightarrow> world \<Rightarrow> (Str \<times> world) result" where
  "String_assign_cstr junk this s w =
     rbind (h_delete (chars w) (str this)) (\<lambda>h.
     rbind (chk_int (int (length s))) (\<lambda>l.
     rbind (chk_int (l + 1)) (\<lambda>n.
     rbind (new_string junk n s (w\<lparr>chars := h\<rparr>)) (\<lambda>(p, w1).
     Inr (\<lparr>str = p, len = l\<rparr>, w1)))))"

definition String_index :: "Str \<Rightarrow> int \<Rightarrow> world \<Rightarrow> char result" where
  "String_index st i w = rbind (h_read (chars w) (str st)) (\<lambda>buf. arr_get buf i)"

definition String_less :: "Str \<Rightarrow> Str \<Rightarrow> world \<Rightarrow> bool result" where
  "String_less a b w = rbind (text_of a w) (\<lambda>s. rbind (text_of b w) (\<lambda>t. Inr (strcmp s t < 0)))"

definition String_greater :: "Str \<Rightarrow> Str \<Rightarrow> world \<Rightarrow> bool result" where
  "String_greater a b w = String_less b a w"

definition String_equal :: "Str \<Rightarrow> Str \<Rightarrow> world \<Rightarrow> bool result" where
  "String_equal a b w = rbind (text_of a w) (\<lambda>s. rbind (text_of b w) (\<lambda>t. Inr (strcmp s t = 0)))"

text \<open>\<^verbatim>\<open>operator>>\<close> on the characters that are left: \<^verbatim>\<open>get\<close> takes at most 79 up to the line end and fails when it
  takes none; the rest of the line is then discarded.\<close>

definition CINLIM :: nat where
  "CINLIM = 80"

definition String_read :: "(nat \<Rightarrow> char) \<Rightarrow> Str \<Rightarrow> string \<Rightarrow> world \<Rightarrow> (bool \<times> Str \<times> string \<times> world) result" where
  "String_read junk st inp w =
     (let line = takeWhile (\<lambda>c. c \<noteq> CHR 0x0A) inp;
          temp = take (CINLIM - 1) line
      in if temp = [] then Inr (False, st, inp, w)
         else rbind (String_assign_cstr junk st (takeWhile (\<lambda>c. c \<noteq> NUL) temp) w) (\<lambda>(st', w').
              let rest = dropWhile (\<lambda>c. c \<noteq> CHR 0x0A) (drop (length temp) inp)
              in Inr (rest \<noteq> [], st', drop 1 rest, w')))"

section \<open>StringBad and vegnews\<close>

text \<open>\<^verbatim>\<open>StringBad(const char *)\<close> is as for \<^verbatim>\<open>String\<close>; the default constructor holds \<^verbatim>\<open>"c++"\<close>; copies are memberwise.\<close>

definition StringBad_default :: "(nat \<Rightarrow> char) \<Rightarrow> world \<Rightarrow> (Str \<times> world) result" where
  "StringBad_default junk w =
     rbind (new_string junk 4 ''c++'' w) (\<lambda>(p, w1).
     rbind (chk_int (num_strings w1 + 1)) (\<lambda>k.
     Inr (\<lparr>str = p, len = 4\<rparr>, w1\<lparr>num_strings := k\<rparr>)))"

definition StringBad_copy :: "Str \<Rightarrow> Str" where
  "StringBad_copy st = \<lparr>str = str st, len = len st\<rparr>"

definition callme1 :: "Str \<Rightarrow> world \<Rightarrow> string result" where
  "callme1 rsb w = text_of rsb w"

text \<open>\<^verbatim>\<open>callme2\<close> takes its argument by value: the copy is destroyed when it returns.\<close>

definition callme2 :: "Str \<Rightarrow> world \<Rightarrow> (string \<times> world) result" where
  "callme2 st w =
     (let sb = StringBad_copy st in
      rbind (text_of sb w) (\<lambda>s. rbind (String_dtor sb w) (\<lambda>(_, w1). Inr (s, w1))))"

text \<open>The block of \<^verbatim>\<open>main\<close>, for its three headlines.\<close>

definition vegnews_block :: "(nat \<Rightarrow> char) \<Rightarrow> string \<Rightarrow> string \<Rightarrow> string \<Rightarrow> world \<Rightarrow> (string list \<times> world) result" where
  "vegnews_block junk t1 t2 t3 w =
     rbind (String_cstr junk t1 w) (\<lambda>(headline1, w).
     rbind (String_cstr junk t2 w) (\<lambda>(headline2, w).
     rbind (String_cstr junk t3 w) (\<lambda>(sports, w).
     rbind (text_of headline1 w) (\<lambda>o1.
     rbind (text_of headline2 w) (\<lambda>o2.
     rbind (callme1 headline1 w) (\<lambda>o3.
     rbind (text_of headline1 w) (\<lambda>o4.
     rbind (callme2 headline2 w) (\<lambda>(o5, w).
     rbind (text_of headline2 w) (\<lambda>o6.
     let sailor = StringBad_copy sports in
     rbind (text_of sailor w) (\<lambda>o7.
     rbind (StringBad_default junk w) (\<lambda>(knot, w).
     let knot' = StringBad_copy headline1 in
     rbind (text_of knot' w) (\<lambda>o8.
     rbind (String_dtor knot' w) (\<lambda>(_, w).
     rbind (String_dtor sailor w) (\<lambda>(_, w).
     rbind (String_dtor sports w) (\<lambda>(_, w).
     rbind (String_dtor headline2 w) (\<lambda>(_, w).
     rbind (String_dtor headline1 w) (\<lambda>(_, w).
     Inr ([o1, o2, o3, o4, o5, o6, o7, o8], w))))))))))))))))))"

section \<open>Lemmas\<close>

text \<open>A sound string: its array is live and holds a terminated string that fits \<open>len\<close>.\<close>

definition str_ok :: "Str \<Rightarrow> string \<Rightarrow> world \<Rightarrow> bool" where
  "str_ok st s w \<longleftrightarrow> (\<exists>a buf. str st = Some a \<and> mem (chars w) a = Live buf \<and> c_str buf = Inr s) \<and>
     int (length s) \<le> len st \<and> len st < INT_MAX"

definition world_ok :: "world \<Rightarrow> bool" where
  "world_ok w \<longleftrightarrow> heap_ok (chars w) \<and> 0 \<le> num_strings w \<and> num_strings w < INT_MAX"

lemma text_of_ok: "str_ok st s w \<Longrightarrow> text_of st w = Inr s"
  by (auto simp: str_ok_def text_of_def h_read_def)

lemma c_str_no_nul: "c_str buf = Inr s \<Longrightarrow> NUL \<notin> set s"
  by (auto simp: c_str_def split: if_splits dest: set_takeWhileD)

lemma c_str_strcpy: "NUL \<notin> set s \<Longrightarrow> c_str (s @ NUL # r) = Inr s"
proof -
  assume a: "NUL \<notin> set s"
  have "takeWhile (\<lambda>c. c \<noteq> NUL) (s @ NUL # r) = s @ takeWhile (\<lambda>c. c \<noteq> NUL) (NUL # r)"
    using a by (intro takeWhile_append2) auto
  then show ?thesis by (simp add: c_str_def)
qed

lemma new_string_ok:
  assumes "NUL \<notin> set s" and "int (length s) < n" and "heap_ok (chars w)"
  obtains w1 where "new_string junk n s w = Inr (Some (brk (chars w)), w1)"
    "num_strings w1 = num_strings w" "heap_ok (chars w1)" "live (chars w1) = insert (brk (chars w)) (live (chars w))"
    "\<And>a. a \<noteq> brk (chars w) \<Longrightarrow> mem (chars w1) a = mem (chars w) a"
    "\<exists>buf. mem (chars w1) (brk (chars w)) = Live buf \<and> c_str buf = Inr s"
proof -
  have l: "length s < nat n" using assms(2) by simp
  define buf where "buf = s @ NUL # drop (Suc (length s)) (map junk [0..<nat n])"
  have "c_str buf = Inr s" unfolding buf_def by (rule c_str_strcpy[OF assms(1)])
  moreover have "new_string junk n s w = Inr (Some (brk (chars w)), w\<lparr>chars := snd (h_new buf (chars w))\<rparr>)"
    using l by (simp add: new_string_def strcpy_def h_new_def buf_def)
  moreover have "heap_ok (snd (h_new buf (chars w)))" by (rule heap_ok_new[OF assms(3)])
  ultimately show ?thesis using that[of "w\<lparr>chars := snd (h_new buf (chars w))\<rparr>"] live_new[of buf "chars w"]
    by (simp add: h_new_def)
qed

lemma String_cstr_ok:
  assumes "world_ok w" and "NUL \<notin> set s" and "int (length s) < INT_MAX"
  obtains st w1 where "String_cstr junk s w = Inr (st, w1)" "str st = Some (brk (chars w))" "str_ok st s w1"
    "len st = int (length s)" "heap_ok (chars w1)" "num_strings w1 = num_strings w + 1"
    "live (chars w1) = insert (brk (chars w)) (live (chars w))"
    "\<forall>a. a \<noteq> brk (chars w) \<longrightarrow> mem (chars w1) a = mem (chars w) a"
proof -
  have c: "chk_int (int (length s)) = Inr (int (length s))" "chk_int (int (length s) + 1) = Inr (int (length s) + 1)"
    "chk_int (num_strings w + 1) = Inr (num_strings w + 1)" "heap_ok (chars w)"
    using assms by (simp_all add: world_ok_def in_int_numerals INT_MAX_def)
  from new_string_ok[OF assms(2) _ c(4), of "int (length s) + 1" junk] obtain w1 where
    w1: "new_string junk (int (length s) + 1) s w = Inr (Some (brk (chars w)), w1)"
    "num_strings w1 = num_strings w" "heap_ok (chars w1)" "live (chars w1) = insert (brk (chars w)) (live (chars w))"
    "\<And>a. a \<noteq> brk (chars w) \<Longrightarrow> mem (chars w1) a = mem (chars w) a"
    "\<exists>buf. mem (chars w1) (brk (chars w)) = Live buf \<and> c_str buf = Inr s" by auto
  let ?st = "\<lparr>str = Some (brk (chars w)), len = int (length s)\<rparr>"
  have "String_cstr junk s w = Inr (?st, w1\<lparr>num_strings := num_strings w + 1\<rparr>)"
    using c w1(1,2) by (simp add: String_cstr_def)
  moreover have "str_ok ?st s (w1\<lparr>num_strings := num_strings w + 1\<rparr>)"
    using w1(6) assms(3) by (simp add: str_ok_def)
  ultimately show ?thesis using that[of ?st "w1\<lparr>num_strings := num_strings w + 1\<rparr>"] w1 by simp
qed

lemma str_ok_frame:
  "str_ok st s w \<Longrightarrow> (\<And>a. str st = Some a \<Longrightarrow> mem (chars w') a = mem (chars w) a) \<Longrightarrow> str_ok st s w'"
  by (auto simp: str_ok_def)

lemma String_dtor_ok:
  assumes "str_ok st s w" and "str st = Some a" and "0 \<le> num_strings w" and "num_strings w \<le> INT_MAX"
  shows "String_dtor st w = Inr ((s, num_strings w - 1),
    w\<lparr>num_strings := num_strings w - 1, chars := (chars w)\<lparr>mem := (mem (chars w))(a := Freed)\<rparr>\<rparr>)"
proof -
  have "chk_int (num_strings w - 1) = Inr (num_strings w - 1)"
    using assms(3,4) by (simp add: in_int_numerals INT_MAX_def)
  moreover have "h_delete (chars w) (Some a) = Inr ((chars w)\<lparr>mem := (mem (chars w))(a := Freed)\<rparr>)"
    using assms(1,2) by (intro h_delete_live) (auto simp: str_ok_def live_def)
  ultimately show ?thesis using text_of_ok[OF assms(1)] assms(2) by (simp add: String_dtor_def)
qed

lemma text_of_copy: "text_of (StringBad_copy st) w = text_of st w"
  by (simp add: text_of_def StringBad_copy_def)

lemma String_assign_ok:
  assumes tgt: "str_ok tgt s w" "str tgt = Some a" and st: "str_ok st t w" "str st = Some b" and ab: "a \<noteq> b"
    and w: "world_ok w"
  obtains w1 where "String_assign junk False tgt st w = Inr (\<lparr>str = Some (brk (chars w)), len = len st\<rparr>, w1)"
    "str_ok \<lparr>str = Some (brk (chars w)), len = len st\<rparr> t w1" "str_ok st t w1" "world_ok w1"
    "live (chars w1) = insert (brk (chars w)) (live (chars w) - {a})" "brk (chars w) \<noteq> b"
    "num_strings w1 = num_strings w"
proof -
  let ?h = "(chars w)\<lparr>mem := (mem (chars w))(a := Freed)\<rparr>"
  let ?w0 = "w\<lparr>chars := ?h\<rparr>"
  have al: "a \<in> live (chars w)" "b \<in> live (chars w)" using tgt st by (auto simp: str_ok_def live_def)
  have ok: "heap_ok (chars w)" using w by (simp add: world_ok_def)
  have h0: "heap_ok ?h" using ok live_below_brk[OF ok al(1)] by (rule heap_ok_upd)
  have st0: "str_ok st t ?w0" by (rule str_ok_frame[OF st(1)]) (use ab st(2) in simp)
  have n: "chk_int (len st + 1) = Inr (len st + 1)" and l: "int (length t) < len st + 1"
    using st(1) by (auto simp: str_ok_def in_int_numerals INT_MAX_def)
  have nn: "NUL \<notin> set t" using st(1) c_str_no_nul by (auto simp: str_ok_def)
  have b: "brk (chars w) \<noteq> b" using live_below_brk[OF ok al(2)] by simp
  from new_string_ok[OF nn l, of ?w0 junk] h0 obtain w1 where
    w1: "new_string junk (len st + 1) t ?w0 = Inr (Some (brk (chars w)), w1)"
    "num_strings w1 = num_strings w" "heap_ok (chars w1)" "live (chars w1) = insert (brk (chars w)) (live ?h)"
    "\<And>c. c \<noteq> brk (chars w) \<Longrightarrow> mem (chars w1) c = mem ?h c"
    "\<exists>buf. mem (chars w1) (brk (chars w)) = Live buf \<and> c_str buf = Inr t" by auto
  show ?thesis
  proof (rule that)
    show "String_assign junk False tgt st w = Inr (\<lparr>str = Some (brk (chars w)), len = len st\<rparr>, w1)"
      using h_delete_live[OF al(1)] tgt(2) n text_of_ok[OF st0] w1(1) by (simp add: String_assign_def)
    show "str_ok \<lparr>str = Some (brk (chars w)), len = len st\<rparr> t w1"
      using w1(6) st(1) by (auto simp: str_ok_def)
    show "str_ok st t w1" by (rule str_ok_frame[OF st0]) (use w1(5) b st(2) in auto)
    show "world_ok w1" using w w1(2,3) by (simp add: world_ok_def)
    show "live (chars w1) = insert (brk (chars w)) (live (chars w) - {a})"
      using w1(4) by (simp add: live_freed live_same)
  qed (use b w1(2) in auto)
qed

section \<open>Properties\<close>

text \<open>Assigning one \<^verbatim>\<open>String\<close> to another makes a deep copy: the target then has the source's text in an array
  of its own, its old array is freed, the source is unchanged, and both can be destroyed without error,
  after which neither array is live.\<close>

theorem string_assign_deep:
  assumes "str_ok tgt s w" and "str tgt = Some a" and "str_ok st t w" and "str st = Some b" and "a \<noteq> b"
    and "world_ok w" and "2 \<le> num_strings w"
  shows "\<exists>tgt' w1 o1 w2 o2 w3. String_assign junk False tgt st w = Inr (tgt', w1) \<and>
     text_of tgt' w1 = Inr t \<and> text_of st w1 = Inr t \<and> String_equal tgt' st w1 = Inr True \<and>
     String_dtor tgt' w1 = Inr (o1, w2) \<and> text_of st w2 = Inr t \<and> String_dtor st w2 = Inr (o2, w3) \<and>
     live (chars w3) = live (chars w) - {a, b} \<and> num_strings w3 = num_strings w - 2"
proof -
  let ?a' = "brk (chars w)" and ?new = "\<lparr>str = Some (brk (chars w)), len = len st\<rparr>"
  have eq: "strcmp t t = 0" by (induction t) auto
  from String_assign_ok[OF assms(1-6), of junk] obtain w1 where w1:
    "String_assign junk False tgt st w = Inr (?new, w1)" "str_ok ?new t w1" "str_ok st t w1" "world_ok w1"
    "live (chars w1) = insert ?a' (live (chars w) - {a})" "?a' \<noteq> b" "num_strings w1 = num_strings w" by blast
  let ?w2 = "w1\<lparr>num_strings := num_strings w1 - 1, chars := (chars w1)\<lparr>mem := (mem (chars w1))(?a' := Freed)\<rparr>\<rparr>"
  have d1: "String_dtor ?new w1 = Inr ((t, num_strings w1 - 1), ?w2)"
    by (rule String_dtor_ok[OF w1(2)]) (use w1(4) in \<open>auto simp: world_ok_def\<close>)
  have st2: "str_ok st t ?w2" by (rule str_ok_frame[OF w1(3)]) (use w1(6) assms(4) in simp)
  let ?w3 = "?w2\<lparr>num_strings := num_strings ?w2 - 1, chars := (chars ?w2)\<lparr>mem := (mem (chars ?w2))(b := Freed)\<rparr>\<rparr>"
  have d2: "String_dtor st ?w2 = Inr ((t, num_strings ?w2 - 1), ?w3)"
    by (rule String_dtor_ok[OF st2 assms(4)]) (use w1(4,7) assms(7) in \<open>auto simp: world_ok_def\<close>)
  have "?a' \<notin> live (chars w)" using assms(6) by (intro brk_not_live) (simp add: world_ok_def)
  then have "live (chars ?w3) = live (chars w) - {a, b}"
    using w1(5) by (auto simp: live_freed live_same)
  moreover have "String_equal ?new st w1 = Inr True"
    using text_of_ok[OF w1(2)] text_of_ok[OF w1(3)] eq by (simp add: String_equal_def)
  moreover have "num_strings ?w3 = num_strings w - 2" using w1(7) by simp
  ultimately show ?thesis
    using w1(1) text_of_ok[OF w1(2)] text_of_ok[OF w1(3)] text_of_ok[OF st2] d1 d2 by blast
qed

definition str_demo :: world where
  "str_demo = \<lparr>num_strings = 2, chars = \<lparr>mem = (\<lambda>_. Unallocated)(0 := Live [CHR ''a'', NUL], 1 := Live [NUL]), brk = 2\<rparr>\<rparr>"

lemma str_demo_ok:
  "str_ok \<lparr>str = Some 1, len = 4\<rparr> [] str_demo" "str_ok \<lparr>str = Some 0, len = 1\<rparr> ''a'' str_demo" "world_ok str_demo"
  "num_strings str_demo = 2"
  by (auto simp: str_ok_def str_demo_def c_str_def NUL_def world_ok_def heap_ok_def INT_MAX_def)

theorem string_assign_deep_witness:
  "\<exists>tgt' w1 o1 w2 o2 w3. String_assign (\<lambda>_. CHR ''?'') False \<lparr>str = Some 1, len = 4\<rparr> \<lparr>str = Some 0, len = 1\<rparr> str_demo = Inr (tgt', w1) \<and>
     text_of tgt' w1 = Inr ''a'' \<and> text_of \<lparr>str = Some 0, len = 1\<rparr> w1 = Inr ''a'' \<and>
     String_equal tgt' \<lparr>str = Some 0, len = 1\<rparr> w1 = Inr True \<and>
     String_dtor tgt' w1 = Inr (o1, w2) \<and> text_of \<lparr>str = Some 0, len = 1\<rparr> w2 = Inr ''a'' \<and>
     String_dtor \<lparr>str = Some 0, len = 1\<rparr> w2 = Inr (o2, w3) \<and>
     live (chars w3) = live (chars str_demo) - {1, 0} \<and> num_strings w3 = num_strings str_demo - 2"
  by (rule string_assign_deep[OF str_demo_ok(1) _ str_demo_ok(2) _ _ str_demo_ok(3)]) (simp_all add: str_demo_ok(4))

text \<open>The default constructor reports a length of 4 for its empty string.\<close>

lemma default_length_wrong:
  assumes "String_default junk w = Inr (st, w1)"
  shows "len st = 4 \<and> text_of st w1 = Inr []"
  using assms by (auto simp: String_default_def new_string_def strcpy_def h_new_def rbind_eq_Inr_iff text_of_def
      h_read_def c_str_def NUL_def)

text \<open>\<^verbatim>\<open>vegnews\<close> uses freed memory: passing a \<^verbatim>\<open>StringBad\<close> by value frees the array it shares with the copy, so
  for any three headlines the program reads a freed array at its sixth output.\<close>

theorem vegnews_use_after_free:
  assumes "heap_ok (chars w)" and "num_strings w = 0" and "\<forall>t \<in> {t1, t2, t3}. NUL \<notin> set t \<and> int (length t) < INT_MAX"
  shows "vegnews_block junk t1 t2 t3 w = Inl UseAfterFree"
proof -
  have wo: "world_ok v" if "heap_ok (chars v)" "num_strings v \<in> {0, 1, 2}" for v
    using that by (auto simp: world_ok_def INT_MAX_def)
  have p: "world_ok w" "NUL \<notin> set t1" "int (length t1) < INT_MAX" using assms wo[of w] by auto
  obtain h1 w1 where s1: "String_cstr junk t1 w = Inr (h1, w1)" "str h1 = Some (brk (chars w))" "str_ok h1 t1 w1"
    "len h1 = int (length t1)" "heap_ok (chars w1)" "num_strings w1 = num_strings w + 1"
    "live (chars w1) = insert (brk (chars w)) (live (chars w))"
    "\<forall>a. a \<noteq> brk (chars w) \<longrightarrow> mem (chars w1) a = mem (chars w) a" by (rule String_cstr_ok[OF p, of junk])
  have p: "world_ok w1" "NUL \<notin> set t2" "int (length t2) < INT_MAX" using assms wo[of w1] s1(5,6) by auto
  obtain h2 w2 where s2: "String_cstr junk t2 w1 = Inr (h2, w2)" "str h2 = Some (brk (chars w1))" "str_ok h2 t2 w2"
    "len h2 = int (length t2)" "heap_ok (chars w2)" "num_strings w2 = num_strings w1 + 1"
    "live (chars w2) = insert (brk (chars w1)) (live (chars w1))"
    "\<forall>a. a \<noteq> brk (chars w1) \<longrightarrow> mem (chars w2) a = mem (chars w1) a" by (rule String_cstr_ok[OF p, of junk])
  have p: "world_ok w2" "NUL \<notin> set t3" "int (length t3) < INT_MAX" using assms wo[of w2] s1(6) s2(5,6) by auto
  obtain h3 w3 where s3: "String_cstr junk t3 w2 = Inr (h3, w3)" "str h3 = Some (brk (chars w2))" "str_ok h3 t3 w3"
    "len h3 = int (length t3)" "heap_ok (chars w3)" "num_strings w3 = num_strings w2 + 1"
    "live (chars w3) = insert (brk (chars w2)) (live (chars w2))"
    "\<forall>a. a \<noteq> brk (chars w2) \<longrightarrow> mem (chars w3) a = mem (chars w2) a" by (rule String_cstr_ok[OF p, of junk])
  have b1: "brk (chars w) \<noteq> brk (chars w1)" using brk_not_live[OF s1(5)] s1(7) by auto
  have nb: "brk (chars w2) \<noteq> brk (chars w)" "brk (chars w2) \<noteq> brk (chars w1)"
    using brk_not_live[OF s2(5)] s1(7) s2(7) by auto
  have k1: "str_ok h1 t1 w3"
    by (rule str_ok_frame[OF s1(3)]) (use s1(2) s2(8) b1 s3(8) nb(1) in auto)
  have k2: "str_ok h2 t2 w3"
    by (rule str_ok_frame[OF s2(3)]) (use s2(2) s3(8) nb(2) in auto)
  let ?w4 = "w3\<lparr>num_strings := num_strings w3 - 1, chars := (chars w3)\<lparr>mem := (mem (chars w3))(brk (chars w1) := Freed)\<rparr>\<rparr>"
  have "String_dtor (StringBad_copy h2) w3 = Inr ((t2, num_strings w3 - 1), ?w4)"
    by (rule String_dtor_ok) (use k2 s2(2) s3(6) s2(6) s1(6) assms(2) in \<open>auto simp: StringBad_copy_def str_ok_def INT_MAX_def\<close>)
  then have c2: "callme2 h2 w3 = Inr (t2, ?w4)"
    using text_of_ok[OF k2] by (simp add: callme2_def text_of_copy)
  have "text_of h2 ?w4 = Inl UseAfterFree" by (simp add: text_of_def s2(2) h_read_def)
  with s1(1) s2(1) s3(1) text_of_ok[OF k1] text_of_ok[OF k2] c2 show ?thesis
    by (simp add: vegnews_block_def callme1_def)
qed

theorem vegnews_use_after_free_witness:
  "vegnews_block (\<lambda>_. CHR ''?'') ''Celery'' ''Lettuce'' ''Spinach'' \<lparr>num_strings = 0, chars = heap_empty\<rparr> = Inl UseAfterFree"
  by (rule vegnews_use_after_free) (simp_all add: heap_ok_empty NUL_def INT_MAX_def)

end
