(* ===== verification/Recharge.thy ===== *)
theory Recharge
  imports Prelude
begin

text \<open>
  \<^verbatim>\<open>src/other/statistics/countoff.cpp\<close>: the least amount to pay in, from given denominations, after which the balance
  is used up exactly by whole months. The table \<^verbatim>\<open>dp\<close> of the code, coin numbers with \<^verbatim>\<open>INT_MAX - 1\<close> for amounts that
  cannot be paid, is filled by the same two loops here, with every access checked.
\<close>

definition UNREACHED :: int where
  "UNREACHED = INT_MAX - 1"

text \<open>The inner loop over the amounts that are left, for one coin.\<close>

fun coin_loop :: "int \<Rightarrow> int list \<Rightarrow> int list \<Rightarrow> int list result" where
  "coin_loop c [] dp = Inr dp"
| "coin_loop c (i # is) dp =
     rbind (arr_get dp (i - c)) (\<lambda>v.
       if v \<noteq> UNREACHED then
         rbind (arr_get dp i) (\<lambda>w.
         rbind (chk_int (v + 1)) (\<lambda>v1.
         rbind (arr_set dp i (min w v1)) (coin_loop c is)))
       else coin_loop c is dp)"

fun fill_table :: "int \<Rightarrow> int list \<Rightarrow> int list \<Rightarrow> int list result" where
  "fill_table m [] dp = Inr dp"
| "fill_table m (c # cs) dp = rbind (coin_loop c [c..m] dp) (fill_table m cs)"

definition initial_table :: "int \<Rightarrow> int list result" where
  "initial_table m = (if m + 1 < 0 then Inl LengthError else arr_set (replicate (nat (m + 1)) UNREACHED) 0 0)"

definition required_remainder :: "int \<Rightarrow> int \<Rightarrow> int result" where
  "required_remainder balance monthly =
     rbind (c_mod balance monthly) (\<lambda>r. rbind (chk_int (monthly - r)) (\<lambda>d. c_mod d monthly))"

text \<open>Whether an amount is reached and leaves the required remainder.\<close>

definition fits :: "int list \<Rightarrow> int \<Rightarrow> int \<Rightarrow> int \<Rightarrow> bool result" where
  "fits dp monthly rem a =
     rbind (arr_get dp a) (\<lambda>v. if v \<noteq> UNREACHED then rbind (c_mod a monthly) (\<lambda>r. Inr (r = rem)) else Inr False)"

fun search_min :: "int list \<Rightarrow> int \<Rightarrow> int \<Rightarrow> int list \<Rightarrow> int result" where
  "search_min dp monthly rem [] = Inr (- 1)"
| "search_min dp monthly rem (a # as) =
     rbind (fits dp monthly rem a) (\<lambda>ok. if ok then Inr a else search_min dp monthly rem as)"

fun search_all :: "int list \<Rightarrow> int \<Rightarrow> int \<Rightarrow> int list \<Rightarrow> int list result" where
  "search_all dp monthly rem [] = Inr []"
| "search_all dp monthly rem (a # as) =
     rbind (fits dp monthly rem a) (\<lambda>ok.
     rbind (search_all dp monthly rem as) (\<lambda>r. Inr (if ok then a # r else r)))"

text \<open>\<^verbatim>\<open>*max_element\<close> of an empty vector reads past its end.\<close>

definition max_element :: "int list \<Rightarrow> int result" where
  "max_element xs = (if xs = [] then Inl OutOfBounds else Inr (Max (set xs)))"

definition findMinRecharge :: "int \<Rightarrow> int \<Rightarrow> int list \<Rightarrow> int result" where
  "findMinRecharge balance monthly denominations =
     rbind (required_remainder balance monthly) (\<lambda>rem.
     rbind (max_element denominations) (\<lambda>mx.
     rbind (chk_int (mx * 20)) (\<lambda>m.
     rbind (chk_int (m + 1)) (\<lambda>_.
     rbind (initial_table m) (\<lambda>dp0.
     rbind (fill_table m denominations dp0) (\<lambda>dp.
     search_min dp monthly rem [0..m]))))))"

definition findAllValidRecharges :: "int \<Rightarrow> int \<Rightarrow> int list \<Rightarrow> int list result" where
  "findAllValidRecharges balance monthly denominations =
     rbind (required_remainder balance monthly) (\<lambda>rem.
     rbind (initial_table 4000) (\<lambda>dp0.
     rbind (fill_table 4000 denominations dp0) (\<lambda>dp.
     search_all dp monthly rem [0..4000])))"

section \<open>Payable amounts\<close>

definition payable :: "int set \<Rightarrow> int \<Rightarrow> bool" where
  "payable C a \<longleftrightarrow> (\<exists>xs. set xs \<subseteq> C \<and> sum_list xs = a)"

lemma payable_zero: "payable C 0"
  unfolding payable_def by (rule exI[of _ "[]"]) simp

lemma payable_empty: "payable {} a \<longleftrightarrow> a = 0"
  by (auto simp: payable_def)

lemma payable_add: "payable C a \<Longrightarrow> c \<in> C \<Longrightarrow> payable C (a + c)"
  unfolding payable_def by (elim exE, rule_tac x = "c # xs" in exI) auto

lemma payable_mono: "payable C a \<Longrightarrow> C \<subseteq> D \<Longrightarrow> payable D a"
  unfolding payable_def by blast

lemma sum_list_pos: "\<forall>x \<in> set xs. 0 < (x::int) \<Longrightarrow> 0 \<le> sum_list xs"
  by (induction xs) auto

lemma payable_insert:
  assumes "\<forall>x \<in> insert c C. 0 < x"
  shows "payable (insert c C) a \<longleftrightarrow> payable C a \<or> (c \<le> a \<and> payable (insert c C) (a - c))"
proof
  assume "payable (insert c C) a"
  then obtain xs where xs: "set xs \<subseteq> insert c C" "sum_list xs = a" by (auto simp: payable_def)
  show "payable C a \<or> (c \<le> a \<and> payable (insert c C) (a - c))"
  proof (cases "c \<in> set xs")
    case False
    then show ?thesis using xs by (auto simp: payable_def)
  next
    case True
    have s: "sum_list (remove1 c xs) = a - c" using sum_list_map_remove1[OF True, of "\<lambda>x. x"] xs(2) by simp
    have sub: "set (remove1 c xs) \<subseteq> insert c C" using xs(1) set_remove1_subset by fastforce
    then have "0 \<le> sum_list (remove1 c xs)" using assms by (intro sum_list_pos) blast
    with s sub show ?thesis by (auto simp: payable_def)
  qed
next
  assume "payable C a \<or> (c \<le> a \<and> payable (insert c C) (a - c))"
  then show "payable (insert c C) a"
    using payable_mono[of C a "insert c C"] payable_add[of "insert c C" "a - c" c] by auto
qed

text \<open>The table is right up to the limit \<open>m\<close> for the coins \<open>C\<close>; a reached amount \<open>a\<close> needs at most \<open>a\<close> coins, so it is
  never mistaken for an unreached one.\<close>

definition table_ok :: "int \<Rightarrow> int set \<Rightarrow> int list \<Rightarrow> bool" where
  "table_ok m C dp \<longleftrightarrow> length dp = nat (m + 1) \<and>
     (\<forall>a. 0 \<le> a \<and> a \<le> m \<longrightarrow>
        (dp ! nat a = UNREACHED \<and> \<not> payable C a \<or> 0 \<le> dp ! nat a \<and> dp ! nat a \<le> a \<and> payable C a))"

text \<open>In the middle of the inner loop: amounts below \<open>i\<close> are done for \<open>insert c C\<close>, the others still for \<open>C\<close>.\<close>

definition table_mid :: "int \<Rightarrow> int \<Rightarrow> int set \<Rightarrow> int \<Rightarrow> int list \<Rightarrow> bool" where
  "table_mid m c C i dp \<longleftrightarrow> length dp = nat (m + 1) \<and>
     (\<forall>a. 0 \<le> a \<and> a \<le> m \<longrightarrow>
        (dp ! nat a = UNREACHED \<and> \<not> payable (if a < i then insert c C else C) a \<or>
         0 \<le> dp ! nat a \<and> dp ! nat a \<le> a \<and> payable (if a < i then insert c C else C) a))"

lemma initial_table_ok: "0 \<le> m \<Longrightarrow> \<exists>dp. initial_table m = Inr dp \<and> table_ok m {} dp"
  by (auto simp: initial_table_def arr_set_def table_ok_def payable_empty nth_list_update)

lemma mid_start:
  assumes "table_ok m C dp" and "\<forall>x \<in> insert c C. 0 < x"
  shows "table_mid m c C c dp"
proof -
  have "payable (if a < c then insert c C else C) a \<longleftrightarrow> payable C a" for a
    using payable_insert[OF assms(2), of a] by auto
  with assms(1) show ?thesis by (simp add: table_mid_def table_ok_def)
qed

lemma mid_end: "table_mid m c C (m + 1) dp \<Longrightarrow> table_ok m (insert c C) dp"
  by (simp add: table_mid_def table_ok_def)

lemma mid_at:
  assumes "table_mid m c C i dp" and "0 \<le> a" and "a \<le> m"
  shows "dp ! nat a = UNREACHED \<and> \<not> payable (if a < i then insert c C else C) a \<or>
    0 \<le> dp ! nat a \<and> dp ! nat a \<le> a \<and> payable (if a < i then insert c C else C) a"
  using assms by (simp add: table_mid_def)

lemma mid_next:
  assumes mid: "table_mid m c C i dp" and len: "length dp' = length dp"
    and same: "\<And>a. 0 \<le> a \<Longrightarrow> a \<le> m \<Longrightarrow> a \<noteq> i \<Longrightarrow> dp' ! nat a = dp ! nat a"
    and here: "dp' ! nat i = UNREACHED \<and> \<not> payable (insert c C) i \<or>
      0 \<le> dp' ! nat i \<and> dp' ! nat i \<le> i \<and> payable (insert c C) i"
  shows "table_mid m c C (i + 1) dp'"
  unfolding table_mid_def
proof (intro conjI allI impI)
  show "length dp' = nat (m + 1)" using mid len by (simp add: table_mid_def)
  fix a assume a: "0 \<le> a \<and> a \<le> m"
  show "dp' ! nat a = UNREACHED \<and> \<not> payable (if a < i + 1 then insert c C else C) a \<or>
    0 \<le> dp' ! nat a \<and> dp' ! nat a \<le> a \<and> payable (if a < i + 1 then insert c C else C) a"
  proof (cases "a = i")
    case True
    then show ?thesis using here by simp
  next
    case False
    then have "a < i + 1 \<longleftrightarrow> a < i" by arith
    then show ?thesis using mid_at[OF mid, of a] same[of a] a False by simp
  qed
qed

lemma mid_step:
  assumes mid: "table_mid m c C i dp" and pos: "\<forall>x \<in> insert c C. 0 < x" and i: "c \<le> i" "i \<le> m"
    and m: "m < UNREACHED"
  shows "\<exists>dp'. coin_loop c (i # is) dp = coin_loop c is dp' \<and> table_mid m c C (i + 1) dp'"
proof -
  let ?v = "dp ! nat (i - c)" and ?w = "dp ! nat i"
  have len: "length dp = nat (m + 1)" using mid by (simp add: table_mid_def)
  have c: "0 < c" using pos by simp
  have g: "arr_get dp (i - c) = Inr ?v" "arr_get dp i = Inr ?w" using len i c by (simp_all add: arr_get_in)
  have P: "payable (insert c C) i \<longleftrightarrow> payable C i \<or> payable (insert c C) (i - c)"
    using payable_insert[OF pos, of i] i by simp
  have v: "?v = UNREACHED \<and> \<not> payable (insert c C) (i - c) \<or> 0 \<le> ?v \<and> ?v \<le> i - c \<and> payable (insert c C) (i - c)"
    using mid_at[OF mid, of "i - c"] i c by simp
  have w: "?w = UNREACHED \<and> \<not> payable C i \<or> 0 \<le> ?w \<and> ?w \<le> i \<and> payable C i"
    using mid_at[OF mid, of i] i c by simp
  show ?thesis
  proof (cases "?v = UNREACHED")
    case True
    then have "\<not> payable (insert c C) (i - c)" using v m i c by auto
    then have "payable (insert c C) i \<longleftrightarrow> payable C i" using P by simp
    then have "table_mid m c C (i + 1) dp" using w by (intro mid_next[OF mid]) simp_all
    with True g show ?thesis by auto
  next
    case False
    then have v': "0 \<le> ?v" "?v \<le> i - c" "payable (insert c C) i" using v P by auto
    have "chk_int (?v + 1) = Inr (?v + 1)" using v' m i c by (simp add: in_int_numerals UNREACHED_def INT_MAX_def)
    then have step: "coin_loop c (i # is) dp = coin_loop c is (dp[nat i := min ?w (?v + 1)])"
      using g False len i c by (simp add: arr_set_in)
    have "0 \<le> min ?w (?v + 1)" "min ?w (?v + 1) \<le> i" using v' w m c i by (auto simp: UNREACHED_def INT_MAX_def)
    then have "table_mid m c C (i + 1) (dp[nat i := min ?w (?v + 1)])"
      using v'(3) len i c by (intro mid_next[OF mid]) (auto simp: nth_list_update eq_nat_nat_iff)
    with step show ?thesis by blast
  qed
qed

lemma coin_loop_ok:
  assumes "table_mid m c C i dp" and "\<forall>x \<in> insert c C. 0 < x" and "c \<le> i" and "i \<le> m + 1" and "m < UNREACHED"
  shows "\<exists>dp'. coin_loop c [i..m] dp = Inr dp' \<and> table_ok m (insert c C) dp'"
  using assms(1,3,4)
proof (induction "nat (m + 1 - i)" arbitrary: i dp)
  case 0
  then show ?case using mid_end[of m c C dp] by auto
next
  case (Suc k)
  have im: "i \<le> m" using Suc.hyps(2) by simp
  have e: "[i..m] = i # [i + 1..m]" using im by (rule upto_rec1)
  obtain dp' where dp': "coin_loop c (i # [i + 1..m]) dp = coin_loop c [i + 1..m] dp'" "table_mid m c C (i + 1) dp'"
    using mid_step[OF Suc.prems(1) assms(2) Suc.prems(2) im assms(5), of "[i + 1..m]"] by blast
  have "\<exists>dp''. coin_loop c [i + 1..m] dp' = Inr dp'' \<and> table_ok m (insert c C) dp''"
    by (rule Suc.hyps(1)) (use Suc.hyps(2) Suc.prems(2) im dp'(2) in simp_all)
  then show ?case unfolding e dp'(1) .
qed

lemma coin_loop_skip: "m < c \<Longrightarrow> coin_loop c [c..m] dp = Inr dp"
  by simp

lemma table_ok_big:
  assumes "table_ok m C dp" and "m < c" and "\<forall>x \<in> insert c C. 0 < x"
  shows "table_ok m (insert c C) dp"
proof -
  have "payable (insert c C) a \<longleftrightarrow> payable C a" if "a \<le> m" for a
    using payable_insert[OF assms(3), of a] that assms(2) by auto
  with assms(1) show ?thesis by (simp add: table_ok_def)
qed

lemma fill_table_ok:
  assumes "table_ok m C dp" and "\<forall>x \<in> C \<union> set cs. 0 < x" and "m < UNREACHED"
  shows "\<exists>dp'. fill_table m cs dp = Inr dp' \<and> table_ok m (C \<union> set cs) dp'"
  using assms(1,2)
proof (induction cs arbitrary: C dp)
  case (Cons c cs)
  have pos: "\<forall>x \<in> insert c C. 0 < x" using Cons.prems(2) by auto
  have "\<exists>dp1. coin_loop c [c..m] dp = Inr dp1 \<and> table_ok m (insert c C) dp1"
  proof (cases "c \<le> m")
    case True
    then show ?thesis using coin_loop_ok[OF mid_start[OF Cons.prems(1) pos] pos] assms(3) by auto
  next
    case False
    then show ?thesis using table_ok_big[OF Cons.prems(1) _ pos] by auto
  qed
  then obtain dp1 where "coin_loop c [c..m] dp = Inr dp1" "table_ok m (insert c C) dp1" by blast
  with Cons.IH[of "insert c C" dp1] Cons.prems(2) show ?case by auto
qed simp

section \<open>The search\<close>

definition solves :: "int \<Rightarrow> int \<Rightarrow> int list \<Rightarrow> int \<Rightarrow> bool" where
  "solves balance monthly denominations a \<longleftrightarrow>
     payable (set denominations) a \<and> (balance + a) mod monthly = 0"

lemma remainder_ok:
  assumes "0 \<le> balance" and "in_int balance" and "0 < monthly" and "in_int monthly"
  shows "\<exists>rem. required_remainder balance monthly = Inr rem \<and>
    (\<forall>a. a mod monthly = rem \<longleftrightarrow> (balance + a) mod monthly = 0)"
proof -
  let ?r = "balance mod monthly"
  have r: "0 \<le> ?r" "?r < monthly" using assms(3) by simp_all
  have d: "0 \<le> monthly - ?r" "in_int (monthly - ?r)" using r assms(4) by (auto simp: in_int_numerals)
  have "required_remainder balance monthly = Inr ((monthly - ?r) mod monthly)"
    using c_mod_nonneg[OF assms(1,3,2)] c_mod_nonneg[OF d(1) assms(3) d(2)] d(2)
    by (simp add: required_remainder_def)
  moreover have "a mod monthly = (monthly - ?r) mod monthly \<longleftrightarrow> (balance + a) mod monthly = 0" for a
  proof -
    have e: "a - (monthly - ?r) = (a + ?r) - monthly" by simp
    have "a mod monthly = (monthly - ?r) mod monthly \<longleftrightarrow> monthly dvd (a + ?r) - monthly"
      unfolding mod_eq_dvd_iff e ..
    also have "\<dots> \<longleftrightarrow> monthly dvd a + ?r" by (rule dvd_diff_left_iff) simp
    also have "\<dots> \<longleftrightarrow> monthly dvd balance + a"
      by (metis add.commute mod_add_left_eq dvd_eq_mod_eq_0)
    finally show ?thesis by (simp add: dvd_eq_mod_eq_0)
  qed
  ultimately show ?thesis by blast
qed

lemma fits_ok:
  assumes "table_ok m (set ds) dp" and "0 \<le> a" and "a \<le> m" and "m < UNREACHED" and "0 < monthly"
    and "\<forall>x. x mod monthly = rem \<longleftrightarrow> (balance + x) mod monthly = 0"
  shows "fits dp monthly rem a = Inr (solves balance monthly ds a)"
proof -
  have "arr_get dp a = Inr (dp ! nat a)" using assms(1-3) by (simp add: arr_get_in table_ok_def)
  moreover have "c_mod a monthly = Inr (a mod monthly)"
    using assms(2-5) by (intro c_mod_nonneg) (auto simp: in_int_numerals UNREACHED_def INT_MAX_def)
  moreover have "dp ! nat a \<noteq> UNREACHED \<longleftrightarrow> payable (set ds) a"
    using assms(1-4) unfolding table_ok_def by auto
  ultimately show ?thesis using assms(6) by (simp add: fits_def solves_def)
qed

lemma search_ok:
  assumes "\<forall>a \<in> set as. fits dp monthly rem a = Inr (P a)"
  shows "search_min dp monthly rem as = Inr (case filter P as of [] \<Rightarrow> - 1 | a # _ \<Rightarrow> a)"
    "search_all dp monthly rem as = Inr (filter P as)"
  using assms by (induction as) auto

lemma first_of_filter:
  assumes "filter P [0..m] = a # as"
  shows "0 \<le> a \<and> a \<le> m \<and> P a \<and> (\<forall>b. 0 \<le> b \<and> b < a \<longrightarrow> \<not> P b)"
proof -
  have a: "a \<in> set (filter P [0..m])" using assms by simp
  have "sorted (filter P [0..m])" by (simp add: sorted_wrt_filter)
  then have "\<forall>b \<in> set (filter P [0..m]). a \<le> b" using assms by auto
  with a show ?thesis by fastforce
qed

section \<open>Properties\<close>

text \<open>\<^verbatim>\<open>findMinRecharge\<close> is right: for a balance that is not negative, a positive monthly amount and positive
  denominations it returns, without leaving the table or overflowing, the least payable amount up to twenty
  times the largest denomination after which the balance is a multiple of the monthly amount, and - 1 when
  there is none.\<close>

theorem findMinRecharge_least:
  assumes "0 \<le> balance" and "in_int balance" and "0 < monthly" and "in_int monthly"
    and "ds \<noteq> []" and "\<forall>d \<in> set ds. 0 < d" and "20 * Max (set ds) < INT_MAX - 1"
  shows "\<exists>r. findMinRecharge balance monthly ds = Inr r \<and>
     (r = - 1 \<and> (\<forall>a. 0 \<le> a \<and> a \<le> 20 * Max (set ds) \<longrightarrow> \<not> solves balance monthly ds a) \<or>
      0 \<le> r \<and> solves balance monthly ds r \<and> (\<forall>a. 0 \<le> a \<and> a < r \<longrightarrow> \<not> solves balance monthly ds a))"
proof -
  let ?m = "Max (set ds) * 20"
  have mx: "0 < Max (set ds)" using assms(5,6) by simp
  have m: "0 \<le> ?m" "?m < UNREACHED" "in_int ?m" "in_int (?m + 1)"
    using mx assms(7) by (auto simp: UNREACHED_def in_int_numerals INT_MAX_def)
  from remainder_ok[OF assms(1-4)] obtain rem where rem: "required_remainder balance monthly = Inr rem"
    "\<forall>a. a mod monthly = rem \<longleftrightarrow> (balance + a) mod monthly = 0" by blast
  from initial_table_ok[OF m(1)] obtain dp0 where dp0: "initial_table ?m = Inr dp0" "table_ok ?m {} dp0" by blast
  from fill_table_ok[OF dp0(2) _ m(2), of ds] assms(6) obtain dp where
    dp: "fill_table ?m ds dp0 = Inr dp" "table_ok ?m (set ds) dp" by auto
  have "\<forall>a \<in> set [0..?m]. fits dp monthly rem a = Inr (solves balance monthly ds a)"
    using fits_ok[OF dp(2) _ _ m(2) assms(3) rem(2)] by simp
  note se = search_ok(1)[OF this]
  have f: "findMinRecharge balance monthly ds =
      Inr (case filter (solves balance monthly ds) [0..?m] of [] \<Rightarrow> - 1 | a # _ \<Rightarrow> a)"
    using rem(1) assms(5) m(3,4) dp0(1) dp(1) se by (simp add: findMinRecharge_def max_element_def)
  show ?thesis
  proof (cases "filter (solves balance monthly ds) [0..?m]")
    case Nil
    then have "\<forall>a. 0 \<le> a \<and> a \<le> 20 * Max (set ds) \<longrightarrow> \<not> solves balance monthly ds a"
      by (auto simp: filter_empty_conv)
    with f Nil show ?thesis by simp
  next
    case (Cons a as)
    with f first_of_filter[OF Cons] show ?thesis by simp
  qed
qed

theorem findMinRecharge_least_witness:
  "\<exists>r. findMinRecharge 2 19 [20, 50, 100, 200] = Inr r \<and>
     (r = - 1 \<and> (\<forall>a. 0 \<le> a \<and> a \<le> 20 * Max (set [20, 50, 100, 200]) \<longrightarrow> \<not> solves 2 19 [20, 50, 100, 200] a) \<or>
      0 \<le> r \<and> solves 2 19 [20, 50, 100, 200] r \<and> (\<forall>a. 0 \<le> a \<and> a < r \<longrightarrow> \<not> solves 2 19 [20, 50, 100, 200] a))"
  by (rule findMinRecharge_least) (simp_all add: in_int_numerals INT_MAX_def)

text \<open>\<^verbatim>\<open>findAllValidRecharges\<close> lists exactly the payable amounts up to 4000 that use up the balance, in
  increasing order.\<close>

theorem findAllValidRecharges_exact:
  assumes "0 \<le> balance" and "in_int balance" and "0 < monthly" and "in_int monthly" and "\<forall>d \<in> set ds. 0 < d"
  shows "findAllValidRecharges balance monthly ds = Inr (filter (solves balance monthly ds) [0..4000])"
proof -
  have m: "(0::int) \<le> 4000" "4000 < UNREACHED" by (simp_all add: UNREACHED_def INT_MAX_def)
  from remainder_ok[OF assms(1-4)] obtain rem where rem: "required_remainder balance monthly = Inr rem"
    "\<forall>a. a mod monthly = rem \<longleftrightarrow> (balance + a) mod monthly = 0" by blast
  from initial_table_ok[OF m(1)] obtain dp0 where dp0: "initial_table 4000 = Inr dp0" "table_ok 4000 {} dp0" by blast
  from fill_table_ok[OF dp0(2) _ m(2), of ds] assms(5) obtain dp where
    dp: "fill_table 4000 ds dp0 = Inr dp" "table_ok 4000 (set ds) dp" by auto
  have "\<forall>a \<in> set [0..4000]. fits dp monthly rem a = Inr (solves balance monthly ds a)"
    using fits_ok[OF dp(2) _ _ m(2) assms(3) rem(2)] by simp
  from search_ok(2)[OF this] rem(1) dp0(1) dp(1) show ?thesis
    by (simp add: findAllValidRecharges_def del: upto_rec_numeral)
qed

theorem findAllValidRecharges_exact_witness:
  "findAllValidRecharges 2 19 [20, 50, 100, 200] = Inr (filter (solves 2 19 [20, 50, 100, 200]) [0..4000])"
  by (rule findAllValidRecharges_exact) (simp_all add: in_int_numerals)

end
