(* ===== verification/Delivery_Cli.thy ===== *)
theory Delivery_Cli
  imports Decimal
begin

text \<open>
  \<^verbatim>\<open>class CLIParser\<close> of \<^verbatim>\<open>src/other/pubsub/dds/delivery_mechanisms/include/CLIParser.hpp\<close>. Printing the help ends the
  program, so a parser result is an exit code or a configuration; the texts of the help and log messages are
  left out. The options are read in order, each with the arguments it consumes.
\<close>

datatype EntityKind = PUBLISHER | SUBSCRIBER | PUBSUB | UNDEFINED

datatype DeliveryMechanismKind =
  DATA_SHARING | INTRA_PROCESS | LARGE_DATA | SHM | TCPv4 | TCPv6 | UDPv4 | UDPv6 | DEFAULT

record delivery_mechanisms_config =
  entity :: EntityKind
  ignore_local_endpoints :: bool
  samples :: int
  domain :: int
  delivery_mechanism :: DeliveryMechanismKind
  tcp_ip_address :: string

definition default_config :: delivery_mechanisms_config where
  "default_config = \<lparr>entity = UNDEFINED, ignore_local_endpoints = False, samples = 0, domain = 0,
     delivery_mechanism = DEFAULT, tcp_ip_address = []\<rparr>"

text \<open>\<^verbatim>\<open>EXIT_FAILURE\<close> is 1, \<^verbatim>\<open>EXIT_SUCCESS\<close> is 0.\<close>

definition print_help :: "nat \<Rightarrow> nat + 'a" where
  "print_help return_code = Inl return_code"

definition is_help :: "string \<Rightarrow> bool" where
  "is_help a \<longleftrightarrow> a = ''-h'' \<or> a = ''--help''"

definition parse_entity :: "string \<Rightarrow> nat + EntityKind" where
  "parse_entity first_argument =
     (if first_argument = ''publisher'' then Inr PUBLISHER
      else if first_argument = ''subscriber'' then Inr SUBSCRIBER
      else if first_argument = ''pubsub'' then Inr PUBSUB
      else if is_help first_argument then print_help 0
      else print_help 1)"

text \<open>A chain of comparisons of one string.\<close>

definition one_of :: "string \<Rightarrow> string list \<Rightarrow> bool" where
  "one_of a names \<longleftrightarrow> a \<in> set names"

definition parse_domain :: "string \<Rightarrow> delivery_mechanisms_config \<Rightarrow> nat + delivery_mechanisms_config" where
  "parse_domain v cfg = (case stoi v of
     Inl InvalidArgument \<Rightarrow> print_help 1
   | Inl OutOfRange \<Rightarrow> print_help 1
   | Inr input \<Rightarrow> if input < 0 \<or> input > 232 then print_help 1 else Inr (cfg\<lparr>domain := input\<rparr>))"

definition parse_samples :: "string \<Rightarrow> delivery_mechanisms_config \<Rightarrow> nat + delivery_mechanisms_config" where
  "parse_samples v cfg = (case stoi v of
     Inl InvalidArgument \<Rightarrow> print_help 1
   | Inl OutOfRange \<Rightarrow> print_help 1
   | Inr input \<Rightarrow> if input < 0 \<or> input > 65535 then print_help 1 else Inr (cfg\<lparr>samples := input\<rparr>))"

definition parse_mechanism :: "string \<Rightarrow> delivery_mechanisms_config \<Rightarrow> nat + delivery_mechanisms_config" where
  "parse_mechanism v cfg =
     (if one_of v [''DATA-SHARING'', ''data-sharing'', ''DATA_SHARING'', ''data_sharing'']
        then Inr (cfg\<lparr>delivery_mechanism := DATA_SHARING\<rparr>)
      else if one_of v [''INTRA-PROCESS'', ''intra-process'', ''INTRA_PROCESS'', ''intra_process'']
        then if entity cfg = PUBSUB then Inr (cfg\<lparr>delivery_mechanism := INTRA_PROCESS\<rparr>) else print_help 1
      else if one_of v [''LARGE-DATA'', ''large-data'', ''LARGE_DATA'', ''large_data'']
        then Inr (cfg\<lparr>delivery_mechanism := LARGE_DATA\<rparr>)
      else if one_of v [''TCP'', ''tcp'', ''TCPv4'', ''tcpv4'', ''TCPV4''] then Inr (cfg\<lparr>delivery_mechanism := TCPv4\<rparr>)
      else if one_of v [''TCPv6'', ''tcpv6'', ''TCPV6''] then Inr (cfg\<lparr>delivery_mechanism := TCPv6\<rparr>)
      else if one_of v [''UDP'', ''udp'', ''UDPv4'', ''udpv4'', ''UDPV4''] then Inr (cfg\<lparr>delivery_mechanism := UDPv4\<rparr>)
      else if one_of v [''UDPv6'', ''udpv6'', ''UDPV6''] then Inr (cfg\<lparr>delivery_mechanism := UDPv6\<rparr>)
      else if one_of v [''SHM'', ''shm''] then Inr (cfg\<lparr>delivery_mechanism := SHM\<rparr>)
      else print_help 1)"

text \<open>The loop over \<^verbatim>\<open>argv[2]\<close> and what follows.\<close>

fun parse_options :: "string list \<Rightarrow> delivery_mechanisms_config \<Rightarrow> nat + delivery_mechanisms_config" where
  "parse_options [] cfg = Inr cfg"
| "parse_options (arg # rest) cfg =
     (if is_help arg then print_help 0
      else if one_of arg [''-a'', ''--address''] then
        (case rest of [] \<Rightarrow> print_help 1 | v # rest' \<Rightarrow> parse_options rest' (cfg\<lparr>tcp_ip_address := v\<rparr>))
      else if one_of arg [''-d'', ''--domain''] then
        (case rest of [] \<Rightarrow> print_help 1
         | v # rest' \<Rightarrow> (case parse_domain v cfg of Inl e \<Rightarrow> Inl e | Inr cfg' \<Rightarrow> parse_options rest' cfg'))
      else if one_of arg [''-s'', ''--samples''] then
        (case rest of [] \<Rightarrow> print_help 1
         | v # rest' \<Rightarrow> (case parse_samples v cfg of Inl e \<Rightarrow> Inl e | Inr cfg' \<Rightarrow> parse_options rest' cfg'))
      else if one_of arg [''-m'', ''--mechanism''] then
        (case rest of [] \<Rightarrow> print_help 1
         | v # rest' \<Rightarrow> (case parse_mechanism v cfg of Inl e \<Rightarrow> Inl e | Inr cfg' \<Rightarrow> parse_options rest' cfg'))
      else if one_of arg [''-i'', ''--ignore-local-endpoints''] then
        (if entity cfg = PUBSUB then parse_options rest (cfg\<lparr>ignore_local_endpoints := True\<rparr>) else print_help 1)
      else print_help 1)"

definition is_tcp :: "DeliveryMechanismKind \<Rightarrow> bool" where
  "is_tcp m \<longleftrightarrow> m = TCPv4 \<or> m = TCPv6"

text \<open>The two checks after the loop.\<close>

definition check_config :: "delivery_mechanisms_config \<Rightarrow> nat + delivery_mechanisms_config" where
  "check_config cfg =
     (if entity cfg = PUBSUB \<and> \<not> ignore_local_endpoints cfg \<and> is_tcp (delivery_mechanism cfg) then print_help 1
      else if tcp_ip_address cfg \<noteq> [] \<and> \<not> is_tcp (delivery_mechanism cfg) then print_help 1
      else Inr cfg)"

definition parse_cli_options :: "string list \<Rightarrow> nat + delivery_mechanisms_config" where
  "parse_cli_options argv =
     (if length argv < 2 then print_help 1
      else case parse_entity (argv ! 1) of
        Inl e \<Rightarrow> Inl e
      | Inr k \<Rightarrow> (case parse_options (drop 2 argv) (default_config\<lparr>entity := k\<rparr>) of
          Inl e \<Rightarrow> Inl e
        | Inr cfg \<Rightarrow> check_config cfg))"

definition parse_entity_kind :: "EntityKind \<Rightarrow> string" where
  "parse_entity_kind k = (case k of PUBLISHER \<Rightarrow> ''Publisher'' | SUBSCRIBER \<Rightarrow> ''Subscriber'' | PUBSUB \<Rightarrow> ''PubSub''
     | UNDEFINED \<Rightarrow> ''Undefined entity'')"

definition parse_signal :: "int \<Rightarrow> string" where
  "parse_signal signum = (if signum = 2 then ''SIGINT'' else if signum = 15 then ''SIGTERM''
     else if signum = 3 then ''SIGQUIT'' else if signum = 1 then ''SIGHUP'' else ''UNKNOWN SIGNAL'')"

section \<open>The configurations that are accepted\<close>

definition options_valid :: "delivery_mechanisms_config \<Rightarrow> bool" where
  "options_valid cfg \<longleftrightarrow> entity cfg \<noteq> UNDEFINED \<and> 0 \<le> domain cfg \<and> domain cfg \<le> 232 \<and> 0 \<le> samples cfg \<and> samples cfg \<le> 65535 \<and>
     (delivery_mechanism cfg = INTRA_PROCESS \<longrightarrow> entity cfg = PUBSUB) \<and> (ignore_local_endpoints cfg \<longrightarrow> entity cfg = PUBSUB)"

definition config_valid :: "delivery_mechanisms_config \<Rightarrow> bool" where
  "config_valid cfg \<longleftrightarrow> options_valid cfg \<and>
     (entity cfg = PUBSUB \<and> is_tcp (delivery_mechanism cfg) \<longrightarrow> ignore_local_endpoints cfg) \<and>
     (tcp_ip_address cfg \<noteq> [] \<longrightarrow> is_tcp (delivery_mechanism cfg))"

lemma options_valid_defaults: "k \<noteq> UNDEFINED \<Longrightarrow> options_valid (default_config\<lparr>entity := k\<rparr>)"
  by (simp add: options_valid_def default_config_def)

lemma parse_domain_valid: "options_valid cfg \<Longrightarrow> parse_domain v cfg = Inr cfg' \<Longrightarrow> options_valid cfg'"
  by (auto simp: parse_domain_def print_help_def options_valid_def split: sum.splits parse_error.splits if_splits)

lemma parse_samples_valid: "options_valid cfg \<Longrightarrow> parse_samples v cfg = Inr cfg' \<Longrightarrow> options_valid cfg'"
  by (auto simp: parse_samples_def print_help_def options_valid_def split: sum.splits parse_error.splits if_splits)

lemma parse_mechanism_update:
  "parse_mechanism v cfg = Inr cfg' \<Longrightarrow>
   \<exists>m. cfg' = cfg\<lparr>delivery_mechanism := m\<rparr> \<and> (m = INTRA_PROCESS \<longrightarrow> entity cfg = PUBSUB)"
  unfolding parse_mechanism_def print_help_def by (auto split: if_split_asm)

lemma parse_mechanism_valid: "options_valid cfg \<Longrightarrow> parse_mechanism v cfg = Inr cfg' \<Longrightarrow> options_valid cfg'"
  by (drule parse_mechanism_update) (auto simp: options_valid_def)

lemma parse_entity_defined: "parse_entity a = Inr k \<Longrightarrow> k \<noteq> UNDEFINED"
  by (auto simp: parse_entity_def print_help_def split: if_splits)

text \<open>The options one step further: what is left is parsed from a configuration that is still sound.\<close>

lemma parse_step:
  assumes p: "parse_options (arg # rest) cfg = Inr cfg'" and v: "options_valid cfg"
  shows "\<exists>n c. parse_options (drop n rest) c = Inr cfg' \<and> options_valid c"
proof -
  have a: "options_valid (cfg\<lparr>tcp_ip_address := x\<rparr>)" for x using v by (simp add: options_valid_def)
  have i: "entity cfg = PUBSUB \<Longrightarrow> options_valid (cfg\<lparr>ignore_local_endpoints := True\<rparr>)"
    using v by (simp add: options_valid_def)
  have tl: "parse_options xs c = Inr cfg' \<Longrightarrow> rest = x # xs \<Longrightarrow> options_valid c \<Longrightarrow> ?thesis" for x xs c
    by (rule exI[of _ 1]) (auto simp del: parse_options.simps)
  have all: "parse_options rest c = Inr cfg' \<Longrightarrow> options_valid c \<Longrightarrow> ?thesis" for c
    by (rule exI[of _ 0]) auto
  let ?A = "one_of arg [''-a'', ''--address'']" and ?D = "one_of arg [''-d'', ''--domain'']"
    and ?S = "one_of arg [''-s'', ''--samples'']" and ?M = "one_of arg [''-m'', ''--mechanism'']"
  note q = p[unfolded parse_options.simps print_help_def]
  have nh: "\<not> is_help arg" using q by (cases "is_help arg") simp_all
  consider "?A" | "\<not> ?A" "?D" | "\<not> ?A" "\<not> ?D" "?S" | "\<not> ?A" "\<not> ?D" "\<not> ?S" "?M" | "\<not> ?A" "\<not> ?D" "\<not> ?S" "\<not> ?M"
    by blast
  then show ?thesis
  proof cases
    case 1
    with q nh obtain x xs where "rest = x # xs" "parse_options xs (cfg\<lparr>tcp_ip_address := x\<rparr>) = Inr cfg'"
      by (cases rest) simp_all
    then show ?thesis using tl a by blast
  next
    case 2
    with q nh obtain x xs c where "rest = x # xs" "parse_domain x cfg = Inr c" "parse_options xs c = Inr cfg'"
      by (cases rest) (simp_all split: sum.split_asm)
    then show ?thesis using tl parse_domain_valid[OF v] by blast
  next
    case 3
    with q nh obtain x xs c where "rest = x # xs" "parse_samples x cfg = Inr c" "parse_options xs c = Inr cfg'"
      by (cases rest) (simp_all split: sum.split_asm)
    then show ?thesis using tl parse_samples_valid[OF v] by blast
  next
    case 4
    with q nh obtain x xs c where "rest = x # xs" "parse_mechanism x cfg = Inr c" "parse_options xs c = Inr cfg'"
      by (cases rest) (simp_all split: sum.split_asm)
    then show ?thesis using tl parse_mechanism_valid[OF v] by blast
  next
    case 5
    with q nh have "entity cfg = PUBSUB" "parse_options rest (cfg\<lparr>ignore_local_endpoints := True\<rparr>) = Inr cfg'"
      by (simp_all split: if_split_asm)
    then show ?thesis using all i by blast
  qed
qed

lemma parse_options_valid:
  "parse_options args cfg = Inr cfg' \<Longrightarrow> options_valid cfg \<Longrightarrow> options_valid cfg'"
proof (induction "length args" arbitrary: args cfg rule: less_induct)
  case less
  show ?case
  proof (cases args)
    case Nil
    then show ?thesis using less.prems by simp
  next
    case (Cons arg rest)
    with parse_step[of arg rest cfg cfg'] less.prems obtain n c where
      "parse_options (drop n rest) c = Inr cfg'" "options_valid c" by blast
    with less.hyps[of "drop n rest" c] Cons show ?thesis by simp
  qed
qed

lemma parse_valid:
  assumes "parse_cli_options argv = Inr cfg"
  shows "config_valid cfg"
proof -
  from assms obtain k cfg0 where k: "parse_entity (argv ! 1) = Inr k"
    "parse_options (drop 2 argv) (default_config\<lparr>entity := k\<rparr>) = Inr cfg0" "check_config cfg0 = Inr cfg"
    by (auto simp: parse_cli_options_def print_help_def split: if_splits sum.splits)
  have "options_valid cfg0"
    using parse_options_valid[OF k(2)] options_valid_defaults parse_entity_defined[OF k(1)] by blast
  with k(3) show ?thesis by (auto simp: check_config_def print_help_def config_valid_def split: if_splits)
qed

section \<open>A command line for every configuration\<close>

definition show_entity :: "EntityKind \<Rightarrow> string" where
  "show_entity k = (case k of PUBLISHER \<Rightarrow> ''publisher'' | SUBSCRIBER \<Rightarrow> ''subscriber'' | PUBSUB \<Rightarrow> ''pubsub''
     | UNDEFINED \<Rightarrow> [])"

definition show_mechanism :: "DeliveryMechanismKind \<Rightarrow> string list" where
  "show_mechanism m = (case m of DATA_SHARING \<Rightarrow> [''-m'', ''data-sharing''] | INTRA_PROCESS \<Rightarrow> [''-m'', ''intra-process'']
     | LARGE_DATA \<Rightarrow> [''-m'', ''large-data''] | SHM \<Rightarrow> [''-m'', ''shm''] | TCPv4 \<Rightarrow> [''-m'', ''tcpv4'']
     | TCPv6 \<Rightarrow> [''-m'', ''tcpv6''] | UDPv4 \<Rightarrow> [''-m'', ''udpv4''] | UDPv6 \<Rightarrow> [''-m'', ''udpv6''] | DEFAULT \<Rightarrow> [])"

definition show_config :: "delivery_mechanisms_config \<Rightarrow> string list" where
  "show_config cfg = show_entity (entity cfg) # ''-d'' # show_int (domain cfg) # ''-s'' # show_int (samples cfg) #
     (if ignore_local_endpoints cfg then [''-i''] else []) @ show_mechanism (delivery_mechanism cfg) @
     (if tcp_ip_address cfg = [] then [] else [''-a'', tcp_ip_address cfg])"

lemma parse_show_domain: "0 \<le> d \<Longrightarrow> d \<le> 232 \<Longrightarrow> parse_domain (show_int d) cfg = Inr (cfg\<lparr>domain := d\<rparr>)"
  by (simp add: parse_domain_def stoi_show in_int_numerals)

lemma parse_show_samples: "0 \<le> d \<Longrightarrow> d \<le> 65535 \<Longrightarrow> parse_samples (show_int d) cfg = Inr (cfg\<lparr>samples := d\<rparr>)"
  by (simp add: parse_samples_def stoi_show in_int_numerals)

lemma parse_show_address:
  "parse_options (if a = [] then [] else [''-a'', a]) cfg = Inr (if a = [] then cfg else cfg\<lparr>tcp_ip_address := a\<rparr>)"
  by (simp add: is_help_def one_of_def)

lemma parse_show_mechanism:
  assumes "m = INTRA_PROCESS \<longrightarrow> entity cfg = PUBSUB" and "delivery_mechanism cfg = DEFAULT"
  shows "parse_options (show_mechanism m @ rest) cfg = parse_options rest (cfg\<lparr>delivery_mechanism := m\<rparr>)"
proof (cases "m = DEFAULT")
  case True
  have "cfg\<lparr>delivery_mechanism := DEFAULT\<rparr> = cfg" using assms(2) by (cases cfg) simp
  then show ?thesis using True by (simp add: show_mechanism_def)
next
  case False
  then show ?thesis using assms(1) by (cases m) (simp_all add: show_mechanism_def parse_mechanism_def is_help_def one_of_def)
qed

lemma parse_show:
  assumes "config_valid cfg"
  shows "parse_cli_options (prog # show_config cfg) = Inr cfg"
proof -
  let ?k = "entity cfg"
  have v: "options_valid cfg" using assms by (simp add: config_valid_def)
  then have r: "0 \<le> domain cfg" "domain cfg \<le> 232" "0 \<le> samples cfg" "samples cfg \<le> 65535"
    "delivery_mechanism cfg = INTRA_PROCESS \<longrightarrow> ?k = PUBSUB" "ignore_local_endpoints cfg \<longrightarrow> ?k = PUBSUB" "?k \<noteq> UNDEFINED"
    by (simp_all add: options_valid_def)
  have e: "parse_entity (show_entity ?k) = Inr ?k"
    using r(7) by (cases ?k) (simp_all add: parse_entity_def show_entity_def)
  let ?c = "default_config\<lparr>entity := ?k, domain := domain cfg, samples := samples cfg\<rparr>"
  let ?ci = "?c\<lparr>ignore_local_endpoints := ignore_local_endpoints cfg\<rparr>"
  let ?cm = "?ci\<lparr>delivery_mechanism := delivery_mechanism cfg\<rparr>"
  let ?addr = "if tcp_ip_address cfg = [] then [] else [''-a'', tcp_ip_address cfg]"
  have "parse_options (drop 1 (show_config cfg)) (default_config\<lparr>entity := ?k\<rparr>) =
      parse_options ((if ignore_local_endpoints cfg then [''-i''] else []) @ show_mechanism (delivery_mechanism cfg) @ ?addr) ?c"
    using r(1-4) by (simp add: show_config_def is_help_def one_of_def parse_show_domain parse_show_samples)
  also have "\<dots> = parse_options (show_mechanism (delivery_mechanism cfg) @ ?addr) ?ci"
    using r(6) by (simp add: is_help_def one_of_def default_config_def)
  also have "\<dots> = parse_options ?addr ?cm"
    using r(5) by (intro parse_show_mechanism) (simp_all add: default_config_def)
  also have "\<dots> = Inr cfg"
    unfolding parse_show_address by (simp add: default_config_def)
  finally have "parse_options (drop 1 (show_config cfg)) (default_config\<lparr>entity := ?k\<rparr>) = Inr cfg" .
  moreover have "check_config cfg = Inr cfg"
    using assms by (auto simp: check_config_def config_valid_def)
  moreover have "length (show_config cfg) \<noteq> 0" "show_config cfg ! 0 = show_entity ?k" by (simp_all add: show_config_def)
  ultimately show ?thesis using e by (simp add: parse_cli_options_def)
qed

section \<open>Property\<close>

text \<open>C35: The parser accepts exactly the sound configurations: whatever it accepts has a domain and a sample count in
  range, intra-process delivery and ignored local endpoints only for \<^verbatim>\<open>pubsub\<close>, TCP for \<^verbatim>\<open>pubsub\<close> only with ignored
  local endpoints and an address only with TCP; and each such configuration is read back exactly from its
  command line.\<close>

theorem delivery_cli_exact:
  "(parse_cli_options argv = Inr cfg \<longrightarrow> config_valid cfg) \<and>
   (config_valid cfg \<longrightarrow> parse_cli_options (prog # show_config cfg) = Inr cfg)"
  using parse_valid parse_show by blast

definition cli_demo :: delivery_mechanisms_config where
  "cli_demo = \<lparr>entity = PUBLISHER, ignore_local_endpoints = False, samples = 10, domain = 7,
     delivery_mechanism = TCPv4, tcp_ip_address = ''10.0.0.2''\<rparr>"

theorem delivery_cli_exact_witness:
  "parse_cli_options (''dm'' # show_config cli_demo) = Inr cli_demo"
  by (rule mp[OF conjunct2[OF delivery_cli_exact]])
    (simp add: config_valid_def options_valid_def cli_demo_def is_tcp_def)

end
