(* ===== verification/Delivery_Setup.thy ===== *)
theory Delivery_Setup
  imports Delivery_Cli
begin

text \<open>
  What the three applications of \<^verbatim>\<open>src/other/pubsub/dds/delivery_mechanisms\<close> ask of DDS before they create their
  entities: the transports and locators of the participant and the quality of service of the endpoints, as
  functions of the configuration. Values that come from the DDS library are parameters (\<open>dds_defaults\<close>), as
  is which of the creation calls fail. Names and settings that do not depend on the configuration are left
  out.
\<close>

datatype address_kind = IPv4 | IPv6

record locator =
  loc_kind :: address_kind
  loc_ip :: string
  loc_port :: int

datatype transport =
    SharedMem "32 word"
  | TCP address_kind "string option" "int list" bool
  | UDP address_kind

record participant_setup =
  use_builtin :: bool
  large_data :: bool
  intraprocess :: bool
  user_transports :: "transport list"
  lease_infinite :: bool
  metatraffic_unicast :: "locator list"
  default_unicast :: "locator list"
  initial_peers :: "locator list"
  ignore_local :: bool

record endpoint_qos =
  history_depth :: int
  max_samples_per_instance :: int
  max_samples :: int
  data_sharing :: bool

record dds_defaults =
  max_message :: "32 word"
  default_samples :: "32 word"
  max_instances :: "32 word"

definition no_setup :: participant_setup where
  "no_setup = \<lparr>use_builtin = False, large_data = False, intraprocess = False, user_transports = [], lease_infinite = False,
     metatraffic_unicast = [], default_unicast = [], initial_peers = [], ignore_local = False\<rparr>"

definition samples_limit :: "dds_defaults \<Rightarrow> delivery_mechanisms_config \<Rightarrow> 32 word" where
  "samples_limit d cfg = (let m = word_of_int (samples cfg) in if m = 0 then default_samples d else m)"

definition tcp_address :: "string \<Rightarrow> delivery_mechanisms_config \<Rightarrow> string" where
  "tcp_address dflt cfg = (if tcp_ip_address cfg \<noteq> [] then tcp_ip_address cfg else dflt)"

definition tcp_locator :: "address_kind \<Rightarrow> delivery_mechanisms_config \<Rightarrow> locator" where
  "tcp_locator k cfg = \<lparr>loc_kind = k, loc_ip = tcp_address (case k of IPv4 \<Rightarrow> ''127.0.0.1'' | IPv6 \<Rightarrow> ''::1'') cfg,
     loc_port = 5100\<rparr>"

text \<open>The listening side of TCP; only the version 4 branch sets a WAN address. Its last argument says that the buffer
  sizes are set to zero.\<close>

definition tcp_listener :: "address_kind \<Rightarrow> delivery_mechanisms_config \<Rightarrow> participant_setup \<Rightarrow> participant_setup" where
  "tcp_listener k cfg p =
     (let l = tcp_locator k cfg
      in p\<lparr>lease_infinite := True, metatraffic_unicast := metatraffic_unicast p @ [l],
           default_unicast := default_unicast p @ [l],
           user_transports := user_transports p @
             [TCP k (case k of IPv4 \<Rightarrow> Some (loc_ip l) | IPv6 \<Rightarrow> None) [5100] True]\<rparr>)"

definition tcp_peer :: "address_kind \<Rightarrow> delivery_mechanisms_config \<Rightarrow> participant_setup \<Rightarrow> participant_setup" where
  "tcp_peer k cfg p = p\<lparr>initial_peers := initial_peers p @ [tcp_locator k cfg]\<rparr>"

text \<open>The branches of the switch that the three classes share; \<open>tcp\<close> is what the class does for TCP.\<close>

definition choose_transport ::
  "dds_defaults \<Rightarrow> (address_kind \<Rightarrow> delivery_mechanisms_config \<Rightarrow> participant_setup \<Rightarrow> participant_setup) \<Rightarrow>
   delivery_mechanisms_config \<Rightarrow> participant_setup \<Rightarrow> participant_setup" where
  "choose_transport d tcp cfg p = (case delivery_mechanism cfg of
     INTRA_PROCESS \<Rightarrow> p\<lparr>use_builtin := True, intraprocess := True\<rparr>
   | SHM \<Rightarrow> p\<lparr>user_transports := user_transports p @ [SharedMem (max_message d * samples_limit d cfg)]\<rparr>
   | DATA_SHARING \<Rightarrow> p\<lparr>user_transports := user_transports p @ [SharedMem (max_message d * samples_limit d cfg)]\<rparr>
   | LARGE_DATA \<Rightarrow> p\<lparr>use_builtin := True, large_data := True\<rparr>
   | TCPv4 \<Rightarrow> tcp IPv4 cfg p
   | TCPv6 \<Rightarrow> tcp IPv6 cfg p
   | UDPv4 \<Rightarrow> p\<lparr>user_transports := user_transports p @ [UDP IPv4]\<rparr>
   | UDPv6 \<Rightarrow> p\<lparr>user_transports := user_transports p @ [UDP IPv6]\<rparr>
   | DEFAULT \<Rightarrow> p\<lparr>use_builtin := True\<rparr>)"

definition publisher_setup :: "dds_defaults \<Rightarrow> delivery_mechanisms_config \<Rightarrow> participant_setup" where
  "publisher_setup d cfg = choose_transport d tcp_listener cfg no_setup"

text \<open>The subscriber only adds a client transport and the publisher's address as its initial peer.\<close>

definition tcp_client :: "address_kind \<Rightarrow> delivery_mechanisms_config \<Rightarrow> participant_setup \<Rightarrow> participant_setup" where
  "tcp_client k cfg p =
     (let q = tcp_peer k cfg p
      in q\<lparr>lease_infinite := True, user_transports := user_transports q @ [TCP k None [] False]\<rparr>)"

definition subscriber_setup :: "dds_defaults \<Rightarrow> delivery_mechanisms_config \<Rightarrow> participant_setup" where
  "subscriber_setup d cfg = choose_transport d tcp_client cfg no_setup"

definition pubsub_setup :: "dds_defaults \<Rightarrow> delivery_mechanisms_config \<Rightarrow> participant_setup" where
  "pubsub_setup d cfg =
     choose_transport d (\<lambda>k c p. tcp_peer k c (tcp_listener k c p)) cfg
       (no_setup\<lparr>ignore_local := ignore_local_endpoints cfg\<rparr>)"

text \<open>The same lines set up writers and readers. The limits are signed 32-bit fields.\<close>

definition endpoint_setup :: "dds_defaults \<Rightarrow> delivery_mechanisms_config \<Rightarrow> endpoint_qos" where
  "endpoint_setup d cfg = \<lparr>history_depth = sint (samples_limit d cfg), max_samples_per_instance = sint (samples_limit d cfg),
     max_samples = sint (max_instances d * samples_limit d cfg), data_sharing = (delivery_mechanism cfg = DATA_SHARING)\<rparr>"

section \<open>Creation of the entities\<close>

datatype dds_call = PlainBounded | CreateParticipant | CreatePublisher | CreateSubscriber | CreateTopic
  | CreateReader | CreateWriter

definition attempt :: "(dds_call \<Rightarrow> bool) \<Rightarrow> dds_call \<Rightarrow> string \<Rightarrow> unit result" where
  "attempt fails c msg = (if fails c then Inl (RuntimeError msg) else Inr ())"

definition check_type :: "(dds_call \<Rightarrow> bool) \<Rightarrow> unit result" where
  "check_type fails = attempt fails PlainBounded
     ''Example generated type does not fulfil the example constraints: it is not plain and/or bounded''"

definition create_publisher_entities :: "(dds_call \<Rightarrow> bool) \<Rightarrow> unit result" where
  "create_publisher_entities fails =
     rbind (check_type fails) (\<lambda>_.
     rbind (attempt fails CreateParticipant ''Participant initialization failed'') (\<lambda>_.
     rbind (attempt fails CreatePublisher ''Publisher initialization failed'') (\<lambda>_.
     rbind (attempt fails CreateTopic ''Topic initialization failed'') (\<lambda>_.
     attempt fails CreateWriter ''DataWriter initialization failed''))))"

definition create_subscriber_entities :: "(dds_call \<Rightarrow> bool) \<Rightarrow> unit result" where
  "create_subscriber_entities fails =
     rbind (check_type fails) (\<lambda>_.
     rbind (attempt fails CreateParticipant ''Participant initialization failed'') (\<lambda>_.
     rbind (attempt fails CreateSubscriber ''Subscriber initialization failed'') (\<lambda>_.
     rbind (attempt fails CreateTopic ''Topic initialization failed'') (\<lambda>_.
     attempt fails CreateReader ''DataReader initialization failed''))))"

definition create_pubsub_entities :: "(dds_call \<Rightarrow> bool) \<Rightarrow> unit result" where
  "create_pubsub_entities fails =
     rbind (check_type fails) (\<lambda>_.
     rbind (attempt fails CreateParticipant ''Participant initialization failed'') (\<lambda>_.
     rbind (attempt fails CreatePublisher ''Publisher initialization failed'') (\<lambda>_.
     rbind (attempt fails CreateSubscriber ''Subscriber initialization failed'') (\<lambda>_.
     rbind (attempt fails CreateTopic ''Topic initialization failed'') (\<lambda>_.
     rbind (attempt fails CreateReader ''DataReader initialization failed'') (\<lambda>_.
     attempt fails CreateWriter ''DataWriter initialization failed''))))))"

lemma attempt_ok [simp]: "\<not> fails c \<Longrightarrow> attempt fails c msg = Inr ()"
  by (simp add: attempt_def)

section \<open>Publisher and subscriber meet\<close>

fun transport_family :: "transport \<Rightarrow> string" where
  "transport_family (SharedMem _) = ''SHM''"
| "transport_family (TCP k _ _ _) = (case k of IPv4 \<Rightarrow> ''TCPv4'' | IPv6 \<Rightarrow> ''TCPv6'')"
| "transport_family (UDP k) = (case k of IPv4 \<Rightarrow> ''UDPv4'' | IPv6 \<Rightarrow> ''UDPv6'')"

text \<open>Two participants can talk: they use the same kind of transport, at least one, and each initial peer of the second
  is an address on which the first listens.\<close>

definition connects :: "participant_setup \<Rightarrow> participant_setup \<Rightarrow> bool" where
  "connects p q \<longleftrightarrow> use_builtin p = use_builtin q \<and> large_data p = large_data q \<and> intraprocess p = intraprocess q \<and>
     map transport_family (user_transports p) = map transport_family (user_transports q) \<and>
     (use_builtin p \<or> user_transports p \<noteq> []) \<and>
     set (initial_peers q) \<subseteq> set (metatraffic_unicast p) \<and> metatraffic_unicast p = default_unicast p \<and>
     (\<forall>k w ports b. TCP k w ports b \<in> set (user_transports p) \<longrightarrow>
        ports = map loc_port (metatraffic_unicast p) \<and> initial_peers q \<noteq> [] \<and> lease_infinite p \<and> lease_infinite q) \<and>
     (\<forall>n. SharedMem n \<in> set (user_transports p) \<longleftrightarrow> SharedMem n \<in> set (user_transports q))"

lemma samples_limit_unat:
  assumes "0 \<le> samples cfg" and "samples cfg \<le> 65535"
  shows "unat (samples_limit d cfg) = (if samples cfg = 0 then unat (default_samples d) else nat (samples cfg))"
proof -
  have u: "uint (word_of_int (samples cfg) :: 32 word) = samples cfg"
    using assms by (simp add: uint_word_of_int take_bit_int_eq_self_iff)
  have z: "(word_of_int (samples cfg) :: 32 word) = 0 \<longleftrightarrow> samples cfg = 0"
    by (subst uint_0_iff[symmetric]) (simp only: u)
  have n: "unat (word_of_int (samples cfg) :: 32 word) = nat (samples cfg)"
    by (simp only: unat_eq_nat_uint u)
  show ?thesis unfolding samples_limit_def Let_def z by (simp only: n split: if_split) simp
qed

lemma product_no_wrap:
  fixes a b :: "32 word"
  assumes "unat a * unat b < 2 ^ 32"
  shows "unat (a * b) = unat a * unat b"
  using assms by (simp add: unat_word_ariths)

lemma segment_exact:
  assumes "0 \<le> samples cfg" and "samples cfg \<le> 65535" and "unat (max_message d) \<le> 65536" and "unat (default_samples d) \<le> 65535"
  shows "unat (max_message d * samples_limit d cfg) =
     unat (max_message d) * (if samples cfg = 0 then unat (default_samples d) else nat (samples cfg))"
proof -
  have l: "unat (samples_limit d cfg) \<le> 65535"
    using samples_limit_unat[OF assms(1,2), of d] assms(2,4) by (auto split: if_splits)
  have "unat (max_message d) * unat (samples_limit d cfg) \<le> 65536 * 65535" by (rule mult_le_mono[OF assms(3) l])
  then have "unat (max_message d * samples_limit d cfg) = unat (max_message d) * unat (samples_limit d cfg)"
    by (intro product_no_wrap) simp
  then show ?thesis using samples_limit_unat[OF assms(1,2), of d] by simp
qed

lemma sint_small:
  fixes w :: "32 word"
  assumes "unat w < 2 ^ 31"
  shows "sint w = int (unat w)"
proof -
  have "int (unat w) < int (2 ^ 31)" using assms by (simp only: of_nat_less_iff)
  then have "uint w < 2 ^ 31" by (simp only: uint_nat of_nat_power of_nat_numeral)
  then have "signed_take_bit (LENGTH(32) - 1) (uint w) = uint w"
    by (intro signed_take_bit_int_eq_self) (auto intro: order_trans[of _ 0])
  then show ?thesis by (simp add: sint_uint)
qed

lemmas setup_defs = publisher_setup_def subscriber_setup_def pubsub_setup_def choose_transport_def no_setup_def
  tcp_listener_def tcp_client_def tcp_peer_def

lemma shm_only:
  "SharedMem m \<in> set (user_transports (publisher_setup d cfg)) \<Longrightarrow> m = max_message d * samples_limit d cfg"
  "SharedMem m \<in> set (user_transports (pubsub_setup d cfg)) \<Longrightarrow> m = max_message d * samples_limit d cfg"
  by (cases "delivery_mechanism cfg"; simp add: setup_defs Let_def)+

lemma setups_connect:
  "connects (publisher_setup d cfg) (subscriber_setup d cfg)" "connects (pubsub_setup d cfg) (subscriber_setup d cfg)"
  "connects (publisher_setup d cfg) (pubsub_setup d cfg)" "connects (pubsub_setup d cfg) (pubsub_setup d cfg)"
  by (cases "delivery_mechanism cfg"; simp add: connects_def setup_defs
      tcp_locator_def Let_def)+

text \<open>Applications started with the same options can reach each other: for every configuration that the parser
  accepts, a publishing and a subscribing participant use the same kind of transport, the initial peer of the
  subscribing side is an address on which the publishing side listens, both agree on data sharing and on the
  size of the shared memory segment, which is the message size times the number of samples without wrap
  around, and the segment and the limits of the endpoints are positive.\<close>

theorem same_options_connect:
  assumes "parse_cli_options argv = Inr cfg"
    and "0 < unat (max_message d)" and "unat (max_message d) \<le> 65536"
    and "0 < unat (default_samples d)" and "unat (default_samples d) \<le> 65535"
    and "0 < unat (max_instances d)" and "unat (max_instances d) \<le> 32768"
  shows "(\<forall>p \<in> {publisher_setup d cfg, pubsub_setup d cfg}. \<forall>q \<in> {subscriber_setup d cfg, pubsub_setup d cfg}.
       connects p q \<and>
       (\<forall>n. SharedMem n \<in> set (user_transports p) \<longrightarrow> 0 < unat n \<and>
          unat n = unat (max_message d) * (if samples cfg = 0 then unat (default_samples d) else nat (samples cfg)))) \<and>
     0 < history_depth (endpoint_setup d cfg) \<and>
     history_depth (endpoint_setup d cfg) \<le> max_samples_per_instance (endpoint_setup d cfg) \<and>
     max_samples (endpoint_setup d cfg) = int (unat (max_instances d)) * max_samples_per_instance (endpoint_setup d cfg)"
proof -
  from parse_valid[OF assms(1)] have s: "0 \<le> samples cfg" "samples cfg \<le> 65535"
    by (simp_all add: config_valid_def options_valid_def)
  let ?n = "if samples cfg = 0 then unat (default_samples d) else nat (samples cfg)"
  have l: "unat (samples_limit d cfg) = ?n" by (rule samples_limit_unat[OF s])
  have n: "0 < ?n" "?n \<le> 65535" using s assms(4,5) by auto
  have seg: "unat (max_message d * samples_limit d cfg) = unat (max_message d) * ?n"
    by (rule segment_exact[OF s assms(3,5)])
  have lim: "sint (samples_limit d cfg) = int ?n" using l n by (simp add: sint_small)
  have "unat (max_instances d) * ?n \<le> 32768 * 65535" by (rule mult_le_mono[OF assms(7) n(2)])
  then have prod: "sint (max_instances d * samples_limit d cfg) = int (unat (max_instances d)) * int ?n"
    using l product_no_wrap[of "max_instances d" "samples_limit d cfg"] by (simp add: sint_small)
  have segs: "0 < unat m \<and> unat m = unat (max_message d) * ?n"
    if "p \<in> {publisher_setup d cfg, pubsub_setup d cfg}" "SharedMem m \<in> set (user_transports p)" for m p
  proof -
    have m: "m = max_message d * samples_limit d cfg" using that shm_only by blast
    show ?thesis unfolding m seg using assms(2) n(1) by simp
  qed
  have con: "\<forall>p \<in> {publisher_setup d cfg, pubsub_setup d cfg}. \<forall>q \<in> {subscriber_setup d cfg, pubsub_setup d cfg}. connects p q"
    using setups_connect by blast
  have "0 < history_depth (endpoint_setup d cfg)"
    "history_depth (endpoint_setup d cfg) \<le> max_samples_per_instance (endpoint_setup d cfg)"
    "max_samples (endpoint_setup d cfg) = int (unat (max_instances d)) * max_samples_per_instance (endpoint_setup d cfg)"
    using lim prod n(1) by (simp_all only: endpoint_setup_def endpoint_qos.simps of_nat_0_less_iff order_refl)
  with con segs show ?thesis by blast
qed

definition dds_demo :: dds_defaults where
  "dds_demo = \<lparr>max_message = 65500, default_samples = 400, max_instances = 10\<rparr>"

theorem same_options_connect_witness:
  "connects (publisher_setup dds_demo cli_demo) (subscriber_setup dds_demo cli_demo) \<and>
   connects (pubsub_setup dds_demo cli_demo) (subscriber_setup dds_demo cli_demo) \<and>
   0 < history_depth (endpoint_setup dds_demo cli_demo)"
proof -
  have "parse_cli_options (''dm'' # show_config cli_demo) = Inr cli_demo"
    by (rule parse_show) (simp add: config_valid_def options_valid_def cli_demo_def is_tcp_def)
  from same_options_connect[OF this, of dds_demo] show ?thesis by (simp add: dds_demo_def)
qed

end
