(* ===== verification/Delivery_App.thy ===== *)
theory Delivery_App
  imports Delivery_Setup
begin

text \<open>
  \<^verbatim>\<open>PublisherApp\<close>, \<^verbatim>\<open>SubscriberApp\<close> and \<^verbatim>\<open>PubSubApp\<close> of \<^verbatim>\<open>src/other/pubsub/dds/delivery_mechanisms/src\<close>. A round of a \<^verbatim>\<open>run\<close>
  loop is one step, given whether DDS loans a sample and accepts the write; \<^verbatim>\<open>stop\<close> and the callbacks fall
  between rounds or into their waits. The counters are the 16- and 32-bit words of the classes. What DDS
  accepted is kept in \<open>written\<close>, what is printed in \<open>console\<close>.
\<close>

datatype log = Matched | Unmatched | InvalidChange int | Sent "32 word" | SendError "32 word" | Received "32 word"

section \<open>PublisherApp\<close>

record PublisherApp =
  matched :: int
  index_of_last_sample_sent :: "32 word"
  pub_samples :: "16 word"
  pub_stop :: bool
  pub_setup :: participant_setup
  writer_qos :: endpoint_qos
  written :: "32 word list"
  console :: "log list"

definition PublisherApp_ctor ::
  "dds_defaults \<Rightarrow> (dds_call \<Rightarrow> bool) \<Rightarrow> delivery_mechanisms_config \<Rightarrow> PublisherApp result" where
  "PublisherApp_ctor d fails cfg = rbind (create_publisher_entities fails) (\<lambda>_.
     Inr \<lparr>matched = 0, index_of_last_sample_sent = 0, pub_samples = word_of_int (samples cfg), pub_stop = False,
       pub_setup = publisher_setup d cfg, writer_qos = endpoint_setup d cfg, written = [], console = []\<rparr>)"

definition on_publication_matched :: "int \<Rightarrow> int \<Rightarrow> PublisherApp \<Rightarrow> PublisherApp" where
  "on_publication_matched change current s =
     (if change = 1 then s\<lparr>matched := current, console := console s @ [Matched]\<rparr>
      else if change = - 1 then s\<lparr>matched := current, console := console s @ [Unmatched]\<rparr>
      else s\<lparr>console := console s @ [InvalidChange change]\<rparr>)"

definition publisher_stop :: "PublisherApp \<Rightarrow> PublisherApp" where
  "publisher_stop s = s\<lparr>pub_stop := True\<rparr>"

text \<open>\<^verbatim>\<open>publish\<close>: \<open>None\<close> while it waits for a match.\<close>

definition publish :: "bool \<Rightarrow> bool \<Rightarrow> PublisherApp \<Rightarrow> (bool \<times> PublisherApp) option" where
  "publish loan_ok write_ok s =
     (if \<not> (matched s > 0 \<or> pub_stop s) then None
      else if \<not> pub_stop s \<and> loan_ok then
        let i = index_of_last_sample_sent s + 1
        in Some (write_ok, s\<lparr>index_of_last_sample_sent := i, written := written s @ (if write_ok then [i] else []),
             console := console s @ [Sent i]\<rparr>)
      else Some (False, s))"

text \<open>The condition and the body of the loop of \<^verbatim>\<open>run\<close>.\<close>

definition publisher_finished :: "PublisherApp \<Rightarrow> bool" where
  "publisher_finished s \<longleftrightarrow>
     \<not> (\<not> pub_stop s \<and> (pub_samples s = 0 \<or> uint (index_of_last_sample_sent s) < uint (pub_samples s)))"

definition publisher_round :: "bool \<Rightarrow> bool \<Rightarrow> PublisherApp \<Rightarrow> PublisherApp option" where
  "publisher_round loan_ok write_ok s = (case publish loan_ok write_ok s of
     None \<Rightarrow> None
   | Some (ok, s') \<Rightarrow> Some (if \<not> ok \<and> \<not> pub_stop s'
       then s'\<lparr>console := console s' @ [SendError (index_of_last_sample_sent s')]\<rparr> else s'))"

section \<open>SubscriberApp\<close>

text \<open>A sample that \<^verbatim>\<open>take\<close> delivers: whether its instance is alive, whether its data is valid, and its index.\<close>

type_synonym sample = "bool \<times> bool \<times> 32 word"

record SubscriberApp =
  received_samples :: "32 word"
  sub_samples :: "32 word"
  sub_stop :: bool
  sub_setup :: participant_setup
  reader_qos :: endpoint_qos
  sub_console :: "log list"

definition SubscriberApp_ctor ::
  "dds_defaults \<Rightarrow> (dds_call \<Rightarrow> bool) \<Rightarrow> delivery_mechanisms_config \<Rightarrow> SubscriberApp result" where
  "SubscriberApp_ctor d fails cfg = rbind (create_subscriber_entities fails) (\<lambda>_.
     Inr \<lparr>received_samples = 0, sub_samples = word_of_int (samples cfg), sub_stop = False,
       sub_setup = subscriber_setup d cfg, reader_qos = endpoint_setup d cfg, sub_console = []\<rparr>)"

definition on_subscription_matched :: "int \<Rightarrow> SubscriberApp \<Rightarrow> SubscriberApp" where
  "on_subscription_matched change s = s\<lparr>sub_console := sub_console s @
     [if change = 1 then Matched else if change = - 1 then Unmatched else InvalidChange change]\<rparr>"

definition subscriber_stop :: "SubscriberApp \<Rightarrow> SubscriberApp" where
  "subscriber_stop s = s\<lparr>sub_stop := True\<rparr>"

definition receive :: "sample \<Rightarrow> SubscriberApp \<Rightarrow> SubscriberApp" where
  "receive x s = (case x of (alive, valid, i) \<Rightarrow>
     if alive \<and> valid then
       let s1 = s\<lparr>received_samples := received_samples s + 1, sub_console := sub_console s @ [Received i]\<rparr>
       in if sub_samples s1 > 0 \<and> received_samples s1 \<ge> sub_samples s1 then subscriber_stop s1 else s1
     else s)"

text \<open>\<^verbatim>\<open>on_data_available\<close> for the batches that successive calls of \<^verbatim>\<open>take\<close> would return; a batch that was taken is
  read to its end.\<close>

fun on_data_available :: "sample list list \<Rightarrow> SubscriberApp \<Rightarrow> SubscriberApp" where
  "on_data_available [] s = s"
| "on_data_available (b # bs) s = (if sub_stop s then s else on_data_available bs (fold receive b s))"

section \<open>PubSubApp\<close>

record PubSubApp =
  ps_matched :: int
  ps_index :: "32 word"
  ps_received :: "32 word"
  ps_samples :: "32 word"
  ps_stop :: bool
  ps_setup :: participant_setup
  ps_qos :: endpoint_qos
  ps_written :: "32 word list"
  ps_console :: "log list"

definition PubSubApp_ctor ::
  "dds_defaults \<Rightarrow> (dds_call \<Rightarrow> bool) \<Rightarrow> delivery_mechanisms_config \<Rightarrow> PubSubApp result" where
  "PubSubApp_ctor d fails cfg = rbind (create_pubsub_entities fails) (\<lambda>_.
     Inr \<lparr>ps_matched = 0, ps_index = 0, ps_received = 0, ps_samples = word_of_int (samples cfg), ps_stop = False,
       ps_setup = pubsub_setup d cfg, ps_qos = endpoint_setup d cfg, ps_written = [], ps_console = []\<rparr>)"

definition ps_on_publication_matched :: "int \<Rightarrow> int \<Rightarrow> PubSubApp \<Rightarrow> PubSubApp" where
  "ps_on_publication_matched change current s =
     (if change = 1 then s\<lparr>ps_matched := current, ps_console := ps_console s @ [Matched]\<rparr>
      else if change = - 1 then s\<lparr>ps_matched := current, ps_console := ps_console s @ [Unmatched]\<rparr>
      else s\<lparr>ps_console := ps_console s @ [InvalidChange change]\<rparr>)"

definition ps_on_subscription_matched :: "int \<Rightarrow> PubSubApp \<Rightarrow> PubSubApp" where
  "ps_on_subscription_matched change s = s\<lparr>ps_console := ps_console s @
     [if change = 1 then Matched else if change = - 1 then Unmatched else InvalidChange change]\<rparr>"

definition pubsub_stop :: "PubSubApp \<Rightarrow> PubSubApp" where
  "pubsub_stop s = s\<lparr>ps_stop := True\<rparr>"

definition ps_publish :: "bool \<Rightarrow> bool \<Rightarrow> PubSubApp \<Rightarrow> (bool \<times> PubSubApp) option" where
  "ps_publish loan_ok write_ok s =
     (if \<not> (ps_matched s > 0 \<or> ps_stop s) then None
      else if \<not> ps_stop s \<and> loan_ok then
        let i = ps_index s + 1
        in Some (write_ok, s\<lparr>ps_index := i, ps_written := ps_written s @ (if write_ok then [i] else []),
             ps_console := ps_console s @ [Sent i]\<rparr>)
      else Some (False, s))"

definition ps_receive :: "sample \<Rightarrow> PubSubApp \<Rightarrow> PubSubApp" where
  "ps_receive x s = (case x of (alive, valid, i) \<Rightarrow>
     if alive \<and> valid then s\<lparr>ps_received := ps_received s + 1, ps_console := ps_console s @ [Received i]\<rparr> else s)"

fun ps_on_data_available :: "sample list list \<Rightarrow> PubSubApp \<Rightarrow> PubSubApp" where
  "ps_on_data_available [] s = s"
| "ps_on_data_available (b # bs) s =
     (if \<not> ps_stop s \<and> (ps_samples s = 0 \<or> ps_samples s > 0 \<and> ps_received s < ps_samples s)
      then ps_on_data_available bs (fold ps_receive b s) else s)"

text \<open>A round of \<^verbatim>\<open>run\<close>: a publication when one is left, then the wait, in which the callbacks deliver \<open>bs\<close>, then the
  test for the end.\<close>

definition ps_check :: "PubSubApp \<Rightarrow> PubSubApp" where
  "ps_check s = (if ps_samples s > 0 \<and> ps_received s \<ge> ps_samples s \<and> ps_index s \<ge> ps_samples s then pubsub_stop s else s)"

definition ps_publish_next :: "bool \<Rightarrow> bool \<Rightarrow> PubSubApp \<Rightarrow> PubSubApp option" where
  "ps_publish_next loan_ok write_ok s =
     (if ps_samples s = 0 \<or> ps_samples s > 0 \<and> ps_index s < ps_samples s
      then (case ps_publish loan_ok write_ok s of
        None \<Rightarrow> None
      | Some (ok, s') \<Rightarrow> Some (if \<not> ok \<and> \<not> ps_stop s' then s'\<lparr>ps_console := ps_console s' @ [SendError (ps_index s')]\<rparr> else s'))
      else Some s)"

definition ps_round :: "bool \<Rightarrow> bool \<Rightarrow> sample list list \<Rightarrow> PubSubApp \<Rightarrow> PubSubApp option" where
  "ps_round loan_ok write_ok bs s =
     (case ps_publish_next loan_ok write_ok s of None \<Rightarrow> None | Some s1 \<Rightarrow> Some (ps_check (ps_on_data_available bs s1)))"

section \<open>Application\<close>

definition make_app ::
  "dds_defaults \<Rightarrow> (dds_call \<Rightarrow> bool) \<Rightarrow> delivery_mechanisms_config \<Rightarrow> (PublisherApp + SubscriberApp + PubSubApp) result" where
  "make_app d fails cfg = (case entity cfg of
     PUBLISHER \<Rightarrow> rbind (PublisherApp_ctor d fails cfg) (\<lambda>a. Inr (Inl a))
   | SUBSCRIBER \<Rightarrow> rbind (SubscriberApp_ctor d fails cfg) (\<lambda>a. Inr (Inr (Inl a)))
   | PUBSUB \<Rightarrow> rbind (PubSubApp_ctor d fails cfg) (\<lambda>a. Inr (Inr (Inr a)))
   | UNDEFINED \<Rightarrow> Inl (RuntimeError ''Entity initialization failed''))"

text \<open>\<^verbatim>\<open>main\<close> up to the start of the application: an exit code, or the application that runs.\<close>

definition app_main ::
  "dds_defaults \<Rightarrow> (dds_call \<Rightarrow> bool) \<Rightarrow> string list \<Rightarrow> (nat + PublisherApp + SubscriberApp + PubSubApp) result" where
  "app_main d fails argv = (case parse_cli_options argv of
     Inl code \<Rightarrow> Inr (Inl code)
   | Inr cfg \<Rightarrow> (case make_app d fails cfg of
       Inl (RuntimeError msg) \<Rightarrow> Inr (Inl 1)
     | Inl e \<Rightarrow> Inl e
     | Inr app \<Rightarrow> Inr (Inr app)))"

section \<open>Runs\<close>

text \<open>The loop of \<^verbatim>\<open>run\<close> for the given rounds, each with what happens in it (\<open>'a\<close>) and whether its write is accepted:
  \<open>None\<close> when a round waits for a match.\<close>

fun run_rounds :: "('s \<Rightarrow> bool) \<Rightarrow> ('a \<Rightarrow> bool \<Rightarrow> 's \<Rightarrow> 's option) \<Rightarrow> ('a \<times> bool) list \<Rightarrow> 's \<Rightarrow> 's option" where
  "run_rounds finished round [] s = Some s"
| "run_rounds finished round ((a, w) # xs) s =
     (if finished s then Some s
      else case round a w s of None \<Rightarrow> None | Some s' \<Rightarrow> run_rounds finished round xs s')"

text \<open>The indices that are accepted when the numbering goes on from \<open>i\<close>.\<close>

fun accepted :: "32 word \<Rightarrow> bool list \<Rightarrow> 32 word list" where
  "accepted i [] = []"
| "accepted i (w # ws) = (if w then [i + 1] else []) @ accepted (i + 1) ws"

lemma length_accepted: "length (accepted i ws) \<le> length ws"
  "length (accepted i ws) = length ws \<longleftrightarrow> (\<forall>w \<in> set ws. w)"
proof -
  show l: "length (accepted i ws) \<le> length ws" for i by (induction ws arbitrary: i) (auto intro: le_SucI)
  show "length (accepted i ws) = length ws \<longleftrightarrow> (\<forall>w \<in> set ws. w)"
  proof (induction ws arbitrary: i)
    case (Cons w ws)
    have "length (accepted i' ws) \<le> length ws" for i' by (induction ws arbitrary: i') (auto intro: le_SucI)
    from Cons this[of "i + 1"] show ?case by auto
  qed simp
qed

lemma accepted_all:
  "\<forall>w \<in> set ws. w \<Longrightarrow> accepted i ws = map (\<lambda>k. i + word_of_nat k) [1..<Suc (length ws)]"
proof (induction ws arbitrary: i)
  case (Cons w ws)
  have "[1..<Suc (length (w # ws))] = 1 # map Suc [1..<Suc (length ws)]"
    by (simp add: map_Suc_upt upt_conv_Cons del: upt_Suc)
  with Cons.IH[of "i + 1"] Cons.prems show ?case by (auto simp add: add.assoc comp_def del: upt_Suc)
qed simp

text \<open>What publishers promise: below their limit, a round for which DDS loans a sample (\<open>loaned\<close>) numbers the next one and hands
  it to DDS, a round without a loan sends nothing, and they finish only at the limit.\<close>

locale sample_source =
  fixes finished :: "'s \<Rightarrow> bool"
    and round :: "'a \<Rightarrow> bool \<Rightarrow> 's \<Rightarrow> 's option"
    and loaned :: "'a \<Rightarrow> bool"
    and ready :: "'s \<Rightarrow> bool"
    and idx :: "'s \<Rightarrow> 32 word"
    and limit :: "'s \<Rightarrow> nat"
    and sent :: "'s \<Rightarrow> 32 word list"
  assumes round_sends: "ready s \<Longrightarrow> \<not> finished s \<Longrightarrow> unat (idx s) < limit s \<Longrightarrow> loaned a \<Longrightarrow>
      \<exists>s'. round a w s = Some s' \<and> ready s' \<and> idx s' = idx s + 1 \<and> limit s' = limit s \<and>
        sent s' = sent s @ (if w then [idx s + 1] else []) \<and> (finished s' \<longrightarrow> limit s \<le> unat (idx s'))"
    and round_idles: "ready s \<Longrightarrow> \<not> finished s \<Longrightarrow> \<not> loaned a \<Longrightarrow>
      \<exists>s'. round a w s = Some s' \<and> ready s' \<and> idx s' = idx s \<and> limit s' = limit s \<and> sent s' = sent s \<and>
        (finished s' \<longrightarrow> limit s \<le> unat (idx s'))"
    and limit_word: "limit s < 2 ^ 32"
begin

lemma idx_Suc: "unat (idx s) < limit s \<Longrightarrow> unat (idx s + 1) = Suc (unat (idx s))"
  using limit_word[of s] by (simp add: unat_word_ariths)

lemma rounds_send:
  assumes "ready s" and "finished s \<Longrightarrow> limit s \<le> unat (idx s)"
    and "unat (idx s) + length (filter (loaned \<circ> fst) xs) \<le> limit s"
  shows "\<exists>s'. run_rounds finished round xs s = Some s' \<and> ready s' \<and> limit s' = limit s \<and>
    unat (idx s') = unat (idx s) + length (filter (loaned \<circ> fst) xs) \<and>
    sent s' = sent s @ accepted (idx s) (map snd (filter (loaned \<circ> fst) xs)) \<and> (finished s' \<longrightarrow> limit s \<le> unat (idx s'))"
  using assms
proof (induction xs arbitrary: s)
  case (Cons x xs)
  obtain a w where x: "x = (a, w)" by (cases x)
  show ?case
  proof (cases "finished s")
    case True
    then have "length (filter (loaned \<circ> fst) (x # xs)) = 0" using Cons.prems(2,3) by linarith
    then have "filter (loaned \<circ> fst) (x # xs) = []" by simp
    then show ?thesis unfolding \<open>filter _ _ = []\<close> using True Cons.prems(1,2) x by simp
  next
    case nf: False
    show ?thesis
    proof (cases "loaned a")
      case True
      then have lt: "unat (idx s) < limit s" using Cons.prems(3) x by simp
      from round_sends[OF Cons.prems(1) nf lt True] obtain s1 where s1: "round a w s = Some s1" "ready s1" "idx s1 = idx s + 1"
        "limit s1 = limit s" "sent s1 = sent s @ (if w then [idx s + 1] else [])" "finished s1 \<longrightarrow> limit s \<le> unat (idx s1)"
        by blast
      have u: "unat (idx s1) = Suc (unat (idx s))" using idx_Suc[OF lt] s1(3) by simp
      from Cons.IH[OF s1(2)] s1(4,6) u Cons.prems(3) x True show ?thesis using s1 nf by auto
    next
      case False
      from round_idles[OF Cons.prems(1) nf False] obtain s1 where s1: "round a w s = Some s1" "ready s1" "idx s1 = idx s"
        "limit s1 = limit s" "sent s1 = sent s" "finished s1 \<longrightarrow> limit s \<le> unat (idx s1)" by blast
      from Cons.IH[OF s1(2)] s1(3,4,6) Cons.prems(3) x False show ?thesis using s1 nf by auto
    qed
  qed
qed simp

end

lemma publisher_finished_unat:
  "publisher_finished s \<longleftrightarrow>
     pub_stop s \<or> pub_samples s \<noteq> 0 \<and> unat (pub_samples s) \<le> unat (index_of_last_sample_sent s)"
  unfolding publisher_finished_def uint_nat of_nat_less_iff by auto

interpretation pub: sample_source publisher_finished publisher_round "\<lambda>l. l" "\<lambda>s. 0 < matched s" index_of_last_sample_sent
    "\<lambda>s. unat (pub_samples s)" written
proof
  fix s :: PublisherApp and l w
  assume a: "0 < matched s" "\<not> publisher_finished s" "unat (index_of_last_sample_sent s) < unat (pub_samples s)" l
  then have ns: "\<not> pub_stop s" by (simp add: publisher_finished_unat)
  let ?i = "index_of_last_sample_sent s + 1"
  let ?s1 = "s\<lparr>index_of_last_sample_sent := ?i, written := written s @ (if w then [?i] else []),
    console := console s @ [Sent ?i]\<rparr>"
  let ?s' = "if w then ?s1 else ?s1\<lparr>console := console ?s1 @ [SendError ?i]\<rparr>"
  have "publisher_round l w s = Some ?s'"
    using a(1,4) ns by (simp add: publisher_round_def publish_def Let_def)
  moreover have "publisher_finished ?s' \<longrightarrow> unat (pub_samples s) \<le> unat (index_of_last_sample_sent ?s')"
    using ns by (simp add: publisher_finished_unat)
  ultimately show "\<exists>s'. publisher_round l w s = Some s' \<and> 0 < matched s' \<and>
      index_of_last_sample_sent s' = index_of_last_sample_sent s + 1 \<and> unat (pub_samples s') = unat (pub_samples s) \<and>
      written s' = written s @ (if w then [index_of_last_sample_sent s + 1] else []) \<and>
      (publisher_finished s' \<longrightarrow> unat (pub_samples s) \<le> unat (index_of_last_sample_sent s'))"
    using a(1) by (intro exI[of _ ?s']) simp
next
  fix s :: PublisherApp and l w
  assume a: "0 < matched s" "\<not> publisher_finished s" "\<not> l"
  then have ns: "\<not> pub_stop s" by (simp add: publisher_finished_unat)
  let ?s' = "s\<lparr>console := console s @ [SendError (index_of_last_sample_sent s)]\<rparr>"
  have "publisher_round l w s = Some ?s'" using a(1,3) ns by (simp add: publisher_round_def publish_def)
  then show "\<exists>s'. publisher_round l w s = Some s' \<and> 0 < matched s' \<and> index_of_last_sample_sent s' = index_of_last_sample_sent s \<and>
      unat (pub_samples s') = unat (pub_samples s) \<and> written s' = written s \<and>
      (publisher_finished s' \<longrightarrow> unat (pub_samples s) \<le> unat (index_of_last_sample_sent s'))"
    using a(1,2) by (intro exI[of _ ?s']) (simp add: publisher_finished_unat)
next
  fix s :: PublisherApp
  have "unat (pub_samples s) < 2 ^ LENGTH(16)" by (rule unsigned_less)
  then show "unat (pub_samples s) < 2 ^ 32" by simp
qed

lemma filter_full:
  "length (filter (\<lambda>w. w) ws) \<le> length ws" "length (filter (\<lambda>w. w) ws) = length ws \<longleftrightarrow> (\<forall>w \<in> set ws. w)"
proof -
  show le: "length (filter (\<lambda>w. w) ws) \<le> length ws" by (rule length_filter_le)
  show "length (filter (\<lambda>w. w) ws) = length ws \<longleftrightarrow> (\<forall>w \<in> set ws. w)"
  proof (cases "\<forall>w \<in> set ws. w")
    case True
    then have "filter (\<lambda>w. w) ws = ws" by (intro filter_True) simp
    then show ?thesis using True by simp
  next
    case False
    then obtain w where "w \<in> set ws" "\<not> w" by blast
    then have "length (filter (\<lambda>w. w) ws) < length ws" by (rule length_filter_less)
    then show ?thesis using False by simp
  qed
qed

lemma ps_receive_frame:
  "ps_matched (ps_receive x s) = ps_matched s" "ps_index (ps_receive x s) = ps_index s"
  "ps_samples (ps_receive x s) = ps_samples s" "ps_stop (ps_receive x s) = ps_stop s"
  "ps_written (ps_receive x s) = ps_written s"
  by (cases x; simp add: ps_receive_def)+

lemma ps_fold_frame:
  "ps_matched (fold ps_receive b s) = ps_matched s \<and> ps_index (fold ps_receive b s) = ps_index s \<and>
   ps_samples (fold ps_receive b s) = ps_samples s \<and> ps_stop (fold ps_receive b s) = ps_stop s \<and>
   ps_written (fold ps_receive b s) = ps_written s"
  by (induction b arbitrary: s) (simp_all add: ps_receive_frame)

lemma ps_data_frame [simp]:
  "ps_matched (ps_on_data_available bs s) = ps_matched s" "ps_index (ps_on_data_available bs s) = ps_index s"
  "ps_samples (ps_on_data_available bs s) = ps_samples s" "ps_stop (ps_on_data_available bs s) = ps_stop s"
  "ps_written (ps_on_data_available bs s) = ps_written s"
  by (induction bs s rule: ps_on_data_available.induct) (auto simp: ps_fold_frame)

text \<open>A round, given whether a sample is loaned, what the callbacks deliver, and whether the write is accepted.\<close>

definition pubsub_go :: "bool \<times> sample list list \<Rightarrow> bool \<Rightarrow> PubSubApp \<Rightarrow> PubSubApp option" where
  "pubsub_go a w = ps_round (fst a) w (snd a)"

lemma pubsub_round_sends:
  assumes "0 < ps_matched s" "\<not> ps_stop s" "ps_index s < ps_samples s"
  shows "\<exists>s1. ps_publish_next True w s = Some s1 \<and> ps_matched s1 = ps_matched s \<and> ps_stop s1 = ps_stop s \<and>
      ps_index s1 = ps_index s + 1 \<and> ps_samples s1 = ps_samples s \<and> ps_received s1 = ps_received s \<and>
      ps_written s1 = ps_written s @ (if w then [ps_index s + 1] else [])"
  using assms by (auto simp: ps_publish_next_def ps_publish_def Let_def word_gt_0)

lemma pubsub_round_idles:
  assumes "0 < ps_matched s" "\<not> ps_stop s"
  shows "\<exists>s1. ps_publish_next False w s = Some s1 \<and> ps_matched s1 = ps_matched s \<and> ps_stop s1 = ps_stop s \<and>
      ps_index s1 = ps_index s \<and> ps_samples s1 = ps_samples s \<and> ps_written s1 = ps_written s"
  using assms by (cases "ps_samples s = 0 \<or> ps_samples s > 0 \<and> ps_index s < ps_samples s") (simp_all add: ps_publish_next_def ps_publish_def)

interpretation ps: sample_source ps_stop pubsub_go fst "\<lambda>s. 0 < ps_matched s" ps_index "\<lambda>s. unat (ps_samples s)" ps_written
proof
  fix s :: PubSubApp and a :: "bool \<times> sample list list" and w
  assume a: "0 < ps_matched s" "\<not> ps_stop s" "unat (ps_index s) < unat (ps_samples s)" "fst a"
  let ?bs = "snd a"
  have lt: "ps_index s < ps_samples s" using a(3) by (simp add: word_less_nat_alt)
  from pubsub_round_sends[OF a(1,2) lt, of w] obtain s1 where s1: "ps_publish_next True w s = Some s1"
    "ps_matched s1 = ps_matched s" "ps_stop s1 = ps_stop s" "ps_index s1 = ps_index s + 1" "ps_samples s1 = ps_samples s"
    "ps_written s1 = ps_written s @ (if w then [ps_index s + 1] else [])" by blast
  let ?s' = "ps_check (ps_on_data_available ?bs s1)"
  have "pubsub_go a w s = Some ?s'" using s1(1) a(4) by (simp add: pubsub_go_def ps_round_def)
  moreover have "0 < ps_matched ?s'" "ps_index ?s' = ps_index s + 1" "unat (ps_samples ?s') = unat (ps_samples s)"
    "ps_written ?s' = ps_written s @ (if w then [ps_index s + 1] else [])"
    using a(1) s1 by (simp_all add: ps_check_def pubsub_stop_def)
  moreover have "ps_stop ?s' \<longrightarrow> unat (ps_samples s) \<le> unat (ps_index ?s')"
    using a(2) s1 by (simp add: ps_check_def pubsub_stop_def word_le_nat_alt)
  ultimately show "\<exists>s'. pubsub_go a w s = Some s' \<and> 0 < ps_matched s' \<and> ps_index s' = ps_index s + 1 \<and>
      unat (ps_samples s') = unat (ps_samples s) \<and> ps_written s' = ps_written s @ (if w then [ps_index s + 1] else []) \<and>
      (ps_stop s' \<longrightarrow> unat (ps_samples s) \<le> unat (ps_index s'))" by blast
next
  fix s :: PubSubApp and a :: "bool \<times> sample list list" and w
  assume a: "0 < ps_matched s" "\<not> ps_stop s" "\<not> fst a"
  obtain s1 where s1: "ps_publish_next False w s = Some s1" "ps_matched s1 = ps_matched s" "ps_stop s1 = ps_stop s"
    "ps_index s1 = ps_index s" "ps_samples s1 = ps_samples s" "ps_written s1 = ps_written s"
    using pubsub_round_idles[OF a(1,2), of w] by blast
  let ?s' = "ps_check (ps_on_data_available (snd a) s1)"
  have "pubsub_go a w s = Some ?s'" using s1(1) a(3) by (simp add: pubsub_go_def ps_round_def)
  moreover have "0 < ps_matched ?s'" "ps_index ?s' = ps_index s" "unat (ps_samples ?s') = unat (ps_samples s)"
    "ps_written ?s' = ps_written s" using a(1) s1 by (simp_all add: ps_check_def pubsub_stop_def)
  moreover have "ps_stop ?s' \<longrightarrow> unat (ps_samples s) \<le> unat (ps_index ?s')"
    using a(2) s1 by (simp add: ps_check_def pubsub_stop_def word_le_nat_alt)
  ultimately show "\<exists>s'. pubsub_go a w s = Some s' \<and> 0 < ps_matched s' \<and> ps_index s' = ps_index s \<and>
      unat (ps_samples s') = unat (ps_samples s) \<and> ps_written s' = ps_written s \<and>
      (ps_stop s' \<longrightarrow> unat (ps_samples s) \<le> unat (ps_index s'))" by blast
next
  fix s :: PubSubApp
  have "unat (ps_samples s) < 2 ^ LENGTH(32)" by (rule unsigned_less)
  then show "unat (ps_samples s) < 2 ^ 32" by simp
qed

section \<open>Reception\<close>

definition wire :: "32 word \<Rightarrow> sample" where
  "wire i = (True, True, i)"

text \<open>Receiving samples up to the limit, one after the other.\<close>

lemma fold_receive:
  assumes "unat (received_samples s) + length is \<le> unat (sub_samples s)"
  shows "unat (received_samples (fold receive (map wire is) s)) = unat (received_samples s) + length is \<and>
    sub_samples (fold receive (map wire is) s) = sub_samples s \<and>
    sub_console (fold receive (map wire is) s) = sub_console s @ map Received is \<and>
    (sub_stop (fold receive (map wire is) s) \<longleftrightarrow>
       sub_stop s \<or> is \<noteq> [] \<and> unat (received_samples s) + length is = unat (sub_samples s))"
  using assms
proof (induction "is" arbitrary: s)
  case (Cons i "is")
  let ?s1 = "receive (wire i) s"
  have lt: "received_samples s < sub_samples s" using Cons.prems by (simp add: word_less_nat_alt)
  have u: "unat (received_samples s + 1) = Suc (unat (received_samples s))" by (rule word_Suc_below[OF lt])
  have pos: "0 < sub_samples s" using lt by (rule le_less_trans[OF word_zero_le])
  have s1: "unat (received_samples ?s1) = Suc (unat (received_samples s))" "sub_samples ?s1 = sub_samples s"
    "sub_console ?s1 = sub_console s @ [Received i]"
    "sub_stop ?s1 \<longleftrightarrow> sub_stop s \<or> unat (sub_samples s) \<le> Suc (unat (received_samples s))"
    using u pos by (simp_all add: receive_def wire_def subscriber_stop_def word_le_nat_alt Let_def)
  from Cons.IH[of ?s1] s1 Cons.prems show ?case by (cases "is = []") auto
qed simp

lemma data_receive:
  assumes "concat bs = map wire is" and "unat (received_samples s) + length is \<le> unat (sub_samples s)" and "\<not> sub_stop s"
  shows "on_data_available bs s = fold receive (map wire is) s"
  using assms
proof (induction bs arbitrary: s "is")
  case (Cons b bs)
  obtain xs ys where xy: "is = xs @ ys" "b = map wire xs" "concat bs = map wire ys"
    using Cons.prems(1) by (auto simp: append_eq_map_conv)
  let ?s1 = "fold receive b s"
  have s1: "unat (received_samples ?s1) = unat (received_samples s) + length xs" "sub_samples ?s1 = sub_samples s"
    "sub_stop ?s1 \<longleftrightarrow> xs \<noteq> [] \<and> unat (received_samples s) + length xs = unat (sub_samples s)"
    using fold_receive[of s xs] Cons.prems(2,3) xy by auto
  show ?case
  proof (cases "sub_stop ?s1")
    case True
    then have "unat (received_samples s) + length xs = unat (sub_samples s)" using s1(3) by simp
    then have "length ys = 0" using Cons.prems(2) unfolding xy(1) length_append by linarith
    then have ys: "ys = []" by simp
    have "on_data_available bs ?s1 = ?s1" using True by (cases bs) simp_all
    then show ?thesis using Cons.prems(3) xy ys by simp
  next
    case False
    then have "on_data_available bs ?s1 = fold receive (map wire ys) ?s1"
      using Cons.IH[OF xy(3), of ?s1] s1 Cons.prems(2) xy(1) by simp
    then show ?thesis using Cons.prems(3) xy by simp
  qed
qed simp

lemma data_stopped: "sub_stop s \<Longrightarrow> on_data_available bs s = s"
  by (cases bs) simp_all

lemma data_append: "on_data_available (xs @ ys) s = on_data_available ys (on_data_available xs s)"
  by (induction xs s rule: on_data_available.induct) (auto simp: data_stopped)

lemma data_calls: "fold on_data_available calls s = on_data_available (concat calls) s"
  by (induction calls arbitrary: s) (auto simp: data_append)

lemma received_word:
  assumes "0 \<le> n" and "n \<le> 65535"
  shows "unat (word_of_int n :: 16 word) = nat n" "unat (word_of_int n :: 32 word) = nat n"
proof -
  have "uint (word_of_int n :: 16 word) = n" "uint (word_of_int n :: 32 word) = n"
    using assms by (simp_all add: uint_word_of_int take_bit_int_eq_self_iff)
  then show "unat (word_of_int n :: 16 word) = nat n" "unat (word_of_int n :: 32 word) = nat n"
    by (simp_all only: unat_eq_nat_uint)
qed

text \<open>A subscriber with room for all of them prints the samples and stops exactly at its limit.\<close>

lemma subscriber_sees:
  assumes c: "concat (concat calls) = map wire ws" and "received_samples s = 0" and "\<not> sub_stop s" and "sub_console s = []"
    and "length ws \<le> unat (sub_samples s)" and "0 < unat (sub_samples s)" and "length ws = unat (sub_samples s) \<longleftrightarrow> full"
  shows "sub_console (fold on_data_available calls s) = map Received ws \<and> (sub_stop (fold on_data_available calls s) \<longleftrightarrow> full)"
proof -
  have r: "unat (received_samples s) + length ws \<le> unat (sub_samples s)" using assms(2,5) by simp
  have e: "fold on_data_available calls s = fold receive (map wire ws) s"
    unfolding data_calls by (rule data_receive[OF c r assms(3)])
  have "ws \<noteq> [] \<and> unat (received_samples s) + length ws = unat (sub_samples s) \<longleftrightarrow> full" using assms(2,6,7) by auto
  then show ?thesis using fold_receive[OF r] assms(3,4) unfolding e by simp
qed

section \<open>Properties\<close>

text \<open>C2: Publisher and subscriber together, for a limited number of samples. A round of the publisher sends a sample only when
  DDS loans one: a publisher that stays matched and that nobody stops has ended once as many rounds as samples were asked for got a loan, whether DDS
  accepts their writes or not, and after fewer loans it goes on, however many rounds failed to loan. A subscriber with
  the same options prints exactly the accepted samples, in order, however DDS groups them, and it stops exactly when every
  write of a loaned sample was accepted, having then seen all indices from 1. One failed write leaves it waiting for ever.\<close>

theorem delivery_end_to_end:
  assumes "parse_cli_options argv = Inr cfg" and "0 < samples cfg" and "0 < peers"
    and "length (filter fst xs) = nat (samples cfg)" and "length (filter fst ys) < nat (samples cfg)"
  shows "\<exists>p0 s0 p q. PublisherApp_ctor d (\<lambda>_. False) cfg = Inr p0 \<and> SubscriberApp_ctor d (\<lambda>_. False) cfg = Inr s0 \<and>
     run_rounds publisher_finished publisher_round ys (on_publication_matched 1 peers p0) = Some q \<and> \<not> publisher_finished q \<and>
     run_rounds publisher_finished publisher_round xs (on_publication_matched 1 peers p0) = Some p \<and> publisher_finished p \<and>
     written p = accepted 0 (map snd (filter fst xs)) \<and>
     ((\<forall>(loaned, w) \<in> set xs. loaned \<longrightarrow> w) \<longrightarrow> written p = map word_of_nat [1..<Suc (nat (samples cfg))]) \<and>
     (\<forall>calls. concat (concat calls) = map wire (written p) \<longrightarrow>
        sub_console (fold on_data_available calls s0) = map Received (written p) \<and>
        (sub_stop (fold on_data_available calls s0) \<longleftrightarrow> (\<forall>(loaned, w) \<in> set xs. loaned \<longrightarrow> w)))"
proof -
  from parse_valid[OF assms(1)] have n: "samples cfg \<le> 65535" by (simp add: config_valid_def options_valid_def)
  have u: "unat (word_of_int (samples cfg) :: 16 word) = nat (samples cfg)"
    "unat (word_of_int (samples cfg) :: 32 word) = nat (samples cfg)" using received_word assms(2) n by simp_all
  obtain p0 where p0: "PublisherApp_ctor d (\<lambda>_. False) cfg = Inr p0" "index_of_last_sample_sent p0 = 0" "written p0 = []"
    "pub_samples p0 = word_of_int (samples cfg)" "pub_stop p0 = False"
    by (simp add: PublisherApp_ctor_def create_publisher_entities_def check_type_def)
  obtain s0 where s0: "SubscriberApp_ctor d (\<lambda>_. False) cfg = Inr s0" "received_samples s0 = 0" "sub_console s0 = []"
    "sub_samples s0 = word_of_int (samples cfg)" "\<not> sub_stop s0"
    by (simp add: SubscriberApp_ctor_def create_subscriber_entities_def check_type_def)
  let ?p = "on_publication_matched 1 peers p0" and ?ws = "map snd (filter fst xs)"
  have pm: "0 < matched ?p" "index_of_last_sample_sent ?p = 0" "written ?p = []" "unat (pub_samples ?p) = nat (samples cfg)"
    using assms(3) p0 u(1) by (simp_all add: on_publication_matched_def)
  have nf: "publisher_finished ?p \<Longrightarrow> unat (pub_samples ?p) \<le> unat (index_of_last_sample_sent ?p)"
    using p0(5) by (simp add: publisher_finished_unat on_publication_matched_def)
  from pub.rounds_send[OF pm(1) nf, of xs] pm(2-4) assms(4) obtain p where
    p: "run_rounds publisher_finished publisher_round xs ?p = Some p" "unat (pub_samples p) = nat (samples cfg)"
      "unat (index_of_last_sample_sent p) = nat (samples cfg)" "written p = accepted 0 ?ws"
    by (auto simp: comp_def)
  from pub.rounds_send[OF pm(1) nf, of ys] pm(2-4) assms(5) obtain q where
    q: "run_rounds publisher_finished publisher_round ys ?p = Some q" "\<not> publisher_finished q"
    by (auto simp: comp_def)
  have fin: "publisher_finished p"
    using p(2,3) assms(2) unfolding publisher_finished_unat by fastforce
  have ws: "(\<forall>w \<in> set ?ws. w) \<longleftrightarrow> (\<forall>(loaned, w) \<in> set xs. loaned \<longrightarrow> w)" by auto
  have all: "(\<forall>w \<in> set ?ws. w) \<longrightarrow> written p = map word_of_nat [1..<Suc (nat (samples cfg))]"
    using accepted_all[of ?ws 0] p(4) assms(4) by simp
  have le: "length (written p) \<le> nat (samples cfg)" "length (written p) = nat (samples cfg) \<longleftrightarrow> (\<forall>w \<in> set ?ws. w)"
    using length_accepted[of 0 ?ws] p(4) assms(4) by simp_all
  have "sub_console (fold on_data_available calls s0) = map Received (written p) \<and>
      (sub_stop (fold on_data_available calls s0) \<longleftrightarrow> (\<forall>w \<in> set ?ws. w))"
    if c: "concat (concat calls) = map wire (written p)" for calls
    by (rule subscriber_sees[OF c s0(2,5,3)]) (use s0(4) u(2) le assms(2) in simp_all)
  with p0(1) s0(1) p(1,4) q fin all show ?thesis unfolding ws by blast
qed

theorem delivery_end_to_end_witness:
  "\<exists>p0 s0 p. PublisherApp_ctor dds_demo (\<lambda>_. False) cli_demo = Inr p0 \<and>
     SubscriberApp_ctor dds_demo (\<lambda>_. False) cli_demo = Inr s0 \<and>
     run_rounds publisher_finished publisher_round ((False, True) # replicate 10 (True, True)) (on_publication_matched 1 1 p0) = Some p \<and>
     publisher_finished p \<and> written p = map word_of_nat [1..<Suc (nat (samples cli_demo))] \<and>
     sub_console (fold on_data_available [[map wire (written p)]] s0) = map Received (written p) \<and>
     sub_stop (fold on_data_available [[map wire (written p)]] s0)"
proof -
  have p: "parse_cli_options (''dm'' # show_config cli_demo) = Inr cli_demo"
    by (rule parse_show) (simp add: config_valid_def options_valid_def cli_demo_def is_tcp_def)
  define xs where "xs = (False, True) # replicate 10 (True, True)"
  have xs: "length (filter fst xs) = nat (samples cli_demo)" "\<forall>(loaned, w) \<in> set xs. loaned \<longrightarrow> w"
    "length (filter fst [(False, True)]) < nat (samples cli_demo)" and n: "0 < samples cli_demo" "0 < (1::int)"
    by (simp_all add: xs_def cli_demo_def)
  from delivery_end_to_end[OF p n xs(1,3), of dds_demo] obtain p0 s0 p where
    P: "PublisherApp_ctor dds_demo (\<lambda>_. False) cli_demo = Inr p0"
      "SubscriberApp_ctor dds_demo (\<lambda>_. False) cli_demo = Inr s0"
      "run_rounds publisher_finished publisher_round xs (on_publication_matched 1 1 p0) = Some p"
      "publisher_finished p"
    and W: "(\<forall>(loaned, w) \<in> set xs. loaned \<longrightarrow> w) \<longrightarrow> written p = map word_of_nat [1..<Suc (nat (samples cli_demo))]"
    and C: "\<forall>calls. concat (concat calls) = map wire (written p) \<longrightarrow>
        sub_console (fold on_data_available calls s0) = map Received (written p) \<and>
        (sub_stop (fold on_data_available calls s0) \<longleftrightarrow> (\<forall>(loaned, w) \<in> set xs. loaned \<longrightarrow> w))"
    by (elim exE conjE) (rule that; assumption)
  have "concat (concat [[map wire (written p)]]) = map wire (written p)" by simp
  with C xs(2) have
    "sub_console (fold on_data_available [[map wire (written p)]] s0) = map Received (written p)"
    "sub_stop (fold on_data_available [[map wire (written p)]] s0)" by blast+
  with P W xs(2) show ?thesis unfolding xs_def by blast
qed

section \<open>PubSubApp on its own samples\<close>

text \<open>Rounds that get their loans and in which each accepted sample comes back during the wait of its round.\<close>

fun own_rounds :: "32 word \<Rightarrow> bool list \<Rightarrow> ((bool \<times> sample list list) \<times> bool) list" where
  "own_rounds i [] = []"
| "own_rounds i (w # ws) = ((True, if w then [[wire (i + 1)]] else []), w) # own_rounds (i + 1) ws"

lemma own_rounds_snd: "filter (fst \<circ> fst) (own_rounds i ws) = own_rounds i ws" "map snd (own_rounds i ws) = ws"
  "length (own_rounds i ws) = length ws"
  by (induction ws arbitrary: i) auto

definition ps_counts :: "nat \<Rightarrow> nat \<Rightarrow> PubSubApp \<Rightarrow> bool" where
  "ps_counts i r s \<longleftrightarrow> 0 < ps_matched s \<and> unat (ps_index s) = i \<and> unat (ps_received s) = r \<and>
     (ps_stop s \<longleftrightarrow> unat (ps_samples s) \<le> r \<and> unat (ps_samples s) \<le> i)"

lemma own_round:
  assumes c: "ps_counts i r s" and "r \<le> i" and "i < unat (ps_samples s)"
  shows "\<exists>s'. pubsub_go (True, if w then [[wire (ps_index s + 1)]] else []) w s = Some s' \<and>
    ps_counts (Suc i) (if w then Suc r else r) s' \<and> ps_index s' = ps_index s + 1 \<and> ps_samples s' = ps_samples s"
proof -
  have lt: "ps_index s < ps_samples s" "ps_received s < ps_samples s" "\<not> ps_stop s" "0 < ps_matched s"
    using assms by (auto simp: ps_counts_def word_less_nat_alt)
  have u: "unat (ps_index s + 1) = Suc i" "unat (ps_received s + 1) = Suc r"
    using word_Suc_below[OF lt(1)] word_Suc_below[OF lt(2)] c by (simp_all add: ps_counts_def)
  have pos: "0 < ps_samples s" using lt(1) by (rule le_less_trans[OF word_zero_le])
  from pubsub_round_sends[OF lt(4,3,1), of w] obtain s1 where s1: "ps_publish_next True w s = Some s1"
    "ps_matched s1 = ps_matched s" "ps_stop s1 = ps_stop s" "ps_index s1 = ps_index s + 1" "ps_samples s1 = ps_samples s"
    "ps_received s1 = ps_received s" by blast
  let ?s2 = "ps_on_data_available (if w then [[wire (ps_index s + 1)]] else []) s1"
  have r2: "ps_received ?s2 = (if w then ps_received s + 1 else ps_received s)"
    using s1 lt pos by (simp add: ps_receive_def wire_def)
  have st2: "ps_matched ?s2 = ps_matched s" "ps_index ?s2 = ps_index s + 1" "ps_samples ?s2 = ps_samples s" "\<not> ps_stop ?s2"
    using s1 lt(3) by (simp_all only: ps_data_frame simp_thms)
  have ur2: "unat (ps_received ?s2) = (if w then Suc r else r)" using r2 u(2) c by (simp add: ps_counts_def)
  have chk: "ps_received (ps_check x) = ps_received x" "ps_matched (ps_check x) = ps_matched x"
    "ps_index (ps_check x) = ps_index x" "ps_samples (ps_check x) = ps_samples x"
    "ps_stop (ps_check x) \<longleftrightarrow> ps_stop x \<or>
       ps_samples x > 0 \<and> ps_received x \<ge> ps_samples x \<and> ps_index x \<ge> ps_samples x" for x
    unfolding ps_check_def pubsub_stop_def by auto
  have "pubsub_go (True, if w then [[wire (ps_index s + 1)]] else []) w s = Some (ps_check ?s2)"
    using s1(1) by (simp add: pubsub_go_def ps_round_def)
  moreover have "ps_counts (Suc i) (if w then Suc r else r) (ps_check ?s2)"
    unfolding ps_counts_def chk st2 using st2(4) pos lt(4) ur2 u(1)
    by (simp only: word_le_nat_alt simp_thms)
  ultimately show ?thesis using chk st2 by metis
qed

lemma own_run:
  assumes "ps_counts i r s" and "r \<le> i" and "i + length ws \<le> unat (ps_samples s)"
  shows "\<exists>s'. run_rounds ps_stop pubsub_go (own_rounds (ps_index s) ws) s = Some s' \<and>
    ps_counts (i + length ws) (r + length (filter (\<lambda>w. w) ws)) s' \<and> ps_samples s' = ps_samples s"
  using assms
proof (induction ws arbitrary: i r s)
  case (Cons w ws)
  have i: "i < unat (ps_samples s)" using Cons.prems(3) by simp
  have ns: "\<not> ps_stop s" using Cons.prems(1) i by (simp add: ps_counts_def)
  from own_round[OF Cons.prems(1,2) i, of w] obtain s1 where s1:
    "pubsub_go (True, if w then [[wire (ps_index s + 1)]] else []) w s = Some s1"
    "ps_counts (Suc i) (if w then Suc r else r) s1" "ps_index s1 = ps_index s + 1" "ps_samples s1 = ps_samples s" by blast
  have "(if w then Suc r else r) \<le> Suc i" "Suc i + length ws \<le> unat (ps_samples s1)" using Cons.prems(2,3) s1(4) by auto
  from Cons.IH[OF s1(2) this] obtain s' where "run_rounds ps_stop pubsub_go (own_rounds (ps_index s1) ws) s1 = Some s'"
    "ps_counts (Suc i + length ws) ((if w then Suc r else r) + length (filter (\<lambda>w. w) ws)) s'" "ps_samples s' = ps_samples s1"
    by blast
  with s1 ns show ?case by (cases w) auto
qed auto

lemma idle_rounds:
  assumes "\<not> ps_stop s" and "ps_samples s > 0" and "ps_samples s \<le> ps_index s" and "ps_received s < ps_samples s"
  shows "run_rounds ps_stop pubsub_go (replicate m ((True, []), w)) s = Some s"
proof (induction m)
  case (Suc m)
  have "\<not> ps_index s < ps_samples s" "\<not> ps_samples s \<le> ps_received s" "ps_samples s \<noteq> 0"
    using assms by (simp_all add: not_less not_le word_gt_0)
  then have "pubsub_go (True, []) w s = Some s"
    by (simp add: pubsub_go_def ps_round_def ps_publish_next_def ps_check_def)
  with Suc assms(1) show ?case by simp
qed simp

text \<open>A \<^verbatim>\<open>pubsub\<close> application that receives its own samples, for a limited number of them, and that DDS loans a sample in
  every round: after as many rounds as
  samples it has stopped exactly when every write was accepted; otherwise it publishes nothing more and no
  number of further rounds ends it.\<close>

theorem pubsub_stops_iff_accepted:
  assumes "parse_cli_options argv = Inr cfg" and "0 < samples cfg" and "0 < peers" and "length ws = nat (samples cfg)"
  shows "\<exists>a s. PubSubApp_ctor d (\<lambda>_. False) cfg = Inr a \<and>
     run_rounds ps_stop pubsub_go (own_rounds 0 ws) (ps_on_publication_matched 1 peers a) = Some s \<and>
     ps_written s = accepted 0 ws \<and> (ps_stop s \<longleftrightarrow> (\<forall>w \<in> set ws. w)) \<and>
     (\<not> (\<forall>w \<in> set ws. w) \<longrightarrow> (\<forall>m w. run_rounds ps_stop pubsub_go (replicate m ((True, []), w)) s = Some s))"
proof -
  from parse_valid[OF assms(1)] have n: "samples cfg \<le> 65535" by (simp add: config_valid_def options_valid_def)
  have u: "unat (word_of_int (samples cfg) :: 32 word) = nat (samples cfg)" using received_word assms(2) n by simp
  obtain a where a: "PubSubApp_ctor d (\<lambda>_. False) cfg = Inr a" "ps_index a = 0" "ps_received a = 0" "ps_written a = []"
    "ps_samples a = word_of_int (samples cfg)" "\<not> ps_stop a"
    by (simp add: PubSubApp_ctor_def create_pubsub_entities_def check_type_def)
  let ?a = "ps_on_publication_matched 1 peers a"
  have A: "ps_index ?a = 0" "ps_received ?a = 0" "ps_written ?a = []" "unat (ps_samples ?a) = nat (samples cfg)" "\<not> ps_stop ?a"
    "0 < ps_matched ?a" using a u assms(3) by (simp_all add: ps_on_publication_matched_def)
  have c: "ps_counts 0 0 ?a" using A assms(2) by (simp add: ps_counts_def)
  from own_run[OF c _, of ws] A(1,4) assms(4) obtain s where s:
    "run_rounds ps_stop pubsub_go (own_rounds 0 ws) ?a = Some s"
    "ps_counts (length ws) (length (filter (\<lambda>w. w) ws)) s" "ps_samples s = ps_samples ?a" by auto
  have "\<exists>s'. run_rounds ps_stop pubsub_go (own_rounds 0 ws) ?a = Some s' \<and> ps_written s' = accepted 0 ws"
    using ps.rounds_send[of ?a "own_rounds 0 ws"] A assms(4) by (auto simp: own_rounds_snd)
  then have w: "ps_written s = accepted 0 ws" using s(1) by simp
  note f = filter_full[of ws]
  have st: "ps_stop s \<longleftrightarrow> (\<forall>w \<in> set ws. w)"
  proof -
    have "ps_stop s \<longleftrightarrow> length ws \<le> length (filter (\<lambda>w. w) ws)"
      using s(2,3) A(4) assms(4) by (simp add: ps_counts_def)
    then show ?thesis unfolding f(2)[symmetric] using f(1) by linarith
  qed
  have idle: "run_rounds ps_stop pubsub_go (replicate m ((True, []), w)) s = Some s" if "\<not> (\<forall>w \<in> set ws. w)" for m w
  proof (rule idle_rounds)
    show "\<not> ps_stop s" using st that by blast
    show "ps_samples s \<le> ps_index s" using s(2,3) A(4) assms(4) by (simp add: ps_counts_def word_le_nat_alt)
    have "length (filter (\<lambda>w. w) ws) < length ws" using f that by linarith
    then show l: "ps_received s < ps_samples s" using s(2,3) A(4) assms(4) by (simp add: ps_counts_def word_less_nat_alt)
    then show "ps_samples s > 0" by (rule le_less_trans[OF word_zero_le])
  qed
  show ?thesis using a(1) s(1) w st idle by blast
qed

definition pubsub_demo :: delivery_mechanisms_config where
  "pubsub_demo = \<lparr>entity = PUBSUB, ignore_local_endpoints = False, samples = 3, domain = 0,
     delivery_mechanism = INTRA_PROCESS, tcp_ip_address = []\<rparr>"

theorem pubsub_stops_iff_accepted_witness:
  "\<exists>a s. PubSubApp_ctor dds_demo (\<lambda>_. False) pubsub_demo = Inr a \<and>
     run_rounds ps_stop pubsub_go (own_rounds 0 [True, False, True]) (ps_on_publication_matched 1 1 a) = Some s \<and>
     ps_written s = [1, 3] \<and> \<not> ps_stop s \<and> run_rounds ps_stop pubsub_go (replicate 100 ((True, []), True)) s = Some s"
proof -
  have "parse_cli_options (''dm'' # show_config pubsub_demo) = Inr pubsub_demo"
    by (rule parse_show) (simp add: config_valid_def options_valid_def pubsub_demo_def is_tcp_def)
  moreover define ws where "ws = [True, False, True]"
  have ws: "length ws = nat (samples pubsub_demo)" "\<not> (\<forall>w \<in> set ws. w)" and n: "0 < samples pubsub_demo" "0 < (1::int)"
    by (simp_all add: ws_def pubsub_demo_def)
  have acc: "accepted 0 ws = [1, 3]" by (simp add: ws_def)
  ultimately obtain a s where "PubSubApp_ctor dds_demo (\<lambda>_. False) pubsub_demo = Inr a"
    "run_rounds ps_stop pubsub_go (own_rounds 0 ws) (ps_on_publication_matched 1 1 a) = Some s"
    "ps_written s = accepted 0 ws" "\<not> ps_stop s" "\<forall>m w. run_rounds ps_stop pubsub_go (replicate m ((True, []), w)) s = Some s"
    using pubsub_stops_iff_accepted[OF _ n ws(1), of _ dds_demo] ws(2) by blast
  then show ?thesis unfolding acc[symmetric] unfolding ws_def by blast
qed

end
