(* ===== verification/Throughput_Listener.thy ===== *)
theory Throughput_Listener
  imports Prelude
begin

text \<open>
  The sample counters of \<^verbatim>\<open>ThroughputSubscriber::DataReaderListener\<close> (\<^verbatim>\<open>ThroughputSubscriber.cpp\<close> in
  \<^verbatim>\<open>src/other/pubsub/dds/performance/throughout\<close>), with both ways to take samples: one loan for all unread samples,
  or one copy after the other. What the reader returns is the argument of the callback. The locale
  \<open>sample_counter\<close> is the contract of a callback; both ways satisfy it.
\<close>

text \<open>A sample as the reader returns it: the sequence number found in memory, whether \<^verbatim>\<open>is_sample_valid\<close> says that the
  loaned memory still holds it, and the flag \<^verbatim>\<open>valid_data\<close> of its info.\<close>

record sample =
  seq :: "32 word"
  is_sample_valid :: bool
  valid_data :: bool

record DataReaderListener =
  last_seq_num :: "32 word"
  lost_samples :: "32 word"
  received_samples :: "64 word"
  matched :: int
  enable :: bool
  saved_last_seq_num :: "32 word"
  saved_lost_samples :: "32 word"
  saved_received_samples :: "64 word"

definition listener_reset :: "DataReaderListener \<Rightarrow> DataReaderListener" where
  "listener_reset L = L\<lparr>last_seq_num := 0, lost_samples := 0, received_samples := 0, matched := 0, enable := True\<rparr>"

definition listener_disable :: "DataReaderListener \<Rightarrow> DataReaderListener" where
  "listener_disable L = L\<lparr>enable := False\<rparr>"

definition on_subscription_matched :: "int \<Rightarrow> DataReaderListener \<Rightarrow> DataReaderListener" where
  "on_subscription_matched total_count L = L\<lparr>matched := total_count\<rparr>"

definition save_numbers :: "DataReaderListener \<Rightarrow> DataReaderListener" where
  "save_numbers L = L\<lparr>saved_last_seq_num := last_seq_num L, saved_lost_samples := lost_samples L,
     saved_received_samples := received_samples L\<rparr>"

fun loan_loop :: "sample list \<Rightarrow> 32 word \<Rightarrow> DataReaderListener \<Rightarrow> 32 word \<times> DataReaderListener" where
  "loan_loop [] last_num L = (last_num, L)"
| "loan_loop (s # ss) last_num L =
     (let seq_num = max (seq s) last_num
      in if seq_num > last_num + 1 \<and> \<not> is_sample_valid s
         then loan_loop ss (last_num + 1) (L\<lparr>lost_samples := lost_samples L + 1\<rparr>)
         else loan_loop ss seq_num (L\<lparr>received_samples := received_samples L + 1\<rparr>))"

definition take_loans :: "sample list \<Rightarrow> DataReaderListener \<Rightarrow> DataReaderListener" where
  "take_loans ss L =
     (let n = word_of_nat (length ss);
          (last_num, L1) = loan_loop ss (last_seq_num L) L;
          L2 = (if last_seq_num L + n < last_num
                then L1\<lparr>lost_samples := lost_samples L1 + (last_num - last_seq_num L - n)\<rparr> else L1)
      in L2\<lparr>last_seq_num := last_num\<rparr>)"

fun take_copies :: "sample list \<Rightarrow> DataReaderListener \<Rightarrow> DataReaderListener" where
  "take_copies [] L = L"
| "take_copies (s # ss) L =
     (if valid_data s then
        let L1 = (if last_seq_num L + 1 < seq s
                  then L\<lparr>lost_samples := lost_samples L + (seq s - last_seq_num L - 1)\<rparr> else L)
        in take_copies ss (L1\<lparr>last_seq_num := seq s, received_samples := received_samples L1 + 1\<rparr>)
      else take_copies ss L)"

text \<open>\<open>None\<close>: \<^verbatim>\<open>take\<close> fails.\<close>

definition on_data_available :: "bool \<Rightarrow> sample list option \<Rightarrow> DataReaderListener \<Rightarrow> DataReaderListener" where
  "on_data_available data_loans taken L =
     (if \<not> enable L then L
      else case taken of None \<Rightarrow> L
        | Some ss \<Rightarrow> if data_loans then take_loans ss L else take_copies ss L)"

section \<open>What the counters should say\<close>

text \<open>\<open>q\<close> is the number the publisher gave the sample. A loaned sample that was overridden shows the number of a later
  one; a sample without data shows anything.\<close>

definition carries :: "bool \<Rightarrow> nat \<Rightarrow> sample \<Rightarrow> bool" where
  "carries data_loans q s =
     (if data_loans then (if is_sample_valid s then unat (seq s) = q else q < unat (seq s))
      else \<not> valid_data s \<or> unat (seq s) = q)"

definition good :: "bool \<Rightarrow> sample \<Rightarrow> bool" where
  "good data_loans s = (if data_loans then is_sample_valid s else valid_data s)"

fun numbered :: "bool \<Rightarrow> nat \<Rightarrow> nat list \<Rightarrow> sample list \<Rightarrow> bool" where
  "numbered lo n [] [] = True"
| "numbered lo n (q # qs) (s # ss) = (n < q \<and> q < 4294967295 \<and> carries lo q s \<and> numbered lo q qs ss)"
| "numbered lo n qs ss = False"

definition accounted :: "nat \<Rightarrow> DataReaderListener \<Rightarrow> bool" where
  "accounted n L \<longleftrightarrow> unat (received_samples L) + unat (lost_samples L) = unat (last_seq_num L) \<and>
     unat (last_seq_num L) \<le> n"

lemma accounted_reset [simp]: "accounted n (listener_reset L)"
  by (simp add: accounted_def listener_reset_def)

lemma accounted_mono: "accounted m L \<Longrightarrow> m \<le> n \<Longrightarrow> accounted n L"
  by (simp add: accounted_def)

lemma numbered_last: "numbered lo n qs ss \<Longrightarrow> n \<le> last (n # qs)"
  by (induction lo n qs ss rule: numbered.induct) auto

lemma numbered_length: "numbered lo n qs ss \<Longrightarrow> length qs = length ss"
  by (induction lo n qs ss rule: numbered.induct) auto

lemma numbered_append:
  assumes "numbered lo n qs (ss @ ts)"
  obtains qs1 qs2 where "qs = qs1 @ qs2" and "numbered lo n qs1 ss" and "numbered lo (last (n # qs1)) qs2 ts"
proof -
  have "\<exists>qs1 qs2. qs = qs1 @ qs2 \<and> numbered lo n qs1 ss \<and> numbered lo (last (n # qs1)) qs2 ts"
    using assms
  proof (induction ss arbitrary: n qs)
    case Nil
    then show ?case by (intro exI[of _ "[]"] exI[of _ qs]) simp
  next
    case (Cons s ss)
    then obtain q qs' where q: "qs = q # qs'" "n < q" "q < 4294967295" "carries lo q s" "numbered lo q qs' (ss @ ts)"
      by (cases qs) auto
    from Cons.IH[OF q(5)] obtain qs1 qs2 where
      "qs' = qs1 @ qs2" "numbered lo q qs1 ss" "numbered lo (last (q # qs1)) qs2 ts" by blast
    then show ?case using q by (intro exI[of _ "q # qs1"] exI[of _ qs2]) auto
  qed
  then show thesis using that by blast
qed

text \<open>Words that stay small.\<close>

lemma unat_add_small: "unat x + k < 2 ^ LENGTH('a) \<Longrightarrow> unat (x + word_of_nat k) = unat (x :: 'a::len word) + k"
  by (simp add: unat_word_ariths unat_of_nat take_bit_nat_eq_self mod_simps)

lemma unat_plus_small: "unat x + unat y < 2 ^ LENGTH('a) \<Longrightarrow> unat (x + y) = unat (x :: 'a::len word) + unat y"
  using unat_add_small[of x "unat y"] by simp

lemma unat_Suc_small: "unat x + 1 < 2 ^ LENGTH('a) \<Longrightarrow> unat (x + 1) = unat (x :: 'a::len word) + 1"
  using unat_add_small[of x 1] by simp

lemma unat_max: "unat (max x y) = max (unat x) (unat (y :: 'a::len word))"
  by (simp add: max_def word_le_nat_alt)

definition untouched :: "DataReaderListener \<Rightarrow> DataReaderListener \<Rightarrow> bool" where
  "untouched L L' \<longleftrightarrow> enable L' = enable L \<and> matched L' = matched L \<and> saved_last_seq_num L' = saved_last_seq_num L \<and>
     saved_lost_samples L' = saved_lost_samples L \<and> saved_received_samples L' = saved_received_samples L"

lemma untouched_refl [simp]: "untouched L L"
  by (simp add: untouched_def)

lemma loan_loop_counts:
  assumes "loan_loop ss l L = (l', L')" and "numbered True n qs ss" and "unat l \<le> n" and "n < 4294967295"
    and "unat (received_samples L) + unat (lost_samples L) \<le> unat l"
  shows "unat (received_samples L') = unat (received_samples L) + length (filter (good True) ss) \<and>
    unat (lost_samples L') = unat (lost_samples L) + length (filter (Not \<circ> good True) ss) \<and>
    unat l + length ss \<le> unat l' \<and> unat l' \<le> last (n # qs) \<and> last (n # qs) < 4294967295 \<and>
    (ss \<noteq> [] \<and> good True (last ss) \<longrightarrow> unat l' = last (n # qs)) \<and> last_seq_num L' = last_seq_num L \<and> untouched L L'"
  using assms
proof (induction ss arbitrary: l L n qs)
  case (Cons s ss)
  from Cons.prems(2) obtain q qs' where q: "qs = q # qs'" "n < q" "q < 4294967295" "carries True q s" "numbered True q qs' ss"
    by (cases qs) auto
  have l1: "unat (l + 1) = unat l + 1" using Cons.prems(3) q(2,3) by (intro unat_Suc_small) simp
  have less: "x > l + 1 \<longleftrightarrow> unat x > unat l + 1" for x using l1 by (simp add: word_less_nat_alt)
  show ?case
  proof (cases "is_sample_valid s")
    case True
    then have s: "unat (seq s) = q" "good True s" using q(4) by (simp_all add: carries_def good_def)
    then have m: "unat (max (seq s) l) = q" using q(2) Cons.prems(3) by (simp add: unat_max)
    let ?L = "L\<lparr>received_samples := received_samples L + 1\<rparr>"
    have r: "unat (received_samples L + 1) = unat (received_samples L) + 1"
      using Cons.prems(3,4,5) by (intro unat_Suc_small) simp
    have "loan_loop ss (max (seq s) l) ?L = (l', L')" using Cons.prems(1) True by (simp add: Let_def)
    from Cons.IH[OF this q(5)] m q(2,3) Cons.prems(3,5) r s(2) q(1) numbered_length[OF q(5)] show ?thesis
      by (auto simp: untouched_def)
  next
    case False
    then have s: "q < unat (seq s)" "\<not> good True s" using q(4) by (simp_all add: carries_def good_def)
    then have m: "max (seq s) l > l + 1" using q(2) Cons.prems(3) by (simp add: less unat_max)
    let ?L = "L\<lparr>lost_samples := lost_samples L + 1\<rparr>"
    have r: "unat (lost_samples L + 1) = unat (lost_samples L) + 1"
      using Cons.prems(3,4,5) by (intro unat_Suc_small) simp
    have "loan_loop ss (l + 1) ?L = (l', L')" using Cons.prems(1) False m by (simp add: Let_def)
    from Cons.IH[OF this q(5)] l1 q(2,3) Cons.prems(3,5) r s(2) q(1) numbered_length[OF q(5)] show ?thesis
      by (auto simp: untouched_def)
  qed
qed (auto dest: numbered_length)


lemma take_loans_counts:
  assumes "numbered True n qs ss" and "accounted n L" and "n < 4294967295"
  shows "accounted (last (n # qs)) (take_loans ss L) \<and> untouched L (take_loans ss L) \<and>
    unat (received_samples (take_loans ss L)) = unat (received_samples L) + length (filter (good True) ss) \<and>
    (ss \<noteq> [] \<and> good True (last ss) \<longrightarrow> unat (last_seq_num (take_loans ss L)) = last (n # qs))"
proof -
  obtain l' L' where ll: "loan_loop ss (last_seq_num L) L = (l', L')" by fastforce
  let ?l = "last_seq_num L"
  from assms(2) have a: "unat (received_samples L) + unat (lost_samples L) = unat ?l" "unat ?l \<le> n"
    by (simp_all add: accounted_def)
  note c = loan_loop_counts[OF ll assms(1) a(2) assms(3) eq_refl[OF a(1)]]
  have len: "length (filter (good True) ss) + length (filter (Not \<circ> good True) ss) = length ss"
    using sum_length_filter_compl[of "good True" ss] by (simp add: comp_def)
  have n: "unat (?l + word_of_nat (length ss)) = unat ?l + length ss"
    using c by (intro unat_add_small) simp
  have lt: "?l + word_of_nat (length ss) < l' \<longleftrightarrow> unat ?l + length ss < unat l'" by (simp add: word_less_nat_alt n)
  show ?thesis
  proof (cases "unat ?l + length ss < unat l'")
    case True
    have e: "l' - ?l - word_of_nat (length ss) = l' - (?l + word_of_nat (length ss))" by simp
    have d: "unat (l' - ?l - word_of_nat (length ss)) = unat l' - (unat ?l + length ss)"
      unfolding e using True n by (subst unat_sub) (simp_all add: word_le_nat_alt)
    have b: "unat (lost_samples L') + (unat l' - (unat ?l + length ss)) < 2 ^ 32"
    proof -
      have "unat (lost_samples L') + (unat l' - (unat ?l + length ss)) \<le> unat l'"
        using c len a(1) True by (elim conjE) linarith
      moreover have "unat l' < 4294967295" using c by (elim conjE) linarith
      ultimately show ?thesis by simp
    qed
    have "unat (lost_samples L' + (l' - ?l - word_of_nat (length ss)))
        = unat (lost_samples L') + (unat l' - (unat ?l + length ss))"
      unfolding d[symmetric] by (rule unat_plus_small) (use b d in simp)
    then show ?thesis using ll True lt c len a(1)
      by (auto simp: take_loans_def accounted_def untouched_def)
  next
    case False
    then show ?thesis using ll lt c len a(1)
      by (auto simp: take_loans_def accounted_def untouched_def)
  qed
qed

lemma take_copies_counts:
  assumes "numbered False n qs ss" and "accounted n L" and "n < 4294967295"
  shows "accounted (last (n # qs)) (take_copies ss L) \<and> untouched L (take_copies ss L) \<and>
    unat (received_samples (take_copies ss L)) = unat (received_samples L) + length (filter (good False) ss) \<and>
    (ss \<noteq> [] \<and> good False (last ss) \<longrightarrow> unat (last_seq_num (take_copies ss L)) = last (n # qs))"
  using assms
proof (induction ss arbitrary: L n qs)
  case (Cons s ss)
  from Cons.prems(1) obtain q qs' where q: "qs = q # qs'" "n < q" "q < 4294967295" "carries False q s" "numbered False q qs' ss"
    by (cases qs) auto
  note len = numbered_length[OF q(5)]
  from Cons.prems(2) have a: "unat (received_samples L) + unat (lost_samples L) = unat (last_seq_num L)"
      "unat (last_seq_num L) \<le> n" by (simp_all add: accounted_def)
  show ?case
  proof (cases "valid_data s")
    case False
    have "accounted q L" using Cons.prems(2) q(2) by (simp add: accounted_def)
    from Cons.IH[OF q(5) this q(3)] False q(1) len show ?thesis by (auto simp: good_def)
  next
    case True
    then have s: "unat (seq s) = q" using q(4) by (simp add: carries_def)
    let ?l = "last_seq_num L"
    let ?L1 = "if ?l + 1 < seq s then L\<lparr>lost_samples := lost_samples L + (seq s - ?l - 1)\<rparr> else L"
    let ?L2 = "?L1\<lparr>last_seq_num := seq s, received_samples := received_samples ?L1 + 1\<rparr>"
    have l1: "unat (?l + 1) = unat ?l + 1" using a(2) q(2,3) by (intro unat_Suc_small) simp
    have r1: "unat (received_samples L + 1) = unat (received_samples L) + 1"
      using a q(2,3) by (intro unat_Suc_small) simp
    have "accounted q ?L2"
    proof (cases "?l + 1 < seq s")
      case True
      have d: "unat (seq s - ?l - 1) = q - (unat ?l + 1)"
        unfolding diff_diff_eq by (subst unat_sub) (use True l1 s in \<open>simp_all add: less_imp_le\<close>)
      have "unat (lost_samples L + (seq s - ?l - 1)) = unat (lost_samples L) + (q - (unat ?l + 1))"
        unfolding d[symmetric] by (rule unat_plus_small) (use d a q in simp)
      then show ?thesis using True a r1 s l1 q(2) by (simp add: accounted_def word_less_nat_alt)
    next
      case False
      then show ?thesis using a r1 s l1 q(2) by (simp add: accounted_def word_less_nat_alt)
    qed
    from Cons.IH[OF q(5) this q(3)] True r1 s q(1) len show ?thesis
      by (auto simp: good_def untouched_def Let_def)
  qed
qed (auto dest: numbered_length)

section \<open>The contract of a callback\<close>

locale sample_counter =
  fixes callback :: "sample list \<Rightarrow> DataReaderListener \<Rightarrow> DataReaderListener" and lo :: bool
  assumes counts: "enable L \<Longrightarrow> accounted n L \<Longrightarrow> numbered lo n qs ss \<Longrightarrow> n < 4294967295 \<Longrightarrow>
      accounted (last (n # qs)) (callback ss L) \<and> untouched L (callback ss L) \<and>
      unat (received_samples (callback ss L)) = unat (received_samples L) + length (filter (good lo) ss) \<and>
      (ss \<noteq> [] \<and> good lo (last ss) \<longrightarrow> unat (last_seq_num (callback ss L)) = last (n # qs))"
    and disabled: "\<not> enable L \<Longrightarrow> callback ss L = L"
    and empty: "callback [] L = L"
begin

lemma numbered_below: "numbered lo n qs ss \<Longrightarrow> n < 4294967295 \<Longrightarrow> last (n # qs) < 4294967295"
  by (induction lo n qs ss rule: numbered.induct) auto

text \<open>Callbacks of one test, each with the samples it finds.\<close>

lemma callbacks_count:
  assumes "numbered lo n qs (concat sss)" and "enable L" and "accounted n L" and "n < 4294967295"
  shows "accounted (last (n # qs)) (fold callback sss L) \<and> untouched L (fold callback sss L) \<and>
    unat (received_samples (fold callback sss L)) = unat (received_samples L) + length (filter (good lo) (concat sss))"
  using assms
proof (induction sss arbitrary: n qs L)
  case Nil
  then show ?case by (auto dest: numbered_length)
next
  case (Cons ss sss)
  from Cons.prems(1) obtain qs1 qs2 where q: "qs = qs1 @ qs2" "numbered lo n qs1 ss"
      "numbered lo (last (n # qs1)) qs2 (concat sss)" by (auto elim: numbered_append)
  note c = counts[OF Cons.prems(2,3) q(2) Cons.prems(4)]
  then have e: "enable (callback ss L)" using Cons.prems(2) by (simp add: untouched_def)
  from Cons.IH[OF q(3) e _ numbered_below[OF q(2) Cons.prems(4)]] c show ?case
    by (auto simp: untouched_def q(1) last_append split: if_splits)
qed

lemma callbacks_last:
  assumes "numbered lo n qs (concat sss)" and "enable L" and "accounted n L" and "n < 4294967295"
    and "list_all (good lo) (concat sss)" and "unat (last_seq_num L) = n"
  shows "unat (last_seq_num (fold callback sss L)) = last (n # qs)"
  using assms
proof (induction sss arbitrary: n qs L)
  case Nil
  then show ?case by (auto dest: numbered_length)
next
  case (Cons ss sss)
  from Cons.prems(1) obtain qs1 qs2 where q: "qs = qs1 @ qs2" "numbered lo n qs1 ss"
      "numbered lo (last (n # qs1)) qs2 (concat sss)" by (auto elim: numbered_append)
  note c = counts[OF Cons.prems(2,3) q(2) Cons.prems(4)]
  then have e: "enable (callback ss L)" using Cons.prems(2) by (simp add: untouched_def)
  have g: "list_all (good lo) (concat sss)" "ss \<noteq> [] \<longrightarrow> good lo (last ss)"
    using Cons.prems(5) by (auto simp: list_all_iff)
  have l: "unat (last_seq_num (callback ss L)) = last (n # qs1)"
  proof (cases "ss = []")
    case True
    then show ?thesis using numbered_length[OF q(2)] empty Cons.prems(6) by simp
  next
    case False
    then show ?thesis using c g(2) by blast
  qed
  from Cons.IH[OF q(3) e _ numbered_below[OF q(2) Cons.prems(4)] g(1) l] c show ?case
    by (auto simp: q(1) last_append split: if_splits)
qed

end

interpretation counter: sample_counter "\<lambda>ss. on_data_available lo (Some ss)" lo for lo
proof (cases lo)
  case True
  then show "sample_counter (\<lambda>ss. on_data_available lo (Some ss)) lo"
    by unfold_locales (auto simp: on_data_available_def take_loans_def dest: take_loans_counts)
next
  case False
  then show "sample_counter (\<lambda>ss. on_data_available lo (Some ss)) lo"
    by unfold_locales (auto simp: on_data_available_def dest: take_copies_counts)
qed

section \<open>Properties\<close>

text \<open>The callbacks of one test, from the reset on.\<close>

definition one_test :: "bool \<Rightarrow> sample list list \<Rightarrow> DataReaderListener \<Rightarrow> DataReaderListener" where
  "one_test data_loans sss L = fold (\<lambda>ss. on_data_available data_loans (Some ss)) sss (listener_reset L)"

lemma enable_reset [simp]: "enable (listener_reset L)"
  by (simp add: listener_reset_def)

lemma one_test_counts:
  assumes "numbered lo 0 qs (concat sss)"
  shows "accounted (last (0 # qs)) (one_test lo sss L) \<and> untouched (listener_reset L) (one_test lo sss L) \<and>
    unat (received_samples (one_test lo sss L)) = length (filter (good lo) (concat sss))"
  using counter.callbacks_count[OF assms enable_reset accounted_reset]
  by (simp add: one_test_def) (simp add: listener_reset_def)

lemma numbered_copies:
  "numbered True n qs ss \<Longrightarrow> list_all (\<lambda>s. is_sample_valid s \<and> valid_data s) ss \<Longrightarrow> numbered False n qs ss"
proof (induction ss arbitrary: n qs)
  case Nil
  then show ?case by (cases qs) auto
next
  case (Cons s ss)
  then show ?case by (cases qs) (auto simp: carries_def)
qed

lemma listener_eqI:
  assumes "untouched L A" and "untouched L B" and "unat (last_seq_num A) = unat (last_seq_num B)"
    and "unat (lost_samples A) = unat (lost_samples B)" and "unat (received_samples A) = unat (received_samples B)"
  shows "A = B"
  using assms by (cases A; cases B) (auto simp: untouched_def intro: word_unat_eq_iff[THEN iffD2])

text \<open>C10: In one test whose samples arrive in the order in which they were sent, however they are spread over callbacks. The
  publisher's numbers of the samples that arrive (\<open>qs\<close>) increase and stay below \<open>2 ^ 32 - 1\<close>; a copy with valid data shows the
  number of its own sample; a loaned sample shows its own number, or the number of a later sample when the memory was
  overridden, which \<^verbatim>\<open>is_sample_valid\<close> then says. Received and lost samples add up to the last sequence number, which is never
  beyond the last sample that arrived, and is that one's when no data was missing; received counts, with loans, exactly the
  samples that were not overridden, and with copies exactly those with valid data. (A sample that arrives behind a later one
  can break this: \<open>late_sample_counts_gap_again\<close>.)\<close>

theorem throughput_counts_account:
  assumes "numbered data_loans 0 qs (concat sss)"
  shows "unat (received_samples (one_test data_loans sss L)) + unat (lost_samples (one_test data_loans sss L))
      = unat (last_seq_num (one_test data_loans sss L)) \<and>
    unat (last_seq_num (one_test data_loans sss L)) \<le> last (0 # qs) \<and>
    unat (received_samples (one_test data_loans sss L)) = length (filter (good data_loans) (concat sss)) \<and>
    (list_all (good data_loans) (concat sss) \<longrightarrow> unat (last_seq_num (one_test data_loans sss L)) = last (0 # qs))"
proof -
  have "unat (last_seq_num (one_test data_loans sss L)) = last (0 # qs)" if "list_all (good data_loans) (concat sss)"
    unfolding one_test_def
    by (rule counter.callbacks_last[OF assms _ _ _ that]) (simp_all add: listener_reset_def accounted_def)
  then show ?thesis using one_test_counts[OF assms, of L] by (simp add: accounted_def)
qed

text \<open>Four samples of which the second is overridden by the tenth.\<close>

definition example_listener :: DataReaderListener where
  "example_listener = \<lparr>last_seq_num = 7, lost_samples = 7, received_samples = 7, matched = 1, enable = False,
     saved_last_seq_num = 0, saved_lost_samples = 0, saved_received_samples = 0\<rparr>"

definition example_samples :: "sample list list" where
  "example_samples = [[\<lparr>seq = 1, is_sample_valid = True, valid_data = True\<rparr>, \<lparr>seq = 10, is_sample_valid = False, valid_data = True\<rparr>],
     [\<lparr>seq = 4, is_sample_valid = True, valid_data = True\<rparr>, \<lparr>seq = 7, is_sample_valid = True, valid_data = True\<rparr>]]"

lemma throughput_counts_account_witness:
  "unat (received_samples (one_test True example_samples example_listener)) = 3 \<and>
   unat (received_samples (one_test True example_samples example_listener)) +
     unat (lost_samples (one_test True example_samples example_listener))
   = unat (last_seq_num (one_test True example_samples example_listener))"
proof -
  have "numbered True 0 [1, 2, 4, 7] (concat example_samples)" by (simp add: example_samples_def carries_def)
  from throughput_counts_account[OF this, of example_listener] show ?thesis by (simp add: example_samples_def good_def)
qed

text \<open>C11: For samples that arrive in order, with numbers below \<open>2 ^ 32 - 1\<close>, and with their data intact, the loaning and the copying subscriber end
  with the same counters, however each of them spreads the samples over callbacks.\<close>

theorem throughput_modes_agree:
  assumes "numbered True 0 qs (concat sss)" and "list_all (\<lambda>s. is_sample_valid s \<and> valid_data s) (concat sss)"
    and "concat tss = concat sss"
  shows "one_test True sss L = one_test False tss L"
proof -
  have nf: "numbered False 0 qs (concat tss)"
    unfolding assms(3) using assms(1,2) by (rule numbered_copies)
  have g: "list_all (good lo) (concat sss)" for lo
    using assms(2) by (auto simp: list_all_iff good_def)
  have n: "numbered lo 0 qs (concat (if lo then sss else tss))" for lo
    using assms(1) nf by simp
  have l: "unat (last_seq_num (one_test lo (if lo then sss else tss) L)) = last (0 # qs)" for lo
    unfolding one_test_def
    by (rule counter.callbacks_last[OF n]) (use g[of True] g[of False] assms(3) in \<open>simp_all add: listener_reset_def accounted_def\<close>)
  have c: "accounted (last (0 # qs)) (one_test lo (if lo then sss else tss) L) \<and>
      untouched (listener_reset L) (one_test lo (if lo then sss else tss) L) \<and>
      unat (received_samples (one_test lo (if lo then sss else tss) L)) = length (concat sss)" for lo
  proof -
    have "filter (good lo) (concat (if lo then sss else tss)) = concat sss"
      using g[of True] g[of False] assms(3) by (simp add: filter_id_conv list_all_iff)
    then show ?thesis using one_test_counts[OF n, of lo L] by simp
  qed
  show ?thesis
    using l[of True] l[of False] c[of True] c[of False]
    by (intro listener_eqI[of "listener_reset L"]) (simp_all add: accounted_def)
qed

lemma throughput_modes_agree_witness:
  "one_test True [[\<lparr>seq = 1, is_sample_valid = True, valid_data = True\<rparr>],
       [\<lparr>seq = 3, is_sample_valid = True, valid_data = True\<rparr>, \<lparr>seq = 9, is_sample_valid = True, valid_data = True\<rparr>]] example_listener
   = one_test False [[\<lparr>seq = 1, is_sample_valid = True, valid_data = True\<rparr>,
       \<lparr>seq = 3, is_sample_valid = True, valid_data = True\<rparr>, \<lparr>seq = 9, is_sample_valid = True, valid_data = True\<rparr>]] example_listener"
  by (rule throughput_modes_agree[of "[1, 3, 9]"]) (simp_all add: carries_def)

text \<open>Where the modes differ: a sample that arrives behind a later one takes the copying subscriber's last number back,
  so that the same gap is counted again, and a loaned sample without data is counted as received.\<close>

lemma late_sample_counts_gap_again:
  "unat (lost_samples (one_test False [[\<lparr>seq = 3, is_sample_valid = True, valid_data = True\<rparr>,
       \<lparr>seq = 1, is_sample_valid = True, valid_data = True\<rparr>, \<lparr>seq = 4, is_sample_valid = True, valid_data = True\<rparr>]] L)) = 4"
  by (simp add: one_test_def listener_reset_def on_data_available_def)

lemma loan_without_data_is_received:
  "received_samples (one_test True [[\<lparr>seq = 1, is_sample_valid = True, valid_data = False\<rparr>]] L) = 1 \<and>
   received_samples (one_test False [[\<lparr>seq = 1, is_sample_valid = True, valid_data = False\<rparr>]] L) = 0"
  by (simp add: one_test_def listener_reset_def on_data_available_def take_loans_def)

end
