(* ===== verification/Bytes.thy ===== *)
theory Bytes
  imports Prelude
begin

text \<open>
  Raw memory as the serializers of \<^verbatim>\<open>src/other/pubsub/dds/performance\<close> use it: little-endian bytes of a word and
  checked \<^verbatim>\<open>memcpy\<close> into and out of a buffer, with the round trips the component proofs rest on. The locale
  \<open>wire_type\<close> is the contract of a DDS data type: what is serialized into a payload is read back from it.
\<close>

unbundle bit_operations_syntax

type_synonym bytes = "8 word list"

definition le_bytes :: "nat \<Rightarrow> 'a::len word \<Rightarrow> bytes" where
  "le_bytes n w = map (\<lambda>i. ucast (drop_bit (8 * i) w)) [0..<n]"

fun le_word :: "bytes \<Rightarrow> 'a::len word" where
  "le_word [] = 0"
| "le_word (b # bs) = ucast b OR push_bit 8 (le_word bs)"

lemma length_le_bytes [simp]: "length (le_bytes n w) = n"
  by (simp add: le_bytes_def)

lemma bit_le_word:
  "bit (le_word bs :: 'a::len word) j \<longleftrightarrow> j < LENGTH('a) \<and> j div 8 < length bs \<and> bit (bs ! (j div 8)) (j mod 8)"
proof (induction bs arbitrary: j)
  case (Cons b bs)
  show ?case
  proof (cases "j < 8")
    case True
    then show ?thesis by (auto simp: bit_simps)
  next
    case False
    then have "j div 8 = Suc ((j - 8) div 8)" "(j - 8) mod 8 = j mod 8" by (simp_all add: le_div_geq le_mod_geq)
    moreover have "\<not> bit b j" using False bit_imp_le_length[of b j] by auto
    ultimately show ?thesis using False Cons[of "j - 8"] by (auto simp: bit_simps)
  qed
qed simp

lemma le_word_bytes: "8 * n = LENGTH('a) \<Longrightarrow> le_word (le_bytes n w) = (w :: 'a::len word)"
  by (rule bit_word_eqI) (auto simp: bit_le_word le_bytes_def bit_simps less_mult_imp_div_less mult.commute)

lemma le_word_bytes32 [simp]: "le_word (le_bytes 4 w) = (w :: 32 word)"
  by (rule le_word_bytes) simp

lemma le_word_bytes64 [simp]: "le_word (le_bytes 8 w) = (w :: 64 word)"
  by (rule le_word_bytes) simp

section \<open>memcpy\<close>

definition put :: "nat \<Rightarrow> bytes \<Rightarrow> bytes \<Rightarrow> bytes result" where
  "put off bs buf = (if off + length bs \<le> length buf
     then Inr (take off buf @ bs @ drop (off + length bs) buf) else Inl OutOfBounds)"

definition get :: "nat \<Rightarrow> nat \<Rightarrow> bytes \<Rightarrow> bytes result" where
  "get off n buf = (if off + n \<le> length buf then Inr (take n (drop off buf)) else Inl OutOfBounds)"

lemma put_ok: "off + length bs \<le> length buf \<Longrightarrow>
    \<exists>b. put off bs buf = Inr b \<and> length b = length buf \<and> take (off + length bs) b = take off buf @ bs"
  by (cases bs) (auto simp: put_def min_def)

lemma put_out: "length buf < off + length bs \<Longrightarrow> put off bs buf = Inl OutOfBounds"
  by (simp add: put_def)

lemma get_prefix: "take m b = p \<Longrightarrow> m \<le> length b \<Longrightarrow> off + n \<le> m \<Longrightarrow> get off n b = Inr (take n (drop off p))"
  by (auto simp: get_def drop_take min_def)

text \<open>A row of writes, one behind the other.\<close>

fun put_all :: "nat \<Rightarrow> bytes list \<Rightarrow> bytes \<Rightarrow> bytes result" where
  "put_all off [] buf = Inr buf"
| "put_all off (bs # bss) buf = rbind (put off bs buf) (put_all (off + length bs) bss)"

lemma put_all_ok:
  assumes "off + length (concat bss) \<le> length buf"
  shows "\<exists>b. put_all off bss buf = Inr b \<and> length b = length buf \<and>
    take (off + length (concat bss)) b = take off buf @ concat bss"
  using assms
proof (induction bss arbitrary: off buf)
  case (Cons bs bss)
  from put_ok[of off bs buf] Cons.prems obtain b1 where
    b1: "put off bs buf = Inr b1" "length b1 = length buf" "take (off + length bs) b1 = take off buf @ bs" by auto
  from Cons.IH[of "off + length bs" b1] Cons.prems b1(2) obtain b where
    "put_all (off + length bs) bss b1 = Inr b" "length b = length b1"
    "take (off + length bs + length (concat bss)) b = take (off + length bs) b1 @ concat bss" by auto
  with b1 show ?case by (auto simp: add.assoc)
qed simp

section \<open>The contract of a data type\<close>

locale wire_type =
  fixes ser :: "'d \<Rightarrow> bytes \<Rightarrow> (bytes \<times> nat) result"
    and deser :: "nat \<Rightarrow> bytes \<Rightarrow> 'd \<Rightarrow> 'd result"
    and valid :: "'d \<Rightarrow> bool"
    and same :: "'d \<Rightarrow> 'd \<Rightarrow> bool"
    and capacity :: nat
  assumes ser_deser: "valid d \<Longrightarrow> valid d0 \<Longrightarrow> capacity \<le> length buf \<Longrightarrow>
      \<exists>b n d'. ser d buf = Inr (b, n) \<and> length b = length buf \<and> n \<le> capacity \<and>
        deser n b d0 = Inr d' \<and> valid d' \<and> same d d'"
begin

text \<open>Samples that go through one payload buffer into one receiving object, one after the other.\<close>

fun transmit :: "'d list \<Rightarrow> bytes \<Rightarrow> 'd \<Rightarrow> 'd list result" where
  "transmit [] buf d0 = Inr []"
| "transmit (d # ds) buf d0 =
     rbind (ser d buf) (\<lambda>(b, n). rbind (deser n b d0) (\<lambda>d'. rbind (transmit ds b d') (\<lambda>r. Inr (d' # r))))"

lemma transmit_same:
  assumes "\<forall>d \<in> set ds. valid d" and "valid d0" and "capacity \<le> length buf"
  shows "\<exists>r. transmit ds buf d0 = Inr r \<and> list_all2 same ds r"
  using assms
proof (induction ds arbitrary: buf d0)
  case (Cons d ds)
  then have v: "valid d" "\<forall>x \<in> set ds. valid x" by auto
  from ser_deser[OF v(1) Cons.prems(2,3)] obtain b n d' where
    s: "ser d buf = Inr (b, n)" "length b = length buf" "deser n b d0 = Inr d'" "valid d'" "same d d'" by blast
  have "capacity \<le> length b" using Cons.prems(3) s(2) by simp
  from Cons.IH[OF v(2) s(4) this] s show ?case by auto
qed simp

end

section \<open>Sizes\<close>

text \<open>\<^verbatim>\<open>(size + 3) & ~3\<close> rounds up to a multiple of four.\<close>

lemma and_not_3:
  fixes x :: "'a::len word"
  assumes "2 < LENGTH('a)"
  shows "unat (x AND NOT 3) = unat x div 4 * 4"
proof -
  have m: "(3 :: 'a word) = mask 2" by (simp add: mask_eq_exp_minus_1)
  have s: "2 \<le> n \<Longrightarrow> Suc (Suc (n - 2)) = n" for n by arith
  have "x AND NOT 3 = push_bit 2 (drop_bit 2 x)"
    unfolding m by (rule bit_word_eqI) (auto simp: bit_simps s)
  moreover have "unat x div 4 * 4 < 2 ^ LENGTH('a)"
    using unsigned_less[of x, where ?'a = nat] by (metis div_times_less_eq_dividend le_less_trans)
  moreover have "unat (push_bit 2 (drop_bit 2 x)) = take_bit LENGTH('a) (unat x div 4 * 4)"
  proof -
    have t: "take_bit LENGTH('a) (unat x) = unat x" by (simp add: take_bit_nat_eq_self)
    show ?thesis unfolding unsigned_push_bit_eq unsigned_drop_bit_eq t
      by (simp add: push_bit_eq_mult drop_bit_eq_div)
  qed
  ultimately show ?thesis by (simp only: take_bit_nat_eq_self)
qed

end
