(* ===== verification/Throughput_Types.thy ===== *)
theory Throughput_Types
  imports Bytes
begin

text \<open>
  \<^verbatim>\<open>ThroughputTypes.hpp\<close> and \<^verbatim>\<open>ThroughputTypes.cpp\<close> of \<^verbatim>\<open>src/other/pubsub/dds/performance/throughout\<close>: the data sample, a
  sequence number with a payload whose size is fixed at run time, and the command sample, each with its
  serialization. Memory is a list of bytes; every \<^verbatim>\<open>memcpy\<close> is checked against its buffer. \<^verbatim>\<open>DdsPayload\<close> is the
  data of a \<^verbatim>\<open>SerializedPayload_t\<close>; its four byte representation header is part of it.
\<close>

section \<open>The data sample\<close>

text \<open>An object made by \<^verbatim>\<open>create_data\<close>: \<open>body\<close> is the memory from member \<^verbatim>\<open>data\<close> to the end of the allocation.\<close>

record ThroughputType =
  seqnum :: "32 word"
  body :: bytes

definition encapsulation :: bytes where
  "encapsulation = [0, 1, 0, 0]"

lemma length_encapsulation [simp]: "length encapsulation = 4"
  by (simp add: encapsulation_def)

definition max_serialized_type_size :: "32 word \<Rightarrow> 32 word" where
  "max_serialized_type_size sz = 4 + ((sz + 3) AND NOT 3) + 4"

definition create_data :: "32 word \<Rightarrow> bytes \<Rightarrow> ThroughputType result" where
  "create_data sz junk =
     (if length junk = unat (max_serialized_type_size sz) \<and> 4 \<le> length junk
      then Inr \<lparr>seqnum = le_word (take 4 junk), body = drop 4 junk\<rparr> else Inl OutOfBounds)"

definition compare_data :: "32 word \<Rightarrow> ThroughputType \<Rightarrow> ThroughputType \<Rightarrow> bool result" where
  "compare_data sz a b =
     (if seqnum a \<noteq> seqnum b then Inr False
      else rbind (get 0 (unat sz) (body a)) (\<lambda>x. rbind (get 0 (unat sz) (body b)) (\<lambda>y. Inr (x = y))))"

definition data_serialize :: "32 word \<Rightarrow> ThroughputType \<Rightarrow> bytes \<Rightarrow> (bytes \<times> nat) result" where
  "data_serialize sz lt payload =
     rbind (put 0 encapsulation payload) (\<lambda>p1.
     rbind (put 4 (le_bytes 4 (seqnum lt)) p1) (\<lambda>p2.
     rbind (get 0 (unat sz) (body lt)) (\<lambda>d.
     rbind (put 8 d p2) (\<lambda>p3.
     Inr (p3, unat (max_serialized_type_size sz))))))"

text \<open>\<open>len\<close> is the length of the payload; an empty one leaves the object as it is.\<close>

definition data_deserialize :: "32 word \<Rightarrow> nat \<Rightarrow> bytes \<Rightarrow> ThroughputType \<Rightarrow> ThroughputType result" where
  "data_deserialize sz len payload lt =
     (if len > 0 then
        rbind (get 4 4 payload) (\<lambda>s.
        rbind (get 8 (unat sz) payload) (\<lambda>d.
        rbind (put 0 d (body lt)) (\<lambda>b.
        Inr (lt\<lparr>seqnum := le_word s, body := b\<rparr>))))
      else Inr lt)"

section \<open>The command sample\<close>

datatype e_Command = DEFAULT | READY_TO_START | BEGIN | TEST_STARTS | TEST_ENDS | TYPE_NEW | TYPE_DISPOSE | TYPE_REMOVED
  | ALL_STOPS | TEST_RESULTS | OtherCommand "32 word"

definition named_commands :: "e_Command list" where
  "named_commands = [DEFAULT, READY_TO_START, BEGIN, TEST_STARTS, TEST_ENDS, TYPE_NEW, TYPE_DISPOSE, TYPE_REMOVED,
     ALL_STOPS, TEST_RESULTS]"

text \<open>The enumeration has a fixed underlying type, so every 32-bit value is a value of it.\<close>

definition command_value :: "e_Command \<Rightarrow> 32 word" where
  "command_value c = (case c of DEFAULT \<Rightarrow> 0 | READY_TO_START \<Rightarrow> 1 | BEGIN \<Rightarrow> 2 | TEST_STARTS \<Rightarrow> 3 | TEST_ENDS \<Rightarrow> 4
     | TYPE_NEW \<Rightarrow> 5 | TYPE_DISPOSE \<Rightarrow> 6 | TYPE_REMOVED \<Rightarrow> 7 | ALL_STOPS \<Rightarrow> 8 | TEST_RESULTS \<Rightarrow> 9 | OtherCommand w \<Rightarrow> w)"

definition command_of :: "32 word \<Rightarrow> e_Command" where
  "command_of w = (if unat w < 10 then named_commands ! unat w else OtherCommand w)"

record ThroughputCommandType =
  m_command :: e_Command
  m_size :: "32 word"
  m_demand :: "32 word"
  m_receivedsamples :: "64 word"
  m_lostsamples :: "32 word"
  m_lastrecsample :: "64 word"
  m_totaltime :: "64 word"

definition ThroughputCommand :: "e_Command \<Rightarrow> ThroughputCommandType" where
  "ThroughputCommand com = \<lparr>m_command = com, m_size = 0, m_demand = 0, m_receivedsamples = 0, m_lostsamples = 0,
     m_lastrecsample = 0, m_totaltime = 0\<rparr>"

definition command_serialize :: "ThroughputCommandType \<Rightarrow> bytes \<Rightarrow> (bytes \<times> nat) result" where
  "command_serialize t p =
     rbind (put 0 (le_bytes 4 (command_value (m_command t))) p) (\<lambda>p.
     rbind (put 4 (le_bytes 4 (m_size t)) p) (\<lambda>p.
     rbind (put 8 (le_bytes 4 (m_demand t)) p) (\<lambda>p.
     rbind (put 12 (le_bytes 4 (m_lostsamples t)) p) (\<lambda>p.
     rbind (put 16 (le_bytes 8 (m_receivedsamples t)) p) (\<lambda>p.
     rbind (put 24 (le_bytes 8 (m_lastrecsample t)) p) (\<lambda>p.
     rbind (put 32 (le_bytes 8 (m_totaltime t)) p) (\<lambda>p.
     Inr (p, 40))))))))"

definition command_deserialize :: "bytes \<Rightarrow> ThroughputCommandType result" where
  "command_deserialize p =
     rbind (get 0 4 p) (\<lambda>c. rbind (get 4 4 p) (\<lambda>sz. rbind (get 8 4 p) (\<lambda>dm. rbind (get 12 4 p) (\<lambda>lost.
     rbind (get 16 8 p) (\<lambda>rec. rbind (get 24 8 p) (\<lambda>last. rbind (get 32 8 p) (\<lambda>tot.
     Inr \<lparr>m_command = command_of (le_word c), m_size = le_word sz, m_demand = le_word dm, m_receivedsamples = le_word rec,
       m_lostsamples = le_word lost, m_lastrecsample = le_word last, m_totaltime = le_word tot\<rparr>)))))))"

definition command_serialized_size :: nat where
  "command_serialized_size = 4 + 4 + 4 + 4 + 8 + 8 + 8"

text \<open>The size that DDS allocates for a command payload.\<close>

definition command_max_size :: nat where
  "command_max_size = 4 * 4 + 3 * 8 + 8"

section \<open>Round trips\<close>

definition command_valid :: "ThroughputCommandType \<Rightarrow> bool" where
  "command_valid t \<longleftrightarrow> (\<forall>w. m_command t = OtherCommand w \<longrightarrow> 10 \<le> unat w)"

lemma command_of_value: "command_valid t \<Longrightarrow> command_of (command_value (m_command t)) = m_command t"
  by (cases "m_command t") (simp_all add: command_of_def command_value_def named_commands_def command_valid_def)

lemma command_of_valid: "command_of w = OtherCommand v \<Longrightarrow> 10 \<le> unat v"
proof -
  assume c: "command_of w = OtherCommand v"
  have "OtherCommand v \<notin> set named_commands" by (simp add: named_commands_def)
  then have "\<not> unat w < 10"
    using c nth_mem[of "unat w" named_commands] by (auto simp: command_of_def named_commands_def split: if_splits)
  with c show ?thesis by (simp add: command_of_def)
qed

definition command_fields :: "ThroughputCommandType \<Rightarrow> bytes list" where
  "command_fields t = [le_bytes 4 (command_value (m_command t)), le_bytes 4 (m_size t), le_bytes 4 (m_demand t),
     le_bytes 4 (m_lostsamples t), le_bytes 8 (m_receivedsamples t), le_bytes 8 (m_lastrecsample t), le_bytes 8 (m_totaltime t)]"

lemma command_serialize_fields:
  "command_serialize t p = rbind (put_all 0 (command_fields t) p) (\<lambda>p. Inr (p, 40))"
  by (simp add: command_serialize_def command_fields_def rbind_assoc)

lemma command_roundtrip:
  assumes "command_valid t" and "40 \<le> length p"
  shows "\<exists>b. command_serialize t p = Inr (b, command_serialized_size) \<and> length b = length p \<and> command_deserialize b = Inr t"
proof -
  have l: "length (concat (command_fields t)) = 40" by (simp add: command_fields_def)
  from put_all_ok[of 0 "command_fields t" p] assms(2) l obtain b where
    b: "put_all 0 (command_fields t) p = Inr b" "length b = length p" "take 40 b = concat (command_fields t)" by auto
  have g: "off + n \<le> 40 \<Longrightarrow> get off n b = Inr (take n (drop off (concat (command_fields t))))" for off n
    by (rule get_prefix[OF b(3)]) (use assms(2) b(2) in simp_all)
  have "command_deserialize b = Inr t"
    by (simp add: command_deserialize_def g) (simp add: command_fields_def command_of_value[OF assms(1)])
  with b show ?thesis by (simp add: command_serialize_fields command_serialized_size_def)
qed

interpretation throughput_command: wire_type command_serialize "\<lambda>n b d0. command_deserialize b" command_valid "(=)" command_max_size
proof
  fix d d0 :: ThroughputCommandType and buf :: bytes
  assume v: "command_valid d" and c: "command_max_size \<le> length buf"
  then have "40 \<le> length buf" by (simp add: command_max_size_def)
  from command_roundtrip[OF v this] v show "\<exists>b n d'. command_serialize d buf = Inr (b, n) \<and> length b = length buf \<and>
      n \<le> command_max_size \<and> command_deserialize b = Inr d' \<and> command_valid d' \<and> d = d'"
    by (auto simp: command_serialized_size_def command_max_size_def)
qed

lemma max_size_unat:
  assumes "unat sz \<le> 2 ^ 32 - 12"
  shows "unat (max_serialized_type_size sz) = (unat sz + 3) div 4 * 4 + 8"
proof -
  let ?m = "(unat sz + 3) div 4 * 4"
  have le: "?m \<le> unat sz + 3" by simp
  have "unat (sz + 3) = unat sz + 3" using assms by (simp add: unat_word_ariths)
  then have "unat ((sz + 3) AND NOT 3) = ?m" using and_not_3[of "sz + 3"] by simp
  moreover have "?m + 8 < 2 ^ 32" using le assms by simp
  ultimately show ?thesis unfolding max_serialized_type_size_def by (simp add: unat_word_ariths)
qed

definition data_valid :: "32 word \<Rightarrow> ThroughputType \<Rightarrow> bool" where
  "data_valid sz lt \<longleftrightarrow> 4 + length (body lt) = unat (max_serialized_type_size sz)"

definition data_same :: "32 word \<Rightarrow> ThroughputType \<Rightarrow> ThroughputType \<Rightarrow> bool" where
  "data_same sz a b \<longleftrightarrow> compare_data sz a b = Inr True"

lemma data_roundtrip:
  assumes s: "unat sz \<le> 2 ^ 32 - 12" and v: "data_valid sz d" "data_valid sz d0"
    and p: "unat (max_serialized_type_size sz) \<le> length p"
  shows "\<exists>b n d'. data_serialize sz d p = Inr (b, n) \<and> length b = length p \<and> n = unat (max_serialized_type_size sz) \<and>
    data_deserialize sz n b d0 = Inr d' \<and> data_valid sz d' \<and> data_same sz d d'"
proof -
  let ?n = "unat sz" and ?m = "unat (max_serialized_type_size sz)"
  have m: "?n + 8 \<le> ?m" using max_size_unat[OF s] by linarith
  then have l: "?n \<le> length (body d)" "?n \<le> length (body d0)" using v by (simp_all add: data_valid_def)
  let ?d = "take ?n (body d)"
  let ?fs = "[encapsulation, le_bytes 4 (seqnum d), ?d]"
  have fs: "length (concat ?fs) = 8 + ?n" using l by (simp add: encapsulation_def)
  have "0 + length (concat ?fs) \<le> length p" unfolding fs using m p by simp
  from put_all_ok[OF this] obtain b where b: "put_all 0 ?fs p = Inr b" "length b = length p" "take (8 + ?n) b = concat ?fs"
    unfolding fs by auto
  have ser: "data_serialize sz d p = Inr (b, ?m)"
    using b(1) l by (simp add: data_serialize_def get_def rbind_eq_Inr_iff)
  have g: "off + k \<le> 8 + ?n \<Longrightarrow> get off k b = Inr (take k (drop off (concat ?fs)))" for off k
    by (rule get_prefix[OF b(3)]) (use m p b(2) in simp_all)
  let ?d' = "d0\<lparr>seqnum := seqnum d, body := ?d @ drop ?n (body d0)\<rparr>"
  have "data_deserialize sz ?m b d0 = Inr ?d'"
    using m l by (simp add: data_deserialize_def g put_def)
  moreover have "data_valid sz ?d'" using v l by (simp add: data_valid_def)
  moreover have "data_same sz d ?d'" using l by (simp add: data_same_def compare_data_def get_def)
  ultimately show ?thesis using ser b(2) by blast
qed

interpretation throughput_data: wire_type "data_serialize sz" "data_deserialize sz"
    "\<lambda>d. unat sz \<le> 2 ^ 32 - 12 \<and> data_valid sz d" "data_same sz" "unat (max_serialized_type_size sz)" for sz
proof
  fix d d0 :: ThroughputType and buf :: bytes
  assume "unat sz \<le> 2 ^ 32 - 12 \<and> data_valid sz d" "unat sz \<le> 2 ^ 32 - 12 \<and> data_valid sz d0"
    and c: "unat (max_serialized_type_size sz) \<le> length buf"
  then have a: "unat sz \<le> 2 ^ 32 - 12" "data_valid sz d" "data_valid sz d0" by blast+
  from data_roundtrip[OF a c] a(1) show "\<exists>b n d'. data_serialize sz d buf = Inr (b, n) \<and> length b = length buf \<and>
      n \<le> unat (max_serialized_type_size sz) \<and> data_deserialize sz n b d0 = Inr d' \<and>
      (unat sz \<le> 2 ^ 32 - 12 \<and> data_valid sz d') \<and> data_same sz d d'" by blast
qed

text \<open>C36: A data sample of any payload size up to \<open>2 ^ 32 - 12\<close> that is serialized into the payload DDS allocates for it
  and read back into any object of the type compares equal to the original, and a command comes back as it was; no
  \<^verbatim>\<open>memcpy\<close> leaves its buffer.\<close>

theorem throughput_wire_roundtrip:
  assumes "unat sz \<le> 2 ^ 32 - 12" and "data_valid sz d" and "data_valid sz d0"
    and "length p = unat (max_serialized_type_size sz)" and "command_valid t" and "length q = command_max_size"
  shows "(\<exists>b d'. data_serialize sz d p = Inr (b, length p) \<and> data_deserialize sz (length p) b d0 = Inr d' \<and>
      compare_data sz d d' = Inr True) \<and>
    (\<exists>b. command_serialize t q = Inr (b, command_serialized_size) \<and> command_deserialize b = Inr t)"
proof -
  have "unat (max_serialized_type_size sz) \<le> length p" "40 \<le> length q" using assms(4,6) by (simp_all add: command_max_size_def)
  with data_roundtrip[OF assms(1,2,3)] command_roundtrip[OF assms(5)] assms(4) show ?thesis
    unfolding data_same_def by metis
qed

lemma throughput_wire_roundtrip_witness:
  "\<exists>b d'. data_serialize 3 \<lparr>seqnum = 9, body = [1, 2, 3, 0, 0, 0, 0, 0]\<rparr> (replicate 12 7) = Inr (b, 12) \<and>
    data_deserialize 3 12 b \<lparr>seqnum = 0, body = replicate 8 5\<rparr> = Inr d' \<and>
    compare_data 3 \<lparr>seqnum = 9, body = [1, 2, 3, 0, 0, 0, 0, 0]\<rparr> d' = Inr True"
proof -
  have m: "unat (max_serialized_type_size 3) = 12" by (simp add: max_size_unat)
  have "data_valid 3 \<lparr>seqnum = 9, body = [1, 2, 3, 0, 0, 0, 0, 0]\<rparr>" "data_valid 3 \<lparr>seqnum = 0, body = replicate 8 5\<rparr>"
    by (simp_all add: data_valid_def m)
  from throughput_wire_roundtrip[OF _ this, of "replicate 12 7" "ThroughputCommand BEGIN" "replicate 48 0"] show ?thesis
    by (simp add: m command_valid_def ThroughputCommand_def command_max_size_def)
qed

end
