(* ===== verification/Throughput_Publisher.thy ===== *)
theory Throughput_Publisher
  imports Throughput_Types
begin

text \<open>
  \<^verbatim>\<open>ThroughputPublisher.cpp\<close> of \<^verbatim>\<open>src/other/pubsub/dds/performance/throughout\<close> with static types. \<^verbatim>\<open>run\<close> and \<^verbatim>\<open>test\<close> are cut
  at their loop heads and waits: \<open>pc\<close> says where the thread is, each definition goes from there to the next such
  place and returns the commands it writes. \<^verbatim>\<open>sit\<close>, \<^verbatim>\<open>dit\<close> and \<^verbatim>\<open>i\<close> are what is left of their lists. Which DDS calls
  fail and what a reader returns are arguments; floating-point times and rates and the output are left out.
\<close>

section \<open>Quality of service of the data writer\<close>

datatype history_kind = KEEP_LAST_HISTORY_QOS | KEEP_ALL_HISTORY_QOS

record endpoint_qos =
  hist_kind :: history_kind
  depth :: int
  max_samples :: int
  allocated_samples :: int

definition max_of_demands :: "32 word list \<Rightarrow> 32 word" where
  "max_of_demands ds = foldl (\<lambda>m d. max d m) 0 ds"

text \<open>The limits are signed, the demand is not: storing it converts.\<close>

definition fit_writer_history :: "32 word \<Rightarrow> endpoint_qos \<Rightarrow> endpoint_qos" where
  "fit_writer_history max_demand q =
     (let q1 = (case hist_kind q of
          KEEP_LAST_HISTORY_QOS \<Rightarrow>
            if depth q < 0 \<or> word_of_int (depth q) < max_demand
            then q\<lparr>max_samples := sint max_demand, depth := sint max_demand\<rparr> else q
        | KEEP_ALL_HISTORY_QOS \<Rightarrow>
            if max_samples q \<le> 0 \<or> word_of_int (max_samples q) < max_demand
            then q\<lparr>max_samples := sint max_demand\<rparr> else q)
      in q1\<lparr>allocated_samples := max_samples q1\<rparr>)"

section \<open>The publisher\<close>

record TroughputResults =
  payload_size :: "32 word"
  res_recovery_time_ms :: "32 word"
  res_demand :: "32 word"
  send_samples :: "64 word"
  recv_samples :: "64 word"
  res_lost_samples :: "32 word"

datatype pub_pc = WaitCommands | SizeHead | WaitData | DemandHead | RecoveryHead | WaitBegin "32 word" | WaitStartAck
  | WaitEndAck | WaitResults "32 word" | WaitRemoved "32 word" | Stops | WaitStopAck | Returned | Aborted

record ThroughputPublisher =
  subscribers :: "32 word"
  pub_loans :: bool
  dw_qos :: endpoint_qos
  command_matches :: int
  data_matches :: int
  throughput_data_type :: "32 word option"
  data_pub_topic :: bool
  data_writer :: "endpoint_qos option"
  throughput_data :: bool
  recovery_times :: "32 word list"
  sizes :: "(32 word \<times> 32 word list) list"
  demands :: "32 word list"
  recoveries :: "32 word list"
  cmd :: ThroughputCommandType
  info_valid :: bool
  test_failure :: bool
  results :: "TroughputResults list"
  seqnum_sent :: "32 word"
  samples_sent :: "32 word"
  pc :: pub_pc

text \<open>The members before \<^verbatim>\<open>run\<close> waits; \<open>szs\<close> and \<open>rs\<close> are the payloads with their demands and the recovery times it has
  read.\<close>

definition new_publisher ::
  "32 word \<Rightarrow> bool \<Rightarrow> endpoint_qos \<Rightarrow> (32 word \<times> 32 word list) list \<Rightarrow> 32 word list \<Rightarrow> ThroughputPublisher" where
  "new_publisher n loans q szs rs = \<lparr>subscribers = n, pub_loans = loans, dw_qos = q, command_matches = 0, data_matches = 0,
     throughput_data_type = None, data_pub_topic = False, data_writer = None, throughput_data = False, recovery_times = rs,
     sizes = szs, demands = [], recoveries = [], cmd = ThroughputCommand DEFAULT, info_valid = False, test_failure = False,
     results = [], seqnum_sent = 0, samples_sent = 0, pc = WaitCommands\<rparr>"

definition total_matches :: "ThroughputPublisher \<Rightarrow> int" where
  "total_matches p = data_matches p + command_matches p"

definition on_publication_matched :: "int \<Rightarrow> ThroughputPublisher \<Rightarrow> ThroughputPublisher" where
  "on_publication_matched total_count p = p\<lparr>data_matches := total_count\<rparr>"

text \<open>The command reader and the command writer keep their numbers apart.\<close>

definition on_commands_matched :: "int \<Rightarrow> int \<Rightarrow> ThroughputPublisher \<Rightarrow> ThroughputPublisher" where
  "on_commands_matched reader writer p = p\<lparr>command_matches := reader + writer\<rparr>"

datatype dds_call = FindType | RegisterType | CreateTopic | CreateEndpoint | DeleteEndpoint | DeleteTopic | UnregisterType

definition init_static_types :: "(dds_call \<Rightarrow> bool) \<Rightarrow> 32 word \<Rightarrow> ThroughputPublisher \<Rightarrow> bool \<times> ThroughputPublisher" where
  "init_static_types fails payload p =
     (if throughput_data_type p \<noteq> None then (False, p)
      else if fails FindType then (False, p)
      else let p1 = p\<lparr>throughput_data_type := Some payload\<rparr>
           in if fails RegisterType then (False, p1) else (True, p1))"

definition create_data_endpoints :: "(dds_call \<Rightarrow> bool) \<Rightarrow> endpoint_qos \<Rightarrow> ThroughputPublisher \<Rightarrow> bool \<times> ThroughputPublisher" where
  "create_data_endpoints fails q p =
     (if data_pub_topic p then (False, p)
      else if data_writer p \<noteq> None then (False, p)
      else if fails CreateTopic then (False, p)
      else let p1 = p\<lparr>data_pub_topic := True\<rparr>
           in if fails CreateEndpoint then (False, p1) else (True, p1\<lparr>data_writer := Some q\<rparr>))"

definition destroy_data_endpoints :: "(dds_call \<Rightarrow> bool) \<Rightarrow> ThroughputPublisher \<Rightarrow> bool \<times> ThroughputPublisher" where
  "destroy_data_endpoints fails p =
     (if data_writer p = None \<or> fails DeleteEndpoint then (False, p)
      else let p1 = p\<lparr>data_writer := None, data_matches := 0\<rparr>
           in if \<not> data_pub_topic p1 \<or> fails DeleteTopic then (False, p1)
              else let p2 = p1\<lparr>data_pub_topic := False\<rparr>
                   in if fails UnregisterType then (False, p2) else (True, p2\<lparr>throughput_data_type := None\<rparr>))"

section \<open>Sending\<close>

text \<open>One batch, copying: \<open>n\<close> samples are left. The numbers written, in order.\<close>

fun copy_batch :: "nat \<Rightarrow> 32 word \<Rightarrow> 32 word \<times> 32 word list" where
  "copy_batch 0 sn = (sn, [])"
| "copy_batch (Suc n) sn = (let (s, ws) = copy_batch n (sn + 1) in (s, (sn + 1) # ws))"

text \<open>One batch with loans: for each attempt, whether \<^verbatim>\<open>loan_sample\<close> and then \<^verbatim>\<open>write\<close> succeed. A failed loan is tried again.
  \<open>None\<close>: the attempts given do not finish the batch.\<close>

fun loan_batch :: "nat \<Rightarrow> 32 word \<Rightarrow> (bool \<times> bool) list \<Rightarrow> (32 word \<times> 32 word list \<times> (bool \<times> bool) list) option" where
  "loan_batch 0 sn as = Some (sn, [], as)"
| "loan_batch (Suc n) sn [] = None"
| "loan_batch (Suc n) sn ((loaned, written) # as) =
     (if loaned then
        (case loan_batch n (sn + 1) as of None \<Rightarrow> None
         | Some (s, ws, as') \<Rightarrow> Some (s, if written then (sn + 1) # ws else ws, as'))
      else loan_batch (Suc n) sn as)"

definition send_batch ::
  "bool \<Rightarrow> 32 word \<Rightarrow> 32 word \<Rightarrow> (bool \<times> bool) list \<Rightarrow> (32 word \<times> 32 word list \<times> (bool \<times> bool) list) option" where
  "send_batch loans demand sn as =
     (if loans then loan_batch (unat demand) sn as
      else let (s, ws) = copy_batch (unat demand) sn in Some (s, ws, as))"

text \<open>The batches of a test: \<open>clock\<close> holds the readings of \<^verbatim>\<open>t_end_\<close> after each batch. \<open>None\<close>: the readings or the attempts
  given do not reach the end of the test.\<close>

fun send_batches ::
  "bool \<Rightarrow> 32 word \<Rightarrow> int \<Rightarrow> int \<Rightarrow> int \<Rightarrow> int list \<Rightarrow> (bool \<times> bool) list \<Rightarrow> 32 word \<Rightarrow> 32 word \<Rightarrow>
   (32 word \<times> 32 word \<times> 32 word list) option" where
  "send_batches loans demand test_time t_start t_end clock as sn samples =
     (if t_end - t_start < test_time then
        (case clock of [] \<Rightarrow> None
         | t # ts \<Rightarrow>
             (case send_batch loans demand sn as of None \<Rightarrow> None
              | Some (s, ws, as') \<Rightarrow>
                  (case send_batches loans demand test_time t_start t ts as' s (samples + demand) of None \<Rightarrow> None
                   | Some (s', sam', ws') \<Rightarrow> Some (s', sam', ws @ ws'))))
      else Some (sn, samples, []))"

declare send_batches.simps [simp del]

section \<open>run\<close>

text \<open>The outcome of waiting for a command and taking it: when \<^verbatim>\<open>take_next_sample\<close> finds nothing, \<^verbatim>\<open>command\<close> and \<^verbatim>\<open>info\<close>
  keep what they had.\<close>

datatype taken = Nothing | Taken ThroughputCommandType bool

definition take_command :: "taken \<Rightarrow> ThroughputPublisher \<Rightarrow> ThroughputPublisher" where
  "take_command t p = (case t of Nothing \<Rightarrow> p | Taken c valid \<Rightarrow> p\<lparr>cmd := c, info_valid := valid\<rparr>)"

definition pub_wait_commands :: "ThroughputPublisher \<Rightarrow> ThroughputPublisher option" where
  "pub_wait_commands p = (if total_matches p = uint (subscribers p * 2) then Some (p\<lparr>pc := SizeHead\<rparr>) else None)"

definition size_head :: "(dds_call \<Rightarrow> bool) \<Rightarrow> ThroughputPublisher \<Rightarrow> ThroughputPublisher \<times> ThroughputCommandType list" where
  "size_head fails p = (case sizes p of [] \<Rightarrow> (p\<lparr>pc := Stops\<rparr>, [])
     | (msg_size, ds) # _ \<Rightarrow>
         let q = fit_writer_history (max_of_demands ds) (dw_qos p);
             c = (cmd p)\<lparr>m_command := TYPE_NEW, m_size := msg_size, m_demand := max_of_demands ds\<rparr>;
             p1 = p\<lparr>cmd := c\<rparr>;
             (ok1, p2) = init_static_types fails msg_size p1;
             (ok2, p3) = (if ok1 then create_data_endpoints fails q p2 else (False, p2))
         in if throughput_data p then (p1\<lparr>pc := Aborted\<rparr>, [c])
            else if ok2 then (p3\<lparr>pc := WaitData\<rparr>, [c])
            else (p3\<lparr>test_failure := True, pc := Stops\<rparr>, [c]))"

definition pub_wait_data :: "ThroughputPublisher \<Rightarrow> ThroughputPublisher option" where
  "pub_wait_data p =
     (if total_matches p = uint (subscribers p * 3)
      then Some (p\<lparr>throughput_data := \<not> pub_loans p, demands := snd (hd (sizes p)), pc := DemandHead\<rparr>) else None)"

definition type_dispose :: "(dds_call \<Rightarrow> bool) \<Rightarrow> ThroughputPublisher \<Rightarrow> ThroughputPublisher \<times> ThroughputCommandType list" where
  "type_dispose fails p =
     (let c = (cmd p)\<lparr>m_command := TYPE_DISPOSE, m_size := fst (hd (sizes p)), m_demand := max_of_demands (snd (hd (sizes p)))\<rparr>;
          (ok, p1) = destroy_data_endpoints fails (p\<lparr>cmd := c, throughput_data := False\<rparr>)
      in (if ok then p1\<lparr>pc := WaitRemoved 0\<rparr> else p1\<lparr>test_failure := True, pc := Stops\<rparr>, [c]))"

definition demand_head :: "(dds_call \<Rightarrow> bool) \<Rightarrow> ThroughputPublisher \<Rightarrow> ThroughputPublisher \<times> ThroughputCommandType list" where
  "demand_head fails p = (case demands p of [] \<Rightarrow> type_dispose fails p
     | d # _ \<Rightarrow> (p\<lparr>cmd := (cmd p)\<lparr>m_size := fst (hd (sizes p)), m_demand := d\<rparr>, recoveries := recovery_times p,
                   pc := RecoveryHead\<rparr>, []))"

definition recovery_head :: "ThroughputPublisher \<Rightarrow> ThroughputPublisher \<times> ThroughputCommandType list" where
  "recovery_head p = (case recoveries p of [] \<Rightarrow> (p\<lparr>demands := tl (demands p), pc := DemandHead\<rparr>, [])
     | _ # _ \<Rightarrow>
         let c = (cmd p)\<lparr>m_command := READY_TO_START, m_size := fst (hd (sizes p)), m_demand := hd (demands p)\<rparr>
         in (p\<lparr>cmd := c, pc := WaitBegin 0\<rparr>, [c]))"

definition take_begin :: "taken \<Rightarrow> 32 word \<Rightarrow> ThroughputPublisher \<Rightarrow> ThroughputPublisher" where
  "take_begin t n p = (let p1 = take_command t p
     in if info_valid p1 \<and> m_command (cmd p1) = BEGIN then p1\<lparr>pc := WaitBegin (n + 1)\<rparr> else p1)"

text \<open>\<^verbatim>\<open>test\<close> up to its first wait. The assertion is about the matched endpoints.\<close>

definition test_begin :: "ThroughputPublisher \<Rightarrow> ThroughputPublisher \<times> ThroughputCommandType list" where
  "test_begin p = (if total_matches p = uint (subscribers p * 3)
     then (p\<lparr>seqnum_sent := 0, samples_sent := 0, pc := WaitStartAck\<rparr>, [ThroughputCommand TEST_STARTS])
     else (p\<lparr>pc := Aborted\<rparr>, []))"

text \<open>A test that returns false ends the recovery loop, and only that one.\<close>

definition test_failed :: "ThroughputPublisher \<Rightarrow> ThroughputPublisher" where
  "test_failed p = p\<lparr>test_failure := True, demands := tl (demands p), pc := DemandHead\<rparr>"

definition test_send ::
  "int \<Rightarrow> int \<Rightarrow> int \<Rightarrow> int list \<Rightarrow> (bool \<times> bool) list \<Rightarrow> ThroughputPublisher \<Rightarrow>
   (ThroughputPublisher \<times> ThroughputCommandType list \<times> 32 word list) option" where
  "test_send test_time t_start t_end clock as p =
     (case send_batches (pub_loans p) (hd (demands p)) test_time t_start t_end clock as (seqnum_sent p) (samples_sent p) of
        None \<Rightarrow> None
      | Some (s, sam, ws) \<Rightarrow>
          Some (p\<lparr>seqnum_sent := s, samples_sent := sam, pc := WaitEndAck\<rparr>, [ThroughputCommand TEST_ENDS], ws))"

definition test_end_acked :: "ThroughputPublisher \<Rightarrow> ThroughputPublisher" where
  "test_end_acked p = p\<lparr>pc := WaitResults 0\<rparr>"

definition add_result :: "TroughputResults \<Rightarrow> TroughputResults \<Rightarrow> TroughputResults" where
  "add_result e r = e\<lparr>send_samples := send_samples e + send_samples r, recv_samples := recv_samples e + recv_samples r,
     res_lost_samples := res_lost_samples e + res_lost_samples r\<rparr>"

definition make_result :: "ThroughputCommandType \<Rightarrow> ThroughputPublisher \<Rightarrow> TroughputResults" where
  "make_result c p = \<lparr>payload_size = fst (hd (sizes p)) + 4, res_recovery_time_ms = hd (recoveries p),
     res_demand = hd (demands p), send_samples = ucast (samples_sent p), recv_samples = m_receivedsamples c,
     res_lost_samples = samples_sent p - ucast (m_receivedsamples c)\<rparr>"

definition take_results :: "taken \<Rightarrow> 32 word \<Rightarrow> ThroughputPublisher \<Rightarrow> ThroughputPublisher" where
  "take_results t n p = (case t of
     Taken c True \<Rightarrow>
       if m_command c = TEST_RESULTS then
         if ucast (samples_sent p) < m_receivedsamples c then p\<lparr>pc := Aborted\<rparr>
         else let r = make_result c p
              in p\<lparr>results := (if n + 1 = 1 then results p @ [r] else butlast (results p) @ [add_result (last (results p)) r]),
                   pc := WaitResults (n + 1)\<rparr>
       else test_failed p
   | _ \<Rightarrow> test_failed p)"

definition test_passed :: "ThroughputPublisher \<Rightarrow> ThroughputPublisher" where
  "test_passed p = p\<lparr>recoveries := tl (recoveries p), pc := RecoveryHead\<rparr>"

definition take_removed :: "taken \<Rightarrow> 32 word \<Rightarrow> ThroughputPublisher \<Rightarrow> ThroughputPublisher" where
  "take_removed t n p = (let p1 = take_command t p
     in if info_valid p1 \<and> m_command (cmd p1) = TYPE_REMOVED then p1\<lparr>pc := WaitRemoved (n + 1)\<rparr> else p1)"

definition type_removed :: "ThroughputPublisher \<Rightarrow> ThroughputPublisher" where
  "type_removed p = p\<lparr>sizes := tl (sizes p), pc := SizeHead\<rparr>"

definition all_stops :: "ThroughputPublisher \<Rightarrow> ThroughputPublisher \<times> ThroughputCommandType list" where
  "all_stops p = (let c = (cmd p)\<lparr>m_command := ALL_STOPS\<rparr>
     in (p\<lparr>cmd := c, pc := (if test_failure p then Returned else WaitStopAck)\<rparr>, [c]))"

section \<open>The thread\<close>

text \<open>Steps that wait for nothing.\<close>

definition pub_internal :: "(dds_call \<Rightarrow> bool) \<Rightarrow> ThroughputPublisher \<Rightarrow> (ThroughputPublisher \<times> ThroughputCommandType list) option" where
  "pub_internal fails p = (case pc p of
     SizeHead \<Rightarrow> Some (size_head fails p)
   | DemandHead \<Rightarrow> Some (demand_head fails p)
   | RecoveryHead \<Rightarrow> Some (recovery_head p)
   | WaitBegin n \<Rightarrow> if n < subscribers p then None else Some (test_begin p)
   | WaitResults n \<Rightarrow> if n < subscribers p then None else Some (test_passed p, [])
   | WaitRemoved n \<Rightarrow> if n < subscribers p then None else Some (type_removed p, [])
   | Stops \<Rightarrow> Some (all_stops p)
   | _ \<Rightarrow> None)"

text \<open>Steps that take a command.\<close>

definition pub_take :: "taken \<Rightarrow> ThroughputPublisher \<Rightarrow> ThroughputPublisher option" where
  "pub_take t p = (case pc p of
     WaitBegin n \<Rightarrow> if n < subscribers p then Some (take_begin t n p) else None
   | WaitResults n \<Rightarrow> if n < subscribers p then Some (take_results t n p) else None
   | WaitRemoved n \<Rightarrow> if n < subscribers p then Some (take_removed t n p) else None
   | _ \<Rightarrow> None)"

text \<open>The end of a wait for acknowledgments that is not followed by sending.\<close>

definition pub_acked :: "bool \<Rightarrow> ThroughputPublisher \<Rightarrow> ThroughputPublisher option" where
  "pub_acked acked p = (case pc p of
     WaitStartAck \<Rightarrow> if acked then None else Some (test_failed p)
   | WaitEndAck \<Rightarrow> if acked then Some (test_end_acked p) else Some (test_failed p)
   | WaitStopAck \<Rightarrow> Some (p\<lparr>pc := Returned\<rparr>)
   | _ \<Rightarrow> None)"

end
