(* ===== verification/Throughput_Subscriber.thy ===== *)
theory Throughput_Subscriber
  imports Throughput_Listener Throughput_Publisher
begin

text \<open>
  \<^verbatim>\<open>ThroughputSubscriber.cpp\<close> of \<^verbatim>\<open>src/other/pubsub/dds/performance/throughout\<close> with static types: the commands it obeys
  and the result it reports. \<open>unread\<close> holds the numbers of the samples on their way to the reader and in its history. Which calls fail
  and the measured time are arguments.
\<close>

definition fit_reader_history :: "32 word \<Rightarrow> endpoint_qos \<Rightarrow> endpoint_qos" where
  "fit_reader_history max_demand q =
     (let q1 = (case hist_kind q of
          KEEP_LAST_HISTORY_QOS \<Rightarrow>
            if depth q < 0 \<or> word_of_int (depth q) < max_demand
            then q\<lparr>max_samples := sint max_demand, depth := sint max_demand\<rparr> else q
        | KEEP_ALL_HISTORY_QOS \<Rightarrow>
            if max_samples q \<le> 0 \<or> word_of_int (max_samples q) < max_demand
            then q\<lparr>max_samples := sint max_demand\<rparr> else q)
      in q1\<lparr>allocated_samples := max_samples q1\<rparr>)"

datatype sub_pc = SubDiscovery | Poll | WaitMatch | SubReturned

record ThroughputSubscriber =
  listener :: DataReaderListener
  sub_loans :: bool
  dr_qos :: endpoint_qos
  sub_command_matches :: int
  sub_data_type :: "32 word option"
  data_sub_topic :: bool
  data_reader :: "endpoint_qos option"
  sub_data :: bool
  unread :: "32 word list"
  data_size :: "32 word"
  demand :: "32 word"
  spc :: sub_pc

text \<open>\<open>en\<close> and \<open>saved\<close> are members without an initial value.\<close>

definition new_subscriber :: "bool \<Rightarrow> endpoint_qos \<Rightarrow> bool \<Rightarrow> 32 word \<times> 32 word \<times> 64 word \<Rightarrow> ThroughputSubscriber" where
  "new_subscriber loans q en saved = \<lparr>listener = \<lparr>last_seq_num = 0, lost_samples = 0, received_samples = 0, matched = 0,
       enable = en, saved_last_seq_num = fst saved, saved_lost_samples = fst (snd saved),
       saved_received_samples = snd (snd saved)\<rparr>,
     sub_loans = loans, dr_qos = q, sub_command_matches = 0, sub_data_type = None, data_sub_topic = False, data_reader = None,
     sub_data = False, unread = [], data_size = 0, demand = 0, spc = SubDiscovery\<rparr>"

definition sub_total_matches :: "ThroughputSubscriber \<Rightarrow> int" where
  "sub_total_matches s = matched (listener s) + sub_command_matches s"

definition sub_init_static_types :: "(dds_call \<Rightarrow> bool) \<Rightarrow> 32 word \<Rightarrow> ThroughputSubscriber \<Rightarrow> bool \<times> ThroughputSubscriber" where
  "sub_init_static_types fails payload s =
     (if sub_data_type s \<noteq> None then (False, s)
      else if fails FindType then (False, s)
      else let s1 = s\<lparr>sub_data_type := Some payload\<rparr>
           in if fails RegisterType then (False, s1) else (True, s1))"

definition sub_create_data_endpoints :: "(dds_call \<Rightarrow> bool) \<Rightarrow> endpoint_qos \<Rightarrow> ThroughputSubscriber \<Rightarrow> bool \<times> ThroughputSubscriber" where
  "sub_create_data_endpoints fails q s =
     (if data_sub_topic s then (False, s)
      else if data_reader s \<noteq> None then (False, s)
      else if fails CreateTopic then (False, s)
      else let s1 = s\<lparr>data_sub_topic := True\<rparr>
           in if fails CreateEndpoint then (False, s1) else (True, s1\<lparr>data_reader := Some q\<rparr>))"

text \<open>The reader takes its history with it.\<close>

definition sub_destroy_data_endpoints :: "(dds_call \<Rightarrow> bool) \<Rightarrow> ThroughputSubscriber \<Rightarrow> bool \<times> ThroughputSubscriber" where
  "sub_destroy_data_endpoints fails s =
     (if data_reader s = None \<or> fails DeleteEndpoint then (False, s)
      else let s1 = s\<lparr>data_reader := None, unread := [], listener := listener_reset (listener s)\<rparr>
           in if \<not> data_sub_topic s1 \<or> fails DeleteTopic then (False, s1)
              else let s2 = s1\<lparr>data_sub_topic := False\<rparr>
                   in if fails UnregisterType then (False, s2) else (True, s2\<lparr>sub_data_type := None\<rparr>))"

section \<open>Commands\<close>

text \<open>Each handler returns the state, the commands written and the value of \<^verbatim>\<open>process_message\<close>; \<open>None\<close>: it waits for the
  data endpoint to be matched.\<close>

definition type_new :: "(dds_call \<Rightarrow> bool) \<Rightarrow> ThroughputCommandType \<Rightarrow> ThroughputSubscriber \<Rightarrow>
    (ThroughputSubscriber \<times> ThroughputCommandType list \<times> nat option) result" where
  "type_new fails c s =
     (let q = fit_reader_history (m_demand c) (dr_qos s);
          (ok1, s1) = sub_init_static_types fails (m_size c) s;
          (ok2, s2) = (if ok1 then sub_create_data_endpoints fails q s1 else (False, s1))
      in if \<not> ok2 then Inr (s2, [], Some 2)
         else if sub_data s2 then Inl StdTerminate
         else Inr (s2\<lparr>sub_data := \<not> sub_loans s2, spc := WaitMatch\<rparr>, [], None))"

text \<open>The history is consumed until the reader has nothing more.\<close>

definition ready_to_start :: "ThroughputCommandType \<Rightarrow> ThroughputSubscriber \<Rightarrow>
    (ThroughputSubscriber \<times> ThroughputCommandType list \<times> nat option) result" where
  "ready_to_start c s =
     (if data_reader s = None then Inl NullDeref
      else Inr (s\<lparr>data_size := m_size c, demand := m_demand c, unread := [], listener := listener_reset (listener s)\<rparr>,
        [ThroughputCommand BEGIN], Some 0))"

definition test_ends :: "ThroughputSubscriber \<Rightarrow> (ThroughputSubscriber \<times> ThroughputCommandType list \<times> nat option) result" where
  "test_ends s = Inr (s\<lparr>listener := listener_disable (save_numbers (listener s))\<rparr>, [], Some 1)"

definition sub_type_dispose :: "(dds_call \<Rightarrow> bool) \<Rightarrow> ThroughputSubscriber \<Rightarrow>
    (ThroughputSubscriber \<times> ThroughputCommandType list \<times> nat option) result" where
  "sub_type_dispose fails s =
     (let (ok, s1) = sub_destroy_data_endpoints fails (s\<lparr>sub_data := False\<rparr>)
      in if ok then Inr (s1, [ThroughputCommand TYPE_REMOVED], Some 0) else Inr (s1, [], Some 2))"

definition process_message :: "(dds_call \<Rightarrow> bool) \<Rightarrow> ThroughputCommandType option \<Rightarrow> ThroughputSubscriber \<Rightarrow>
    (ThroughputSubscriber \<times> ThroughputCommandType list \<times> nat option) result" where
  "process_message fails received s = (case received of None \<Rightarrow> Inr (s, [], Some 0)
     | Some c \<Rightarrow> (case m_command c of
         TYPE_NEW \<Rightarrow> type_new fails c s
       | READY_TO_START \<Rightarrow> ready_to_start c s
       | TEST_ENDS \<Rightarrow> test_ends s
       | TYPE_DISPOSE \<Rightarrow> sub_type_dispose fails s
       | ALL_STOPS \<Rightarrow> Inr (s, [], Some 2)
       | _ \<Rightarrow> Inr (s, [], Some 0)))"

text \<open>The wait inside \<^verbatim>\<open>TYPE_NEW\<close> ends.\<close>

definition matched_data :: "int \<Rightarrow> ThroughputSubscriber \<Rightarrow> ThroughputSubscriber option" where
  "matched_data total_count s =
     (let s1 = s\<lparr>listener := on_subscription_matched total_count (listener s)\<rparr>
      in if spc s = WaitMatch \<and> sub_total_matches s1 = 3 then Some (s1\<lparr>spc := Poll\<rparr>) else None)"

section \<open>run\<close>

definition clamp_uint64 :: "int \<Rightarrow> 64 word" where
  "clamp_uint64 t = (if t < 0 then 0 else if 2 ^ 64 - 1 < t then - 1 else word_of_int t)"

definition result_command :: "int \<Rightarrow> ThroughputSubscriber \<Rightarrow> ThroughputCommandType" where
  "result_command elapsed s = (ThroughputCommand TEST_RESULTS)
     \<lparr>m_demand := demand s, m_size := data_size s + 4, m_lastrecsample := ucast (saved_last_seq_num (listener s)),
      m_lostsamples := saved_lost_samples (listener s), m_receivedsamples := saved_received_samples (listener s),
      m_totaltime := clamp_uint64 elapsed\<rparr>"

definition sub_wait_commands :: "ThroughputSubscriber \<Rightarrow> ThroughputSubscriber option" where
  "sub_wait_commands s = (if spc s = SubDiscovery \<and> sub_total_matches s = 2 then Some (s\<lparr>spc := Poll\<rparr>) else None)"

text \<open>One round of the loop.\<close>

definition sub_round :: "(dds_call \<Rightarrow> bool) \<Rightarrow> int \<Rightarrow> ThroughputCommandType option \<Rightarrow> ThroughputSubscriber \<Rightarrow>
    (ThroughputSubscriber \<times> ThroughputCommandType list) result" where
  "sub_round fails elapsed received s =
     rbind (process_message fails received s) (\<lambda>(s1, out, ret). Inr (case ret of
         None \<Rightarrow> (s1, out)
       | Some n \<Rightarrow> if n = 1 then (s1, out @ [result_command elapsed s1])
           else if n = 2 then (s1\<lparr>spc := SubReturned\<rparr>, out) else (s1, out)))"

end
