(* ===== verification/Throughput_System.thy ===== *)
theory Throughput_System
  imports Throughput_Subscriber "HOL-Library.Sublist"
begin

text \<open>
  The throughput test as a whole: the publisher and one subscriber, the two command topics between them and the
  data in between, over all interleavings. Commands are delivered in order and none is lost; calls succeed and
  acknowledgments and answers come in time; data may be lost or overridden, but arrives in order. A test may send any
  number of samples; the programs count them in 32 bits, and \<open>tests_sent\<close>, which no step reads, holds the true number for
  each test.
\<close>

record system =
  P :: ThroughputPublisher
  S :: ThroughputSubscriber
  pub2sub :: "ThroughputCommandType list"
  sub2pub :: "ThroughputCommandType list"
  tests_sent :: "nat list"

text \<open>How many batches the loop of \<^verbatim>\<open>test\<close> sends for the readings of its clock.\<close>

fun batches :: "int \<Rightarrow> int \<Rightarrow> int \<Rightarrow> int list \<Rightarrow> nat" where
  "batches test_time t_start t_end [] = 0"
| "batches test_time t_start t_end (t # ts) = (if t_end - t_start < test_time then Suc (batches test_time t_start t ts) else 0)"

text \<open>Every test so far has sent fewer samples than a 32-bit number can count.\<close>

definition fits :: "system \<Rightarrow> bool" where
  "fits y \<longleftrightarrow> list_all (\<lambda>n. n < 4294967295) (tests_sent y)"

lemma fits_update [simp]:
  "fits (P_update f y) = fits y" "fits (S_update g y) = fits y" "fits (pub2sub_update h y) = fits y"
  "fits (sub2pub_update k y) = fits y" "fits (y\<lparr>tests_sent := tests_sent y @ [n]\<rparr>) \<longleftrightarrow> fits y \<and> n < 4294967295"
  by (simp_all add: fits_def)

text \<open>What the reader may find of the numbers that arrived: some are lost, and in loaned memory some are overridden.\<close>

definition read_as :: "bool \<Rightarrow> 32 word list \<Rightarrow> sample list \<Rightarrow> bool" where
  "read_as lo arrived found \<longleftrightarrow> (\<exists>kept. subseq kept arrived \<and> list_all2 (\<lambda>w. carries lo (unat w)) kept found)"

inductive sys_step :: "int \<Rightarrow> system \<Rightarrow> system \<Rightarrow> bool" for test_time :: int where
  discovered: "pc (P y) = WaitCommands \<Longrightarrow> pub_wait_commands (on_commands_matched 1 1 (P y)) = Some p \<Longrightarrow>
    sys_step test_time y (y\<lparr>P := p\<rparr>)"
| internal: "pub_internal (\<lambda>_. False) (P y) = Some (p, out) \<Longrightarrow>
    sys_step test_time y (y\<lparr>P := p, pub2sub := pub2sub y @ out\<rparr>)"
| matched: "pc (P y) = WaitData \<Longrightarrow> data_reader (S y) \<noteq> None \<Longrightarrow>
    pub_wait_data (on_publication_matched 1 (P y)) = Some p \<Longrightarrow> sys_step test_time y (y\<lparr>P := p\<rparr>)"
| take: "sub2pub y = c # cs \<Longrightarrow> pub_take (Taken c True) (P y) = Some p \<Longrightarrow>
    sys_step test_time y (y\<lparr>P := p, sub2pub := cs\<rparr>)"
| send: "pc (P y) = WaitStartAck \<Longrightarrow> test_send test_time t_start t_end clock as (P y) = Some (p, out, ws) \<Longrightarrow>
    sys_step test_time y (y\<lparr>P := p, pub2sub := pub2sub y @ out, S := (S y)\<lparr>unread := unread (S y) @ ws\<rparr>,
      tests_sent := tests_sent y @ [batches test_time t_start t_end clock * unat (hd (demands (P y)))]\<rparr>)"
| acked: "pub_acked True (P y) = Some p \<Longrightarrow> sys_step test_time y (y\<lparr>P := p\<rparr>)"
| sub_discovered: "sub_wait_commands ((S y)\<lparr>sub_command_matches := 2\<rparr>) = Some s \<Longrightarrow> sys_step test_time y (y\<lparr>S := s\<rparr>)"
| command: "spc (S y) = Poll \<Longrightarrow> pub2sub y = c # cs \<Longrightarrow> sub_round (\<lambda>_. False) elapsed (Some c) (S y) = Inr (s, out) \<Longrightarrow>
    sys_step test_time y (y\<lparr>S := s, pub2sub := cs, sub2pub := sub2pub y @ out\<rparr>)"
| sub_matched: "data_writer (P y) \<noteq> None \<Longrightarrow> matched_data 1 (S y) = Some s \<Longrightarrow> sys_step test_time y (y\<lparr>S := s\<rparr>)"
| deliver: "enable (listener (S y)) \<Longrightarrow> data_reader (S y) \<noteq> None \<Longrightarrow> unread (S y) = arrived @ later \<Longrightarrow> arrived \<noteq> [] \<Longrightarrow>
    read_as (sub_loans (S y)) arrived found \<Longrightarrow>
    sys_step test_time y (y\<lparr>S := (S y)\<lparr>unread := later,
      listener := on_data_available (sub_loans (S y)) (Some found) (listener (S y))\<rparr>\<rparr>)"

section \<open>Sending and receiving\<close>

lemma copy_batch_sorted:
  assumes "copy_batch n sn = (s, ws)" and "unat sn + n < 4294967296"
  shows "unat s = unat sn + n \<and> sorted_wrt (<) (sn # ws) \<and> (\<forall>w \<in> set ws. w \<le> s)"
  using assms
proof (induction n arbitrary: sn s ws)
  case (Suc n)
  obtain s' ws' where c: "copy_batch n (sn + 1) = (s', ws')" by fastforce
  have u: "unat (sn + 1) = unat sn + 1" using Suc.prems(2) by (intro unat_Suc_small) simp
  from Suc.IH[OF c] u Suc.prems have "unat s' = unat sn + Suc n" "sorted_wrt (<) ((sn + 1) # ws')" "\<forall>w \<in> set ws'. w \<le> s'"
    by simp_all
  moreover have "sn < sn + 1" using u by (simp add: word_less_nat_alt)
  moreover have "sn + 1 \<le> s'" using u calculation(1) by (simp add: word_le_nat_alt)
  ultimately show ?case using Suc.prems(1) c by (auto intro: less_trans)
qed simp

lemma loan_batch_sorted:
  assumes "loan_batch n sn as = Some (s, ws, as')" and "unat sn + n < 4294967296"
  shows "unat s = unat sn + n \<and> sorted_wrt (<) (sn # ws) \<and> (\<forall>w \<in> set ws. w \<le> s)"
  using assms
proof (induction n sn as arbitrary: s ws rule: loan_batch.induct)
  case (3 n sn loaned written as)
  show ?case
  proof (cases loaned)
    case True
    then obtain s' ws' where c: "loan_batch n (sn + 1) as = Some (s', ws', as')"
        "s = s'" "ws = (if written then (sn + 1) # ws' else ws')"
      using "3.prems"(1) by (auto split: option.splits)
    have u: "unat (sn + 1) = unat sn + 1" using "3.prems"(2) by (intro unat_Suc_small) simp
    from "3.IH"(1)[OF True c(1)] u "3.prems"(2)
    have "unat s' = unat sn + Suc n" "sorted_wrt (<) ((sn + 1) # ws')" "\<forall>w \<in> set ws'. w \<le> s'" by simp_all
    moreover have "sn < sn + 1" using u by (simp add: word_less_nat_alt)
    moreover have "sn + 1 \<le> s'" using u calculation(1) by (simp add: word_le_nat_alt)
    ultimately show ?thesis using c by (auto intro: less_trans)
  next
    case False
    then show ?thesis using "3.IH"(2) "3.prems" by simp
  qed
qed auto

lemma send_batch_sorted:
  assumes "send_batch loans d sn as = Some (s, ws, as')" and "unat sn + unat d < 4294967296"
  shows "unat s = unat sn + unat d \<and> sorted_wrt (<) (sn # ws) \<and> (\<forall>w \<in> set ws. w \<le> s)"
  using assms copy_batch_sorted[of "unat d" sn s ws] loan_batch_sorted[of "unat d" sn as s ws as']
  by (auto simp: send_batch_def split: if_splits prod.splits)

lemma send_batches_sorted:
  assumes "send_batches loans d T t0 t1 clock as sn sn = Some (s, sam, ws)"
    and "unat sn + batches T t0 t1 clock * unat d < 4294967295"
  shows "sam = s \<and> unat s < 4294967295 \<and> sorted_wrt (<) (sn # ws) \<and> (\<forall>w \<in> set ws. w \<le> s) \<and> sn \<le> s"
  using assms
proof (induction clock arbitrary: t1 as sn s sam ws)
  case Nil
  then show ?case by (subst (asm) send_batches.simps) (auto split: if_splits)
next
  case (Cons t ts)
  show ?case
  proof (cases "t1 - t0 < T")
    case False
    then show ?thesis using Cons.prems by (subst (asm) send_batches.simps) auto
  next
    case True
    then obtain s1 ws1 as1 where b: "send_batch loans d sn as = Some (s1, ws1, as1)"
      using Cons.prems(1) by (subst (asm) send_batches.simps) (auto split: option.splits)
    with True obtain ws2 where r: "send_batches loans d T t0 t ts as1 s1 (sn + d) = Some (s, sam, ws2)" "ws = ws1 @ ws2"
      using Cons.prems(1) by (subst (asm) send_batches.simps) (auto split: option.splits)
    from send_batch_sorted[OF b] Cons.prems(2) True have
      s1: "unat s1 = unat sn + unat d" "sorted_wrt (<) (sn # ws1)" "\<forall>w \<in> set ws1. w \<le> s1" by auto
    have "unat (sn + d) = unat sn + unat d" using Cons.prems(2) True by (intro unat_plus_small) simp
    then have e: "sn + d = s1" using s1(1) by (simp add: word_unat_eq_iff)
    from Cons.IH[OF r(1)[unfolded e]] s1(1) Cons.prems(2) True have
      "sam = s" "unat s < 4294967295" "sorted_wrt (<) (s1 # ws2)" "\<forall>w \<in> set ws2. w \<le> s" "s1 \<le> s" by auto
    moreover have "sn \<le> s1" using s1(1) by (simp add: word_le_nat_alt)
    ultimately show ?thesis using s1 r(2) by (auto simp: sorted_wrt_append intro: le_less_trans)
  qed
qed

text \<open>The publisher's count is the number of samples sent, in 32 bits: it wraps.\<close>

lemma samples_wrap:
  "send_batches loans d T t0 t1 clock as sn sam = Some (s, sam', ws) \<Longrightarrow> sam' = sam + of_nat (batches T t0 t1 clock) * d"
proof (induction clock arbitrary: t1 as sn sam s sam' ws)
  case Nil
  then show ?case by (subst (asm) send_batches.simps) (auto split: if_splits)
next
  case (Cons t ts)
  from Cons.prems show ?case
    by (subst (asm) send_batches.simps) (auto split: if_splits option.splits simp: algebra_simps dest!: Cons.IH)
qed

lemma numbered_of_sorted:
  assumes "sorted_wrt (<) kept" and "\<forall>w \<in> set kept. m < unat w \<and> unat w < 4294967295"
    and "list_all2 (\<lambda>w. carries lo (unat w)) kept found"
  shows "numbered lo m (map unat kept) found"
  using assms(3,1,2)
proof (induction kept found arbitrary: m rule: list_all2_induct)
  case (Cons w kept s found)
  then show ?case by (auto simp: word_less_nat_alt)
qed simp

section \<open>Where the two programs can be\<close>

definition bare_pub :: "ThroughputPublisher \<Rightarrow> bool" where
  "bare_pub p \<longleftrightarrow> throughput_data_type p = None \<and> \<not> data_pub_topic p \<and> data_writer p = None \<and> \<not> throughput_data p \<and>
     data_matches p = 0"

definition full_pub :: "int \<Rightarrow> ThroughputPublisher \<Rightarrow> bool" where
  "full_pub m p \<longleftrightarrow> data_pub_topic p \<and> data_writer p \<noteq> None \<and> data_matches p = m \<and> sizes p \<noteq> []"

definition bare_sub :: "ThroughputSubscriber \<Rightarrow> bool" where
  "bare_sub s \<longleftrightarrow> sub_data_type s = None \<and> \<not> data_sub_topic s \<and> data_reader s = None \<and> \<not> sub_data s \<and> unread s = [] \<and>
     matched (listener s) = 0"

definition full_sub :: "ThroughputSubscriber \<Rightarrow> bool" where
  "full_sub s \<longleftrightarrow> data_sub_topic s \<and> data_reader s \<noteq> None"

definition counting :: "nat \<Rightarrow> ThroughputSubscriber \<Rightarrow> bool" where
  "counting n s \<longleftrightarrow> full_sub s \<and> spc s = Poll \<and> enable (listener s) \<and> n < 4294967295 \<and>
     (\<exists>m. accounted m (listener s) \<and> m \<le> n \<and> sorted_wrt (<) (unread s) \<and> (\<forall>w \<in> set (unread s). m < unat w \<and> unat w \<le> n))"

definition fresh :: "ThroughputSubscriber \<Rightarrow> bool" where
  "fresh s \<longleftrightarrow> full_sub s \<and> spc s = Poll \<and> enable (listener s) \<and> accounted 0 (listener s) \<and> unread s = []"

definition waking :: "ThroughputSubscriber \<Rightarrow> bool" where
  "waking s \<longleftrightarrow> spc s = SubDiscovery \<or> spc s = Poll"

definition linked :: "ThroughputSubscriber \<Rightarrow> bool" where
  "linked s \<longleftrightarrow> full_sub s \<and> (spc s = WaitMatch \<or> spc s = Poll)"

text \<open>A test whose samples are sent: still running at the subscriber, or reported.\<close>

definition testing :: "bool \<Rightarrow> ThroughputPublisher \<Rightarrow> ThroughputSubscriber \<Rightarrow> e_Command list \<Rightarrow> ThroughputCommandType list \<Rightarrow> bool" where
  "testing b p s q r \<longleftrightarrow> demands p \<noteq> [] \<and> recoveries p \<noteq> [] \<and> full_sub s \<and> spc s = Poll \<and>
     (r = [] \<and> (b \<longrightarrow> counting (unat (samples_sent p)) s) \<and> (q = [TEST_STARTS, TEST_ENDS] \<or> q = [TEST_ENDS]) \<or>
      q = [] \<and> (\<exists>c. r = [c] \<and> m_command c = TEST_RESULTS \<and> (b \<longrightarrow> unat (m_receivedsamples c) \<le> unat (samples_sent p))))"

text \<open>Where the subscriber and the topics can be, for each place of the publisher: \<open>q\<close> are the kinds of the commands on
  their way to the subscriber, \<open>r\<close> the answers. \<open>b\<close> says that the counts have not wrapped.\<close>

fun phase :: "bool \<Rightarrow> pub_pc \<Rightarrow> ThroughputPublisher \<Rightarrow> ThroughputSubscriber \<Rightarrow> e_Command list \<Rightarrow> ThroughputCommandType list \<Rightarrow> bool" where
  "phase b WaitCommands p s q r = (bare_pub p \<and> bare_sub s \<and> waking s \<and> q = [] \<and> r = [])"
| "phase b SizeHead p s q r = (bare_pub p \<and> bare_sub s \<and> waking s \<and> q = [] \<and> r = [])"
| "phase b WaitData p s q r = (full_pub 0 p \<and> r = [] \<and> (bare_sub s \<and> waking s \<and> q = [TYPE_NEW] \<or> linked s \<and> q = []))"
| "phase b DemandHead p s q r = (full_pub 1 p \<and> q = [] \<and> r = [] \<and> linked s \<and> (spc s = Poll \<or> demands p \<noteq> []))"
| "phase b RecoveryHead p s q r = (full_pub 1 p \<and> q = [] \<and> r = [] \<and> linked s \<and> demands p \<noteq> [] \<and>
     (spc s = Poll \<or> recoveries p \<noteq> []))"
| "phase b (WaitBegin n) p s q r = (full_pub 1 p \<and> demands p \<noteq> [] \<and> recoveries p \<noteq> [] \<and>
     (n = 0 \<and> r = [] \<and> q = [READY_TO_START] \<and> linked s \<or>
      n = 0 \<and> q = [] \<and> map m_command r = [BEGIN] \<and> fresh s \<or>
      n = 1 \<and> q = [] \<and> r = [] \<and> fresh s))"
| "phase b WaitStartAck p s q r = (full_pub 1 p \<and> demands p \<noteq> [] \<and> recoveries p \<noteq> [] \<and> seqnum_sent p = 0 \<and>
     samples_sent p = 0 \<and> r = [] \<and> fresh s \<and> (q = [TEST_STARTS] \<or> q = []))"
| "phase b WaitEndAck p s q r = (full_pub 1 p \<and> testing b p s q r)"
| "phase b (WaitResults n) p s q r = (full_pub 1 p \<and>
     (n = 0 \<and> testing b p s q r \<or>
      n = 1 \<and> demands p \<noteq> [] \<and> recoveries p \<noteq> [] \<and> q = [] \<and> r = [] \<and> full_sub s \<and> spc s = Poll))"
| "phase b (WaitRemoved n) p s q r = (bare_pub p \<and> sizes p \<noteq> [] \<and>
     (n = 0 \<and> r = [] \<and> q = [TYPE_DISPOSE] \<and> full_sub s \<and> spc s = Poll \<or>
      n = 0 \<and> q = [] \<and> map m_command r = [TYPE_REMOVED] \<and> bare_sub s \<and> spc s = Poll \<or>
      n = 1 \<and> q = [] \<and> r = [] \<and> bare_sub s \<and> spc s = Poll))"
| "phase b Stops p s q r = (bare_pub p \<and> bare_sub s \<and> waking s \<and> q = [] \<and> r = [])"
| "phase b WaitStopAck p s q r = (bare_pub p \<and> bare_sub s \<and> r = [] \<and>
     (q = [ALL_STOPS] \<and> waking s \<or> q = [] \<and> spc s = SubReturned))"
| "phase b Returned p s q r = (bare_pub p \<and> bare_sub s \<and> r = [] \<and>
     (q = [ALL_STOPS] \<and> waking s \<or> q = [] \<and> spc s = SubReturned))"
| "phase b Aborted p s q r = (\<not> b \<and> q = [])"

section \<open>What is left to do\<close>

type_synonym test_key = "32 word \<times> 32 word \<times> 32 word"

definition test_keys :: "32 word \<Rightarrow> 32 word list \<Rightarrow> 32 word list \<Rightarrow> test_key list" where
  "test_keys sz ds rs = concat (map (\<lambda>d. map (\<lambda>r. (sz + 4, d, r)) rs) ds)"

text \<open>All tests: each size, each of its demands, each recovery time.\<close>

definition all_tests :: "(32 word \<times> 32 word list) list \<Rightarrow> 32 word list \<Rightarrow> test_key list" where
  "all_tests szs rs = concat (map (\<lambda>(sz, ds). test_keys sz ds rs) szs)"

definition result_key :: "TroughputResults \<Rightarrow> test_key" where
  "result_key r = (payload_size r, res_demand r, res_recovery_time_ms r)"

definition after_test :: "32 word list \<Rightarrow> ThroughputPublisher \<Rightarrow> test_key list" where
  "after_test rs p = map (\<lambda>r. (fst (hd (sizes p)) + 4, hd (demands p), r)) rs @
     test_keys (fst (hd (sizes p))) (tl (demands p)) (recovery_times p) @ all_tests (tl (sizes p)) (recovery_times p)"

fun pending :: "pub_pc \<Rightarrow> ThroughputPublisher \<Rightarrow> test_key list" where
  "pending WaitCommands p = all_tests (sizes p) (recovery_times p)"
| "pending SizeHead p = all_tests (sizes p) (recovery_times p)"
| "pending WaitData p = all_tests (sizes p) (recovery_times p)"
| "pending DemandHead p = test_keys (fst (hd (sizes p))) (demands p) (recovery_times p) @
     all_tests (tl (sizes p)) (recovery_times p)"
| "pending RecoveryHead p = after_test (recoveries p) p"
| "pending (WaitBegin n) p = after_test (recoveries p) p"
| "pending WaitStartAck p = after_test (recoveries p) p"
| "pending WaitEndAck p = after_test (recoveries p) p"
| "pending (WaitResults n) p = after_test (if n = 0 then recoveries p else tl (recoveries p)) p"
| "pending (WaitRemoved n) p = all_tests (tl (sizes p)) (recovery_times p)"
| "pending _ p = []"

definition demands_ok :: "32 word list \<Rightarrow> bool" where
  "demands_ok ds \<longleftrightarrow> list_all (\<lambda>d. unat d < 4294967295) ds"

definition sizes_ok :: "(32 word \<times> 32 word list) list \<Rightarrow> bool" where
  "sizes_ok szs \<longleftrightarrow> list_all (\<lambda>x. snd x \<noteq> [] \<and> demands_ok (snd x)) szs"

lemma sizes_ok_Cons [simp]: "sizes_ok (x # szs) \<longleftrightarrow> snd x \<noteq> [] \<and> demands_ok (snd x) \<and> sizes_ok szs"
  by (simp add: sizes_ok_def)

lemma demands_ok_Cons [simp]: "demands_ok (d # ds) \<longleftrightarrow> unat d < 4294967295 \<and> demands_ok ds"
  by (simp add: demands_ok_def)

lemma all_tests_Cons [simp]: "all_tests ((sz, ds) # szs) rs = test_keys sz ds rs @ all_tests szs rs"
  by (simp add: all_tests_def)

lemma all_tests_Nil [simp]: "all_tests [] rs = []"
  by (simp add: all_tests_def)

lemma test_keys_Cons [simp]: "test_keys sz (d # ds) rs = map (\<lambda>r. (sz + 4, d, r)) rs @ test_keys sz ds rs"
  by (simp add: test_keys_def)

lemma test_keys_Nil [simp]: "test_keys sz [] rs = []"
  by (simp add: test_keys_def)

definition config_ok :: "ThroughputPublisher \<Rightarrow> bool" where
  "config_ok p \<longleftrightarrow> subscribers p = 1 \<and> \<not> test_failure p \<and> (pc p \<noteq> WaitCommands \<longrightarrow> command_matches p = 2) \<and>
     recovery_times p \<noteq> [] \<and> sizes_ok (sizes p) \<and> demands_ok (demands p)"

definition sub_ok :: "ThroughputSubscriber \<Rightarrow> bool" where
  "sub_ok s \<longleftrightarrow> (spc s \<noteq> SubDiscovery \<longrightarrow> sub_command_matches s = 2)"

definition result_ok :: "TroughputResults \<Rightarrow> bool" where
  "result_ok r \<longleftrightarrow> unat (recv_samples r) + unat (res_lost_samples r) = unat (send_samples r)"

definition inv :: "test_key list \<Rightarrow> system \<Rightarrow> bool" where
  "inv plan y \<longleftrightarrow> config_ok (P y) \<and> sub_ok (S y) \<and>
     phase (fits y) (pc (P y)) (P y) (S y) (map m_command (pub2sub y)) (sub2pub y) \<and>
     (if pc (P y) = Aborted then prefix (map result_key (results (P y))) plan
      else map result_key (results (P y)) @ pending (pc (P y)) (P y) = plan) \<and>
     (fits y \<longrightarrow> list_all result_ok (results (P y)))"

section \<open>The steps of the publisher\<close>

lemma word_below_1 [simp]: "n < (1 :: 32 word) \<longleftrightarrow> n = 0"
  by (simp add: word_less_nat_alt unat_eq_0)

lemma inv_discovered:
  assumes "inv plan y" and "pc (P y) = WaitCommands" and "pub_wait_commands (on_commands_matched 1 1 (P y)) = Some p"
  shows "inv plan (y\<lparr>P := p\<rparr>)"
  using assms by (auto simp: inv_def pub_wait_commands_def on_commands_matched_def config_ok_def bare_pub_def split: if_splits)

lemma inv_matched:
  assumes "inv plan y" and "pc (P y) = WaitData" and "data_reader (S y) \<noteq> None"
    and "pub_wait_data (on_publication_matched 1 (P y)) = Some p"
  shows "inv plan (y\<lparr>P := p\<rparr>)"
  using assms
  by (cases "sizes (P y)") (auto simp: inv_def pub_wait_data_def on_publication_matched_def config_ok_def full_pub_def bare_sub_def
      linked_def split: if_splits)

lemma inv_size_head:
  assumes "inv plan y" and "pc (P y) = SizeHead" and "size_head (\<lambda>_. False) (P y) = (p, out)"
  shows "inv plan (y\<lparr>P := p, pub2sub := pub2sub y @ out\<rparr>)"
proof (cases "sizes (P y)")
  case Nil
  then show ?thesis using assms by (auto simp: inv_def size_head_def config_ok_def bare_pub_def)
next
  case (Cons x szs)
  obtain sz ds where x: "x = (sz, ds)" by fastforce
  show ?thesis using assms Cons unfolding x
    by (auto simp: inv_def size_head_def config_ok_def bare_pub_def full_pub_def init_static_types_def create_data_endpoints_def
        Let_def)
qed

lemma inv_demand_head:
  assumes "inv plan y" and "pc (P y) = DemandHead" and "demand_head (\<lambda>_. False) (P y) = (p, out)"
  shows "inv plan (y\<lparr>P := p, pub2sub := pub2sub y @ out\<rparr>)"
  using assms
  by (cases "demands (P y)") (auto simp: inv_def demand_head_def type_dispose_def config_ok_def bare_pub_def full_pub_def linked_def
      destroy_data_endpoints_def Let_def after_test_def)

lemma inv_recovery_head:
  assumes "inv plan y" and "pc (P y) = RecoveryHead" and "recovery_head (P y) = (p, out)"
  shows "inv plan (y\<lparr>P := p, pub2sub := pub2sub y @ out\<rparr>)"
  using assms
  by (cases "demands (P y)"; cases "recoveries (P y)")
    (auto simp: inv_def recovery_head_def config_ok_def full_pub_def Let_def after_test_def)

lemma inv_test_begin:
  assumes "inv plan y" and "pc (P y) = WaitBegin n" and "n \<noteq> 0" and "test_begin (P y) = (p, out)"
  shows "inv plan (y\<lparr>P := p, pub2sub := pub2sub y @ out\<rparr>)"
  using assms
  by (auto simp: inv_def test_begin_def total_matches_def config_ok_def full_pub_def ThroughputCommand_def after_test_def
      split: if_splits)

lemma inv_test_passed:
  assumes "inv plan y" and "pc (P y) = WaitResults n" and "n \<noteq> 0"
  shows "inv plan (y\<lparr>P := test_passed (P y)\<rparr>)"
  using assms
  by (auto simp: inv_def test_passed_def config_ok_def full_pub_def linked_def after_test_def)

lemma inv_type_removed:
  assumes "inv plan y" and "pc (P y) = WaitRemoved n" and "n \<noteq> 0"
  shows "inv plan (y\<lparr>P := type_removed (P y)\<rparr>)"
  using assms
  by (cases "sizes (P y)") (auto simp: inv_def type_removed_def config_ok_def bare_pub_def waking_def)

lemma inv_all_stops:
  assumes "inv plan y" and "pc (P y) = Stops" and "all_stops (P y) = (p, out)"
  shows "inv plan (y\<lparr>P := p, pub2sub := pub2sub y @ out\<rparr>)"
  using assms by (auto simp: inv_def all_stops_def config_ok_def bare_pub_def Let_def)

lemma inv_internal:
  assumes i: "inv plan y" and s: "pub_internal (\<lambda>_. False) (P y) = Some (p, out)"
  shows "inv plan (y\<lparr>P := p, pub2sub := pub2sub y @ out\<rparr>)"
proof -
  have n: "subscribers (P y) = 1" using i by (simp add: inv_def config_ok_def)
  show ?thesis
  proof (cases "pc (P y)")
    case SizeHead
    then show ?thesis using i s by (intro inv_size_head) (auto simp: pub_internal_def)
  next
    case DemandHead
    then show ?thesis using i s by (intro inv_demand_head) (auto simp: pub_internal_def)
  next
    case RecoveryHead
    then show ?thesis using i s by (intro inv_recovery_head) (auto simp: pub_internal_def)
  next
    case (WaitBegin k)
    then show ?thesis using i s n by (intro inv_test_begin) (auto simp: pub_internal_def split: if_splits)
  next
    case (WaitResults k)
    then show ?thesis using i s n inv_test_passed[OF i WaitResults] by (auto simp: pub_internal_def split: if_splits)
  next
    case (WaitRemoved k)
    then show ?thesis using i s n inv_type_removed[OF i WaitRemoved] by (auto simp: pub_internal_def split: if_splits)
  next
    case Stops
    then show ?thesis using i s by (intro inv_all_stops) (auto simp: pub_internal_def)
  qed (use s in \<open>simp_all add: pub_internal_def\<close>)
qed

lemma inv_take_begin:
  assumes "inv plan y" and "pc (P y) = WaitBegin 0" and "sub2pub y = c # cs"
  shows "inv plan (y\<lparr>P := take_begin (Taken c True) 0 (P y), sub2pub := cs\<rparr>)"
  using assms
  by (auto simp: inv_def take_begin_def take_command_def config_ok_def full_pub_def after_test_def)

lemma inv_take_removed:
  assumes "inv plan y" and "pc (P y) = WaitRemoved 0" and "sub2pub y = c # cs"
  shows "inv plan (y\<lparr>P := take_removed (Taken c True) 0 (P y), sub2pub := cs\<rparr>)"
  using assms
  by (auto simp: inv_def take_removed_def take_command_def config_ok_def bare_pub_def)

lemma result_ok_make:
  assumes "unat (m_receivedsamples c) \<le> unat (samples_sent p)"
  shows "result_ok (make_result c p)"
proof -
  have l: "unat (samples_sent p) < 2 ^ 32" using unsigned_less[of "samples_sent p", where ?'a = nat] by simp
  then have u: "unat (ucast (m_receivedsamples c) :: 32 word) = unat (m_receivedsamples c)"
    using assms by (simp add: unsigned_ucast_eq take_bit_nat_eq_self)
  have "unat (samples_sent p - ucast (m_receivedsamples c)) = unat (samples_sent p) - unat (m_receivedsamples c)"
    using assms u by (subst unat_sub) (simp_all add: word_le_nat_alt)
  moreover have "unat (ucast (samples_sent p) :: 64 word) = unat (samples_sent p)"
    using l by (simp add: unsigned_ucast_eq take_bit_nat_eq_self)
  ultimately show ?thesis using assms by (simp add: result_ok_def make_result_def)
qed

lemma received_not_above:
  assumes "unat (m_receivedsamples c) \<le> unat (w :: 32 word)"
  shows "\<not> ucast w < m_receivedsamples c"
proof -
  have "unat w < 2 ^ 32" using unsigned_less[of w, where ?'a = nat] by simp
  then have "unat (ucast w :: 64 word) = unat w" by (simp add: unsigned_ucast_eq take_bit_nat_eq_self)
  then show ?thesis using assms by (simp add: word_less_nat_alt)
qed

lemma inv_take_results:
  assumes i: "inv plan y" and "pc (P y) = WaitResults 0" and r: "sub2pub y = c # cs"
  shows "inv plan (y\<lparr>P := take_results (Taken c True) 0 (P y), sub2pub := cs\<rparr>)"
proof -
  from assms have c: "cs = []" "m_command c = TEST_RESULTS"
      "fits y \<longrightarrow> unat (m_receivedsamples c) \<le> unat (samples_sent (P y))" "pub2sub y = []" "full_sub (S y)" "spc (S y) = Poll" "demands (P y) \<noteq> []" "recoveries (P y) \<noteq> []"
    by (auto simp: inv_def testing_def)
  have k: "result_key (make_result c (P y)) = (fst (hd (sizes (P y))) + 4, hd (demands (P y)), hd (recoveries (P y)))"
    by (simp add: result_key_def make_result_def)
  show ?thesis
  proof (cases "ucast (samples_sent (P y)) < m_receivedsamples c")
    case True
    then have "\<not> fits y" using c(3) received_not_above by blast
    then show ?thesis using assms c True
      by (auto simp: inv_def take_results_def config_ok_def)
  next
    case False
    have "fits y \<longrightarrow> result_ok (make_result c (P y))" using c(3) result_ok_make by blast
    then show ?thesis using assms c k False
      by (cases "recoveries (P y)") (auto simp: inv_def take_results_def config_ok_def full_pub_def after_test_def Let_def)
  qed
qed

lemma inv_take:
  assumes i: "inv plan y" and r: "sub2pub y = c # cs" and s: "pub_take (Taken c True) (P y) = Some p"
  shows "inv plan (y\<lparr>P := p, sub2pub := cs\<rparr>)"
proof -
  have n: "subscribers (P y) = 1" using i by (simp add: inv_def config_ok_def)
  show ?thesis
    using s n inv_take_begin[OF i _ r] inv_take_results[OF i _ r] inv_take_removed[OF i _ r]
    by (auto simp: pub_take_def split: pub_pc.splits if_splits)
qed

lemma inv_acked:
  assumes i: "inv plan y" and s: "pub_acked True (P y) = Some p"
  shows "inv plan (y\<lparr>P := p\<rparr>)"
  using assms
  by (auto simp: inv_def pub_acked_def test_end_acked_def config_ok_def bare_pub_def full_pub_def testing_def after_test_def
      split: pub_pc.splits)

lemma inv_send:
  assumes i: "inv plan y" and pc: "pc (P y) = WaitStartAck"
    and s: "test_send T t0 t1 clock as (P y) = Some (p, out, ws)"
  shows "inv plan (y\<lparr>P := p, pub2sub := pub2sub y @ out, S := (S y)\<lparr>unread := unread (S y) @ ws\<rparr>,
    tests_sent := tests_sent y @ [batches T t0 t1 clock * unat (hd (demands (P y)))]\<rparr>)" (is "inv plan ?y")
proof -
  let ?n = "batches T t0 t1 clock * unat (hd (demands (P y)))"
  have z: "seqnum_sent (P y) = 0" "samples_sent (P y) = 0" using i pc by (simp_all add: inv_def)
  obtain sn sam where sb: "send_batches (pub_loans (P y)) (hd (demands (P y))) T t0 t1 clock as 0 0 = Some (sn, sam, ws)"
      "p = (P y)\<lparr>seqnum_sent := sn, samples_sent := sam, pc := WaitEndAck\<rparr>" "out = [ThroughputCommand TEST_ENDS]"
    using s z by (auto simp: test_send_def split: option.splits)
  have f: "fresh (S y)" using i pc by (simp add: inv_def)
  have cnt: "?n < 4294967295 \<longrightarrow> counting (unat sam) ((S y)\<lparr>unread := ws\<rparr>)"
  proof
    assume b: "?n < 4294967295"
    have "sam = sn \<and> unat sn < 4294967295 \<and> sorted_wrt (<) (0 # ws) \<and> (\<forall>w \<in> set ws. w \<le> sn) \<and> 0 \<le> sn"
      by (rule send_batches_sorted[OF sb(1)]) (use b in simp)
    then have "sam = sn" "unat sn < 4294967295" "sorted_wrt (<) ws" "\<forall>w \<in> set ws. 0 < unat w \<and> unat w \<le> unat sn"
      by (auto simp: word_less_nat_alt word_le_nat_alt)
    then show "counting (unat sam) ((S y)\<lparr>unread := ws\<rparr>)"
      using f unfolding counting_def fresh_def by (auto simp: full_sub_def intro!: exI[of _ 0])
  qed
  have ft: "fits ?y \<longleftrightarrow> fits y \<and> ?n < 4294967295" by (simp add: fits_def)
  show ?thesis using i pc sb(2,3) f cnt unfolding inv_def ft
    by (auto simp: config_ok_def sub_ok_def full_pub_def testing_def fresh_def full_sub_def ThroughputCommand_def after_test_def)
qed

section \<open>The steps of the subscriber\<close>

lemma inv_sub_discovered:
  assumes "inv plan y" and "sub_wait_commands ((S y)\<lparr>sub_command_matches := 2\<rparr>) = Some s"
  shows "inv plan (y\<lparr>S := s\<rparr>)"
  using assms
  by (cases "pc (P y)") (auto simp: inv_def sub_wait_commands_def sub_ok_def bare_sub_def full_sub_def linked_def waking_def
      fresh_def testing_def counting_def split: if_splits)

lemma inv_sub_matched:
  assumes "inv plan y" and "matched_data 1 (S y) = Some s"
  shows "inv plan (y\<lparr>S := s\<rparr>)"
  using assms
  by (cases "pc (P y)") (auto simp: inv_def matched_data_def sub_ok_def bare_sub_def full_sub_def linked_def waking_def
      fresh_def testing_def counting_def Let_def split: if_splits)

text \<open>What a round does with each command.\<close>

lemma round_type_new:
  assumes "sub_round (\<lambda>_. False) e (Some c) s = Inr (s', out)" and "m_command c = TYPE_NEW" and "bare_sub s"
  shows "out = [] \<and> full_sub s' \<and> spc s' = WaitMatch \<and> sub_command_matches s' = sub_command_matches s"
  using assms
  by (auto simp: sub_round_def process_message_def type_new_def sub_init_static_types_def sub_create_data_endpoints_def
      bare_sub_def full_sub_def Let_def)

lemma round_ready:
  assumes "sub_round (\<lambda>_. False) e (Some c) s = Inr (s', out)" and "m_command c = READY_TO_START" and "full_sub s" and "spc s = Poll"
  shows "out = [ThroughputCommand BEGIN] \<and> fresh s' \<and> sub_command_matches s' = sub_command_matches s"
  using assms
  by (auto simp: sub_round_def process_message_def ready_to_start_def full_sub_def fresh_def)

lemma round_test_starts:
  assumes "sub_round (\<lambda>_. False) e (Some c) s = Inr (s', out)" and "m_command c = TEST_STARTS"
  shows "out = [] \<and> s' = s"
  using assms by (auto simp: sub_round_def process_message_def)

lemma round_test_ends:
  assumes "sub_round (\<lambda>_. False) e (Some c) s = Inr (s', out)" and "m_command c = TEST_ENDS" and "full_sub s" and "spc s = Poll"
    and "b \<longrightarrow> counting n s"
  shows "full_sub s' \<and> spc s' = Poll \<and> sub_command_matches s' = sub_command_matches s \<and>
    (\<exists>r. out = [r] \<and> m_command r = TEST_RESULTS \<and> (b \<longrightarrow> unat (m_receivedsamples r) \<le> n))"
  using assms
  by (auto simp: sub_round_def process_message_def test_ends_def result_command_def save_numbers_def listener_disable_def
      counting_def full_sub_def accounted_def ThroughputCommand_def)

lemma round_dispose:
  assumes "sub_round (\<lambda>_. False) e (Some c) s = Inr (s', out)" and "m_command c = TYPE_DISPOSE" and "full_sub s" and "spc s = Poll"
  shows "out = [ThroughputCommand TYPE_REMOVED] \<and> bare_sub s' \<and> spc s' = Poll \<and> sub_command_matches s' = sub_command_matches s"
  using assms
  by (auto simp: sub_round_def process_message_def sub_type_dispose_def sub_destroy_data_endpoints_def listener_reset_def
      full_sub_def bare_sub_def Let_def)

lemma round_all_stops:
  assumes "sub_round (\<lambda>_. False) e (Some c) s = Inr (s', out)" and "m_command c = ALL_STOPS"
  shows "out = [] \<and> s' = s\<lparr>spc := SubReturned\<rparr>"
  using assms by (auto simp: sub_round_def process_message_def)

lemma inv_command:
  assumes i: "inv plan y" and p: "spc (S y) = Poll" and q: "pub2sub y = c # cs"
    and r: "sub_round (\<lambda>_. False) e (Some c) (S y) = Inr (s, out)"
  shows "inv plan (y\<lparr>S := s, pub2sub := cs, sub2pub := sub2pub y @ out\<rparr>)"
proof -
  have ph: "phase (fits y) (pc (P y)) (P y) (S y) (m_command c # map m_command cs) (sub2pub y)" and so: "sub_command_matches (S y) = 2"
    using i q p by (simp_all add: inv_def sub_ok_def)
  have "sub_command_matches s = 2 \<and> phase (fits y) (pc (P y)) (P y) s (map m_command cs) (sub2pub y @ out)"
  proof (cases "pc (P y)")
    case WaitData
    then have "m_command c = TYPE_NEW" "bare_sub (S y)" using ph by auto
    from round_type_new[OF r this] show ?thesis using ph so WaitData by (auto simp: linked_def)
  next
    case (WaitBegin n)
    then have "m_command c = READY_TO_START" "full_sub (S y)" using ph by (auto simp: linked_def)
    from round_ready[OF r this p] show ?thesis using ph so WaitBegin by (auto simp: ThroughputCommand_def)
  next
    case WaitStartAck
    then have "m_command c = TEST_STARTS" using ph by auto
    from round_test_starts[OF r this] show ?thesis using ph so WaitStartAck by auto
  next
    case WaitEndAck
    show ?thesis
    proof (cases "m_command c = TEST_STARTS")
      case True
      from round_test_starts[OF r this] show ?thesis using ph so WaitEndAck True by (auto simp: testing_def)
    next
      case False
      then have t: "m_command c = TEST_ENDS" "full_sub (S y)" "spc (S y) = Poll"
          "fits y \<longrightarrow> counting (unat (samples_sent (P y))) (S y)" using ph WaitEndAck
        by (auto simp: testing_def)
      from round_test_ends[OF r this] show ?thesis using ph so WaitEndAck t by (auto simp: testing_def)
    qed
  next
    case (WaitResults n)
    show ?thesis
    proof (cases "m_command c = TEST_STARTS")
      case True
      from round_test_starts[OF r this] show ?thesis using ph so WaitResults True by (auto simp: testing_def)
    next
      case False
      then have t: "m_command c = TEST_ENDS" "full_sub (S y)" "spc (S y) = Poll"
          "fits y \<longrightarrow> counting (unat (samples_sent (P y))) (S y)" using ph WaitResults
        by (auto simp: testing_def)
      from round_test_ends[OF r this] show ?thesis using ph so WaitResults t by (auto simp: testing_def)
    qed
  next
    case (WaitRemoved n)
    then have "m_command c = TYPE_DISPOSE" "full_sub (S y)" using ph by auto
    from round_dispose[OF r this p] show ?thesis using ph so WaitRemoved by (auto simp: ThroughputCommand_def)
  next
    case WaitStopAck
    then have "m_command c = ALL_STOPS" using ph by auto
    from round_all_stops[OF r this] show ?thesis using ph so WaitStopAck by (auto simp: bare_sub_def)
  next
    case Returned
    then have "m_command c = ALL_STOPS" using ph by auto
    from round_all_stops[OF r this] show ?thesis using ph so Returned by (auto simp: bare_sub_def)
  qed (use ph in simp_all)
  then show ?thesis using i by (simp add: inv_def sub_ok_def)
qed

lemma sorted_subseq: "subseq xs ys \<Longrightarrow> sorted_wrt R ys \<Longrightarrow> sorted_wrt R xs"
  by (induction xs ys rule: list_emb.induct) (auto dest: list_emb_set)

lemma counting_deliver:
  assumes c: "counting n s" and a: "unread s = arrived @ later" and r: "read_as (sub_loans s) arrived found"
  shows "counting n (s\<lparr>unread := later, listener := on_data_available (sub_loans s) (Some found) (listener s)\<rparr>)"
proof -
  from r obtain kept where k: "subseq kept arrived" "list_all2 (\<lambda>w. carries (sub_loans s) (unat w)) kept found"
    by (auto simp: read_as_def)
  from c a obtain m where m: "accounted m (listener s)" "m \<le> n" "sorted_wrt (<) (arrived @ later)"
      "\<forall>w \<in> set (arrived @ later). m < unat w \<and> unat w \<le> n" "n < 4294967295" "enable (listener s)" "full_sub s" "spc s = Poll"
    by (auto simp: counting_def)
  have sub: "set kept \<subseteq> set arrived" using k(1) by (auto dest: list_emb_set)
  have sk: "sorted_wrt (<) kept" using m(3) k(1) by (auto simp: sorted_wrt_append intro: sorted_subseq)
  have nk: "numbered (sub_loans s) m (map unat kept) found"
    by (rule numbered_of_sorted[OF sk _ k(2)]) (use sub m(4,5) in force)
  let ?L = "on_data_available (sub_loans s) (Some found) (listener s)" and ?m = "last (m # map unat kept)"
  have acc: "accounted ?m ?L" "untouched (listener s) ?L"
    using counter.counts[OF m(6) m(1) nk] m(2,5) by simp_all
  have "?m \<le> n \<and> (\<forall>w \<in> set later. ?m < unat w)"
  proof (cases kept)
    case Nil
    then show ?thesis using m by auto
  next
    case (Cons w ws)
    then have l: "?m = unat (last kept)" "last kept \<in> set arrived" using sub last_in_set[of kept] by (auto simp: last_map)
    then show ?thesis using m(3,4) by (auto simp: sorted_wrt_append word_less_nat_alt)
  qed
  then show ?thesis using acc m unfolding counting_def
    by (auto simp: full_sub_def untouched_def sorted_wrt_append intro!: exI[of _ ?m])
qed

lemma inv_deliver:
  assumes i: "inv plan y" and e: "data_reader (S y) \<noteq> None" "unread (S y) = arrived @ later" "arrived \<noteq> []"
    and r: "read_as (sub_loans (S y)) arrived found"
  shows "inv plan (y\<lparr>S := (S y)\<lparr>unread := later,
    listener := on_data_available (sub_loans (S y)) (Some found) (listener (S y))\<rparr>\<rparr>)"
proof -
  let ?s = "(S y)\<lparr>unread := later, listener := on_data_available (sub_loans (S y)) (Some found) (listener (S y))\<rparr>"
  have c: "counting n (S y) \<Longrightarrow> counting n ?s" for n using counting_deliver[OF _ e(2) r] .
  have b: "\<not> bare_sub (S y)" "\<not> fresh (S y)" using e by (auto simp: bare_sub_def fresh_def)
  have f: "full_sub ?s = full_sub (S y)" "linked ?s = linked (S y)" by (simp_all add: full_sub_def linked_def)
  have t: "testing w p (S y) q u \<Longrightarrow> testing w p ?s q u" for w p q u
    using c f(1) unfolding testing_def by auto
  have "phase w k p (S y) q u \<Longrightarrow> phase w k p ?s q u" for w k p q u
    by (cases k) (use b f t in auto)
  then show ?thesis using i by (auto simp: inv_def sub_ok_def)
qed

lemma inv_step: "sys_step T y y' \<Longrightarrow> inv plan y \<Longrightarrow> inv plan y'"
proof (induction rule: sys_step.induct)
  case (discovered y p)
  then show ?case using inv_discovered by blast
next
  case (internal y p out)
  then show ?case using inv_internal by blast
next
  case (matched y p)
  then show ?case using inv_matched by blast
next
  case (take y c cs p)
  then show ?case using inv_take by blast
next
  case (send y t0 t1 clock as p out ws)
  then show ?case using inv_send by blast
next
  case (acked y p)
  then show ?case using inv_acked by blast
next
  case (sub_discovered y s)
  then show ?case using inv_sub_discovered by blast
next
  case (command y c cs e s out)
  then show ?case using inv_command by blast
next
  case (sub_matched y s)
  then show ?case using inv_sub_matched by blast
next
  case (deliver y arrived later found)
  then show ?case using inv_deliver by blast
qed

lemma inv_steps: "(sys_step T)\<^sup>*\<^sup>* y y' \<Longrightarrow> inv plan y \<Longrightarrow> inv plan y'"
  by (induction rule: rtranclp_induct) (auto dest: inv_step)

section \<open>No deadlock\<close>

lemma sub_round_ok:
  assumes "m_command c = TYPE_NEW \<longrightarrow> \<not> sub_data s" and "m_command c = READY_TO_START \<longrightarrow> data_reader s \<noteq> None"
  shows "\<exists>s' out. sub_round (\<lambda>_. False) e (Some c) s = Inr (s', out)"
  using assms
  by (auto simp: sub_round_def process_message_def type_new_def ready_to_start_def test_ends_def sub_type_dispose_def
      sub_init_static_types_def sub_create_data_endpoints_def Let_def split: e_Command.splits prod.splits)

lemma can_command:
  assumes "sub_ok (S y)" and "waking (S y)" and "matched (listener (S y)) = 0 \<or> spc (S y) = Poll" and q: "pub2sub y = c # cs"
    and "m_command c = TYPE_NEW \<longrightarrow> \<not> sub_data (S y)" and "m_command c = READY_TO_START \<longrightarrow> data_reader (S y) \<noteq> None"
  shows "\<exists>y'. sys_step T y y'"
proof (cases "spc (S y) = Poll")
  case True
  from sub_round_ok[OF assms(5,6)] obtain s' out where "sub_round (\<lambda>_. False) 0 (Some c) (S y) = Inr (s', out)" by blast
  from sys_step.command[OF True q this] show ?thesis by blast
next
  case False
  then have "sub_wait_commands ((S y)\<lparr>sub_command_matches := 2\<rparr>) = Some ((S y)\<lparr>sub_command_matches := 2, spc := Poll\<rparr>)"
    using assms(2,3) by (simp add: sub_wait_commands_def sub_total_matches_def waking_def)
  from sys_step.sub_discovered[OF this] show ?thesis by blast
qed

lemma can_match:
  assumes "sub_ok (S y)" and "spc (S y) = WaitMatch" and w: "data_writer (P y) \<noteq> None"
  shows "\<exists>y'. sys_step T y y'"
proof -
  have "matched_data 1 (S y) = Some ((S y)\<lparr>listener := on_subscription_matched 1 (listener (S y)), spc := Poll\<rparr>)"
    using assms(1,2) by (simp add: matched_data_def sub_total_matches_def on_subscription_matched_def sub_ok_def)
  from sys_step.sub_matched[OF w this] show ?thesis by blast
qed

lemma loan_batch_all: "\<exists>s ws. loan_batch n sn (replicate n (True, True)) = Some (s, ws, [])"
proof (induction n arbitrary: sn)
  case (Suc n)
  from Suc[of "sn + 1"] show ?case by auto
qed simp

lemma can_send:
  assumes pc: "pc (P y) = WaitStartAck" and d: "unat (hd (demands (P y))) < 4294967295"
  shows "\<exists>y'. sys_step T y y' \<and> (fits y \<longrightarrow> fits y')"
proof -
  let ?d = "hd (demands (P y))" and ?as = "replicate (unat (hd (demands (P y)))) (True, True)"
  have "\<exists>s ws as'. send_batch (pub_loans (P y)) ?d (seqnum_sent (P y)) ?as = Some (s, ws, as')"
    using loan_batch_all[of "unat ?d" "seqnum_sent (P y)"] by (auto simp: send_batch_def split: prod.splits)
  then obtain p out ws where "test_send T 0 0 (if 0 < T then [T] else []) ?as (P y) = Some (p, out, ws)"
    by (cases "0 < T") (auto simp: test_send_def send_batches.simps)
  from sys_step.send[OF pc this] have "sys_step T y (y\<lparr>P := p, pub2sub := pub2sub y @ out, S := (S y)\<lparr>unread := unread (S y) @ ws\<rparr>,
      tests_sent := tests_sent y @ [batches T 0 0 (if 0 < T then [T] else []) * unat ?d]\<rparr>)" (is "sys_step T y ?z") .
  moreover have "fits y \<longrightarrow> fits ?z" using d by (simp add: fits_def)
  ultimately show ?thesis by blast
qed

lemma progress:
  assumes i: "inv plan y" and n: "pc (P y) \<noteq> Returned \<or> spc (S y) \<noteq> SubReturned" and na: "pc (P y) \<noteq> Aborted"
  shows "\<exists>y'. sys_step T y y'"
proof -
  have c: "config_ok (P y)" "sub_ok (S y)" and ph: "phase (fits y) (pc (P y)) (P y) (S y) (map m_command (pub2sub y)) (sub2pub y)"
    using i by (simp_all add: inv_def)
  have int: "pub_internal (\<lambda>_. False) (P y) \<noteq> None \<Longrightarrow> ?thesis" using sys_step.internal by fastforce
  have tak: "sub2pub y = x # xs \<Longrightarrow> pub_take (Taken x True) (P y) \<noteq> None \<Longrightarrow> ?thesis" for x xs using sys_step.take by fastforce
  have ack: "pub_acked True (P y) \<noteq> None \<Longrightarrow> ?thesis" using sys_step.acked by fastforce
  have one: "subscribers (P y) = 1" using c(1) by (simp add: config_ok_def)
  show ?thesis
  proof (cases "pc (P y)")
    case WaitCommands
    then have "pub_wait_commands (on_commands_matched 1 1 (P y)) \<noteq> None"
      using ph one by (simp add: pub_wait_commands_def on_commands_matched_def total_matches_def bare_pub_def)
    then show ?thesis using sys_step.discovered[OF WaitCommands] by fastforce
  next
    case WaitData
    show ?thesis
    proof (cases "data_reader (S y)")
      case None
      then show ?thesis using ph WaitData c(2)
        by (auto simp: linked_def full_sub_def bare_sub_def intro!: can_command)
    next
      case (Some q)
      have "pub_wait_data (on_publication_matched 1 (P y)) \<noteq> None"
        using WaitData one c(1) by (simp add: pub_wait_data_def on_publication_matched_def total_matches_def config_ok_def)
      then show ?thesis using sys_step.matched[OF WaitData] Some by fastforce
    qed
  next
    case (WaitBegin n)
    show ?thesis
    proof (cases "n = 0")
      case True
      consider "linked (S y)" "spc (S y) = WaitMatch" | "linked (S y)" "spc (S y) = Poll" "map m_command (pub2sub y) = [READY_TO_START]"
        | "map m_command (sub2pub y) = [BEGIN]" using ph WaitBegin True by (auto simp: linked_def)
      then show ?thesis
      proof cases
        case 1
        then show ?thesis using ph WaitBegin by (intro can_match[OF c(2)]) (simp_all add: full_pub_def)
      next
        case 2
        then show ?thesis using c(2) by (auto simp: linked_def full_sub_def waking_def intro!: can_command)
      next
        case 3
        then obtain b where b: "sub2pub y = [b]" by auto
        show ?thesis by (rule tak[OF b]) (use WaitBegin True one in \<open>simp add: pub_take_def\<close>)
      qed
    next
      case False
      then show ?thesis using WaitBegin one by (intro int) (simp add: pub_internal_def)
    qed
  next
    case WaitStartAck
    then have "unat (hd (demands (P y))) < 4294967295"
      using ph c(1) by (cases "demands (P y)") (auto simp: config_ok_def)
    from can_send[OF WaitStartAck this] show ?thesis by blast
  next
    case (WaitResults n)
    show ?thesis
    proof (cases "n = 0")
      case True
      consider x xs where "spc (S y) = Poll" "pub2sub y = x # xs" "m_command x = TEST_STARTS \<or> m_command x = TEST_ENDS"
        | x where "sub2pub y = [x]" using ph WaitResults True by (auto simp: testing_def counting_def)
      then show ?thesis
      proof cases
        case 1
        then show ?thesis using c(2) by (intro can_command) (auto simp: waking_def)
      next
        case 2
        show ?thesis by (rule tak[OF 2]) (use WaitResults True one in \<open>simp add: pub_take_def\<close>)
      qed
    next
      case False
      then show ?thesis using WaitResults one by (intro int) (simp add: pub_internal_def)
    qed
  next
    case (WaitRemoved n)
    show ?thesis
    proof (cases "n = 0")
      case True
      consider x xs where "spc (S y) = Poll" "pub2sub y = x # xs" "m_command x = TYPE_DISPOSE"
        | x where "sub2pub y = [x]" using ph WaitRemoved True by auto
      then show ?thesis
      proof cases
        case 1
        then show ?thesis using c(2) by (intro can_command) (auto simp: waking_def)
      next
        case 2
        show ?thesis by (rule tak[OF 2]) (use WaitRemoved True one in \<open>simp add: pub_take_def\<close>)
      qed
    next
      case False
      then show ?thesis using WaitRemoved one by (intro int) (simp add: pub_internal_def)
    qed
  next
    case Returned
    then show ?thesis using ph c(2) n by (auto simp: bare_sub_def intro!: can_command)
  qed (use ph int ack na in \<open>simp_all add: pub_internal_def pub_acked_def\<close>)
qed

section \<open>Termination\<close>

text \<open>How many steps the publisher has left.\<close>

definition per_demand :: "ThroughputPublisher \<Rightarrow> nat" where
  "per_demand p = 3 + 8 * length (recovery_times p)"

definition sizes_left :: "ThroughputPublisher \<Rightarrow> (32 word \<times> 32 word list) list \<Rightarrow> nat" where
  "sizes_left p szs = 3 + sum_list (map (\<lambda>x. 6 + length (snd x) * per_demand p) szs)"

definition tests_left :: "ThroughputPublisher \<Rightarrow> nat" where
  "tests_left p = 6 + sizes_left p (tl (sizes p)) + length (tl (demands p)) * per_demand p + 8 * length (recoveries p)"

fun pub_left :: "pub_pc \<Rightarrow> ThroughputPublisher \<Rightarrow> nat" where
  "pub_left WaitCommands p = 1 + sizes_left p (sizes p)"
| "pub_left SizeHead p = sizes_left p (sizes p)"
| "pub_left WaitData p = sizes_left p (sizes p) - 1"
| "pub_left DemandHead p = 4 + sizes_left p (tl (sizes p)) + length (demands p) * per_demand p"
| "pub_left RecoveryHead p = tests_left p"
| "pub_left (WaitBegin n) p = tests_left p - (if n = 0 then 1 else 2)"
| "pub_left WaitStartAck p = tests_left p - 3"
| "pub_left WaitEndAck p = tests_left p - 4"
| "pub_left (WaitResults n) p = tests_left p - (if n = 0 then 5 else 6)"
| "pub_left (WaitRemoved n) p = sizes_left p (tl (sizes p)) + (if n = 0 then 2 else 1)"
| "pub_left Stops p = 2"
| "pub_left WaitStopAck p = 1"
| "pub_left Returned p = 0"
| "pub_left Aborted p = 0"

definition sub_left :: "system \<Rightarrow> nat" where
  "sub_left y = 2 * length (pub2sub y) + (if spc (S y) = WaitMatch \<or> spc (S y) = SubDiscovery then 1 else 0)"

definition shrinks :: "(system \<times> system) set" where
  "shrinks = inv_image (less_than <*lex*> less_than <*lex*> less_than)
     (\<lambda>y. (pub_left (pc (P y)) (P y), sub_left y, length (unread (S y))))"

lemma wf_shrinks: "wf shrinks"
  by (auto simp: shrinks_def)

lemma sizes_left_pos [simp]: "0 < sizes_left p szs"
  by (simp add: sizes_left_def)

lemma sizes_left_ge: "3 \<le> sizes_left p szs"
  by (simp add: sizes_left_def)

lemma sizes_left_cong: "recovery_times p = recovery_times p' \<Longrightarrow> sizes_left p szs = sizes_left p' szs"
  by (simp add: sizes_left_def per_demand_def)

lemma internal_left:
  assumes i: "inv plan y" and s: "pub_internal (\<lambda>_. False) (P y) = Some (p, out)"
  shows "pub_left (pc p) p < pub_left (pc (P y)) (P y)"
proof -
  have n: "subscribers (P y) = 1" and ph: "phase (fits y) (pc (P y)) (P y) (S y) (map m_command (pub2sub y)) (sub2pub y)"
    using i by (simp_all add: inv_def config_ok_def)
  show ?thesis
  proof (cases "pc (P y)")
    case SizeHead
    then have sz: "size_head (\<lambda>_. False) (P y) = (p, out)" "bare_pub (P y)" using s ph by (auto simp: pub_internal_def)
    then show ?thesis using SizeHead
      by (cases "sizes (P y)") (auto simp: size_head_def bare_pub_def init_static_types_def create_data_endpoints_def Let_def
        sizes_left_def per_demand_def)
  next
    case DemandHead
    then have "demand_head (\<lambda>_. False) (P y) = (p, out)" "full_pub 1 (P y)" using s ph by (auto simp: pub_internal_def)
    then show ?thesis using DemandHead
      by (cases "demands (P y)") (auto simp: demand_head_def type_dispose_def full_pub_def destroy_data_endpoints_def Let_def
        tests_left_def sizes_left_def per_demand_def)
  next
    case RecoveryHead
    then have "recovery_head (P y) = (p, out)" "demands (P y) \<noteq> []" using s ph by (auto simp: pub_internal_def)
    then show ?thesis using RecoveryHead
      by (cases "demands (P y)"; cases "recoveries (P y)") (auto simp: recovery_head_def Let_def tests_left_def sizes_left_def per_demand_def)
  next
    case (WaitBegin k)
    then show ?thesis using s n ph
      by (auto simp: pub_internal_def test_begin_def tests_left_def sizes_left_def per_demand_def split: if_splits)
  next
    case (WaitResults k)
    then show ?thesis using s n ph
      by (cases "recoveries (P y)") (auto simp: pub_internal_def test_passed_def tests_left_def sizes_left_def per_demand_def
        split: if_splits)
  next
    case (WaitRemoved k)
    then show ?thesis using s n ph
      by (auto simp: pub_internal_def type_removed_def sizes_left_def per_demand_def split: if_splits)
  next
    case Stops
    then show ?thesis using s by (auto simp: pub_internal_def all_stops_def Let_def)
  qed (use s in \<open>simp_all add: pub_internal_def\<close>)
qed

lemma take_left:
  assumes i: "inv plan y" and r: "sub2pub y = c # cs" and s: "pub_take (Taken c True) (P y) = Some p"
  shows "pub_left (pc p) p < pub_left (pc (P y)) (P y)"
proof -
  have n: "subscribers (P y) = 1" and ph: "phase (fits y) (pc (P y)) (P y) (S y) (map m_command (pub2sub y)) (c # cs)"
    using i r by (simp_all add: inv_def config_ok_def)
  show ?thesis
  proof (cases "pc (P y)")
    case (WaitBegin k)
    then show ?thesis using s n ph
      by (auto simp: pub_take_def take_begin_def take_command_def tests_left_def sizes_left_def per_demand_def split: if_splits)
  next
    case (WaitResults k)
    then show ?thesis using s n ph received_not_above
      by (auto simp: pub_take_def take_results_def tests_left_def sizes_left_def per_demand_def testing_def Let_def split: if_splits)
  next
    case (WaitRemoved k)
    then show ?thesis using s n ph
      by (auto simp: pub_take_def take_removed_def take_command_def sizes_left_def per_demand_def split: if_splits)
  qed (use s in \<open>simp_all add: pub_take_def\<close>)
qed

lemma step_shrinks: "sys_step T y y' \<Longrightarrow> inv plan y \<Longrightarrow> (y', y) \<in> shrinks"
proof (induction rule: sys_step.induct)
  case (discovered y p)
  then show ?case by (auto simp: shrinks_def pub_wait_commands_def on_commands_matched_def sizes_left_def per_demand_def split: if_splits)
next
  case (internal y p out)
  then show ?case using internal_left by (auto simp: shrinks_def)
next
  case (matched y p)
  then show ?case
    by (cases "sizes (P y)") (auto simp: inv_def shrinks_def pub_wait_data_def on_publication_matched_def full_pub_def
      sizes_left_def per_demand_def split: if_splits)
next
  case (take y c cs p)
  then show ?case using take_left by (auto simp: shrinks_def)
next
  case (send y t0 t1 clock as p out ws)
  then show ?case by (auto simp: shrinks_def test_send_def tests_left_def sizes_left_def per_demand_def split: option.splits)
next
  case (acked y p)
  then show ?case
    by (auto simp: shrinks_def pub_acked_def test_end_acked_def tests_left_def sizes_left_def per_demand_def split: pub_pc.splits)
next
  case (sub_discovered y s)
  then show ?case by (auto simp: shrinks_def sub_left_def sub_wait_commands_def split: if_splits)
next
  case (command y c cs e s out)
  then show ?case by (auto simp: shrinks_def sub_left_def)
next
  case (sub_matched y s)
  then show ?case by (auto simp: shrinks_def sub_left_def matched_data_def Let_def split: if_splits)
next
  case (deliver y arrived later found)
  then show ?case by (auto simp: shrinks_def sub_left_def)
qed

section \<open>The whole test\<close>

definition start_system :: "bool \<Rightarrow> endpoint_qos \<Rightarrow> bool \<Rightarrow> endpoint_qos \<Rightarrow> bool \<Rightarrow> 32 word \<times> 32 word \<times> 64 word \<Rightarrow>
    (32 word \<times> 32 word list) list \<Rightarrow> 32 word list \<Rightarrow> system" where
  "start_system pl wq sl rq en saved szs rs =
     \<lparr>P = new_publisher 1 pl wq szs rs, S = new_subscriber sl rq en saved, pub2sub = [], sub2pub = [], tests_sent = []\<rparr>"

lemma inv_start: "sizes_ok szs \<Longrightarrow> rs \<noteq> [] \<Longrightarrow> inv (all_tests szs rs) (start_system pl wq sl rq en saved szs rs)"
  by (simp add: inv_def start_system_def new_publisher_def new_subscriber_def config_ok_def sub_ok_def bare_pub_def bare_sub_def
      waking_def demands_ok_def)

lemma start_fits: "fits (start_system pl wq sl rq en saved szs rs)"
  by (simp add: fits_def start_system_def)

lemma inv_final:
  assumes "inv plan y" and "\<nexists>y'. sys_step T y y'"
  shows "pc (P y) = Aborted \<and> \<not> fits y \<or>
    pc (P y) = Returned \<and> spc (S y) = SubReturned \<and> map result_key (results (P y)) = plan \<and>
      (fits y \<longrightarrow> list_all result_ok (results (P y)))"
proof (cases "pc (P y) = Aborted")
  case True
  then show ?thesis using assms(1) by (simp add: inv_def)
next
  case False
  then have "pc (P y) = Returned \<and> spc (S y) = SubReturned" using progress[OF assms(1)] assms(2) by blast
  then show ?thesis using assms(1) by (simp add: inv_def)
qed

text \<open>A run that goes on can go on without a count that wraps.\<close>

lemma step_fits:
  assumes "sys_step T y y'" and "inv plan y" and "fits y"
  shows "\<exists>z. sys_step T y z \<and> fits z"
  using assms(1)
proof (cases rule: sys_step.cases)
  case (send t0 t1 clock as p out ws)
  then have "unat (hd (demands (P y))) < 4294967295"
    using assms(2) by (cases "demands (P y)") (auto simp: inv_def config_ok_def)
  from can_send[OF send(2) this] assms(3) show ?thesis by blast
qed (use assms(1,3) in auto)

lemma inv_reaches_end: "inv plan y \<Longrightarrow> fits y \<Longrightarrow> \<exists>y'. (sys_step T)\<^sup>*\<^sup>* y y' \<and> fits y' \<and> (\<nexists>y''. sys_step T y' y'')"
proof (induction y rule: wf_induct_rule[OF wf_shrinks])
  case (1 y)
  show ?case
  proof (cases "\<exists>y'. sys_step T y y'")
    case True
    then obtain y' where s: "sys_step T y y'" "fits y'" using step_fits "1.prems" by blast
    from "1.IH"[OF step_shrinks[OF s(1) "1.prems"(1)] inv_step[OF s(1) "1.prems"(1)] s(2)] s(1) show ?thesis
      by (meson converse_rtranclp_into_rtranclp)
  qed (use "1.prems" in blast)
qed

lemma inv_no_infinite_run:
  assumes "inv plan (f 0)" and "\<forall>i. sys_step T (f i) (f (Suc i))"
  shows False
proof -
  have i: "inv plan (f i)" for i by (induction i) (use assms inv_step in blast)+
  have "(f (Suc i), f i) \<in> shrinks" for i using step_shrinks i assms(2) by blast
  then show False using wf_shrinks by (auto simp: wf_iff_no_infinite_down_chain)
qed

text \<open>C3: What the throughput test has done when it cannot go on, for any loss and overriding of data and any interleaving,
  provided calls succeed and acknowledgments and answers come in time. Publisher and subscriber have both returned and there
  is exactly one result for every payload size, demand and recovery time, in the order they were asked for; and when no test
  has sent \<open>2 ^ 32 - 1\<close> samples or more (\<open>fits\<close>), received and lost samples of each result add up to the samples sent. With
  a longer test the 32-bit counts wrap: the sums are then not claimed, and the only other end is that the publisher's
  assertion about the received samples has failed.\<close>

theorem throughput_all_reported:
  assumes "sizes_ok szs" and "rs \<noteq> []" and "(sys_step T)\<^sup>*\<^sup>* (start_system pl wq sl rq en saved szs rs) y"
    and "\<nexists>y'. sys_step T y y'"
  shows "pc (P y) = Aborted \<and> \<not> fits y \<or>
    pc (P y) = Returned \<and> spc (S y) = SubReturned \<and> map result_key (results (P y)) = all_tests szs rs \<and>
    (fits y \<longrightarrow> list_all (\<lambda>r. unat (recv_samples r) + unat (res_lost_samples r) = unat (send_samples r)) (results (P y)))"
  using inv_final[OF inv_steps[OF assms(3) inv_start[OF assms(1,2)]] assms(4)]
  by (simp add: result_ok_def[abs_def])

definition example_qos :: endpoint_qos where
  "example_qos = \<lparr>hist_kind = KEEP_LAST_HISTORY_QOS, depth = 1, max_samples = 5000, allocated_samples = 100\<rparr>"

lemma throughput_all_reported_witness:
  "\<exists>y. (sys_step 5)\<^sup>*\<^sup>* (start_system False example_qos True example_qos False (0, 0, 0) [(12, [100, 7]), (60, [20])] [0, 50]) y \<and>
    map result_key (results (P y)) = [(16, 100, 0), (16, 100, 50), (16, 7, 0), (16, 7, 50), (64, 20, 0), (64, 20, 50)] \<and>
    list_all (\<lambda>r. unat (recv_samples r) + unat (res_lost_samples r) = unat (send_samples r)) (results (P y))"
proof -
  let ?szs = "[(12, [100, 7]), (60, [20])] :: (32 word \<times> 32 word list) list" and ?rs = "[0, 50] :: 32 word list"
  have h: "sizes_ok ?szs" "?rs \<noteq> []" by (simp_all add: sizes_ok_def demands_ok_def)
  from inv_reaches_end[OF inv_start[OF h] start_fits] obtain y where
    y: "(sys_step 5)\<^sup>*\<^sup>* (start_system False example_qos True example_qos False (0, 0, 0) ?szs ?rs) y" "\<nexists>y'. sys_step 5 y y'" "fits y"
    by blast
  from throughput_all_reported[OF h y(1,2)] y(1,3) show ?thesis by (auto intro!: exI[of _ y])
qed

text \<open>C5: The throughput test ends: no interleaving goes on for ever.\<close>

theorem throughput_ends:
  assumes "sizes_ok szs" and "rs \<noteq> []"
  shows "\<not> (\<exists>f. f 0 = start_system pl wq sl rq en saved szs rs \<and> (\<forall>i. sys_step T (f i) (f (Suc i))))"
  using inv_no_infinite_run inv_start[OF assms] by metis

lemma throughput_ends_witness:
  "\<not> (\<exists>f. f 0 = start_system True example_qos True example_qos False (0, 0, 0) [(12, [100])] [0] \<and>
    (\<forall>i. sys_step 5 (f i) (f (Suc i))))"
  by (rule throughput_ends) (simp_all add: sizes_ok_def demands_ok_def)

text \<open>C4: In every state the throughput test can reach when calls succeed and acknowledgments and answers come in time: no test
  has been given up, and the results so far are those of the first tests, in order. As long as no test has sent
  \<open>2 ^ 32 - 1\<close> samples or more (\<open>fits\<close>), no assertion has failed, and in each result the samples received are at most those
  sent and received and lost samples add up to them: the subtraction that computes the lost samples does not wrap.\<close>

theorem throughput_safe:
  assumes "sizes_ok szs" and "rs \<noteq> []" and "(sys_step T)\<^sup>*\<^sup>* (start_system pl wq sl rq en saved szs rs) y"
  shows "\<not> test_failure (P y) \<and> prefix (map result_key (results (P y))) (all_tests szs rs) \<and>
    (fits y \<longrightarrow> pc (P y) \<noteq> Aborted \<and> list_all (\<lambda>r. recv_samples r \<le> send_samples r \<and>
      unat (recv_samples r) + unat (res_lost_samples r) = unat (send_samples r)) (results (P y)))"
proof -
  have i: "inv (all_tests szs rs) y" by (rule inv_steps[OF assms(3) inv_start[OF assms(1,2)]])
  then have "fits y \<longrightarrow> list_all result_ok (results (P y))" by (simp add: inv_def)
  then have "fits y \<longrightarrow> list_all (\<lambda>r. recv_samples r \<le> send_samples r \<and>
      unat (recv_samples r) + unat (res_lost_samples r) = unat (send_samples r)) (results (P y))"
    by (auto simp: result_ok_def word_le_nat_alt elim!: list.pred_mono_strong)
  moreover have "prefix (map result_key (results (P y))) (all_tests szs rs)" "fits y \<longrightarrow> pc (P y) \<noteq> Aborted" "\<not> test_failure (P y)"
    using i by (auto simp: inv_def config_ok_def intro: prefixI[OF sym] split: if_splits)
  ultimately show ?thesis by blast
qed

text \<open>A complete run of two tests.\<close>

lemma throughput_safe_witness:
  "\<exists>y. (sys_step 5)\<^sup>*\<^sup>* (start_system False example_qos True example_qos False (0, 0, 0) [(12, [100, 7])] [0]) y \<and>
    pc (P y) \<noteq> Aborted \<and> \<not> test_failure (P y) \<and> length (results (P y)) = 2 \<and>
    list_all (\<lambda>r. recv_samples r \<le> send_samples r) (results (P y))"
proof -
  have h: "sizes_ok [(12 :: 32 word, [100, 7])]" "[0 :: 32 word] \<noteq> []" by (simp_all add: sizes_ok_def demands_ok_def)
  from inv_reaches_end[OF inv_start[OF h] start_fits] obtain y where
    y: "(sys_step 5)\<^sup>*\<^sup>* (start_system False example_qos True example_qos False (0, 0, 0) [(12, [100, 7])] [0]) y"
      "\<nexists>y'. sys_step 5 y y'" "fits y"
    by blast
  from throughput_safe[OF h y(1)] y(3) have s: "pc (P y) \<noteq> Aborted" "\<not> test_failure (P y)"
    "list_all (\<lambda>r. recv_samples r \<le> send_samples r) (results (P y))" by (auto elim: list.pred_mono_strong)
  have "map result_key (results (P y)) = [(16, 100, 0), (16, 7, 0)]"
    using inv_final[OF inv_steps[OF y(1) inv_start[OF h]] y(2)] s(1) by simp
  then have "length (map result_key (results (P y))) = 2" by simp
  then have "length (results (P y)) = 2" by simp
  then show ?thesis using y(1) s by blast
qed

text \<open>A test of exactly \<open>2 ^ 32\<close> samples leaves a count of none: the first sample that a subscriber reports makes the
  publisher's assertion fail.\<close>

lemma throughput_wrap_aborts:
  assumes "test_send T t0 t1 clock as p = Some (p1, out, ws)" and "samples_sent p = 0"
    and "batches T t0 t1 clock * unat (hd (demands p)) = 2 ^ 32" and "m_command c = TEST_RESULTS" and "m_receivedsamples c \<noteq> 0"
  shows "pc (take_results (Taken c True) 0 p1) = Aborted"
proof -
  obtain s sam where sb: "send_batches (pub_loans p) (hd (demands p)) T t0 t1 clock as (seqnum_sent p) 0 = Some (s, sam, ws)"
      "p1 = p\<lparr>seqnum_sent := s, samples_sent := sam, pc := WaitEndAck\<rparr>"
    using assms(1,2) by (auto simp: test_send_def split: option.splits)
  have "sam = of_nat (batches T t0 t1 clock * unat (hd (demands p)))" using samples_wrap[OF sb(1)] by simp
  also have "\<dots> = (of_nat (2 ^ LENGTH(32)) :: 32 word)" using assms(3) by (simp only: len_num0 len_num1 len_bit0)  simp
  also have "\<dots> = 0" by (rule word_exp_length_eq_0[THEN trans[rotated]]) simp
  finally have "sam = 0" .
  then show ?thesis using sb(2) assms(4,5) by (simp add: take_results_def word_gt_0)
qed

section \<open>Waiting for the subscribers\<close>

fun take_all :: "taken list \<Rightarrow> ThroughputPublisher \<Rightarrow> ThroughputPublisher option" where
  "take_all [] p = Some p"
| "take_all (t # ts) p = Option.bind (pub_take t p) (take_all ts)"

lemma take_nothing_again:
  assumes "pc p = WaitBegin n" and "info_valid p" and "m_command (cmd p) = BEGIN" and "unat n + k = unat (subscribers p)"
  shows "\<exists>p'. take_all (replicate k Nothing) p = Some p' \<and> pc p' = WaitBegin (subscribers p) \<and> subscribers p' = subscribers p"
  using assms
proof (induction k arbitrary: n p)
  case 0
  then show ?case by (simp add: word_unat_eq_iff)
next
  case (Suc k)
  then have l: "n < subscribers p" by (simp add: word_less_nat_alt)
  let ?p = "p\<lparr>pc := WaitBegin (n + 1)\<rparr>"
  have t: "pub_take Nothing p = Some ?p" using Suc.prems l by (simp add: pub_take_def take_begin_def take_command_def)
  have "unat (n + 1) + k = unat (subscribers ?p)" using word_Suc_below[OF l] Suc.prems(4) by simp
  from Suc.IH[OF _ _ _ this] Suc.prems(2,3) have
    "\<exists>p'. take_all (replicate k Nothing) ?p = Some p' \<and> pc p' = WaitBegin (subscribers ?p) \<and> subscribers p' = subscribers ?p"
    by simp
  then show ?case using t by simp
qed

text \<open>One answer starts the test for any number of subscribers: each later wait that times out leaves the answer in
  place, and it is counted again.\<close>

theorem throughput_stale_begin:
  assumes "pc p = WaitBegin 0" and "unat (subscribers p) = Suc k" and "m_command c = BEGIN"
  shows "\<exists>p'. take_all (Taken c True # replicate k Nothing) p = Some p' \<and> pub_internal fails p' = Some (test_begin p')"
proof -
  have l: "0 < subscribers p" using assms(2) by (simp add: word_less_nat_alt)
  let ?p = "p\<lparr>cmd := c, info_valid := True, pc := WaitBegin 1\<rparr>"
  have t: "pub_take (Taken c True) p = Some ?p" using assms l by (simp add: pub_take_def take_begin_def take_command_def)
  from take_nothing_again[of ?p 1 k] assms obtain p' where
    "take_all (replicate k Nothing) ?p = Some p'" "pc p' = WaitBegin (subscribers p)" "subscribers p' = subscribers p" by auto
  then show ?thesis using t by (auto simp: pub_internal_def)
qed

lemma throughput_stale_begin_witness:
  "\<exists>p'. take_all [Taken (ThroughputCommand BEGIN) True, Nothing, Nothing] ((new_publisher 3 False example_qos [] [])\<lparr>pc := WaitBegin 0\<rparr>) = Some p'
    \<and> pub_internal (\<lambda>_. False) p' = Some (test_begin p')"
proof -
  have e: "[Taken (ThroughputCommand BEGIN) True, Nothing, Nothing] = Taken (ThroughputCommand BEGIN) True # replicate 2 Nothing"
    by (simp add: numeral_2_eq_2)
  show ?thesis unfolding e
    by (rule throughput_stale_begin) (simp_all add: new_publisher_def ThroughputCommand_def)
qed

section \<open>The history\<close>

lemma max_of_demands_ge: "d \<in> set ds \<Longrightarrow> d \<le> max_of_demands ds"
proof -
  have "m \<le> foldl (\<lambda>m d. max d m) m ds \<and> (\<forall>d \<in> set ds. d \<le> foldl (\<lambda>m d. max d m) m ds)" for m :: "32 word"
  proof (induction ds arbitrary: m)
    case (Cons x ds)
    from Cons[of "max x m"] show ?case by auto
  qed simp
  then show "d \<in> set ds \<Longrightarrow> d \<le> max_of_demands ds" by (simp add: max_of_demands_def)
qed

lemma uint_not_below:
  assumes "0 \<le> x" and "x < 2 ^ 31" and "\<not> word_of_int x < (m :: 32 word)" and "d \<le> m"
  shows "uint d \<le> x"
proof -
  have "uint (word_of_int x :: 32 word) = x" using assms(1,2) by (simp add: uint_word_of_int)
  then show ?thesis using assms(3,4) by (simp add: word_less_def word_le_def)
qed

lemma sint_uint_small: "uint (m :: 32 word) < 2 ^ 31 \<Longrightarrow> sint m = uint m"
  by (simp add: sint_uint signed_take_bit_eq_if_positive take_bit_int_eq_self bit_iff_odd)

text \<open>Publisher and subscriber fit their histories alike: for demands below \<open>2 ^ 31\<close> and limits within \<^verbatim>\<open>int32_t\<close> the
  depth of a history that keeps the last samples, and the sample limit of one that keeps all, hold a whole burst of
  every demand of the payload, the allocated samples are the limit, and nothing else changes.\<close>

theorem throughput_history_fits:
  assumes "\<forall>d \<in> set ds. uint d < 2 ^ 31" and "depth q < 2 ^ 31" and "max_samples q < 2 ^ 31"
  shows "fit_reader_history (max_of_demands ds) q = fit_writer_history (max_of_demands ds) q \<and>
    (\<forall>d \<in> set ds. uint d \<le> (case hist_kind q of KEEP_LAST_HISTORY_QOS \<Rightarrow> depth (fit_writer_history (max_of_demands ds) q)
      | KEEP_ALL_HISTORY_QOS \<Rightarrow> max_samples (fit_writer_history (max_of_demands ds) q))) \<and>
    allocated_samples (fit_writer_history (max_of_demands ds) q) = max_samples (fit_writer_history (max_of_demands ds) q) \<and>
    hist_kind (fit_writer_history (max_of_demands ds) q) = hist_kind q"
proof -
  let ?m = "max_of_demands ds"
  have "uint ?m < 2 ^ 31"
  proof -
    have "uint m < 2 ^ 31 \<Longrightarrow> uint (foldl (\<lambda>m d. max d m) m ds) < 2 ^ 31" for m :: "32 word"
      using assms(1) by (induction ds arbitrary: m) (auto simp: max_def)
    then show ?thesis by (simp add: max_of_demands_def)
  qed
  then have s: "sint ?m = uint ?m" by (rule sint_uint_small)
  have le: "d \<in> set ds \<Longrightarrow> uint d \<le> uint ?m" for d using max_of_demands_ge[of d ds] by (simp add: word_le_def)
  have dep: "0 \<le> depth q \<Longrightarrow> \<not> word_of_int (depth q) < ?m \<Longrightarrow> d \<in> set ds \<Longrightarrow> uint d \<le> depth q" for d
    using uint_not_below[OF _ assms(2)] max_of_demands_ge[of d ds] by blast
  have sam: "0 < max_samples q \<Longrightarrow> \<not> word_of_int (max_samples q) < ?m \<Longrightarrow> d \<in> set ds \<Longrightarrow> uint d \<le> max_samples q" for d
    using uint_not_below[OF _ assms(3)] max_of_demands_ge[of d ds] by simp
  show ?thesis
    using s le dep sam
    by (cases "hist_kind q") (auto simp: fit_writer_history_def fit_reader_history_def Let_def not_less)
qed

lemma throughput_history_fits_witness:
  "uint (700 :: 32 word) \<le> depth (fit_writer_history (max_of_demands [20, 700]) example_qos)"
  using throughput_history_fits[of "[20, 700]" example_qos] by (simp add: example_qos_def)

end
