(* ===== verification/Latency_Types.thy ===== *)
theory Latency_Types
  imports Bytes
begin

text \<open>
  \<^verbatim>\<open>LatencyTestTypes.hpp\<close> and \<^verbatim>\<open>LatencyTestTypes.cpp\<close> of \<^verbatim>\<open>src/other/pubsub/dds/performance/latency\<close>: the sample that is
  bounced between publisher and subscriber, and the four byte command. Memory is modelled as in
  \<open>Throughput_Types\<close>.
\<close>

section \<open>The data sample\<close>

record LatencyType =
  seqnum :: "32 word"
  bounce :: "32 word"
  body :: bytes

definition encapsulation :: bytes where
  "encapsulation = [0, 1, 0, 0]"

lemma latency_length_encapsulation [simp]: "length encapsulation = 4"
  by (simp add: encapsulation_def)

text \<open>The buffer size is a \<^verbatim>\<open>size_t\<close>, the serialized size is kept in 32 bits.\<close>

definition max_serialized_type_size :: "64 word \<Rightarrow> 32 word" where
  "max_serialized_type_size sz = ucast (4 + 4 + ((sz + 3) AND NOT 3) + 4)"

definition create_data :: "64 word \<Rightarrow> bytes \<Rightarrow> LatencyType result" where
  "create_data sz junk =
     (if length junk = unat (max_serialized_type_size sz) \<and> 8 \<le> length junk
      then Inr \<lparr>seqnum = le_word (take 4 junk), bounce = le_word (take 4 (drop 4 junk)), body = drop 8 junk\<rparr>
      else Inl OutOfBounds)"

definition compare_data :: "64 word \<Rightarrow> LatencyType \<Rightarrow> LatencyType \<Rightarrow> bool result" where
  "compare_data sz a b =
     (if seqnum a \<noteq> seqnum b then Inr False
      else rbind (get 0 (unat sz) (body a)) (\<lambda>x. rbind (get 0 (unat sz) (body b)) (\<lambda>y. Inr (x = y))))"

definition copy_data :: "64 word \<Rightarrow> LatencyType \<Rightarrow> LatencyType \<Rightarrow> LatencyType result" where
  "copy_data sz src dst =
     rbind (get 0 (unat sz) (body src)) (\<lambda>d. rbind (put 0 d (body dst)) (\<lambda>b.
     Inr (dst\<lparr>seqnum := seqnum src, bounce := bounce src, body := b\<rparr>)))"

definition data_serialize :: "64 word \<Rightarrow> LatencyType \<Rightarrow> bytes \<Rightarrow> (bytes \<times> nat) result" where
  "data_serialize sz lt payload =
     rbind (put 0 encapsulation payload) (\<lambda>p1.
     rbind (put 4 (le_bytes 4 (seqnum lt)) p1) (\<lambda>p2.
     rbind (put 8 (le_bytes 4 (bounce lt)) p2) (\<lambda>p3.
     rbind (get 0 (unat sz) (body lt)) (\<lambda>d.
     rbind (put 12 d p3) (\<lambda>p4.
     Inr (p4, unat (max_serialized_type_size sz)))))))"

definition data_deserialize :: "64 word \<Rightarrow> bytes \<Rightarrow> LatencyType \<Rightarrow> LatencyType result" where
  "data_deserialize sz payload lt =
     rbind (get 4 4 payload) (\<lambda>s.
     rbind (get 8 4 payload) (\<lambda>bo.
     rbind (get 12 (unat sz) payload) (\<lambda>d.
     rbind (put 0 d (body lt)) (\<lambda>b.
     Inr (lt\<lparr>seqnum := le_word s, bounce := le_word bo, body := b\<rparr>)))))"

section \<open>The command sample\<close>

datatype TESTCOMMAND = DEFAULT | READY | BEGIN | STOP | END | STOP_ERROR | OtherCommand "32 word"

definition named_commands :: "TESTCOMMAND list" where
  "named_commands = [DEFAULT, READY, BEGIN, STOP, END, STOP_ERROR]"

definition command_value :: "TESTCOMMAND \<Rightarrow> 32 word" where
  "command_value c = (case c of DEFAULT \<Rightarrow> 0 | READY \<Rightarrow> 1 | BEGIN \<Rightarrow> 2 | STOP \<Rightarrow> 3 | END \<Rightarrow> 4 | STOP_ERROR \<Rightarrow> 5
     | OtherCommand w \<Rightarrow> w)"

definition command_of :: "32 word \<Rightarrow> TESTCOMMAND" where
  "command_of w = (if unat w < 6 then named_commands ! unat w else OtherCommand w)"

definition command_serialize :: "TESTCOMMAND \<Rightarrow> bytes \<Rightarrow> (bytes \<times> nat) result" where
  "command_serialize t p = rbind (put 0 (le_bytes 4 (command_value t)) p) (\<lambda>p. Inr (p, 4))"

definition command_deserialize :: "bytes \<Rightarrow> TESTCOMMAND result" where
  "command_deserialize p = rbind (get 0 4 p) (\<lambda>c. Inr (command_of (le_word c)))"

section \<open>Round trips\<close>

definition command_valid :: "TESTCOMMAND \<Rightarrow> bool" where
  "command_valid t \<longleftrightarrow> (\<forall>w. t = OtherCommand w \<longrightarrow> 6 \<le> unat w)"

lemma latency_command_of_value: "command_valid t \<Longrightarrow> command_of (command_value t) = t"
  by (cases t) (simp_all add: command_of_def command_value_def named_commands_def command_valid_def)

interpretation latency_command: wire_type command_serialize "\<lambda>n b d0. command_deserialize b" command_valid "(=)" 4
proof
  fix d d0 :: TESTCOMMAND and buf :: bytes
  assume v: "command_valid d" and c: "4 \<le> length buf"
  from put_ok[of 0 "le_bytes 4 (command_value d)" buf] c obtain b where
    b: "put 0 (le_bytes 4 (command_value d)) buf = Inr b" "length b = length buf" "take 4 b = le_bytes 4 (command_value d)"
    by auto
  have "get 0 4 b = Inr (le_bytes 4 (command_value d))" using get_prefix[OF b(3), of 0 4] b(2) c by simp
  with b v show "\<exists>b n d'. command_serialize d buf = Inr (b, n) \<and> length b = length buf \<and> n \<le> 4 \<and>
      command_deserialize b = Inr d' \<and> command_valid d' \<and> d = d'"
    by (simp add: command_serialize_def command_deserialize_def latency_command_of_value)
qed

lemma latency_max_size_unat:
  assumes "unat sz \<le> 2 ^ 32 - 16"
  shows "unat (max_serialized_type_size sz) = (unat sz + 3) div 4 * 4 + 12"
proof -
  let ?m = "(unat sz + 3) div 4 * 4"
  have le: "?m \<le> unat sz + 3" by simp
  have "unat (sz + 3) = unat sz + 3" using assms by (simp add: unat_word_ariths)
  then have a: "unat ((sz + 3) AND NOT 3) = ?m" using and_not_3[of "sz + 3"] by simp
  have b: "?m + 12 < 2 ^ 32" using le assms by simp
  with a have c: "unat (4 + 4 + ((sz + 3) AND NOT 3) + 4) = ?m + 12" by (simp add: unat_word_ariths)
  have "unat (max_serialized_type_size sz) = take_bit 32 (?m + 12)"
    unfolding max_serialized_type_size_def c[symmetric] by (simp add: unsigned_ucast_eq)
  then show ?thesis using b by (simp add: take_bit_nat_eq_self)
qed

definition data_valid :: "64 word \<Rightarrow> LatencyType \<Rightarrow> bool" where
  "data_valid sz lt \<longleftrightarrow> 8 + length (body lt) = unat (max_serialized_type_size sz)"

definition data_same :: "64 word \<Rightarrow> LatencyType \<Rightarrow> LatencyType \<Rightarrow> bool" where
  "data_same sz a b \<longleftrightarrow> compare_data sz a b = Inr True \<and> bounce a = bounce b"

lemma latency_data_roundtrip:
  assumes s: "unat sz \<le> 2 ^ 32 - 16" and v: "data_valid sz d" "data_valid sz d0"
    and p: "unat (max_serialized_type_size sz) \<le> length p"
  shows "\<exists>b n d'. data_serialize sz d p = Inr (b, n) \<and> length b = length p \<and> n = unat (max_serialized_type_size sz) \<and>
    data_deserialize sz b d0 = Inr d' \<and> data_valid sz d' \<and> data_same sz d d'"
proof -
  let ?n = "unat sz" and ?m = "unat (max_serialized_type_size sz)"
  have m: "?n + 12 \<le> ?m" using latency_max_size_unat[OF s] by linarith
  then have l: "?n \<le> length (body d)" "?n \<le> length (body d0)" using v by (simp_all add: data_valid_def)
  let ?d = "take ?n (body d)"
  let ?fs = "[encapsulation, le_bytes 4 (seqnum d), le_bytes 4 (bounce d), ?d]"
  have fs: "length (concat ?fs) = 12 + ?n" using l by simp
  have "0 + length (concat ?fs) \<le> length p" unfolding fs using m p by simp
  from put_all_ok[OF this] obtain b where b: "put_all 0 ?fs p = Inr b" "length b = length p" "take (12 + ?n) b = concat ?fs"
    unfolding fs by auto
  have ser: "data_serialize sz d p = Inr (b, ?m)"
    using b(1) l by (simp add: data_serialize_def get_def rbind_eq_Inr_iff)
  have g: "off + k \<le> 12 + ?n \<Longrightarrow> get off k b = Inr (take k (drop off (concat ?fs)))" for off k
    by (rule get_prefix[OF b(3)]) (use m p b(2) in simp_all)
  let ?d' = "d0\<lparr>seqnum := seqnum d, bounce := bounce d, body := ?d @ drop ?n (body d0)\<rparr>"
  have "data_deserialize sz b d0 = Inr ?d'"
    using m l by (simp add: data_deserialize_def g put_def)
  moreover have "data_valid sz ?d'" using v l by (simp add: data_valid_def)
  moreover have "data_same sz d ?d'" using l by (simp add: data_same_def compare_data_def get_def)
  ultimately show ?thesis using ser b(2) by blast
qed

interpretation latency_data: wire_type "data_serialize sz" "\<lambda>n. data_deserialize sz"
    "\<lambda>d. unat sz \<le> 2 ^ 32 - 16 \<and> data_valid sz d" "data_same sz" "unat (max_serialized_type_size sz)" for sz
proof
  fix d d0 :: LatencyType and buf :: bytes
  assume "unat sz \<le> 2 ^ 32 - 16 \<and> data_valid sz d" "unat sz \<le> 2 ^ 32 - 16 \<and> data_valid sz d0"
    and c: "unat (max_serialized_type_size sz) \<le> length buf"
  then have a: "unat sz \<le> 2 ^ 32 - 16" "data_valid sz d" "data_valid sz d0" by blast+
  from latency_data_roundtrip[OF a c] a(1) show "\<exists>b n d'. data_serialize sz d buf = Inr (b, n) \<and> length b = length buf \<and>
      n \<le> unat (max_serialized_type_size sz) \<and> data_deserialize sz b d0 = Inr d' \<and>
      (unat sz \<le> 2 ^ 32 - 16 \<and> data_valid sz d') \<and> data_same sz d d'" by blast
qed

text \<open>The subscriber's echo copies the sample into a loaned one of the same type: a copy compares equal.\<close>

lemma latency_copy_same:
  assumes "unat sz \<le> 2 ^ 32 - 16" and "data_valid sz src" and "data_valid sz dst"
  shows "\<exists>d. copy_data sz src dst = Inr d \<and> data_valid sz d \<and> data_same sz src d"
proof -
  have "unat sz + 12 \<le> unat (max_serialized_type_size sz)" using latency_max_size_unat[OF assms(1)] by linarith
  then have "unat sz \<le> length (body src)" "unat sz \<le> length (body dst)" using assms(2,3) by (simp_all add: data_valid_def)
  then show ?thesis using assms(3) by (simp add: copy_data_def get_def put_def data_valid_def data_same_def compare_data_def)
qed

end
