(* ===== verification/Latency_Test.thy ===== *)
theory Latency_Test
  imports Latency_Types Complex_Main
begin

text \<open>
  The measurements of \<^verbatim>\<open>LatencyTestPublisher.cpp\<close> and the echo of \<^verbatim>\<open>LatencyTestSubscriber.cpp\<close> in
  \<^verbatim>\<open>src/other/pubsub/dds/performance/latency\<close>, with static types. What readers and clocks return is an argument; times
  are in microseconds as exact fractions, where the code has \<^verbatim>\<open>double\<close>. The standard deviation and the output are left
  out.
\<close>

section \<open>The publisher's measuring loop\<close>

record LatencyTestPublisher =
  subscribers :: int
  samples :: "32 word"
  data_loans :: bool
  overhead_time :: rat
  out_seqnum :: "32 word"
  start_time :: int
  times :: "rat list"
  command_msg_count :: int
  data_msg_count :: int
  received_count :: "32 word"

text \<open>\<open>None\<close>: \<^verbatim>\<open>take_next_sample\<close> fails or the sample has no valid data.\<close>

definition command_on_data_available :: "TESTCOMMAND option \<Rightarrow> LatencyTestPublisher \<Rightarrow> LatencyTestPublisher" where
  "command_on_data_available c p =
     (if c = Some BEGIN \<or> c = Some END then p\<lparr>command_msg_count := command_msg_count p + 1\<rparr> else p)"

definition roundtrip :: "LatencyType \<Rightarrow> int \<Rightarrow> LatencyTestPublisher \<Rightarrow> rat" where
  "roundtrip s now p =
     (let bounce_time = (if data_loans p then uint (bounce s) else 0)
      in of_int (now - bounce_time - start_time p) / 1000 / 2 - overhead_time p)"

definition on_data_available :: "LatencyType option \<Rightarrow> int \<Rightarrow> LatencyTestPublisher \<Rightarrow> LatencyTestPublisher" where
  "on_data_available taken now p = (case taken of None \<Rightarrow> p
     | Some s \<Rightarrow>
         let p1 = (if seqnum s \<noteq> out_seqnum p then p
                   else let rt = roundtrip s now p;
                            p2 = (if 0 < rt \<and> \<not> (data_loans p \<and> 10000 < rt)
                                  then p\<lparr>times := times p @ [rt], received_count := received_count p + 1\<rparr> else p)
                        in p2\<lparr>out_seqnum := 0\<rparr>)
         in p1\<lparr>data_msg_count := data_msg_count p1 + 1\<rparr>)"

text \<open>One iteration: no loan after ten trials; the write fails; or the sample is sent at some time and, until the wait is
  over, samples come back at their times.\<close>

datatype round = NoLoan | WriteFails int | Sent int "(LatencyType option \<times> int) list"

definition publish :: "32 word \<Rightarrow> int \<Rightarrow> LatencyTestPublisher \<Rightarrow> LatencyTestPublisher" where
  "publish n now p = p\<lparr>out_seqnum := n, start_time := now\<rparr>"

definition data_wait_over :: "LatencyTestPublisher \<Rightarrow> bool" where
  "data_wait_over p \<longleftrightarrow> subscribers p \<le> data_msg_count p"

definition echoes_in :: "(LatencyType option \<times> int) list \<Rightarrow> LatencyTestPublisher \<Rightarrow> LatencyTestPublisher" where
  "echoes_in es p = fold (\<lambda>(s, now). on_data_available s now) es p"

fun measure_loop :: "32 word \<Rightarrow> round list \<Rightarrow> LatencyTestPublisher \<Rightarrow> bool \<times> LatencyTestPublisher" where
  "measure_loop n [] p = (True, p)"
| "measure_loop n (NoLoan # rs) p = measure_loop (n + 1) rs (p\<lparr>out_seqnum := n\<rparr>)"
| "measure_loop n (WriteFails now # rs) p = (False, publish n now p)"
| "measure_loop n (Sent now es # rs) p =
     measure_loop (n + 1) rs ((echoes_in es (publish n now p))\<lparr>data_msg_count := 0\<rparr>)"

section \<open>Statistics\<close>

record TimeStats =
  bytes_sent :: "64 word"
  received :: "32 word"
  minimum :: rat
  maximum :: rat
  percentile_50 :: "rat option"
  percentile_90 :: "rat option"
  percentile_99 :: "rat option"
  percentile_9999 :: "rat option"
  mean :: rat

text \<open>The element at a fraction of the sorted times; \<open>None\<close> stands for \<^verbatim>\<open>NAN\<close>.\<close>

definition percentile :: "rat \<Rightarrow> rat list \<Rightarrow> rat option" where
  "percentile f ts =
     (let elem = nat \<lfloor>of_nat (length ts) * f\<rfloor>
      in if elem > 0 \<and> elem \<le> length ts then Some (ts ! (elem - 1)) else None)"

definition analyze_times :: "32 word \<Rightarrow> LatencyTestPublisher \<Rightarrow> TimeStats result" where
  "analyze_times datasize p =
     (if times p = [] then Inl OutOfBounds
      else let ts = sort (times p)
           in Inr \<lparr>bytes_sent = ucast datasize, received = received_count p - 1, minimum = Min (set (times p)),
             maximum = Max (set (times p)), percentile_50 = percentile (5 / 10) ts, percentile_90 = percentile (9 / 10) ts,
             percentile_99 = percentile (99 / 100) ts, percentile_9999 = percentile (9999 / 10000) ts,
             mean = sum_list (times p) / of_nat (length (times p))\<rparr>)"

text \<open>The first measurement is dropped; \<^verbatim>\<open>erase\<close> needs one.\<close>

definition finish_test :: "32 word \<Rightarrow> LatencyTestPublisher \<Rightarrow> TimeStats result" where
  "finish_test datasize p =
     (if times p = [] then Inl OutOfBounds else analyze_times datasize (p\<lparr>times := tl (times p)\<rparr>))"

section \<open>The subscriber\<close>

record LatencyTestSubscriber =
  echo :: bool
  sub_loans :: bool
  sub_command_count :: int
  test_status :: int

definition sub_command_on_data_available :: "TESTCOMMAND option \<Rightarrow> LatencyTestSubscriber \<Rightarrow> LatencyTestSubscriber" where
  "sub_command_on_data_available c s = (case c of None \<Rightarrow> s
     | Some c \<Rightarrow>
         let s1 = (if c = STOP_ERROR then s\<lparr>test_status := - 1\<rparr> else s)
         in if c \<noteq> DEFAULT then s1\<lparr>sub_command_count := sub_command_count s1 + 1\<rparr> else s1)"

text \<open>The echo of a sample, by copying: the received object is written back with its bounce time cleared.\<close>

definition echo_copy :: "LatencyType option \<Rightarrow> LatencyTestSubscriber \<Rightarrow> LatencyType option" where
  "echo_copy taken s = (case taken of None \<Rightarrow> None
     | Some d \<Rightarrow> if echo s then Some (d\<lparr>bounce := 0\<rparr>) else None)"

text \<open>With loans: the sample goes through the buffer \<^verbatim>\<open>latency_data_\<close> into a loaned one, and the time in between is its bounce
  time. The last arguments: whether the reader takes the loan back, the loan granted within ten trials, and the
  clock readings.\<close>

definition echo_loan ::
  "64 word \<Rightarrow> LatencyType option \<Rightarrow> LatencyType \<Rightarrow> bool \<Rightarrow> LatencyType option \<Rightarrow> int \<Rightarrow> int \<Rightarrow> LatencyTestSubscriber \<Rightarrow>
   (LatencyType option \<times> LatencyType) result" where
  "echo_loan sz taken buf returned loan t0 t1 s = (case taken of None \<Rightarrow> Inr (None, buf)
     | Some d \<Rightarrow>
         if \<not> echo s then Inr (None, buf)
         else rbind (copy_data sz d buf) (\<lambda>b.
           if \<not> returned then Inr (None, b)
           else case loan of None \<Rightarrow> Inr (None, b)
             | Some l \<Rightarrow> rbind (copy_data sz b l) (\<lambda>l1. Inr (Some (l1\<lparr>bounce := word_of_int (t1 - t0)\<rparr>), b))))"

section \<open>What a round measures\<close>

definition is_echo :: "32 word \<Rightarrow> LatencyType option \<times> int \<Rightarrow> bool" where
  "is_echo n e \<longleftrightarrow> (case fst e of None \<Rightarrow> False | Some s \<Rightarrow> seqnum s = n)"

text \<open>The specification: the first echo of the round's own sample, if its time is plausible.\<close>

definition round_times :: "LatencyTestPublisher \<Rightarrow> 32 word \<Rightarrow> round \<Rightarrow> rat list" where
  "round_times p n r = (case r of Sent now es \<Rightarrow>
       (case find (is_echo n) es of None \<Rightarrow> []
        | Some e \<Rightarrow>
            let rt = roundtrip (the (fst e)) (snd e) (publish n now p)
            in if 0 < rt \<and> \<not> (data_loans p \<and> 10000 < rt) then [rt] else [])
     | _ \<Rightarrow> [])"

text \<open>A round that writes its sample, and in which no echo carries the number zero, which stands for no sample.\<close>

definition proper :: "round \<Rightarrow> bool" where
  "proper r = (case r of Sent now es \<Rightarrow> list_all (\<lambda>e. \<not> is_echo 0 e) es | WriteFails _ \<Rightarrow> False | NoLoan \<Rightarrow> True)"

definition same_set_up :: "LatencyTestPublisher \<Rightarrow> LatencyTestPublisher \<Rightarrow> bool" where
  "same_set_up p q \<longleftrightarrow> data_loans q = data_loans p \<and> overhead_time q = overhead_time p"

lemma same_set_up_refl [simp]: "same_set_up p p"
  by (simp add: same_set_up_def)

lemma roundtrip_cong: "same_set_up p q \<Longrightarrow> start_time q = start_time p \<Longrightarrow> roundtrip s now q = roundtrip s now p"
  by (simp add: same_set_up_def roundtrip_def)

lemma round_times_cong: "same_set_up p q \<Longrightarrow> round_times q n r = round_times p n r"
  by (cases r) (simp_all add: round_times_def same_set_up_def roundtrip_def publish_def split: option.splits)

text \<open>Echoes that arrive when none is expected only count.\<close>

lemma echoes_none:
  assumes "list_all (\<lambda>e. \<not> is_echo (out_seqnum p) e) es"
  shows "times (echoes_in es p) = times p \<and> received_count (echoes_in es p) = received_count p \<and>
    same_set_up p (echoes_in es p) \<and> subscribers (echoes_in es p) = subscribers p \<and>
    data_msg_count (echoes_in es p) = data_msg_count p + int (length (filter (\<lambda>e. fst e \<noteq> None) es))"
  using assms
proof (induction es arbitrary: p)
  case (Cons e es)
  obtain s now where e: "e = (s, now)" by fastforce
  show ?case
  proof (cases s)
    case None
    then show ?thesis using Cons by (simp add: echoes_in_def e on_data_available_def)
  next
    case (Some d)
    let ?p = "p\<lparr>data_msg_count := data_msg_count p + 1\<rparr>"
    have "seqnum d \<noteq> out_seqnum p" using Cons.prems e Some by (simp add: is_echo_def)
    then have "on_data_available s now p = ?p" by (simp add: on_data_available_def Some)
    moreover have "list_all (\<lambda>e. \<not> is_echo (out_seqnum ?p) e) es" using Cons.prems by simp
    note Cons.IH[OF this]
    ultimately show ?thesis by (simp add: echoes_in_def e Some same_set_up_def)
  qed
qed (simp add: echoes_in_def)

lemma round_times_skip: "\<not> is_echo n e \<Longrightarrow> round_times p n (Sent t (e # es)) = round_times p n (Sent t es)"
  by (simp add: round_times_def)

lemma echoes_measured:
  assumes "list_all (\<lambda>e. \<not> is_echo 0 e) es"
  shows "times (echoes_in es p) = times p @ round_times p (out_seqnum p) (Sent (start_time p) es) \<and>
    received_count (echoes_in es p) = received_count p + word_of_nat (length (round_times p (out_seqnum p) (Sent (start_time p) es))) \<and>
    same_set_up p (echoes_in es p)"
  using assms
proof (induction es arbitrary: p)
  case (Cons e es)
  obtain s now where e: "e = (s, now)" by fastforce
  have step: "echoes_in (e # es) p = echoes_in es (on_data_available s now p)" by (simp add: echoes_in_def e)
  show ?case
  proof (cases "is_echo (out_seqnum p) e")
    case False
    let ?p = "on_data_available s now p"
    have q: "out_seqnum ?p = out_seqnum p" "start_time ?p = start_time p" "times ?p = times p" "received_count ?p = received_count p"
        "same_set_up p ?p" using False
      by (auto simp: on_data_available_def is_echo_def e same_set_up_def split: option.splits)
    have r: "round_times ?p k (Sent t es) = round_times p k (Sent t es)" for k t using q(5) by (rule round_times_cong)
    have sk: "round_times p (out_seqnum p) (Sent t (e # es)) = round_times p (out_seqnum p) (Sent t es)" for t
      using False by (rule round_times_skip)
    have "list_all (\<lambda>e. \<not> is_echo 0 e) es" using Cons.prems by simp
    from Cons.IH[OF this, of ?p, unfolded q(1-4) r] q(5) show ?thesis unfolding step sk by (simp add: same_set_up_def)
  next
    case True
    then obtain d where d: "s = Some d" "seqnum d = out_seqnum p" by (cases s) (auto simp: is_echo_def e)
    let ?rt = "roundtrip d now p" and ?p = "on_data_available s now p"
    have q: "times ?p = times p @ (if 0 < ?rt \<and> \<not> (data_loans p \<and> 10000 < ?rt) then [?rt] else [])"
        "received_count ?p = received_count p + (if 0 < ?rt \<and> \<not> (data_loans p \<and> 10000 < ?rt) then 1 else 0)"
        "out_seqnum ?p = 0" "same_set_up p ?p"
      using d by (auto simp: on_data_available_def same_set_up_def Let_def)
    have "list_all (\<lambda>x. \<not> is_echo (out_seqnum ?p) x) es" using Cons.prems q(3) by simp
    from echoes_none[OF this] have n: "times (echoes_in es ?p) = times ?p" "received_count (echoes_in es ?p) = received_count ?p"
        "same_set_up ?p (echoes_in es ?p)" by simp_all
    have "roundtrip d now (publish (out_seqnum p) (start_time p) p) = ?rt" by (simp add: roundtrip_def publish_def)
    then have "round_times p (out_seqnum p) (Sent (start_time p) (e # es))
        = (if 0 < ?rt \<and> \<not> (data_loans p \<and> 10000 < ?rt) then [?rt] else [])"
      using True d by (simp add: round_times_def e Let_def)
    then show ?thesis unfolding step using n q by (auto simp: same_set_up_def)
  qed
qed (simp add: echoes_in_def round_times_def)

text \<open>What a run measures, round by round.\<close>

fun all_times :: "LatencyTestPublisher \<Rightarrow> 32 word \<Rightarrow> round list \<Rightarrow> rat list" where
  "all_times p n [] = []"
| "all_times p n (r # rs) = round_times p n r @ all_times p (n + 1) rs"

lemma all_times_cong: "same_set_up p q \<Longrightarrow> all_times q n rs = all_times p n rs"
  by (induction rs arbitrary: n) (simp_all add: round_times_cong)

lemma measure_loop_times:
  assumes "list_all proper rs"
  shows "fst (measure_loop n rs p) \<and> times (snd (measure_loop n rs p)) = times p @ all_times p n rs \<and>
    received_count (snd (measure_loop n rs p)) = received_count p + word_of_nat (length (all_times p n rs))"
  using assms
proof (induction rs arbitrary: n p)
  case (Cons r rs)
  show ?case
  proof (cases r)
    case NoLoan
    let ?p = "p\<lparr>out_seqnum := n\<rparr>"
    have "all_times ?p k rs = all_times p k rs" for k by (rule all_times_cong) (simp add: same_set_up_def)
    then show ?thesis using Cons NoLoan by (simp add: round_times_def)
  next
    case (WriteFails now)
    then show ?thesis using Cons.prems by (simp add: proper_def)
  next
    case (Sent now es)
    let ?q = "publish n now p" and ?p = "(echoes_in es (publish n now p))\<lparr>data_msg_count := 0\<rparr>"
    have "list_all (\<lambda>e. \<not> is_echo 0 e) es" using Cons.prems Sent by (simp add: proper_def)
    from echoes_measured[OF this, of ?q] have m: "times ?p = times p @ round_times ?q n (Sent now es)"
        "received_count ?p = received_count p + word_of_nat (length (round_times ?q n (Sent now es)))" "same_set_up ?q ?p"
      by (simp_all add: publish_def same_set_up_def)
    have r: "round_times ?q n (Sent now es) = round_times p n r" unfolding Sent
      by (rule round_times_cong) (simp add: same_set_up_def publish_def)
    have "all_times ?p k rs = all_times p k rs" for k
      by (rule all_times_cong) (use m(3) in \<open>simp add: same_set_up_def publish_def\<close>)
    then show ?thesis using Cons.IH[of "n + 1" ?p] Cons.prems m(1,2) r Sent by simp
  qed
qed simp

section \<open>Properties of the measurements\<close>

text \<open>The exact specification. Once the own echo has come, the loop expects the number 0, which the publisher never sends: an
  echo that carries it is measured too. A failed write ends the run.\<close>

definition measured :: "LatencyTestPublisher \<Rightarrow> LatencyType option \<times> int \<Rightarrow> rat list" where
  "measured p e = (let rt = roundtrip (the (fst e)) (snd e) p in if 0 < rt \<and> \<not> (data_loans p \<and> 10000 < rt) then [rt] else [])"

definition round_all :: "LatencyTestPublisher \<Rightarrow> 32 word \<Rightarrow> round \<Rightarrow> rat list" where
  "round_all p n r = (case r of Sent now es \<Rightarrow>
       (case dropWhile (\<lambda>e. \<not> is_echo n e) es of [] \<Rightarrow> []
        | e # later \<Rightarrow> concat (map (measured (publish n now p)) (e # filter (is_echo 0) later)))
     | _ \<Rightarrow> [])"

fun run_times :: "LatencyTestPublisher \<Rightarrow> 32 word \<Rightarrow> round list \<Rightarrow> rat list" where
  "run_times p n [] = []"
| "run_times p n (WriteFails now # rs) = []"
| "run_times p n (r # rs) = round_all p n r @ run_times p (n + 1) rs"

definition failed_write :: "round \<Rightarrow> bool" where
  "failed_write r = (case r of WriteFails _ \<Rightarrow> True | _ \<Rightarrow> False)"

definition no_zero_echo :: "round \<Rightarrow> bool" where
  "no_zero_echo r = (case r of Sent now es \<Rightarrow> list_all (\<lambda>e. \<not> is_echo 0 e) es | _ \<Rightarrow> True)"

lemma measured_cong: "same_set_up p q \<Longrightarrow> start_time q = start_time p \<Longrightarrow> measured q e = measured p e"
  by (simp add: measured_def roundtrip_cong) (simp add: same_set_up_def)

lemma echo_step:
  "is_echo (out_seqnum p) (x, now) \<Longrightarrow> times (on_data_available x now p) = times p @ measured p (x, now) \<and>
    received_count (on_data_available x now p) = received_count p + word_of_nat (length (measured p (x, now))) \<and>
    out_seqnum (on_data_available x now p) = 0 \<and> same_set_up p (on_data_available x now p) \<and>
    start_time (on_data_available x now p) = start_time p"
  "\<not> is_echo (out_seqnum p) (x, now) \<Longrightarrow> times (on_data_available x now p) = times p \<and>
    received_count (on_data_available x now p) = received_count p \<and> out_seqnum (on_data_available x now p) = out_seqnum p \<and>
    same_set_up p (on_data_available x now p) \<and> start_time (on_data_available x now p) = start_time p"
  by (auto simp: is_echo_def on_data_available_def measured_def same_set_up_def Let_def split: option.splits)

lemma echoes_zero:
  assumes "out_seqnum p = 0"
  shows "times (echoes_in es p) = times p @ concat (map (measured p) (filter (is_echo 0) es)) \<and>
    received_count (echoes_in es p) = received_count p + word_of_nat (length (concat (map (measured p) (filter (is_echo 0) es)))) \<and>
    same_set_up p (echoes_in es p)"
  using assms
proof (induction es arbitrary: p)
  case (Cons e es)
  obtain x now where e: "e = (x, now)" by fastforce
  let ?p = "on_data_available x now p"
  have step: "echoes_in (e # es) p = echoes_in es ?p" by (simp add: echoes_in_def e)
  have o: "out_seqnum ?p = 0" "same_set_up p ?p" "start_time ?p = start_time p"
    using echo_step[of p x now] Cons.prems by (cases "is_echo (out_seqnum p) (x, now)"; simp)+
  have c: "measured ?p = measured p" using measured_cong[OF o(2,3)] by blast
  note IH = Cons.IH[OF o(1), unfolded c]
  show ?case
  proof (cases "is_echo 0 e")
    case True
    let ?m = "concat (map (measured p) (filter (is_echo 0) es))"
    have f: "concat (map (measured p) (filter (is_echo 0) (e # es))) = measured p e @ ?m" using True by simp
    have q: "times ?p = times p @ measured p e" "received_count ?p = received_count p + word_of_nat (length (measured p e))"
      using echo_step(1)[of p x now] True Cons.prems e by simp_all
    have "times (echoes_in es ?p) = times p @ measured p e @ ?m" using IH q(1) by simp
    moreover have "received_count (echoes_in es ?p) = received_count p + (word_of_nat (length (measured p e)) + word_of_nat (length ?m))"
      unfolding IH[THEN conjunct2, THEN conjunct1] q(2) by (rule add.assoc)
    moreover have "same_set_up p (echoes_in es ?p)" using IH o(2) by (simp add: same_set_up_def)
    ultimately show ?thesis unfolding step f length_append of_nat_add by blast
  next
    case False
    then have f: "filter (is_echo 0) (e # es) = filter (is_echo 0) es" by simp
    have "times ?p = times p" "received_count ?p = received_count p"
      using echo_step(2)[of p x now] False Cons.prems e by simp_all
    then show ?thesis using IH o(2) unfolding step f by (simp only: same_set_up_def)
  qed
qed (simp add: echoes_in_def)

lemma echoes_exact:
  "times (echoes_in es p) = times p @ round_all p (out_seqnum p) (Sent (start_time p) es) \<and>
   received_count (echoes_in es p) = received_count p + word_of_nat (length (round_all p (out_seqnum p) (Sent (start_time p) es))) \<and>
   same_set_up p (echoes_in es p)"
proof (induction es arbitrary: p)
  case (Cons e es)
  obtain x now where e: "e = (x, now)" by fastforce
  let ?p = "on_data_available x now p"
  have step: "echoes_in (e # es) p = echoes_in es ?p" by (simp add: echoes_in_def e)
  have self: "publish (out_seqnum q) (start_time q) q = q" for q by (simp add: publish_def)
  show ?case
  proof (cases "is_echo (out_seqnum p) e")
    case True
    note q = echo_step(1)[OF True[unfolded e]]
    have c: "measured ?p = measured p" using measured_cong[of p ?p] q by blast
    show ?thesis using echoes_zero[of ?p es] q True unfolding step c
      by (auto simp: round_all_def self e same_set_up_def)
  next
    case False
    note q = echo_step(2)[OF False[unfolded e]]
    have c: "round_all ?p k (Sent t es) = round_all p k (Sent t es)" for k t
    proof -
      have "measured (publish k t ?p) = measured (publish k t p)"
        by (rule ext, rule measured_cong) (use q in \<open>simp_all add: same_set_up_def publish_def\<close>)
      then show ?thesis unfolding round_all_def round.case by (simp only:)
    qed
    have "round_all p (out_seqnum p) (Sent (start_time p) (e # es)) = round_all p (out_seqnum p) (Sent (start_time p) es)"
      using False by (simp add: round_all_def)
    then show ?thesis using Cons.IH[of ?p] q c unfolding step by (simp add: same_set_up_def)
  qed
qed (simp add: echoes_in_def round_all_def)

lemma round_all_cong:
  assumes "same_set_up p q"
  shows "round_all q n r = round_all p n r"
proof -
  have "measured (publish n t q) = measured (publish n t p)" for t
    by (rule ext, rule measured_cong) (use assms in \<open>simp_all add: same_set_up_def publish_def\<close>)
  then show ?thesis unfolding round_all_def by (cases r) (simp_all only: round.case)
qed

lemma run_times_cong: "same_set_up p q \<Longrightarrow> run_times q n rs = run_times p n rs"
  by (induction p n rs rule: run_times.induct) (simp_all add: round_all_cong)

lemma measure_loop_exact:
  "(fst (measure_loop n rs p) \<longleftrightarrow> list_all (Not \<circ> failed_write) rs) \<and> times (snd (measure_loop n rs p)) = times p @ run_times p n rs \<and>
   received_count (snd (measure_loop n rs p)) = received_count p + word_of_nat (length (run_times p n rs))"
proof (induction rs arbitrary: n p)
  case (Cons r rs)
  show ?case
  proof (cases r)
    case NoLoan
    let ?p = "p\<lparr>out_seqnum := n\<rparr>"
    have "run_times ?p k rs = run_times p k rs" for k by (rule run_times_cong) (simp add: same_set_up_def)
    then show ?thesis using Cons[of "n + 1" ?p] NoLoan by (simp add: round_all_def failed_write_def)
  next
    case (WriteFails now)
    then show ?thesis by (simp add: failed_write_def publish_def)
  next
    case (Sent now es)
    let ?q = "publish n now p" and ?p = "(echoes_in es (publish n now p))\<lparr>data_msg_count := 0\<rparr>"
    have m: "times ?p = times p @ round_all ?q n (Sent now es)"
        "received_count ?p = received_count p + word_of_nat (length (round_all ?q n (Sent now es)))" "same_set_up ?q ?p"
      using echoes_exact[of es ?q] by (simp_all add: publish_def same_set_up_def)
    have r: "round_all ?q n (Sent now es) = round_all p n r" unfolding Sent
      by (rule round_all_cong) (simp add: same_set_up_def publish_def)
    have "run_times ?p k rs = run_times p k rs" for k
      by (rule run_times_cong) (use m(3) in \<open>simp add: same_set_up_def publish_def\<close>)
    then show ?thesis using Cons[of "n + 1" ?p] m(1,2) r Sent by (simp add: failed_write_def)
  qed
qed simp

lemma round_all_own:
  assumes "no_zero_echo r"
  shows "round_all p n r = round_times p n r"
proof (cases r)
  case (Sent now es)
  then have z: "list_all (\<lambda>e. \<not> is_echo 0 e) es" using assms by (simp add: no_zero_echo_def)
  have "round_all p n (Sent now es) = round_times p n (Sent now es)" using z
  proof (induction es)
    case (Cons e es)
    show ?case
    proof (cases "is_echo n e")
      case True
      have "filter (is_echo 0) es = []" using Cons.prems by (simp add: list_all_iff filter_empty_conv)
      then show ?thesis using True by (simp add: round_all_def round_times_def measured_def publish_def Let_def)
    next
      case False
      then show ?thesis using Cons by (simp add: round_all_def round_times_def)
    qed
  qed (simp add: round_all_def round_times_def)
  then show ?thesis using Sent by simp
qed (simp_all add: round_all_def round_times_def)

lemma run_times_own: "list_all no_zero_echo rs \<Longrightarrow> run_times p n rs = all_times p n (takeWhile (Not \<circ> failed_write) rs)"
  by (induction p n rs rule: run_times.induct) (simp_all add: failed_write_def round_all_own)

text \<open>C31: The measurements of a run, whatever arrives while the loop waits and whichever calls fail. The run fails exactly when
  a write fails, and measures nothing from there on; before that each round measures the first echo of its own sample,
  when its time is plausible, and after it every echo that carries the number 0, which the loop expects once the own echo
  has come; each measurement is counted. So when no echo carries the number 0, which the publisher never sends in its first
  \<open>2 ^ 32 - 1\<close> rounds, a round measures the first echo of its own sample and nothing else: no echo of another sample, and no
  sample twice.\<close>

theorem latency_measures_own_echo:
  "(fst (measure_loop 1 rs p) \<longleftrightarrow> list_all (Not \<circ> failed_write) rs) \<and>
   times (snd (measure_loop 1 rs p)) = times p @ run_times p 1 rs \<and>
   received_count (snd (measure_loop 1 rs p)) = received_count p + word_of_nat (length (run_times p 1 rs)) \<and>
   (list_all no_zero_echo rs \<longrightarrow> run_times p 1 rs = all_times p 1 (takeWhile (Not \<circ> failed_write) rs))"
  using measure_loop_exact run_times_own by blast

definition example_publisher :: LatencyTestPublisher where
  "example_publisher = \<lparr>subscribers = 1, samples = 3, data_loans = False, overhead_time = 1 / 2, out_seqnum = 0, start_time = 0,
     times = [], command_msg_count = 0, data_msg_count = 0, received_count = 0\<rparr>"

lemma latency_measures_own_echo_witness:
  "times (snd (measure_loop 1 [Sent 1000 [(Some \<lparr>seqnum = 1, bounce = 0, body = []\<rparr>, 5000)], Sent 6000 [],
       Sent 9000 [(Some \<lparr>seqnum = 2, bounce = 0, body = []\<rparr>, 9100), (Some \<lparr>seqnum = 3, bounce = 0, body = []\<rparr>, 12000)]] example_publisher))
   = [3 / 2, 1]"
proof -
  let ?rs = "[Sent 1000 [(Some \<lparr>seqnum = 1, bounce = 0, body = []\<rparr>, 5000)], Sent 6000 [],
       Sent 9000 [(Some \<lparr>seqnum = 2, bounce = 0, body = []\<rparr>, 9100), (Some \<lparr>seqnum = 3, bounce = 0, body = []\<rparr>, 12000)]]"
  have "list_all no_zero_echo ?rs" "takeWhile (Not \<circ> failed_write) ?rs = ?rs"
    by (simp_all add: no_zero_echo_def is_echo_def failed_write_def)
  with latency_measures_own_echo[of ?rs example_publisher]
  have "times (snd (measure_loop 1 ?rs example_publisher)) = times example_publisher @ all_times example_publisher 1 ?rs" by simp
  then show ?thesis by (simp add: is_echo_def round_times_def roundtrip_def publish_def example_publisher_def)
qed

text \<open>An echo that carries the number 0 and comes after the own one is measured a second time.\<close>

lemma zero_echo_is_measured:
  "times (snd (measure_loop 1 [Sent 0 [(Some \<lparr>seqnum = 1, bounce = 0, body = []\<rparr>, 3000), (Some \<lparr>seqnum = 0, bounce = 0, body = []\<rparr>, 5000)]]
     example_publisher)) = [1, 2]"
  by (simp add: echoes_in_def on_data_available_def roundtrip_def publish_def example_publisher_def)

text \<open>Whether each wait ends because enough samples came back, and not with the time-out.\<close>

fun waits_answered :: "32 word \<Rightarrow> round list \<Rightarrow> LatencyTestPublisher \<Rightarrow> bool list" where
  "waits_answered n [] p = []"
| "waits_answered n (NoLoan # rs) p = waits_answered (n + 1) rs (p\<lparr>out_seqnum := n\<rparr>)"
| "waits_answered n (WriteFails now # rs) p = []"
| "waits_answered n (Sent now es # rs) p =
     (let q = echoes_in es (publish n now p)
      in data_wait_over q # waits_answered (n + 1) rs (q\<lparr>data_msg_count := 0\<rparr>))"

text \<open>Rounds in which the echo of the sample before arrives.\<close>

fun late_by_one :: "32 word \<Rightarrow> round list \<Rightarrow> bool" where
  "late_by_one n [] = True"
| "late_by_one n (Sent t [(Some e, u)] # rs) = (seqnum e = n \<and> n \<noteq> 0 \<and> late_by_one (n + 1) rs)"
| "late_by_one n (_ # rs) = False"

lemma proper_empty: "proper (Sent t [])"
  by (simp add: proper_def)

lemma late_by_one_nothing:
  assumes "late_by_one n rs" and "subscribers p = 1" and "data_msg_count p = 0"
  shows "list_all proper rs \<and> all_times q (n + 1) rs = [] \<and> waits_answered (n + 1) rs p = replicate (length rs) True"
  using assms
proof (induction n rs arbitrary: p rule: late_by_one.induct)
  case (2 n t e u rs)
  let ?q = "echoes_in [(Some e, u)] (publish (n + 1) t p)"
  have ne: "seqnum e \<noteq> n + 1" using "2.prems"(1) by simp
  then have q: "subscribers ?q = 1" "data_msg_count ?q = 1"
    using "2.prems" by (simp_all add: echoes_in_def on_data_available_def publish_def)
  have "list_all proper rs \<and> all_times q (n + 1 + 1) rs = [] \<and>
      waits_answered (n + 1 + 1) rs (?q\<lparr>data_msg_count := 0\<rparr>) = replicate (length rs) True"
    using "2.prems"(1) q by (intro "2.IH") simp_all
  moreover have "proper (Sent t [(Some e, u)])" using "2.prems"(1) by (simp add: proper_def is_echo_def)
  moreover have "round_times q (n + 1) (Sent t [(Some e, u)]) = []" using ne by (simp add: round_times_def is_echo_def)
  ultimately show ?case using q by (simp add: data_wait_over_def Let_def)
qed simp_all

text \<open>One late echo is enough to lose the whole test. When the first echo misses its round and each later round is
  woken by the echo of the sample before, which counts as an answer although it is not the expected one, no wait but
  the first ends with the time-out, nothing is measured at all, and the statistics read an empty vector.\<close>

theorem latency_late_echo:
  assumes "late_by_one 1 rs" and "subscribers p = 1" and "data_msg_count p = 0" and "times p = []"
  shows "waits_answered 1 (Sent t [] # rs) p = False # replicate (length rs) True \<and>
    times (snd (measure_loop 1 (Sent t [] # rs) p)) = [] \<and>
    finish_test datasize (snd (measure_loop 1 (Sent t [] # rs) p)) = Inl OutOfBounds"
proof -
  let ?q = "(echoes_in [] (publish 1 t p))\<lparr>data_msg_count := 0\<rparr>"
  have q: "subscribers ?q = 1" "data_msg_count ?q = 0" using assms by (simp_all add: echoes_in_def publish_def)
  from late_by_one_nothing[OF assms(1) q, of p]
  have l: "list_all proper rs" "all_times p (1 + 1) rs = []" "waits_answered (1 + 1) rs ?q = replicate (length rs) True" by blast+
  then have t: "times (snd (measure_loop 1 (Sent t [] # rs) p)) = []"
    using measure_loop_times[of "Sent t [] # rs" 1 p] assms(4) proper_empty by (simp add: round_times_def)
  moreover have "\<not> data_wait_over (echoes_in [] (publish 1 t p))"
    using assms by (simp add: data_wait_over_def echoes_in_def publish_def)
  ultimately show ?thesis using l(3) by (simp add: finish_test_def Let_def)
qed

lemma latency_late_echo_witness:
  "finish_test 16 (snd (measure_loop 1 [Sent 0 [], Sent 100000 [(Some \<lparr>seqnum = 1, bounce = 0, body = []\<rparr>, 100100)],
     Sent 200000 [(Some \<lparr>seqnum = 2, bounce = 0, body = []\<rparr>, 200100)]] example_publisher)) = Inl OutOfBounds"
  using latency_late_echo[of "[Sent 100000 [(Some \<lparr>seqnum = 1, bounce = 0, body = []\<rparr>, 100100)],
     Sent 200000 [(Some \<lparr>seqnum = 2, bounce = 0, body = []\<rparr>, 200100)]]" example_publisher 0 16]
  by (simp add: example_publisher_def)

section \<open>The statistics\<close>

lemma percentile_index:
  assumes "percentile f ts = Some x" and "f \<le> 1"
  shows "\<exists>i. x = ts ! i \<and> i < length ts \<and> Suc i = nat \<lfloor>of_nat (length ts) * f\<rfloor>"
proof -
  define k where "k = nat \<lfloor>of_nat (length ts) * f\<rfloor>"
  have "0 < k \<and> k \<le> length ts \<and> x = ts ! (k - 1)"
    using assms(1) unfolding percentile_def Let_def k_def[symmetric] by (simp split: if_splits)
  then show ?thesis unfolding k_def[symmetric] by (intro exI[of _ "k - 1"]) auto
qed

lemma percentile_mono:
  assumes "percentile f ts = Some x" and "percentile g ts = Some y" and "f \<le> g" and "g \<le> 1" and "sorted ts"
  shows "x \<le> y"
proof -
  from percentile_index[OF assms(1)] assms(3,4) obtain i where i: "x = ts ! i" "i < length ts"
      "Suc i = nat \<lfloor>of_nat (length ts) * f\<rfloor>" by auto
  from percentile_index[OF assms(2,4)] obtain j where j: "y = ts ! j" "j < length ts"
      "Suc j = nat \<lfloor>of_nat (length ts) * g\<rfloor>" by blast
  have "of_nat (length ts) * f \<le> of_nat (length ts) * g" using assms(3) by (simp add: mult_left_mono)
  then have "Suc i \<le> Suc j" unfolding i(3) j(3) by (intro nat_mono floor_mono)
  then show ?thesis using assms(5) i j by (simp add: sorted_nth_mono)
qed

lemma percentile_range:
  assumes "percentile f (sort xs) = Some x" and "f \<le> 1"
  shows "Min (set xs) \<le> x \<and> x \<le> Max (set xs)"
proof -
  from percentile_index[OF assms] obtain i where "x = sort xs ! i" "i < length (sort xs)" by blast
  then have "x \<in> set (sort xs)" using nth_mem by blast
  then show ?thesis by simp
qed

text \<open>\<open>None\<close>, the \<^verbatim>\<open>NAN\<close> of too few samples, is below everything.\<close>

definition ordered :: "rat option list \<Rightarrow> bool" where
  "ordered ps \<longleftrightarrow> sorted (map the (filter (\<lambda>p. p \<noteq> None) ps))"

lemma finish_test_fails_iff: "finish_test datasize p = Inl OutOfBounds \<longleftrightarrow> length (times p) < 2"
  by (cases "times p"; cases "tl (times p)") (auto simp: finish_test_def analyze_times_def Let_def)

text \<open>C37: When the statistics of a test are reported, there were at least two measurements, and the percentiles are in
  order and lie between the minimum and the maximum, as far as there are enough samples for them to be numbers.\<close>

theorem latency_percentiles_ordered:
  assumes "finish_test datasize p = Inr st"
  shows "2 \<le> length (times p) \<and>
    ordered [Some (minimum st), percentile_50 st, percentile_90 st, percentile_99 st, percentile_9999 st, Some (maximum st)]"
proof -
  let ?xs = "tl (times p)" and ?ts = "sort (tl (times p))"
  have n: "2 \<le> length (times p)" using finish_test_fails_iff[of datasize p] assms by (auto simp: not_less)
  then have ne: "times p \<noteq> []" "?xs \<noteq> []" by (cases "times p"; auto)+
  then have st: "minimum st = Min (set ?xs)" "maximum st = Max (set ?xs)" "percentile_50 st = percentile (5 / 10) ?ts"
      "percentile_90 st = percentile (9 / 10) ?ts" "percentile_99 st = percentile (99 / 100) ?ts"
      "percentile_9999 st = percentile (9999 / 10000) ?ts"
    using assms by (auto simp: finish_test_def analyze_times_def Let_def)
  have r: "percentile f ?ts = Some x \<Longrightarrow> f \<le> 1 \<Longrightarrow> minimum st \<le> x \<and> x \<le> maximum st" for f x
    unfolding st by (rule percentile_range)
  have m: "percentile f ?ts = Some x \<Longrightarrow> percentile g ?ts = Some y \<Longrightarrow> f \<le> g \<Longrightarrow> g \<le> 1 \<Longrightarrow> x \<le> y" for f g x y
    by (rule percentile_mono[OF _ _ _ _ sorted_sort])
  have mm: "minimum st \<le> maximum st" unfolding st using ne(2) by (meson List.finite_set Max_ge Min_le hd_in_set order_trans)
  note facts = r[of "5 / 10"] r[of "9 / 10"] r[of "99 / 100"] r[of "9999 / 10000"] m[of "5 / 10" _ "9 / 10"] m[of "5 / 10" _ "99 / 100"]
    m[of "5 / 10" _ "9999 / 10000"] m[of "9 / 10" _ "99 / 100"] m[of "9 / 10" _ "9999 / 10000"] m[of "99 / 100" _ "9999 / 10000"]
  show ?thesis
    using n facts[folded st] mm
    by (cases "percentile_50 st"; cases "percentile_90 st"; cases "percentile_99 st"; cases "percentile_9999 st")
      (simp_all add: ordered_def)
qed

lemma latency_percentiles_ordered_witness:
  "\<exists>st. finish_test 16 (example_publisher\<lparr>times := [9, 3, 1, 2]\<rparr>) = Inr st \<and>
    ordered [Some (minimum st), percentile_50 st, percentile_90 st, percentile_99 st, percentile_9999 st, Some (maximum st)]"
proof -
  obtain st where st: "finish_test 16 (example_publisher\<lparr>times := [9, 3, 1, 2]\<rparr>) = Inr st"
    by (simp add: finish_test_def analyze_times_def Let_def)
  from latency_percentiles_ordered[OF this] st show ?thesis by blast
qed

end
