(* ===== verification/Latency_System.thy ===== *)
theory Latency_System
  imports Latency_Test
begin

text \<open>
  The latency test as a whole: the publisher and any number of subscribers (\<^verbatim>\<open>LatencyTestPublisher::run\<close> and \<^verbatim>\<open>test\<close>,
  \<^verbatim>\<open>LatencyTestSubscriber::run\<close> and \<^verbatim>\<open>test\<close>) with the commands between them, over all interleavings. A thread runs
  from one of its waits to the next in one step; commands are delivered in order, one by one, to the listeners of
  \<open>Latency_Test\<close>; setting up types and endpoints and writing commands succeed, and what comes back while the publisher
  measures is arbitrary. Discovery is the existence of the other side's data endpoints.
\<close>

datatype pub_pc = PTest | PDiscovery | PBegin | PMeasure | PEnd | PDone | PFailed | PBroken
datatype sub_pc = SDiscovery | STest | SMatch | SStop | SAck | SDone

record lat_pub =
  lp :: LatencyTestPublisher
  lp_pc :: pub_pc
  lp_left :: "32 word list"
  lp_data :: bool
  lp_stats :: "TimeStats list"

record lat_sub =
  ls :: LatencyTestSubscriber
  ls_pc :: sub_pc
  ls_left :: "32 word list"
  ls_data :: bool
  inbox :: "TESTCOMMAND list"
  outbox :: "TESTCOMMAND list"

type_synonym lat_system = "lat_pub \<times> lat_sub list"

section \<open>The publisher\<close>

text \<open>Up to the wait for discovery: fresh counters, the endpoints of the payload, and READY for everyone.\<close>

definition pub_ready :: "lat_pub \<Rightarrow> (lat_pub \<times> TESTCOMMAND list) option" where
  "pub_ready p = (if lp_pc p \<noteq> PTest then None
     else if lp_left p = [] then Some (p\<lparr>lp_pc := PDone\<rparr>, [])
     else Some (p\<lparr>lp := (lp p)\<lparr>received_count := 0, times := []\<rparr>, lp_data := True, lp_pc := PDiscovery\<rparr>, [READY]))"

definition pub_discovered :: "bool \<Rightarrow> lat_pub \<Rightarrow> lat_pub option" where
  "pub_discovered all_matched p = (if lp_pc p = PDiscovery \<and> all_matched then Some (p\<lparr>lp_pc := PBegin\<rparr>) else None)"

definition commands_over :: "lat_pub \<Rightarrow> bool" where
  "commands_over p \<longleftrightarrow> subscribers (lp p) \<le> command_msg_count (lp p)"

definition clear_commands :: "lat_pub \<Rightarrow> lat_pub" where
  "clear_commands p = p\<lparr>lp := (lp p)\<lparr>command_msg_count := 0\<rparr>\<rparr>"

definition pub_begun :: "lat_pub \<Rightarrow> lat_pub option" where
  "pub_begun p = (if lp_pc p = PBegin \<and> commands_over p then Some ((clear_commands p)\<lparr>lp_pc := PMeasure\<rparr>) else None)"

text \<open>The measuring loop and STOP; a failed write ends the function at once.\<close>

definition pub_measured :: "round list \<Rightarrow> lat_pub \<Rightarrow> (lat_pub \<times> TESTCOMMAND list) option" where
  "pub_measured rs p = (if lp_pc p \<noteq> PMeasure then None
     else case measure_loop 1 rs (lp p) of (ok, l) \<Rightarrow>
       if ok then Some (p\<lparr>lp := l, lp_pc := PEnd\<rparr>, [STOP]) else Some (p\<lparr>lp := l, lp_pc := PFailed\<rparr>, []))"

text \<open>After the wait for END: the endpoints go and the times are analysed, which needs two of them.\<close>

definition pub_ended :: "lat_pub \<Rightarrow> lat_pub option" where
  "pub_ended p = (if lp_pc p \<noteq> PEnd \<or> \<not> commands_over p then None
     else let q = (clear_commands p)\<lparr>lp_data := False\<rparr>
          in case finish_test (hd (lp_left p)) (lp q) of
               Inl e \<Rightarrow> Some (q\<lparr>lp_pc := PBroken\<rparr>)
             | Inr t \<Rightarrow> Some (q\<lparr>lp_pc := PTest, lp_left := tl (lp_left p), lp_stats := lp_stats p @ [t]\<rparr>))"

section \<open>A subscriber\<close>

definition sub_discovered :: "lat_sub \<Rightarrow> lat_sub option" where
  "sub_discovered s = (if ls_pc s = SDiscovery then Some (s\<lparr>ls_pc := STest\<rparr>) else None)"

definition clear_sub :: "lat_sub \<Rightarrow> lat_sub" where
  "clear_sub s = s\<lparr>ls := (ls s)\<lparr>sub_command_count := 0\<rparr>\<rparr>"

text \<open>The next payload: the wait for READY, then types, endpoints and buffer.\<close>

definition sub_ready :: "lat_sub \<Rightarrow> lat_sub option" where
  "sub_ready s = (if ls_pc s \<noteq> STest then None
     else if ls_left s = [] then Some (s\<lparr>ls_pc := SDone\<rparr>)
     else if sub_command_count (ls s) = 0 then None
     else Some ((clear_sub s)\<lparr>ls_data := True, ls_pc := SMatch\<rparr>))"

definition sub_matched :: "bool \<Rightarrow> lat_sub \<Rightarrow> lat_sub option" where
  "sub_matched pub_data s = (if ls_pc s = SMatch \<and> pub_data
     then Some (s\<lparr>ls := (ls s)\<lparr>test_status := 0\<rparr>, outbox := outbox s @ [BEGIN], ls_pc := SStop\<rparr>) else None)"

definition sub_stopped :: "lat_sub \<Rightarrow> lat_sub option" where
  "sub_stopped s = (if ls_pc s \<noteq> SStop \<or> sub_command_count (ls s) = 0 then None
     else let t = (clear_sub s)\<lparr>ls_data := False\<rparr>
          in Some (if test_status (ls t) = - 1 then t\<lparr>ls_pc := SDone\<rparr> else t\<lparr>outbox := outbox t @ [END], ls_pc := SAck\<rparr>))"

text \<open>The acknowledgment of END.\<close>

definition sub_acked :: "lat_sub \<Rightarrow> lat_sub option" where
  "sub_acked s = (if ls_pc s = SAck \<and> outbox s = [] then Some (s\<lparr>ls_left := tl (ls_left s), ls_pc := STest\<rparr>) else None)"

section \<open>The system\<close>

definition broadcast :: "TESTCOMMAND list \<Rightarrow> lat_sub list \<Rightarrow> lat_sub list" where
  "broadcast cs ss = map (\<lambda>s. s\<lparr>inbox := inbox s @ cs\<rparr>) ss"

inductive lat_step :: "lat_system \<Rightarrow> lat_system \<Rightarrow> bool" where
  ready: "pub_ready p = Some (p1, cs) \<Longrightarrow> lat_step (p, ss) (p1, broadcast cs ss)"
| discovered: "pub_discovered (\<forall>s \<in> set ss. ls_data s) p = Some p1 \<Longrightarrow> lat_step (p, ss) (p1, ss)"
| begun: "pub_begun p = Some p1 \<Longrightarrow> lat_step (p, ss) (p1, ss)"
| measured: "length rs = unat (samples (lp p) + 1) \<Longrightarrow> pub_measured rs p = Some (p1, cs) \<Longrightarrow> lat_step (p, ss) (p1, broadcast cs ss)"
| ended: "pub_ended p = Some p1 \<Longrightarrow> lat_step (p, ss) (p1, ss)"
| sub_found: "i < length ss \<Longrightarrow> sub_discovered (ss ! i) = Some s \<Longrightarrow> lat_step (p, ss) (p, ss[i := s])"
| sub_starts: "i < length ss \<Longrightarrow> sub_ready (ss ! i) = Some s \<Longrightarrow> lat_step (p, ss) (p, ss[i := s])"
| sub_matches: "i < length ss \<Longrightarrow> sub_matched (lp_data p) (ss ! i) = Some s \<Longrightarrow> lat_step (p, ss) (p, ss[i := s])"
| sub_stops: "i < length ss \<Longrightarrow> sub_stopped (ss ! i) = Some s \<Longrightarrow> lat_step (p, ss) (p, ss[i := s])"
| sub_acks: "i < length ss \<Longrightarrow> sub_acked (ss ! i) = Some s \<Longrightarrow> lat_step (p, ss) (p, ss[i := s])"
| sub_hears: "i < length ss \<Longrightarrow> inbox (ss ! i) = c # cs \<Longrightarrow>
    lat_step (p, ss) (p, ss[i := (ss ! i)\<lparr>ls := sub_command_on_data_available (Some c) (ls (ss ! i)), inbox := cs\<rparr>])"
| pub_hears: "i < length ss \<Longrightarrow> outbox (ss ! i) = c # cs \<Longrightarrow>
    lat_step (p, ss) (p\<lparr>lp := command_on_data_available (Some c) (lp p)\<rparr>, ss[i := (ss ! i)\<lparr>outbox := cs\<rparr>])"

definition lat_start :: "32 word list \<Rightarrow> LatencyTestPublisher \<Rightarrow> LatencyTestSubscriber list \<Rightarrow> lat_system" where
  "lat_start payloads p ss =
     (\<lparr>lp = p, lp_pc = PTest, lp_left = payloads, lp_data = False, lp_stats = []\<rparr>,
      map (\<lambda>s. \<lparr>ls = s, ls_pc = SDiscovery, ls_left = payloads, ls_data = False, inbox = [], outbox = []\<rparr>) ss)"

section \<open>Every run ends\<close>

primrec sub_rank :: "sub_pc \<Rightarrow> nat" where
  "sub_rank SDiscovery = 8" | "sub_rank STest = 7" | "sub_rank SMatch = 6" | "sub_rank SStop = 4" | "sub_rank SAck = 2"
| "sub_rank SDone = 0"

primrec pub_rank :: "pub_pc \<Rightarrow> nat" where
  "pub_rank PTest = 5" | "pub_rank PDiscovery = 4" | "pub_rank PBegin = 3" | "pub_rank PMeasure = 2" | "pub_rank PEnd = 1"
| "pub_rank PDone = 0" | "pub_rank PFailed = 0" | "pub_rank PBroken = 0"

definition sub_work :: "lat_sub \<Rightarrow> nat" where
  "sub_work s = 8 * length (ls_left s) + sub_rank (ls_pc s) + length (inbox s) + length (outbox s)"

definition lat_work :: "lat_system \<Rightarrow> nat" where
  "lat_work = (\<lambda>(p, ss). (6 * length (lp_left p) + pub_rank (lp_pc p)) * Suc (length ss) + sum_list (map sub_work ss))"

lemma sum_list_update_less:
  fixes f :: "'a \<Rightarrow> nat"
  assumes "i < length xs" "f x < f (xs ! i)"
  shows "sum_list (map f (xs[i := x])) < sum_list (map f xs)"
proof -
  have xs: "xs = take i xs @ xs ! i # drop (Suc i) xs" using assms(1) by (rule id_take_nth_drop)
  have "xs[i := x] = take i xs @ x # drop (Suc i) xs" using assms(1) by (rule upd_conv_take_nth_drop)
  moreover have "sum_list (map f xs) = sum_list (map f (take i xs)) + (f (xs ! i) + sum_list (map f (drop (Suc i) xs)))"
    by (subst xs) simp
  ultimately show ?thesis using assms(2) by simp
qed

lemma sub_step_less:
  "i < length ss \<Longrightarrow> sub_work s < sub_work (ss ! i) \<Longrightarrow> lat_work (p, ss[i := s]) < lat_work (p, ss)"
  by (simp add: lat_work_def sum_list_update_less)

lemma broadcast_work: "sum_list (map sub_work (broadcast cs ss)) = sum_list (map sub_work ss) + length cs * length ss"
  by (induction ss) (simp_all add: broadcast_def sub_work_def)

lemma rank_less:
  fixes a b c n :: nat
  assumes "a < b" "c \<le> n"
  shows "a * Suc n + c < b * Suc n"
proof -
  have "Suc a * Suc n \<le> b * Suc n" by (rule mult_le_mono1) (use assms(1) in simp)
  then show ?thesis using assms(2) by simp
qed

lemma pub_step_less:
  assumes "6 * length (lp_left p1) + pub_rank (lp_pc p1) < 6 * length (lp_left p) + pub_rank (lp_pc p)" "length cs \<le> 1"
  shows "lat_work (p1, broadcast cs ss) < lat_work (p, ss)"
proof -
  have c: "length cs * length ss \<le> length ss" using mult_le_mono1[OF assms(2), of "length ss"] by simp
  have "length (broadcast cs ss) = length ss" by (simp add: broadcast_def)
  then show ?thesis using rank_less[OF assms(1) c] unfolding lat_work_def by (simp only: prod.case broadcast_work)
qed

lemma broadcast_nothing: "broadcast [] ss = ss"
  by (simp add: broadcast_def)

lemma pub_quiet_less:
  "6 * length (lp_left p1) + pub_rank (lp_pc p1) < 6 * length (lp_left p) + pub_rank (lp_pc p) \<Longrightarrow> lat_work (p1, ss) < lat_work (p, ss)"
  using pub_step_less[of p1 p "[]" ss] by (simp add: broadcast_nothing)

section \<open>Phases\<close>

text \<open>Where a subscriber can be, by the phase of the publisher; \<open>ps\<close> are the payloads that the publisher has left.\<close>

definition quiet :: "lat_sub \<Rightarrow> bool" where
  "quiet s \<longleftrightarrow> inbox s = [] \<and> outbox s = [] \<and> sub_command_count (ls s) = 0"

definition between :: "32 word list \<Rightarrow> lat_sub \<Rightarrow> bool" where
  "between ps s \<longleftrightarrow> \<not> ls_data s \<and> outbox s = [] \<and>
     (ls_left s = ps \<and> (ls_pc s = SDiscovery \<or> ls_pc s = STest \<or> ls_pc s = SDone \<and> ps = []) \<or>
      ls_left s \<noteq> [] \<and> tl (ls_left s) = ps \<and> ls_pc s = SAck)"

definition waiting_stop :: "32 word list \<Rightarrow> lat_sub \<Rightarrow> bool" where
  "waiting_stop ps s \<longleftrightarrow> ls_data s \<and> ls_left s = ps \<and> ls_pc s = SStop \<and> test_status (ls s) = 0"

text \<open>A command on its way, in the inbox or counted.\<close>

definition told :: "TESTCOMMAND \<Rightarrow> lat_sub \<Rightarrow> bool" where
  "told c s \<longleftrightarrow> inbox s = [c] \<and> sub_command_count (ls s) = 0 \<or> inbox s = [] \<and> sub_command_count (ls s) = 1"

definition idle :: "32 word list \<Rightarrow> lat_sub \<Rightarrow> bool" where
  "idle ps s \<longleftrightarrow> between ps s \<and> quiet s"

definition started :: "32 word list \<Rightarrow> lat_sub \<Rightarrow> bool" where
  "started ps s \<longleftrightarrow> ps \<noteq> [] \<and> (between ps s \<and> told READY s \<or>
     ls_data s \<and> ls_left s = ps \<and> ls_pc s = SMatch \<and> quiet s \<or>
     waiting_stop ps s \<and> inbox s = [] \<and> sub_command_count (ls s) = 0 \<and> (outbox s = [BEGIN] \<or> outbox s = []))"

definition set_up :: "32 word list \<Rightarrow> lat_sub \<Rightarrow> bool" where
  "set_up ps s \<longleftrightarrow> waiting_stop ps s \<and> quiet s"

definition stopping :: "32 word list \<Rightarrow> lat_sub \<Rightarrow> bool" where
  "stopping ps s \<longleftrightarrow> ps \<noteq> [] \<and> (waiting_stop ps s \<and> told STOP s \<and> outbox s = [] \<or>
     \<not> ls_data s \<and> ls_left s = ps \<and> ls_pc s = SAck \<and> inbox s = [] \<and> sub_command_count (ls s) = 0 \<and> outbox s = [END] \<or>
     idle (tl ps) s)"

definition counted :: "(lat_sub \<Rightarrow> bool) \<Rightarrow> lat_sub list \<Rightarrow> int" where
  "counted f ss = int (length (filter f ss))"

text \<open>Whether the publisher has counted the subscriber's command of this phase.\<close>

definition heard :: "lat_pub \<Rightarrow> lat_sub \<Rightarrow> bool" where
  "heard p s \<longleftrightarrow> outbox s = [] \<and> (lp_pc p \<in> {PDiscovery, PBegin} \<and> ls_pc s = SStop \<or> lp_pc p = PEnd \<and> ls_pc s \<noteq> SStop)"

definition in_phase :: "lat_pub \<Rightarrow> lat_sub \<Rightarrow> bool" where
  "in_phase p s = (case lp_pc p of
     PTest \<Rightarrow> idle (lp_left p) s | PDone \<Rightarrow> idle [] s
   | PDiscovery \<Rightarrow> started (lp_left p) s | PBegin \<Rightarrow> started (lp_left p) s
   | PMeasure \<Rightarrow> set_up (lp_left p) s | PFailed \<Rightarrow> set_up (lp_left p) s
   | PEnd \<Rightarrow> stopping (lp_left p) s | PBroken \<Rightarrow> idle (tl (lp_left p)) s)"

definition lat_inv :: "lat_system \<Rightarrow> bool" where
  "lat_inv = (\<lambda>(p, ss). (\<forall>s \<in> set ss. in_phase p s) \<and> command_msg_count (lp p) = counted (heard p) ss \<and>
     subscribers (lp p) = int (length ss) \<and>
     (lp_pc p \<in> {PDiscovery, PBegin, PMeasure, PFailed, PEnd, PBroken} \<longrightarrow> lp_left p \<noteq> []) \<and>
     (lp_data p \<longleftrightarrow> lp_pc p \<in> {PDiscovery, PBegin, PMeasure, PFailed, PEnd}) \<and>
     (lp_pc p = PDone \<longrightarrow> lp_left p = []))"

lemma counted_update:
  "i < length ss \<Longrightarrow> counted f (ss[i := s]) = counted f ss - (if f (ss ! i) then 1 else 0) + (if f s then 1 else 0)"
proof -
  assume i: "i < length ss"
  have ss: "ss = take i ss @ ss ! i # drop (Suc i) ss" using i by (rule id_take_nth_drop)
  have "ss[i := s] = take i ss @ s # drop (Suc i) ss" using i by (rule upd_conv_take_nth_drop)
  moreover have "counted f ss = int (length (filter f (take i ss))) + (if f (ss ! i) then 1 else 0) + int (length (filter f (drop (Suc i) ss)))"
    unfolding counted_def by (subst ss) simp
  ultimately show ?thesis by (simp add: counted_def)
qed

lemma counted_none: "(\<And>s. s \<in> set ss \<Longrightarrow> \<not> f s) \<Longrightarrow> counted f ss = 0"
  by (simp add: counted_def filter_empty_conv)

lemma counted_all:
  assumes "int (length ss) \<le> counted f ss" "s \<in> set ss"
  shows "f s"
proof -
  have "length (filter f ss) = length ss" using assms(1) length_filter_le[of f ss] by (simp add: counted_def)
  then show ?thesis using assms(2) by (metis filter_id_conv length_filter_less less_irrefl)
qed

text \<open>A step of one subscriber keeps the invariant when it keeps its phase and whether it has been heard.\<close>

lemma lat_inv_sub:
  assumes "lat_inv (p, ss)" "i < length ss" "in_phase p s \<and> heard p s = heard p (ss ! i)"
  shows "lat_inv (p, ss[i := s])"
proof -
  have "counted (heard p) (ss[i := s]) = counted (heard p) ss" using assms(2,3) by (simp add: counted_update)
  moreover have "\<forall>t \<in> set (ss[i := s]). in_phase p t"
    using assms(1,3) set_update_subset_insert[of ss i s] by (auto simp: lat_inv_def)
  ultimately show ?thesis using assms(1) by (simp add: lat_inv_def)
qed

lemmas phase_defs = idle_def started_def set_up_def stopping_def between_def quiet_def waiting_stop_def told_def

text \<open>Moves that change nothing but the position, and what they do to each place.\<close>

lemma move_simps [simp]: "told c (s\<lparr>ls_pc := x\<rparr>) = told c s" "quiet (s\<lparr>ls_pc := x\<rparr>) = quiet s"
  "told c (s\<lparr>ls_left := ys\<rparr>) = told c s" "quiet (s\<lparr>ls_left := ys\<rparr>) = quiet s"
  by (simp_all add: told_def quiet_def)

lemma waiting_stop_pc: "waiting_stop ps s \<Longrightarrow> ls_pc s = SStop"
  by (simp add: waiting_stop_def)

lemma between_pc: "between ps s \<Longrightarrow> ls_pc s \<in> {SDiscovery, STest, SDone, SAck}"
  by (auto simp: between_def)

definition moves :: "lat_sub \<Rightarrow> lat_sub \<Rightarrow> bool" where
  "moves s t \<longleftrightarrow> ls_pc s \<in> {SDiscovery, SAck, STest} \<and> (\<forall>ps. between ps s \<longrightarrow> between ps t) \<and> quiet t = quiet s \<and>
     (\<forall>c. told c t = told c s) \<and> outbox t = outbox s \<and> ls_pc t \<noteq> SStop \<and> (ls_pc s = SAck \<longrightarrow> outbox s = [])"

lemma moves_discovered: "sub_discovered s = Some t \<Longrightarrow> moves s t"
  by (auto simp: moves_def sub_discovered_def between_def split: if_splits)

lemma moves_acked: "sub_acked s = Some t \<Longrightarrow> moves s t"
  by (auto simp: moves_def sub_acked_def between_def split: if_splits)

lemma moves_done: "sub_ready s = Some t \<Longrightarrow> ls_left s = [] \<Longrightarrow> moves s t"
  by (auto simp: moves_def sub_ready_def between_def split: if_splits)

lemma moves_phase:
  assumes "moves s t"
  shows "idle ps s \<Longrightarrow> idle ps t" "started ps s \<Longrightarrow> started ps t" "set_up ps s \<Longrightarrow> set_up ps t"
    "stopping ps s \<Longrightarrow> stopping ps t"
proof -
  have m: "ls_pc s \<noteq> SStop" "ls_pc s \<noteq> SMatch" "outbox s \<noteq> [END] \<or> ls_pc s \<noteq> SAck"
    using assms by (auto simp: moves_def)
  show "idle ps s \<Longrightarrow> idle ps t" "started ps s \<Longrightarrow> started ps t" "set_up ps s \<Longrightarrow> set_up ps t"
    "stopping ps s \<Longrightarrow> stopping ps t"
    using assms m waiting_stop_pc[of _ s] unfolding idle_def started_def set_up_def stopping_def moves_def by blast+
qed

lemma ready_phase:
  assumes "sub_ready s = Some t" "ls_left s \<noteq> []"
  shows "\<not> idle ps s" "started ps s \<Longrightarrow> started ps t" "\<not> set_up ps s" "\<not> stopping ps s"
proof -
  have r: "ls_pc s = STest" "sub_command_count (ls s) \<noteq> 0" "t = (clear_sub s)\<lparr>ls_data := True, ls_pc := SMatch\<rparr>"
    using assms by (auto simp: sub_ready_def split: if_splits)
  show "\<not> idle ps s" for ps using r by (simp add: idle_def quiet_def)
  then show "\<not> stopping ps s" using r by (auto simp: stopping_def dest: waiting_stop_pc)
  show "\<not> set_up ps s" using r by (auto simp: set_up_def dest: waiting_stop_pc)
  show "started ps t" if "started ps s"
  proof -
    have "between ps s" "told READY s" "ps \<noteq> []" using that r by (auto simp: started_def dest: waiting_stop_pc)
    then show ?thesis using r by (auto simp: started_def between_def told_def quiet_def clear_sub_def)
  qed
qed

lemma matched_phase:
  assumes "sub_matched d s = Some t"
  shows "\<not> idle ps s" "started ps s \<Longrightarrow> started ps t" "\<not> set_up ps s" "\<not> stopping ps s"
proof -
  have r: "ls_pc s = SMatch" "t = s\<lparr>ls := (ls s)\<lparr>test_status := 0\<rparr>, outbox := outbox s @ [BEGIN], ls_pc := SStop\<rparr>"
    using assms by (auto simp: sub_matched_def split: if_splits)
  show i: "\<not> idle ps s" for ps using r between_pc[of ps s] by (auto simp: idle_def)
  show "\<not> stopping ps s" using r i by (auto simp: stopping_def dest: waiting_stop_pc)
  show "\<not> set_up ps s" using r by (auto simp: set_up_def dest: waiting_stop_pc)
  show "started ps t" if "started ps s"
    using that r between_pc[of ps s] waiting_stop_pc[of ps s] by (auto simp: started_def waiting_stop_def quiet_def)
qed

lemma stopped_phase:
  assumes "sub_stopped s = Some t"
  shows "\<not> idle ps s" "\<not> started ps s" "\<not> set_up ps s" "stopping ps s \<Longrightarrow> stopping ps t \<and> outbox t \<noteq> []"
proof -
  have r: "ls_pc s = SStop" "sub_command_count (ls s) \<noteq> 0"
    using assms by (auto simp: sub_stopped_def split: if_splits)
  show i: "\<not> idle ps s" for ps using r between_pc[of ps s] by (auto simp: idle_def)
  show "\<not> started ps s" using r between_pc[of ps s] by (auto simp: started_def)
  show "\<not> set_up ps s" using r by (auto simp: set_up_def quiet_def)
  show "stopping ps t \<and> outbox t \<noteq> []" if "stopping ps s"
  proof -
    have "waiting_stop ps s" "told STOP s" "outbox s = []" "ps \<noteq> []" using that r i by (auto simp: stopping_def)
    then show ?thesis using assms r by (auto simp: sub_stopped_def clear_sub_def Let_def stopping_def waiting_stop_def told_def)
  qed
qed

lemma told_hears: "told c s \<Longrightarrow> inbox s = d # cs \<Longrightarrow> c \<in> {READY, STOP} \<Longrightarrow>
    told c (s\<lparr>ls := sub_command_on_data_available (Some d) (ls s), inbox := cs\<rparr>)"
  by (auto simp: told_def sub_command_on_data_available_def)

lemma between_hears: "between ps (s\<lparr>ls := l, inbox := cs\<rparr>) = between ps s"
  by (simp add: between_def)

lemma hears_phase:
  assumes "inbox s = d # cs" "t = s\<lparr>ls := sub_command_on_data_available (Some d) (ls s), inbox := cs\<rparr>"
  shows "\<not> idle ps s" "started ps s \<Longrightarrow> started ps t" "\<not> set_up ps s" "stopping ps s \<Longrightarrow> stopping ps t"
proof -
  show i: "\<not> idle ps s" for ps using assms(1) by (auto simp: idle_def quiet_def)
  show "\<not> set_up ps s" using assms(1) by (auto simp: set_up_def quiet_def)
  show "started ps t" if "started ps s"
  proof -
    have "between ps s" "told READY s" "ps \<noteq> []" using that assms(1) by (auto simp: started_def quiet_def)
    then show ?thesis using told_hears[of READY s d cs] assms by (simp add: started_def between_hears)
  qed
  show "stopping ps t" if "stopping ps s"
  proof -
    have h: "waiting_stop ps s" "told STOP s" "outbox s = []" "ps \<noteq> []" using that assms(1) i by (auto simp: stopping_def)
    then have "waiting_stop ps t" using assms by (auto simp: waiting_stop_def told_def sub_command_on_data_available_def)
    then show ?thesis using told_hears[of STOP s d cs] h assms by (simp add: stopping_def)
  qed
qed

text \<open>A step of a subscriber keeps its phase.\<close>

definition keeps :: "lat_pub \<Rightarrow> lat_sub \<Rightarrow> lat_sub \<Rightarrow> bool" where
  "keeps p s t \<longleftrightarrow> in_phase p t \<and> heard p t = heard p s"

lemma keeps_moves:
  assumes "moves s t" "in_phase p s"
  shows "keeps p s t"
proof -
  have "outbox t = outbox s" "ls_pc s \<noteq> SStop" "ls_pc t \<noteq> SStop" using assms(1) by (auto simp: moves_def)
  then have "heard p t = heard p s" by (simp add: heard_def)
  then show ?thesis using moves_phase[OF assms(1)] assms(2) by (cases "lp_pc p") (auto simp: keeps_def in_phase_def)
qed

lemma keeps_ready:
  assumes "sub_ready s = Some t" "in_phase p s"
  shows "keeps p s t"
proof (cases "ls_left s = []")
  case True
  then show ?thesis using keeps_moves[OF moves_done[OF assms(1)] assms(2)] by blast
next
  case False
  note r = ready_phase[OF assms(1) False]
  have "ls_pc s \<noteq> SStop" "ls_pc t \<noteq> SStop" using assms(1) False by (auto simp: sub_ready_def split: if_splits)
  then show ?thesis using r assms(2) by (cases "lp_pc p") (auto simp: keeps_def in_phase_def heard_def)
qed

lemma keeps_matched:
  assumes "sub_matched d s = Some t" "in_phase p s"
  shows "keeps p s t"
proof -
  note r = matched_phase[OF assms(1)]
  have "ls_pc s \<noteq> SStop" "outbox t \<noteq> []" using assms(1) by (auto simp: sub_matched_def split: if_splits)
  then show ?thesis using r assms(2) by (cases "lp_pc p") (auto simp: keeps_def in_phase_def heard_def)
qed

lemma keeps_stopped:
  assumes "sub_stopped s = Some t" "in_phase p s"
  shows "keeps p s t"
proof -
  note r = stopped_phase[OF assms(1)]
  have "ls_pc s = SStop" using assms(1) by (auto simp: sub_stopped_def split: if_splits)
  then show ?thesis using r assms(2) by (cases "lp_pc p") (auto simp: keeps_def in_phase_def heard_def)
qed

lemma keeps_hears:
  assumes "inbox s = c # cs" "t = s\<lparr>ls := sub_command_on_data_available (Some c) (ls s), inbox := cs\<rparr>" "in_phase p s"
  shows "keeps p s t"
  using hears_phase[OF assms(1,2)] assms(2,3) by (cases "lp_pc p") (auto simp: keeps_def in_phase_def heard_def)

text \<open>The publisher hears the command of a phase.\<close>

lemma in_phase_pub: "lp_pc q = lp_pc p \<Longrightarrow> lp_left q = lp_left p \<Longrightarrow> in_phase q s = in_phase p s"
  by (cases "lp_pc p") (simp_all add: in_phase_def)

lemma heard_pub: "lp_pc q = lp_pc p \<Longrightarrow> heard q s = heard p s"
  by (simp add: heard_def)

lemma outbox_phase:
  assumes "in_phase p s" "outbox s = c # cs"
  shows "in_phase p (s\<lparr>outbox := cs\<rparr>) \<and> \<not> heard p s \<and> heard p (s\<lparr>outbox := cs\<rparr>) \<and> (c = BEGIN \<or> c = END)"
proof -
  have i: "\<not> idle ps s" for ps using assms(2) by (auto simp: idle_def quiet_def)
  have u: "\<not> set_up ps s" for ps using assms(2) by (auto simp: set_up_def quiet_def)
  have b: "\<not> between ps s" for ps using assms(2) by (auto simp: between_def)
  have st: "waiting_stop ps s \<and> inbox s = [] \<and> sub_command_count (ls s) = 0 \<and> outbox s = [BEGIN] \<and> ps \<noteq> []" if "started ps s" for ps
    using that b assms(2) by (auto simp: started_def quiet_def)
  have en: "\<not> ls_data s \<and> ls_left s = ps \<and> ls_pc s = SAck \<and> inbox s = [] \<and> sub_command_count (ls s) = 0 \<and> outbox s = [END] \<and> ps \<noteq> []"
    if "stopping ps s" for ps using that i assms(2) by (auto simp: stopping_def)
  consider (start) "lp_pc p \<in> {PDiscovery, PBegin}" "started (lp_left p) s" | (stop) "lp_pc p = PEnd" "stopping (lp_left p) s"
    using assms(1) i u by (cases "lp_pc p") (auto simp: in_phase_def)
  then show ?thesis
  proof cases
    case start
    note f = st[OF start(2)]
    then have "started (lp_left p) (s\<lparr>outbox := cs\<rparr>)" using assms(2) by (simp add: started_def waiting_stop_def)
    then show ?thesis using f start assms(2) waiting_stop_pc[of "lp_left p" s] by (auto simp: in_phase_def heard_def)
  next
    case stop
    note f = en[OF stop(2)]
    then have "idle (tl (lp_left p)) (s\<lparr>outbox := cs\<rparr>)" using assms(2) by (simp add: idle_def between_def quiet_def)
    then show ?thesis using f stop assms(2) by (auto simp: in_phase_def heard_def stopping_def)
  qed
qed

lemma lat_inv_keeps:
  assumes "lat_inv (p, ss)" "i < length ss" "in_phase p (ss ! i) \<Longrightarrow> keeps p (ss ! i) s"
  shows "lat_inv (p, ss[i := s])"
proof -
  have "in_phase p (ss ! i)" using assms(1,2) by (simp add: lat_inv_def)
  then show ?thesis using assms(3) by (intro lat_inv_sub[OF assms(1,2)]) (simp add: keeps_def)
qed

lemma lat_inv_heard:
  assumes "lat_inv (p, ss)" "i < length ss" "outbox (ss ! i) = c # cs"
  shows "lat_inv (p\<lparr>lp := command_on_data_available (Some c) (lp p)\<rparr>, ss[i := (ss ! i)\<lparr>outbox := cs\<rparr>])"
proof -
  let ?q = "p\<lparr>lp := command_on_data_available (Some c) (lp p)\<rparr>" and ?s = "(ss ! i)\<lparr>outbox := cs\<rparr>"
  have "in_phase p (ss ! i)" using assms(1,2) by (simp add: lat_inv_def)
  note o = outbox_phase[OF this assms(3)]
  have h: "heard ?q = heard p" by (rule ext) (simp add: heard_def)
  have "counted (heard p) (ss[i := ?s]) = counted (heard p) ss + 1" using o assms(2) by (simp add: counted_update)
  moreover have "\<forall>t \<in> set (ss[i := ?s]). in_phase ?q t"
    using assms(1) o set_update_subset_insert[of ss i ?s] by (auto simp: lat_inv_def in_phase_pub[of ?q p])
  moreover have "command_msg_count (lp ?q) = command_msg_count (lp p) + 1" "subscribers (lp ?q) = subscribers (lp p)"
    using o by (auto simp: command_on_data_available_def)
  ultimately show ?thesis using assms(1) h by (simp add: lat_inv_def)
qed

section \<open>The publisher's steps\<close>

lemma measure_keeps:
  "command_msg_count (snd (measure_loop n rs l)) = command_msg_count l \<and> subscribers (snd (measure_loop n rs l)) = subscribers l"
proof -
  have e: "command_msg_count (echoes_in es l) = command_msg_count l \<and> subscribers (echoes_in es l) = subscribers l" for es l
    by (induction es arbitrary: l) (auto simp: echoes_in_def on_data_available_def Let_def split: option.splits)
  show ?thesis by (induction n rs l rule: measure_loop.induct) (simp_all add: e publish_def)
qed

lemma idle_to_started: "idle ps s \<Longrightarrow> ps \<noteq> [] \<Longrightarrow> started ps (s\<lparr>inbox := inbox s @ [READY]\<rparr>)"
  by (auto simp: idle_def started_def between_def quiet_def told_def)

lemma set_up_to_stopping: "set_up ps s \<Longrightarrow> ps \<noteq> [] \<Longrightarrow> stopping ps (s\<lparr>inbox := inbox s @ [STOP]\<rparr>)"
  by (auto simp: set_up_def stopping_def waiting_stop_def quiet_def told_def)

lemma started_heard: "started ps s \<Longrightarrow> outbox s = [] \<Longrightarrow> ls_pc s = SStop \<Longrightarrow> set_up ps s"
  using between_pc[of ps s] by (auto simp: started_def set_up_def quiet_def)

lemma stopping_heard: "stopping ps s \<Longrightarrow> outbox s = [] \<Longrightarrow> ls_pc s \<noteq> SStop \<Longrightarrow> idle (tl ps) s"
  using waiting_stop_pc[of ps s] by (auto simp: stopping_def)

lemma lat_inv_ready:
  assumes "lat_inv (p, ss)" "pub_ready p = Some (p1, cs)"
  shows "lat_inv (p1, broadcast cs ss)"
proof -
  have pc: "lp_pc p = PTest" using assms(2) by (simp add: pub_ready_def split: if_splits)
  have i: "\<forall>s \<in> set ss. idle (lp_left p) s" using assms(1) pc by (simp add: lat_inv_def in_phase_def)
  have z: "command_msg_count (lp p) = 0" using assms(1) pc by (simp add: lat_inv_def counted_none heard_def)
  show ?thesis
  proof (cases "lp_left p = []")
    case True
    then have "p1 = p\<lparr>lp_pc := PDone\<rparr>" "cs = []" using assms(2) pc by (simp_all add: pub_ready_def)
    then show ?thesis using assms(1) i z True pc by (simp add: lat_inv_def broadcast_nothing in_phase_def counted_none heard_def)
  next
    case False
    then have p1: "p1 = p\<lparr>lp := (lp p)\<lparr>received_count := 0, times := []\<rparr>, lp_data := True, lp_pc := PDiscovery\<rparr>" "cs = [READY]"
      using assms(2) pc by (simp_all add: pub_ready_def)
    have ph: "\<forall>s \<in> set (broadcast cs ss). in_phase p1 s"
      using i False by (auto simp: p1 broadcast_def in_phase_def intro: idle_to_started)
    have b: "ls_pc s \<noteq> SStop" if "s \<in> set ss" for s
      using that i between_pc[of "lp_left p" s] by (auto simp: idle_def)
    have "\<not> heard p1 s" if "s \<in> set (broadcast cs ss)" for s
      using that b by (auto simp: p1 broadcast_def heard_def)
    then have "counted (heard p1) (broadcast cs ss) = 0" by (rule counted_none)
    then show ?thesis using assms(1) ph z False by (simp add: lat_inv_def p1 broadcast_def)
  qed
qed

lemma lat_inv_discovered:
  assumes "lat_inv (p, ss)" "pub_discovered b p = Some p1"
  shows "lat_inv (p1, ss)"
proof -
  have pc: "lp_pc p = PDiscovery" "p1 = p\<lparr>lp_pc := PBegin\<rparr>" using assms(2) by (auto simp: pub_discovered_def split: if_splits)
  then have "heard p1 = heard p" by (simp add: heard_def fun_eq_iff)
  then show ?thesis using assms(1) pc by (simp add: lat_inv_def in_phase_def)
qed

lemma lat_inv_begun:
  assumes "lat_inv (p, ss)" "pub_begun p = Some p1"
  shows "lat_inv (p1, ss)"
proof -
  have pc: "lp_pc p = PBegin" "commands_over p" "p1 = (clear_commands p)\<lparr>lp_pc := PMeasure\<rparr>"
    using assms(2) by (auto simp: pub_begun_def split: if_splits)
  have "heard p s \<and> in_phase p s" if "s \<in> set ss" for s
    using counted_all[of ss "heard p" s] that assms(1) pc(2) by (simp add: lat_inv_def commands_over_def)
  then have "\<forall>s \<in> set ss. set_up (lp_left p) s" using pc(1) started_heard by (auto simp: heard_def in_phase_def)
  then show ?thesis using assms(1) pc by (simp add: lat_inv_def clear_commands_def in_phase_def counted_none heard_def)
qed

lemma lat_inv_measured:
  assumes "lat_inv (p, ss)" "pub_measured rs p = Some (p1, cs)"
  shows "lat_inv (p1, broadcast cs ss)"
proof -
  have pc: "lp_pc p = PMeasure" using assms(2) by (simp add: pub_measured_def split: if_splits)
  have i: "\<forall>s \<in> set ss. set_up (lp_left p) s" using assms(1) pc by (simp add: lat_inv_def in_phase_def)
  have z: "command_msg_count (lp p) = 0" "lp_left p \<noteq> []" using assms(1) pc by (simp_all add: lat_inv_def counted_none heard_def)
  obtain ok l where m: "measure_loop 1 rs (lp p) = (ok, l)" by fastforce
  have k: "command_msg_count l = 0" "subscribers l = subscribers (lp p)" using measure_keeps[of 1 rs "lp p"] m z by simp_all
  show ?thesis
  proof (cases ok)
    case True
    then have p1: "p1 = p\<lparr>lp := l, lp_pc := PEnd\<rparr>" "cs = [STOP]" using assms(2) pc m by (simp_all add: pub_measured_def)
    have ph: "\<forall>s \<in> set (broadcast cs ss). in_phase p1 s"
      using i z by (auto simp: p1 broadcast_def in_phase_def intro: set_up_to_stopping)
    have b: "ls_pc s = SStop" if "s \<in> set ss" for s
      using that i waiting_stop_pc[of "lp_left p" s] by (simp add: set_up_def)
    have "\<not> heard p1 s" if "s \<in> set (broadcast cs ss)" for s
      using that b by (auto simp: p1 broadcast_def heard_def)
    then have "counted (heard p1) (broadcast cs ss) = 0" by (rule counted_none)
    then show ?thesis using assms(1) ph z k pc by (simp add: lat_inv_def p1 broadcast_def)
  next
    case False
    then have p1: "p1 = p\<lparr>lp := l, lp_pc := PFailed\<rparr>" "cs = []" using assms(2) pc m by (simp_all add: pub_measured_def)
    then show ?thesis using assms(1) i z k pc by (simp add: lat_inv_def broadcast_nothing in_phase_def counted_none heard_def)
  qed
qed

lemma lat_inv_ended:
  assumes "lat_inv (p, ss)" "pub_ended p = Some p1"
  shows "lat_inv (p1, ss)"
proof -
  have pc: "lp_pc p = PEnd" "commands_over p" using assms(2) by (auto simp: pub_ended_def split: if_splits)
  have "heard p s \<and> in_phase p s" if "s \<in> set ss" for s
    using counted_all[of ss "heard p" s] that assms(1) pc(2) by (simp add: lat_inv_def commands_over_def)
  then have i: "\<forall>s \<in> set ss. idle (tl (lp_left p)) s" using pc(1) stopping_heard by (auto simp: heard_def in_phase_def)
  have l: "lp_left p \<noteq> []" using assms(1) pc(1) by (simp add: lat_inv_def)
  from assms(2) pc show ?thesis
    using assms(1) i l
    by (auto simp: pub_ended_def Let_def clear_commands_def lat_inv_def in_phase_def counted_none heard_def split: sum.splits)
qed

theorem lat_step_inv: "lat_step y y1 \<Longrightarrow> lat_inv y \<Longrightarrow> lat_inv y1"
proof (induction rule: lat_step.induct)
  case (sub_found i ss s p)
  then show ?case by (intro lat_inv_keeps keeps_moves moves_discovered)
next
  case (sub_starts i ss s p)
  then show ?case by (intro lat_inv_keeps keeps_ready)
next
  case (sub_matches i ss p s)
  then show ?case by (intro lat_inv_keeps) (auto intro: keeps_matched)
next
  case (sub_stops i ss s p)
  then show ?case by (intro lat_inv_keeps keeps_stopped)
next
  case (sub_acks i ss s p)
  then show ?case by (intro lat_inv_keeps keeps_moves moves_acked)
next
  case (sub_hears i ss c cs p)
  then show ?case by (intro lat_inv_keeps) (auto intro: keeps_hears)
qed (auto intro: lat_inv_ready lat_inv_discovered lat_inv_begun lat_inv_measured lat_inv_ended lat_inv_heard)

end
