(* ===== verification/Latency_Run.thy ===== *)
theory Latency_Run
  imports Latency_System
begin

text \<open>
  The runs of \<open>Latency_System\<close>: every step costs work, every state that cannot move is one of three outcomes, and while the
  publisher measures every subscriber is set up for the same payload.
\<close>

section \<open>Every step costs work\<close>

lemma acked_left: "in_phase p s \<Longrightarrow> ls_pc s = SAck \<Longrightarrow> ls_left s \<noteq> []"
  using waiting_stop_pc[of "lp_left p" s]
  by (cases "lp_pc p") (auto simp: in_phase_def idle_def started_def set_up_def stopping_def between_def)

lemma sub_moves_less:
  "sub_discovered s = Some t \<Longrightarrow> sub_work t < sub_work s" "sub_ready s = Some t \<Longrightarrow> sub_work t < sub_work s"
  "sub_matched d s = Some t \<Longrightarrow> sub_work t < sub_work s" "sub_stopped s = Some t \<Longrightarrow> sub_work t < sub_work s"
  by (auto simp: sub_discovered_def sub_ready_def sub_matched_def sub_stopped_def sub_work_def clear_sub_def Let_def split: if_splits)

lemma sub_acked_less: "sub_acked s = Some t \<Longrightarrow> ls_left s \<noteq> [] \<Longrightarrow> sub_work t < sub_work s"
  by (cases "ls_left s") (auto simp: sub_acked_def sub_work_def split: if_splits)

lemma pub_moves_less:
  "pub_discovered b p = Some p1 \<Longrightarrow> lat_work (p1, ss) < lat_work (p, ss)"
  "pub_begun p = Some p1 \<Longrightarrow> lat_work (p1, ss) < lat_work (p, ss)"
  by (rule pub_quiet_less, auto simp: pub_discovered_def pub_begun_def clear_commands_def split: if_splits)+

lemma pub_ended_less: "pub_ended p = Some p1 \<Longrightarrow> lat_inv (p, ss) \<Longrightarrow> lat_work (p1, ss) < lat_work (p, ss)"
proof -
  assume e: "pub_ended p = Some p1" and i: "lat_inv (p, ss)"
  have "lp_pc p = PEnd" using e by (simp add: pub_ended_def split: if_splits)
  then obtain x xs where "lp_left p = x # xs" using i by (cases "lp_left p") (simp_all add: lat_inv_def)
  then show ?thesis using e
    by (intro pub_quiet_less) (auto simp: pub_ended_def clear_commands_def Let_def split: if_splits sum.splits)
qed

lemma pub_sends_less:
  "pub_ready p = Some (p1, cs) \<Longrightarrow> lat_work (p1, broadcast cs ss) < lat_work (p, ss)"
  "pub_measured rs p = Some (p1, cs) \<Longrightarrow> lat_work (p1, broadcast cs ss) < lat_work (p, ss)"
  by (rule pub_step_less; auto simp: pub_ready_def pub_measured_def split: if_splits prod.splits)+

lemma lat_step_less: "lat_step y y1 \<Longrightarrow> lat_inv y \<Longrightarrow> lat_work y1 < lat_work y"
proof (induction rule: lat_step.induct)
  case (sub_acks i ss s p)
  then have "in_phase p (ss ! i)" "ls_pc (ss ! i) = SAck" by (auto simp: lat_inv_def sub_acked_def split: if_splits)
  then show ?case using sub_acks acked_left by (intro sub_step_less sub_acked_less)
next
  case (pub_hears i ss c cs p)
  have "lat_work (p\<lparr>lp := command_on_data_available (Some c) (lp p)\<rparr>, ss[i := (ss ! i)\<lparr>outbox := cs\<rparr>])
      = lat_work (p, ss[i := (ss ! i)\<lparr>outbox := cs\<rparr>])" by (simp add: lat_work_def)
  also have "\<dots> < lat_work (p, ss)" using pub_hears by (intro sub_step_less) (simp_all add: sub_work_def)
  finally show ?case .
next
  case (sub_hears i ss c cs p)
  then show ?case by (intro sub_step_less) (simp_all add: sub_work_def)
qed (auto intro: pub_moves_less pub_sends_less pub_ended_less sub_step_less sub_moves_less)

lemma lat_run: "(lat_step ^^ n) y z \<Longrightarrow> lat_inv y \<Longrightarrow> lat_inv z \<and> n + lat_work z \<le> lat_work y"
proof (induction n arbitrary: z)
  case (Suc n)
  then obtain x where x: "(lat_step ^^ n) y x" "lat_step x z" by auto
  then have "lat_inv x" "n + lat_work x \<le> lat_work y" using Suc by blast+
  then show ?case using lat_step_inv[OF x(2)] lat_step_less[OF x(2)] by simp
qed simp

lemma lat_start_inv:
  assumes "subscribers p = int (length ss)" "command_msg_count p = 0" "list_all (\<lambda>s. sub_command_count s = 0) ss"
  shows "lat_inv (lat_start payloads p ss)"
proof -
  have "counted (heard q) xs = 0" if "lp_pc q = PTest" for q xs using that by (intro counted_none) (simp add: heard_def)
  then show ?thesis using assms
    by (auto simp: lat_inv_def lat_start_def in_phase_def idle_def between_def quiet_def list_all_iff)
qed

lemma lat_start_work:
  "lat_work (lat_start payloads p ss) = (6 * length payloads + 5) * Suc (length ss) + (8 * length payloads + 8) * length ss"
  by (simp add: lat_work_def lat_start_def sub_work_def o_def sum_list_triv)

section \<open>What cannot move\<close>

definition stuck :: "lat_system \<Rightarrow> bool" where
  "stuck y \<longleftrightarrow> (\<forall>z. \<not> lat_step y z)"

text \<open>A subscriber without a step.\<close>

definition sub_waits :: "bool \<Rightarrow> lat_sub \<Rightarrow> bool" where
  "sub_waits d s \<longleftrightarrow> sub_discovered s = None \<and> sub_ready s = None \<and> sub_matched d s = None \<and> sub_stopped s = None \<and>
     sub_acked s = None \<and> inbox s = [] \<and> outbox s = []"

lemma stuck_sub:
  assumes "stuck (p, ss)" "s \<in> set ss"
  shows "sub_waits (lp_data p) s"
proof -
  obtain i where i: "i < length ss" "s = ss ! i" using assms(2) by (auto simp: in_set_conv_nth)
  have n: "\<not> lat_step (p, ss) z" for z using assms(1) unfolding stuck_def by (rule spec)
  have "sub_discovered s = None" using n sub_found[OF i(1)] i(2) by (cases "sub_discovered s") auto
  moreover have "sub_ready s = None" using n sub_starts[OF i(1)] i(2) by (cases "sub_ready s") auto
  moreover have "sub_matched (lp_data p) s = None" using n sub_matches[OF i(1)] i(2) by (cases "sub_matched (lp_data p) s") auto
  moreover have "sub_stopped s = None" using n sub_stops[OF i(1)] i(2) by (cases "sub_stopped s") auto
  moreover have "sub_acked s = None" using n sub_acks[OF i(1)] i(2) by (cases "sub_acked s") auto
  moreover have "inbox s = []" using n sub_hears[OF i(1)] i(2) by (cases "inbox s") auto
  moreover have "outbox s = []" using n pub_hears[OF i(1)] i(2) by (cases "outbox s") auto
  ultimately show ?thesis by (simp add: sub_waits_def)
qed

lemma waits_between: "sub_waits d s \<Longrightarrow> between ps s \<Longrightarrow>
    ls_pc s = STest \<and> sub_command_count (ls s) = 0 \<and> ps \<noteq> [] \<or> ls_pc s = SDone \<and> ps = []"
  by (auto simp: sub_waits_def between_def sub_discovered_def sub_ready_def sub_acked_def split: if_splits)

lemma waits_started: "sub_waits True s \<Longrightarrow> started ps s \<Longrightarrow> waiting_stop ps s \<and> outbox s = []"
  using waits_between[of True s ps] by (auto simp: sub_waits_def sub_matched_def started_def told_def split: if_splits)

lemma waits_stopping: "sub_waits d s \<Longrightarrow> stopping ps s \<Longrightarrow> outbox s = [] \<and> ls_pc s \<noteq> SStop"
  using waits_between[of d s "tl ps"] waiting_stop_pc[of ps s]
  by (auto simp: sub_waits_def stopping_def idle_def told_def sub_stopped_def Let_def split: if_splits)

lemma stuck_pub:
  assumes "stuck (p, ss)"
  shows "pub_ready p = None" "pub_discovered (\<forall>s \<in> set ss. ls_data s) p = None" "pub_begun p = None" "pub_ended p = None"
    "lp_pc p \<noteq> PMeasure"
proof -
  have n: "\<not> lat_step (p, ss) z" for z using assms unfolding stuck_def by (rule spec)
  show "pub_ready p = None" using n ready[of p] by (cases "pub_ready p") fastforce+
  show "pub_discovered (\<forall>s \<in> set ss. ls_data s) p = None"
    using n discovered[of ss p] by (cases "pub_discovered (\<forall>s \<in> set ss. ls_data s) p") auto
  show "pub_begun p = None" using n begun[of p] by (cases "pub_begun p") auto
  show "pub_ended p = None" using n ended[of p] by (cases "pub_ended p") auto
  show "lp_pc p \<noteq> PMeasure"
  proof
    assume m: "lp_pc p = PMeasure"
    let ?rs = "replicate (unat (samples (lp p) + 1)) NoLoan"
    have "pub_measured ?rs p \<noteq> None" using m by (simp add: pub_measured_def split: prod.split)
    then obtain p1 cs where "pub_measured ?rs p = Some (p1, cs)" by fastforce
    then show False using n measured[of ?rs p p1 cs ss] by simp
  qed
qed

text \<open>The outcomes: all payloads measured, in order, and everyone done; or a write failed, and every subscriber waits for a
  command that is not there; or the publisher erased from or analysed an empty vector.\<close>

definition lat_outcome :: "32 word list \<Rightarrow> lat_system \<Rightarrow> bool" where
  "lat_outcome payloads = (\<lambda>(p, ss). (case lp_pc p of
       PDone \<Rightarrow> list_all (\<lambda>s. ls_pc s = SDone) ss \<and> map bytes_sent (lp_stats p) = map ucast payloads
     | PFailed \<Rightarrow> list_all (\<lambda>s. ls_pc s = SStop \<and> inbox s = [] \<and> sub_command_count (ls s) = 0) ss
     | PBroken \<Rightarrow> length (times (lp p)) \<le> 1
     | _ \<Rightarrow> False))"

lemma over_heard: "lat_inv (p, ss) \<Longrightarrow> \<forall>s \<in> set ss. heard p s \<Longrightarrow> commands_over p"
  by (simp add: lat_inv_def commands_over_def counted_def)

lemma stuck_place:
  assumes "lat_inv (p, ss)" "stuck (p, ss)"
  shows "lp_pc p \<in> {PDone, PFailed, PBroken}"
proof -
  note np = stuck_pub[OF assms(2)]
  have ph: "in_phase p s" "sub_waits (lp_data p) s" if "s \<in> set ss" for s
    using that assms(1) stuck_sub[OF assms(2)] by (simp_all add: lat_inv_def)
  have d: "lp_data p" if "lp_pc p \<in> {PDiscovery, PBegin}" using that assms(1) by (auto simp: lat_inv_def)
  have st: "waiting_stop (lp_left p) s \<and> outbox s = []" if "lp_pc p \<in> {PDiscovery, PBegin}" "s \<in> set ss" for s
    using ph[OF that(2)] d[OF that(1)] that(1) waits_started[of s "lp_left p"] by (auto simp: in_phase_def)
  have "lp_pc p \<noteq> PTest" using np(1) by (auto simp: pub_ready_def split: if_splits)
  moreover have "lp_pc p \<noteq> PDiscovery" using np(2) st by (auto simp: pub_discovered_def waiting_stop_def split: if_splits)
  moreover have "lp_pc p \<noteq> PBegin"
  proof
    assume b: "lp_pc p = PBegin"
    then have "\<forall>s \<in> set ss. heard p s" using st waiting_stop_pc by (auto simp: heard_def)
    then show False using b np(3) over_heard[OF assms(1)] by (simp add: pub_begun_def)
  qed
  moreover have "lp_pc p \<noteq> PEnd"
  proof
    assume e: "lp_pc p = PEnd"
    then have "\<forall>s \<in> set ss. heard p s" using ph waits_stopping[of "lp_data p" _ "lp_left p"] by (auto simp: heard_def in_phase_def)
    then show False using e np(4) over_heard[OF assms(1)] by (auto simp: pub_ended_def Let_def split: sum.splits)
  qed
  ultimately show ?thesis using np(5) by (cases "lp_pc p") simp_all
qed

text \<open>The statistics are those of the payloads so far.\<close>

definition lat_stats :: "32 word list \<Rightarrow> lat_system \<Rightarrow> bool" where
  "lat_stats payloads = (\<lambda>(p, ss). map bytes_sent (lp_stats p) @ map ucast (lp_left p) = map ucast payloads \<and>
     (lp_pc p = PBroken \<longrightarrow> length (times (lp p)) \<le> 1))"

lemma finish_test_ok: "finish_test d p = Inr t \<Longrightarrow> bytes_sent t = ucast d"
  by (auto simp: finish_test_def analyze_times_def Let_def split: if_splits)

lemma finish_test_fails: "finish_test d p = Inl e \<Longrightarrow> length (times p) \<le> 1"
  by (cases "times p") (auto simp: finish_test_def analyze_times_def Let_def split: if_splits)

lemma ended_stats:
  assumes "pub_ended p = Some p1" "lat_stats payloads (p, ss)" "lp_left p \<noteq> []"
  shows "lat_stats payloads (p1, ss1)"
proof -
  obtain x xs where l: "lp_left p = x # xs" using assms(3) by (cases "lp_left p") simp_all
  show ?thesis using assms(1,2) l finish_test_ok[of x] finish_test_fails[of x]
    by (fastforce simp: pub_ended_def clear_commands_def lat_stats_def Let_def split: if_splits sum.splits)
qed

lemma lat_step_stats: "lat_step y y1 \<Longrightarrow> lat_inv y \<Longrightarrow> lat_stats payloads y \<Longrightarrow> lat_stats payloads y1"
proof (induction rule: lat_step.induct)
  case (ended p p1 ss)
  then have "lp_left p \<noteq> []" by (auto simp: lat_inv_def pub_ended_def split: if_splits)
  then show ?case using ended ended_stats by blast
next
  case (pub_hears i ss c cs p)
  then show ?case by (simp add: lat_stats_def command_on_data_available_def)
qed (auto simp: lat_stats_def pub_ready_def pub_discovered_def pub_begun_def pub_measured_def clear_commands_def
    split: if_splits prod.splits)

lemma lat_run_stats: "(lat_step ^^ n) y z \<Longrightarrow> lat_inv y \<Longrightarrow> lat_stats payloads y \<Longrightarrow> lat_stats payloads z"
proof (induction n arbitrary: z)
  case (Suc n)
  then obtain x where x: "(lat_step ^^ n) y x" "lat_step x z" by auto
  then have "lat_inv x" "lat_stats payloads x" using Suc lat_run by blast+
  then show ?case using lat_step_stats[OF x(2)] by simp
qed simp

lemma lat_start_stats: "lat_stats payloads (lat_start payloads p ss)"
  by (simp add: lat_stats_def lat_start_def)

lemma stuck_outcome:
  assumes "lat_inv y" "lat_stats payloads y" "stuck y"
  shows "lat_outcome payloads y"
proof -
  obtain p ss where y: "y = (p, ss)" by fastforce
  have ph: "in_phase p s" "sub_waits (lp_data p) s" if "s \<in> set ss" for s
    using that assms(1,3) stuck_sub[of p ss s] by (simp_all add: lat_inv_def y)
  have "ls_pc s = SDone" if "lp_pc p = PDone" "s \<in> set ss" for s
    using ph[OF that(2)] that(1) waits_between[of "lp_data p" s "[]"] by (simp add: in_phase_def idle_def)
  moreover have "ls_pc s = SStop \<and> inbox s = [] \<and> sub_command_count (ls s) = 0" if "lp_pc p = PFailed" "s \<in> set ss" for s
    using ph[OF that(2)] that(1) waiting_stop_pc[of "lp_left p" s] by (simp add: in_phase_def set_up_def quiet_def)
  moreover have "lp_left p = []" if "lp_pc p = PDone" using assms(1) that by (simp add: lat_inv_def y)
  ultimately show ?thesis using stuck_place[of p ss] assms
    by (cases "lp_pc p") (simp_all add: lat_outcome_def lat_stats_def y list_all_iff)
qed

section \<open>Properties of the protocol\<close>

text \<open>C7: The latency test comes to an end: with any number of subscribers and any payloads no interleaving is longer than a
  fixed number of steps, and a run that cannot continue has measured all payloads in order with everyone done, or a write
  has failed and every subscriber waits for a command that will not come, or fewer than two echoes were measured for a
  payload and the publisher has gone beyond its vector. No command is lost between payloads and no wait deadlocks.\<close>

theorem latency_protocol_ends:
  assumes "subscribers p = int (length ss)" "command_msg_count p = 0" "list_all (\<lambda>s. sub_command_count s = 0) ss"
    and "(lat_step ^^ n) (lat_start payloads p ss) z"
  shows "n \<le> (6 * length payloads + 5) * Suc (length ss) + (8 * length payloads + 8) * length ss \<and>
    ((\<exists>y. lat_step z y) \<or> lat_outcome payloads z)"
proof -
  note r = lat_run[OF assms(4) lat_start_inv[OF assms(1-3)]]
  have "lat_stats payloads z" using lat_run_stats[OF assms(4) lat_start_inv[OF assms(1-3)] lat_start_stats] .
  then show ?thesis using r stuck_outcome[of z payloads] lat_start_work[of payloads p ss] unfolding stuck_def by auto
qed

text \<open>A run of one subscriber in which the first write fails.\<close>

definition failing_pub :: "pub_pc \<Rightarrow> bool \<Rightarrow> int \<Rightarrow> lat_pub" where
  "failing_pub c d n = \<lparr>lp = example_publisher\<lparr>samples := 0, command_msg_count := n\<rparr>, lp_pc = c, lp_left = [16], lp_data = d, lp_stats = []\<rparr>"

definition failing_sub :: "sub_pc \<Rightarrow> bool \<Rightarrow> int \<Rightarrow> TESTCOMMAND list \<Rightarrow> TESTCOMMAND list \<Rightarrow> lat_sub" where
  "failing_sub c d n i out = \<lparr>ls = \<lparr>echo = True, sub_loans = False, sub_command_count = n, test_status = 0\<rparr>, ls_pc = c, ls_left = [16],
     ls_data = d, inbox = i, outbox = out\<rparr>"

definition failed_pub :: lat_pub where
  "failed_pub = (failing_pub PFailed True 0)\<lparr>lp := publish 1 0 (lp (failing_pub PFailed True 0))\<rparr>"

lemma failing_steps:
  "lat_step (failing_pub PTest False 0, [failing_sub SDiscovery False 0 [] []]) (failing_pub PTest False 0, [failing_sub STest False 0 [] []])"
  "lat_step (failing_pub PTest False 0, [failing_sub STest False 0 [] []]) (failing_pub PDiscovery True 0, [failing_sub STest False 0 [READY] []])"
  "lat_step (failing_pub PDiscovery True 0, [failing_sub STest False 0 [READY] []]) (failing_pub PDiscovery True 0, [failing_sub STest False 1 [] []])"
  "lat_step (failing_pub PDiscovery True 0, [failing_sub STest False 1 [] []]) (failing_pub PDiscovery True 0, [failing_sub SMatch True 0 [] []])"
  "lat_step (failing_pub PDiscovery True 0, [failing_sub SMatch True 0 [] []]) (failing_pub PBegin True 0, [failing_sub SMatch True 0 [] []])"
  "lat_step (failing_pub PBegin True 0, [failing_sub SMatch True 0 [] []]) (failing_pub PBegin True 0, [failing_sub SStop True 0 [] [BEGIN]])"
  "lat_step (failing_pub PBegin True 0, [failing_sub SStop True 0 [] [BEGIN]]) (failing_pub PBegin True 1, [failing_sub SStop True 0 [] []])"
  "lat_step (failing_pub PBegin True 1, [failing_sub SStop True 0 [] []]) (failing_pub PMeasure True 0, [failing_sub SStop True 0 [] []])"
  "lat_step (failing_pub PMeasure True 0, [failing_sub SStop True 0 [] []]) (failed_pub, [failing_sub SStop True 0 [] []])"
  using sub_found[of 0 "[failing_sub SDiscovery False 0 [] []]" "failing_sub STest False 0 [] []" "failing_pub PTest False 0"]
    ready[of "failing_pub PTest False 0" "failing_pub PDiscovery True 0" "[READY]" "[failing_sub STest False 0 [] []]"]
    sub_hears[of 0 "[failing_sub STest False 0 [READY] []]" READY "[]" "failing_pub PDiscovery True 0"]
    sub_starts[of 0 "[failing_sub STest False 1 [] []]" "failing_sub SMatch True 0 [] []" "failing_pub PDiscovery True 0"]
    discovered[of "[failing_sub SMatch True 0 [] []]" "failing_pub PDiscovery True 0" "failing_pub PBegin True 0"]
    sub_matches[of 0 "[failing_sub SMatch True 0 [] []]" "failing_pub PBegin True 0" "failing_sub SStop True 0 [] [BEGIN]"]
    pub_hears[of 0 "[failing_sub SStop True 0 [] [BEGIN]]" BEGIN "[]" "failing_pub PBegin True 0"]
    begun[of "failing_pub PBegin True 1" "failing_pub PMeasure True 0" "[failing_sub SStop True 0 [] []]"]
    measured[of "[WriteFails 0]" "failing_pub PMeasure True 0" failed_pub "[]" "[failing_sub SStop True 0 [] []]"]
  by (simp_all add: failing_pub_def failing_sub_def failed_pub_def example_publisher_def sub_discovered_def pub_ready_def broadcast_def
      sub_command_on_data_available_def sub_ready_def clear_sub_def pub_discovered_def sub_matched_def command_on_data_available_def
      pub_begun_def commands_over_def clear_commands_def pub_measured_def publish_def)

lemma failing_start:
  "lat_start [16] (example_publisher\<lparr>samples := 0\<rparr>) [\<lparr>echo = True, sub_loans = False, sub_command_count = 0, test_status = 0\<rparr>]
   = (failing_pub PTest False 0, [failing_sub SDiscovery False 0 [] []])"
  by (simp add: lat_start_def failing_pub_def failing_sub_def example_publisher_def)

lemma failing_prefix:
  "(lat_step ^^ 8) (failing_pub PTest False 0, [failing_sub SDiscovery False 0 [] []])
     (failing_pub PMeasure True 0, [failing_sub SStop True 0 [] []])"
  using relpowp_Suc_I2[OF failing_steps(1)
    relpowp_Suc_I2[OF failing_steps(2)
    relpowp_Suc_I2[OF failing_steps(3)
    relpowp_Suc_I2[OF failing_steps(4)
    relpowp_Suc_I2[OF failing_steps(5)
    relpowp_Suc_I2[OF failing_steps(6)
    relpowp_Suc_I2[OF failing_steps(7)
    relpowp_Suc_I2[OF failing_steps(8) relpowp_0_I[of lat_step]]]]]]]]]
  by (simp add: eval_nat_numeral del: relpowp.simps)

lemma failing_run:
  "(lat_step ^^ 9) (failing_pub PTest False 0, [failing_sub SDiscovery False 0 [] []]) (failed_pub, [failing_sub SStop True 0 [] []])"
  using relpowp_Suc_I[OF failing_prefix failing_steps(9)] by simp

lemma failed_is_stuck: "\<not> lat_step (failed_pub, [failing_sub SStop True 0 [] []]) y"
proof
  assume "lat_step (failed_pub, [failing_sub SStop True 0 [] []]) y"
  then show False
    by cases (simp_all add: failed_pub_def failing_pub_def failing_sub_def pub_ready_def pub_discovered_def pub_begun_def pub_measured_def
        pub_ended_def sub_discovered_def sub_ready_def sub_matched_def sub_stopped_def sub_acked_def)
qed

lemma latency_protocol_ends_witness:
  "(lat_step ^^ 9) (lat_start [16] (example_publisher\<lparr>samples := 0\<rparr>)
       [\<lparr>echo = True, sub_loans = False, sub_command_count = 0, test_status = 0\<rparr>]) (failed_pub, [failing_sub SStop True 0 [] []]) \<and>
   lat_outcome [16] (failed_pub, [failing_sub SStop True 0 [] []])"
  using latency_protocol_ends[of "example_publisher\<lparr>samples := 0\<rparr>"
      "[\<lparr>echo = True, sub_loans = False, sub_command_count = 0, test_status = 0\<rparr>]" 9 "[16]" "(failed_pub, [failing_sub SStop True 0 [] []])"]
    failing_run failed_is_stuck failing_start by (simp add: example_publisher_def)

text \<open>Where data endpoints are.\<close>

lemma phase_data: "in_phase p s \<Longrightarrow> ls_data s \<Longrightarrow> lp_pc p \<in> {PDiscovery, PBegin, PMeasure, PFailed, PEnd} \<and> ls_left s = lp_left p"
  by (cases "lp_pc p") (auto simp: in_phase_def idle_def started_def set_up_def stopping_def between_def waiting_stop_def)

text \<open>C9: Data endpoints are created and destroyed in sequence: in every reachable state a subscriber has endpoints only while the
  publisher has them for the same payload, and while the publisher measures every subscriber has them, waits for STOP
  and has no command under way.\<close>

theorem latency_endpoints_sequential:
  assumes "subscribers p0 = int (length ss0)" "command_msg_count p0 = 0" "list_all (\<lambda>s. sub_command_count s = 0) ss0"
    and "(lat_step ^^ n) (lat_start payloads p0 ss0) (p, ss)"
  shows "list_all (\<lambda>s. ls_data s \<longrightarrow> lp_data p \<and> ls_left s = lp_left p) ss \<and>
    (lp_pc p = PMeasure \<longrightarrow> list_all (\<lambda>s. ls_data s \<and> ls_pc s = SStop \<and> sub_command_count (ls s) = 0 \<and> inbox s = [] \<and> outbox s = []) ss)"
proof -
  have i: "lat_inv (p, ss)" using lat_run[OF assms(4) lat_start_inv[OF assms(1-3)]] ..
  then have ph: "in_phase p s" if "s \<in> set ss" for s using that by (simp add: lat_inv_def)
  have "lp_data p \<and> ls_left s = lp_left p" if "s \<in> set ss" "ls_data s" for s
    using phase_data[OF ph[OF that(1)] that(2)] i by (auto simp: lat_inv_def)
  moreover have "ls_data s \<and> ls_pc s = SStop \<and> sub_command_count (ls s) = 0 \<and> inbox s = [] \<and> outbox s = []"
    if "lp_pc p = PMeasure" "s \<in> set ss" for s
    using ph[OF that(2)] that(1) by (simp add: in_phase_def set_up_def waiting_stop_def quiet_def)
  ultimately show ?thesis by (simp add: list_all_iff)
qed

lemma latency_endpoints_sequential_witness:
  "(lat_step ^^ 8) (lat_start [16] (example_publisher\<lparr>samples := 0\<rparr>)
       [\<lparr>echo = True, sub_loans = False, sub_command_count = 0, test_status = 0\<rparr>])
     (failing_pub PMeasure True 0, [failing_sub SStop True 0 [] []]) \<and>
   list_all (\<lambda>s. ls_data s \<and> ls_pc s = SStop \<and> sub_command_count (ls s) = 0 \<and> inbox s = [] \<and> outbox s = []) [failing_sub SStop True 0 [] []]"
proof -
  have "lp_pc (failing_pub PMeasure True 0) = PMeasure" by (simp add: failing_pub_def)
  then show ?thesis
    using latency_endpoints_sequential[of "example_publisher\<lparr>samples := 0\<rparr>"
        "[\<lparr>echo = True, sub_loans = False, sub_command_count = 0, test_status = 0\<rparr>]" 8 "[16]" "failing_pub PMeasure True 0"
        "[failing_sub SStop True 0 [] []]"]
      failing_prefix failing_start by (simp add: example_publisher_def)
qed

end
