(* ===== verification/Async_Timer.thy ===== *)
theory Async_Timer
  imports Prelude
begin

text \<open>
  \<^verbatim>\<open>Timer\<close> of \<^verbatim>\<open>src/other/timer/testtimer/Timer.hpp\<close>: blocking, one-shot and periodic timers, each with a thread of its
  own that keeps a reference to its entry of \<^verbatim>\<open>timers_\<close>. A thread is at one of its waits or in a callback; each
  definition runs it, under the lock, to the next such place. The entry of a timer is erased by its own thread or
  by a cancellation; to use the reference after that is the error \<open>UseAfterFree\<close>. To set a promise twice throws
  \<^verbatim>\<open>std::future_error\<close>, which ends the program when it leaves a timer thread. A callback that is given can be called and
  returns; that a cancellation destroys a callback while it runs is not modelled.
\<close>

datatype State = IDLE | SCHEDULED | RUNNING | CANCELLED | EXPIRED

record TimerInfo =
  state :: State
  expiry :: int
  interval :: int
  has_callback :: bool
  has_cv :: bool
  has_promise :: bool
  isPeriodic :: bool

definition no_info :: TimerInfo where
  "no_info = \<lparr>state = IDLE, expiry = 0, interval = 0, has_callback = False, has_cv = False, has_promise = False, isPeriodic = False\<rparr>"

datatype place = BlockBegin | BlockWait | AsyncBegin | AsyncWait | AsyncCall | PeriodicHead | PeriodicWait int | PeriodicCall

text \<open>\<open>promises\<close>: no promise, one without a value, or its value; \<open>returned\<close>: what \<^verbatim>\<open>blockFor\<close> returned; \<open>calls\<close>: the callbacks
  that were started.\<close>

record Timer =
  timers :: "nat \<Rightarrow> TimerInfo option"
  nextId :: nat
  threads :: "nat \<Rightarrow> place option"
  promises :: "nat \<Rightarrow> bool option option"
  returned :: "nat \<Rightarrow> bool option"
  calls :: "nat list"

definition Timer_ctor :: Timer where
  "Timer_ctor = \<lparr>timers = (\<lambda>_. None), nextId = 1, threads = (\<lambda>_. None), promises = (\<lambda>_. None), returned = (\<lambda>_. None), calls = []\<rparr>"

section \<open>Operations\<close>

definition generateId :: "Timer \<Rightarrow> nat \<times> Timer" where
  "generateId t = (nextId t, t\<lparr>nextId := nextId t + 1\<rparr>)"

definition blockFor :: "int \<Rightarrow> int \<Rightarrow> Timer \<Rightarrow> Timer" where
  "blockFor duration now t =
     (let (i, t1) = generateId t
      in t1\<lparr>timers := (timers t1)(i \<mapsto> no_info\<lparr>state := SCHEDULED, expiry := now + duration, has_cv := True\<rparr>),
           threads := (threads t1)(i \<mapsto> BlockBegin)\<rparr>)"

definition asyncAfter :: "int \<Rightarrow> bool \<Rightarrow> int \<Rightarrow> Timer \<Rightarrow> Timer" where
  "asyncAfter duration callback now t =
     (let (i, t1) = generateId t
      in t1\<lparr>timers := (timers t1)(i \<mapsto> no_info\<lparr>state := SCHEDULED, expiry := now + duration, has_callback := callback,
             has_promise := True\<rparr>),
           promises := (promises t1)(i \<mapsto> None), threads := (threads t1)(i \<mapsto> AsyncBegin)\<rparr>)"

definition asyncEvery :: "int \<Rightarrow> int \<Rightarrow> Timer \<Rightarrow> Timer" where
  "asyncEvery iv now t =
     (let (i, t1) = generateId t
      in t1\<lparr>timers := (timers t1)(i \<mapsto> no_info\<lparr>state := SCHEDULED, expiry := now + iv, has_callback := True, interval := iv,
             isPeriodic := True\<rparr>),
           threads := (threads t1)(i \<mapsto> PeriodicHead)\<rparr>)"

definition set_value :: "nat \<Rightarrow> bool \<Rightarrow> Timer \<Rightarrow> Timer result" where
  "set_value i b t = (if promises t i = Some None then Inr (t\<lparr>promises := (promises t)(i \<mapsto> Some b)\<rparr>) else Inl FutureError)"

text \<open>The same in a detached thread.\<close>

definition set_value_thread :: "nat \<Rightarrow> bool \<Rightarrow> Timer \<Rightarrow> Timer result" where
  "set_value_thread i b t = (case set_value i b t of Inl _ \<Rightarrow> Inl StdTerminate | Inr t1 \<Rightarrow> Inr t1)"

definition erase :: "nat \<Rightarrow> Timer \<Rightarrow> Timer" where
  "erase i t = t\<lparr>timers := (timers t)(i := None)\<rparr>"

definition cancel :: "nat \<Rightarrow> Timer \<Rightarrow> (bool \<times> Timer) result" where
  "cancel i t = (case timers t i of None \<Rightarrow> Inr (False, t)
     | Some e \<Rightarrow>
         if state e = SCHEDULED \<or> state e = RUNNING then
           rbind (if has_promise e then set_value i False t else Inr t) (\<lambda>t1. Inr (True, erase i t1))
         else Inr (False, t))"

definition cancelAll :: "Timer \<Rightarrow> Timer" where
  "cancelAll t = t\<lparr>promises := (\<lambda>i. case timers t i of None \<Rightarrow> promises t i
       | Some e \<Rightarrow> if (state e = SCHEDULED \<or> state e = RUNNING) \<and> has_promise e \<and> promises t i = Some None
                  then Some (Some False) else promises t i),
     timers := (\<lambda>_. None)\<rparr>"

definition getState :: "nat \<Rightarrow> Timer \<Rightarrow> State" where
  "getState i t = (case timers t i of None \<Rightarrow> IDLE | Some e \<Rightarrow> state e)"

section \<open>The threads\<close>

definition goto :: "nat \<Rightarrow> place option \<Rightarrow> Timer \<Rightarrow> Timer" where
  "goto i p t = t\<lparr>threads := (threads t)(i := p)\<rparr>"

definition set_state :: "nat \<Rightarrow> TimerInfo \<Rightarrow> State \<Rightarrow> Timer \<Rightarrow> Timer" where
  "set_state i e s t = t\<lparr>timers := (timers t)(i \<mapsto> e\<lparr>state := s\<rparr>)\<rparr>"

text \<open>\<^verbatim>\<open>timers_[id]\<close> makes an entry when there is none.\<close>

definition block_return :: "nat \<Rightarrow> bool \<Rightarrow> Timer \<Rightarrow> Timer" where
  "block_return i b t = goto i None (erase i (t\<lparr>returned := (returned t)(i \<mapsto> b)\<rparr>))"

definition block_begin :: "nat \<Rightarrow> Timer \<Rightarrow> Timer" where
  "block_begin i t =
     (let e = (case timers t i of None \<Rightarrow> no_info | Some e \<Rightarrow> e)
      in if state e = SCHEDULED then goto i (Some BlockWait) t else block_return i False t)"

definition block_wake :: "bool \<Rightarrow> nat \<Rightarrow> Timer \<Rightarrow> Timer result" where
  "block_wake timeout i t = (case timers t i of None \<Rightarrow> Inl UseAfterFree
     | Some e \<Rightarrow>
         if state e \<noteq> SCHEDULED then Inr (block_return i False t)
         else if timeout then Inr (block_return i True t) else Inr t)"

definition async_begin :: "nat \<Rightarrow> Timer \<Rightarrow> Timer result" where
  "async_begin i t = (case timers t i of None \<Rightarrow> rbind (set_value_thread i False t) (\<lambda>t1. Inr (goto i None t1))
     | Some e \<Rightarrow> Inr (goto i (Some AsyncWait) (set_state i e RUNNING t)))"

definition async_end :: "nat \<Rightarrow> Timer \<Rightarrow> Timer result" where
  "async_end i t = rbind (set_value_thread i True t) (\<lambda>t1. Inr (goto i None (erase i t1)))"

definition async_wake :: "bool \<Rightarrow> nat \<Rightarrow> Timer \<Rightarrow> Timer result" where
  "async_wake timeout i t = (case timers t i of None \<Rightarrow> Inl UseAfterFree
     | Some e \<Rightarrow>
         if state e \<noteq> RUNNING then rbind (set_value_thread i False t) (\<lambda>t1. Inr (goto i None (erase i t1)))
         else if timeout then
           (let t1 = set_state i e EXPIRED t
            in if has_callback e then Inr (goto i (Some AsyncCall) (t1\<lparr>calls := calls t1 @ [i]\<rparr>)) else async_end i t1)
         else Inr t)"

definition periodic_head :: "int \<Rightarrow> int \<Rightarrow> nat \<Rightarrow> Timer \<Rightarrow> Timer" where
  "periodic_head iv now i t = (case timers t i of None \<Rightarrow> goto i None t
     | Some e \<Rightarrow> if state e \<noteq> SCHEDULED then goto i None t
         else goto i (Some (PeriodicWait (now + iv))) (set_state i e RUNNING t))"

text \<open>The wait is left by its time-out or when the time is over; otherwise it is entered again.\<close>

definition periodic_wake :: "bool \<Rightarrow> int \<Rightarrow> int \<Rightarrow> nat \<Rightarrow> Timer \<Rightarrow> Timer result" where
  "periodic_wake timeout nextExpiry now i t = (case timers t i of None \<Rightarrow> Inl UseAfterFree
     | Some e \<Rightarrow>
         if \<not> timeout \<and> state e = RUNNING \<and> now < nextExpiry then Inr t
         else if state e = CANCELLED then Inr (goto i None (erase i t))
         else if nextExpiry \<le> now then Inr (goto i (Some PeriodicCall) (t\<lparr>calls := calls t @ [i]\<rparr>))
         else Inr (goto i (Some PeriodicHead) t))"

definition periodic_return :: "int \<Rightarrow> int \<Rightarrow> nat \<Rightarrow> Timer \<Rightarrow> Timer result" where
  "periodic_return iv now i t = (case timers t i of None \<Rightarrow> Inl UseAfterFree
     | Some e \<Rightarrow> Inr (goto i (Some PeriodicHead)
         (if state e = RUNNING then t\<lparr>timers := (timers t)(i \<mapsto> e\<lparr>state := SCHEDULED, expiry := now + iv\<rparr>)\<rparr> else t)))"

text \<open>The thread of a timer goes on: \<open>timeout\<close> and \<open>now\<close> are what its wait and its clock return. The interval is that of
  the call that started it.\<close>

definition thread_step :: "int \<Rightarrow> bool \<Rightarrow> int \<Rightarrow> nat \<Rightarrow> Timer \<Rightarrow> Timer result" where
  "thread_step iv timeout now i t = (case threads t i of None \<Rightarrow> Inr t
     | Some BlockBegin \<Rightarrow> Inr (block_begin i t)
     | Some BlockWait \<Rightarrow> block_wake timeout i t
     | Some AsyncBegin \<Rightarrow> async_begin i t
     | Some AsyncWait \<Rightarrow> async_wake timeout i t
     | Some AsyncCall \<Rightarrow> async_end i t
     | Some PeriodicHead \<Rightarrow> Inr (periodic_head iv now i t)
     | Some (PeriodicWait nx) \<Rightarrow> periodic_wake timeout nx now i t
     | Some PeriodicCall \<Rightarrow> periodic_return iv now i t)"

section \<open>Histories\<close>

datatype event = BlockFor int int | After int bool int | Every int int | Cancel nat | CancelAll | Step nat int bool int

fun happen :: "event \<Rightarrow> Timer \<Rightarrow> Timer result" where
  "happen (BlockFor d now) t = Inr (blockFor d now t)"
| "happen (After d cb now) t = Inr (asyncAfter d cb now t)"
| "happen (Every iv now) t = Inr (asyncEvery iv now t)"
| "happen (Cancel i) t = rbind (cancel i t) (\<lambda>(b, t1). Inr t1)"
| "happen CancelAll t = Inr (cancelAll t)"
| "happen (Step i iv timeout now) t = thread_step iv timeout now i t"

fun history :: "event list \<Rightarrow> Timer \<Rightarrow> Timer result" where
  "history [] t = Inr t"
| "history (e # es) t = rbind (happen e t) (history es)"

fun cancels :: "event \<Rightarrow> bool" where
  "cancels (Cancel _) = True"
| "cancels CancelAll = True"
| "cancels _ = False"

section \<open>Without cancellation\<close>

text \<open>What the entry and the promise of a timer are where its thread is.\<close>

definition consistent :: "Timer \<Rightarrow> nat \<Rightarrow> bool" where
  "consistent t i \<longleftrightarrow> (case threads t i of
     None \<Rightarrow> promises t i = None \<or> promises t i = Some (Some True) \<and> timers t i = None \<and> count_list (calls t) i \<le> 1
   | Some p \<Rightarrow> (\<exists>e. timers t i = Some e \<and> i < nextId t \<and> (has_promise e \<longleftrightarrow> promises t i \<noteq> None) \<and> (case p of
         BlockBegin \<Rightarrow> state e = SCHEDULED \<and> promises t i = None
       | BlockWait \<Rightarrow> state e = SCHEDULED \<and> promises t i = None
       | AsyncBegin \<Rightarrow> state e = SCHEDULED \<and> promises t i = Some None \<and> count_list (calls t) i = 0
       | AsyncWait \<Rightarrow> state e = RUNNING \<and> promises t i = Some None \<and> count_list (calls t) i = 0
       | AsyncCall \<Rightarrow> state e = EXPIRED \<and> promises t i = Some None \<and> count_list (calls t) i = 1
       | PeriodicHead \<Rightarrow> promises t i = None
       | PeriodicWait _ \<Rightarrow> state e = RUNNING \<and> promises t i = None
       | PeriodicCall \<Rightarrow> state e = RUNNING \<and> promises t i = None)))"

definition fresh_ids :: "Timer \<Rightarrow> bool" where
  "fresh_ids t \<longleftrightarrow> (\<forall>i \<ge> nextId t. threads t i = None \<and> promises t i = None) \<and> (\<forall>i \<in> set (calls t). i < nextId t)"

definition all_consistent :: "Timer \<Rightarrow> bool" where
  "all_consistent t \<longleftrightarrow> fresh_ids t \<and> (\<forall>i. consistent t i)"

lemma consistentD: "all_consistent t \<Longrightarrow> consistent t i"
  by (simp add: all_consistent_def)

lemma fresh_thread: "all_consistent t \<Longrightarrow> threads t (nextId t) = None \<and> promises t (nextId t) = None \<and> nextId t \<notin> set (calls t)"
  by (auto simp: all_consistent_def fresh_ids_def)

lemma thread_below: "all_consistent t \<Longrightarrow> threads t i = Some p \<Longrightarrow> i < nextId t"
  by (rule ccontr) (auto simp: all_consistent_def fresh_ids_def)

text \<open>A step of timer \<open>i\<close> leaves the others alone.\<close>

lemma consistent_other:
  assumes "consistent t j" and "threads t' j = threads t j" and "timers t' j = timers t j" and "promises t' j = promises t j"
    and "count_list (calls t') j = count_list (calls t) j" and "nextId t \<le> nextId t'"
  shows "consistent t' j"
proof (cases "threads t j")
  case None
  then show ?thesis using assms by (simp add: consistent_def)
next
  case (Some p)
  then show ?thesis using assms by (cases p) (auto simp: consistent_def)
qed

lemma all_consistentI:
  assumes "all_consistent t" and "consistent t' i" and "\<And>j. j \<noteq> i \<Longrightarrow> threads t' j = threads t j \<and> timers t' j = timers t j \<and>
      promises t' j = promises t j \<and> count_list (calls t') j = count_list (calls t) j"
    and "nextId t \<le> nextId t'" and "i < nextId t'" and "set (calls t') \<subseteq> insert i (set (calls t))"
  shows "all_consistent t'"
proof -
  have "consistent t' j" for j
    using assms(2) consistent_other[OF consistentD[OF assms(1)], of t' j] assms(3,4) by (cases "j = i") auto
  moreover have "fresh_ids t'"
    using assms(1,3-6) unfolding all_consistent_def fresh_ids_def
    by (metis (no_types, lifting) insert_iff leD order_less_le_trans order_trans subsetD)
  ultimately show ?thesis by (simp add: all_consistent_def)
qed

lemma consistent_ctor: "all_consistent Timer_ctor"
  by (simp add: all_consistent_def fresh_ids_def consistent_def Timer_ctor_def)

lemma add_consistent:
  assumes "all_consistent t"
  shows "all_consistent (blockFor d now t)" and "all_consistent (asyncAfter d cb now t)" and "all_consistent (asyncEvery d now t)"
proof -
  note f = fresh_thread[OF assms]
  show "all_consistent (blockFor d now t)"
    by (rule all_consistentI[OF assms, of _ "nextId t"]) (use f in \<open>auto simp: blockFor_def generateId_def consistent_def no_info_def\<close>)
  show "all_consistent (asyncAfter d cb now t)"
    by (rule all_consistentI[OF assms, of _ "nextId t"])
      (use f in \<open>auto simp: asyncAfter_def generateId_def consistent_def count_list_0_iff no_info_def\<close>)
  show "all_consistent (asyncEvery d now t)"
    by (rule all_consistentI[OF assms, of _ "nextId t"]) (use f in \<open>auto simp: asyncEvery_def generateId_def consistent_def no_info_def\<close>)
qed

lemmas thread_defs = block_begin_def block_wake_def async_begin_def async_wake_def async_end_def periodic_head_def periodic_wake_def
  periodic_return_def set_value_thread_def set_value_def goto_def set_state_def erase_def block_return_def

lemma step_consistent:
  assumes a: "all_consistent t"
  shows "\<exists>t'. thread_step iv timeout now i t = Inr t' \<and> all_consistent t'"
proof (cases "threads t i")
  case None
  then show ?thesis using a by (simp add: thread_step_def)
next
  case (Some p)
  have b: "i < nextId t" using thread_below[OF a Some] .
  from consistentD[OF a, of i] Some have c: "consistent t i" by simp
  have "\<exists>t'. thread_step iv timeout now i t = Inr t' \<and> consistent t' i \<and> nextId t' = nextId t \<and>
      (\<forall>j. j \<noteq> i \<longrightarrow> threads t' j = threads t j \<and> timers t' j = timers t j \<and> promises t' j = promises t j \<and>
        count_list (calls t') j = count_list (calls t) j) \<and> set (calls t') \<subseteq> insert i (set (calls t))"
    using c b Some by (cases p) (auto simp: thread_step_def consistent_def thread_defs Let_def split: if_splits)
  then obtain t' where "thread_step iv timeout now i t = Inr t'" "consistent t' i" "nextId t' = nextId t"
      "\<forall>j. j \<noteq> i \<longrightarrow> threads t' j = threads t j \<and> timers t' j = timers t j \<and> promises t' j = promises t j \<and>
        count_list (calls t') j = count_list (calls t) j" "set (calls t') \<subseteq> insert i (set (calls t))" by blast
  moreover from this have "all_consistent t'" using b by (intro all_consistentI[OF a, of t' i]) auto
  ultimately show ?thesis by blast
qed

lemma happen_consistent:
  assumes "all_consistent t" and "\<not> cancels e"
  shows "\<exists>t'. happen e t = Inr t' \<and> all_consistent t'"
  using assms add_consistent step_consistent by (cases e) auto

lemma history_consistent:
  assumes "all_consistent t" and "list_all (\<lambda>e. \<not> cancels e) es"
  shows "\<exists>t'. history es t = Inr t' \<and> all_consistent t'"
  using assms
proof (induction es arbitrary: t)
  case (Cons e es)
  then obtain t1 where "happen e t = Inr t1" "all_consistent t1" using happen_consistent[of t e] by auto
  with Cons show ?case by auto
qed simp

text \<open>C13: Without cancellation the timers keep their promises, in every interleaving of their threads: nothing goes
  wrong, the callback of a one-shot timer runs at most once, its future never holds false, and it holds true as soon as
  its thread has ended.\<close>

theorem timers_keep_promises:
  assumes "list_all (\<lambda>e. \<not> cancels e) es"
  shows "\<exists>t. history es Timer_ctor = Inr t \<and> (\<forall>i. promises t i \<noteq> None \<longrightarrow>
    count_list (calls t) i \<le> 1 \<and> promises t i \<noteq> Some (Some False) \<and> (threads t i = None \<longrightarrow> promises t i = Some (Some True)))"
proof -
  from history_consistent[OF consistent_ctor assms] obtain t where t: "history es Timer_ctor = Inr t" "all_consistent t" by blast
  have "count_list (calls t) i \<le> 1 \<and> promises t i \<noteq> Some (Some False) \<and>
      (threads t i = None \<longrightarrow> promises t i = Some (Some True))" if "promises t i \<noteq> None" for i
  proof (cases "threads t i")
    case None
    then show ?thesis using consistentD[OF t(2), of i] that by (simp add: consistent_def)
  next
    case (Some p)
    then show ?thesis using consistentD[OF t(2), of i] that by (cases p) (auto simp: consistent_def)
  qed
  with t(1) show ?thesis by blast
qed

lemma timers_keep_promises_witness:
  "\<exists>t. history [After 10 True 0, After 5 True 1, Step 2 0 False 1, Step 2 0 True 6, Step 1 0 False 7, Step 2 0 False 8] Timer_ctor = Inr t \<and>
    promises t 1 \<noteq> Some (Some False) \<and> promises t 2 \<noteq> Some (Some False)"
proof -
  let ?es = "[After 10 True 0, After 5 True 1, Step 2 0 False 1, Step 2 0 True 6, Step 1 0 False 7, Step 2 0 False 8]"
  have "list_all (\<lambda>e. \<not> cancels e) ?es" by simp
  from timers_keep_promises[OF this] obtain t where t: "history ?es Timer_ctor = Inr t"
      "\<forall>i. promises t i \<noteq> None \<longrightarrow> promises t i \<noteq> Some (Some False)" by blast
  then have "promises t i \<noteq> Some (Some False)" for i by (cases "promises t i") auto
  with t(1) show ?thesis by blast
qed

lemma history_append: "history (es @ fs) t = rbind (history es t) (history fs)"
  by (induction es arbitrary: t) (auto simp: rbind_assoc intro: rbind_cong)

section \<open>Cancellation\<close>

text \<open>A thread that will use its entry, or set its promise, although a cancellation has done away with it.\<close>

definition doomed :: "Timer \<Rightarrow> nat \<Rightarrow> bool" where
  "doomed t i \<longleftrightarrow> timers t i = None \<and> i < nextId t \<and> (case threads t i of
     Some AsyncBegin \<Rightarrow> promises t i \<noteq> Some None
   | Some BlockWait \<Rightarrow> True | Some AsyncWait \<Rightarrow> True | Some (PeriodicWait _) \<Rightarrow> True | Some PeriodicCall \<Rightarrow> True | _ \<Rightarrow> False)"

definition waiting :: "place \<Rightarrow> bool" where
  "waiting p \<longleftrightarrow> (case p of BlockBegin \<Rightarrow> False | AsyncCall \<Rightarrow> False | PeriodicHead \<Rightarrow> False | _ \<Rightarrow> True)"

lemma doomed_step:
  assumes "doomed t i"
  shows "thread_step iv timeout now i t = Inl UseAfterFree \<or> thread_step iv timeout now i t = Inl StdTerminate"
  using assms by (auto simp: doomed_def thread_step_def thread_defs split: option.splits place.splits)

lemma doomed_same:
  assumes "doomed t i" and "threads t' i = threads t i" and "timers t' i = timers t i" and "promises t' i = promises t i"
    and "nextId t \<le> nextId t'"
  shows "doomed t' i"
  using assms by (auto simp: doomed_def split: option.splits place.splits)

lemma step_other:
  assumes "thread_step iv timeout now j t = Inr t'" and "i \<noteq> j"
  shows "threads t' i = threads t i \<and> timers t' i = timers t i \<and> promises t' i = promises t i \<and> nextId t' = nextId t"
proof (cases "threads t j")
  case None
  then show ?thesis using assms by (simp add: thread_step_def)
next
  case (Some p)
  then show ?thesis using assms
    by (cases p) (auto simp: thread_step_def thread_defs Let_def split: option.splits if_splits)
qed

lemma doomed_cancel:
  assumes "cancel j t = Inr (b, t')" and "doomed t i"
  shows "doomed t' i"
proof (cases "i = j")
  case True
  then have "timers t j = None" using assms(2) by (simp add: doomed_def)
  then have "t' = t" using assms(1) by (simp add: cancel_def)
  then show ?thesis using assms(2) by simp
next
  case False
  then show ?thesis using assms
    by (intro doomed_same[OF assms(2)])
      (auto simp: cancel_def set_value_def erase_def rbind_def split: option.splits if_splits sum.splits)
qed

lemma happen_doomed:
  assumes "happen e t = Inr t'" and "doomed t i" and "\<forall>iv timeout now. e \<noteq> Step i iv timeout now"
  shows "doomed t' i"
proof (cases e)
  case (Cancel j)
  then show ?thesis using assms doomed_cancel by (auto simp: rbind_eq_Inr_iff)
next
  case CancelAll
  then show ?thesis using assms by (auto simp: cancelAll_def doomed_def split: option.splits place.splits)
next
  case (Step j iv timeout now)
  then show ?thesis using assms step_other[of iv timeout now j t t' i] doomed_same[OF assms(2), of t'] by auto
qed (use assms doomed_same[OF assms(2), of t'] in \<open>auto simp: blockFor_def asyncAfter_def asyncEvery_def generateId_def doomed_def\<close>)

lemma history_doomed:
  assumes "history es t = Inr t'" and "doomed t i" and "\<forall>e \<in> set es. \<forall>iv timeout now. e \<noteq> Step i iv timeout now"
  shows "doomed t' i"
  using assms
proof (induction es arbitrary: t)
  case (Cons e es)
  then obtain t1 where t1: "happen e t = Inr t1" "history es t1 = Inr t'" by (auto simp: rbind_eq_Inr_iff)
  have "doomed t1 i" by (rule happen_doomed[OF t1(1) Cons.prems(2)]) (use Cons.prems(3) in simp)
  then show ?case using Cons.IH[OF t1(2)] Cons.prems(3) by simp
qed simp

lemma cancel_dooms:
  assumes "all_consistent t" and "threads t i = Some p" and "waiting p"
  shows "(\<exists>t1. cancel i t = Inr (True, t1) \<and> doomed t1 i) \<and> doomed (cancelAll t) i"
  using consistentD[OF assms(1), of i] assms(2,3)
  by (cases p) (auto simp: consistent_def waiting_def cancel_def cancelAll_def doomed_def set_value_def erase_def)

text \<open>C12: To cancel a timer whose thread waits for it is fatal, by \<^verbatim>\<open>cancel\<close>, by \<^verbatim>\<open>cancelAll\<close> and so by the destructor. For the
  first cancellation of any history:
  whatever the program and the other threads do afterwards, as soon as the thread goes on it reads the erased entry or
  sets its promise a second time.\<close>

theorem cancel_is_fatal:
  assumes "history es Timer_ctor = Inr t" and "list_all (\<lambda>e. \<not> cancels e) es" and "threads t i = Some p" and "waiting p"
    and "t1 = cancelAll t \<or> cancel i t = Inr (b, t1)"
    and "history fs t1 = Inr t2" and "\<forall>e \<in> set fs. \<forall>iv timeout now. e \<noteq> Step i iv timeout now"
  shows "thread_step iv timeout now i t2 = Inl UseAfterFree \<or> thread_step iv timeout now i t2 = Inl StdTerminate"
proof -
  have "all_consistent t" using history_consistent[OF consistent_ctor assms(2)] assms(1) by auto
  from cancel_dooms[OF this assms(3,4)] assms(5) have "doomed t1 i" by auto
  from doomed_step[OF history_doomed[OF assms(6) this assms(7)]] show ?thesis .
qed

lemma cancel_is_fatal_witness:
  "\<exists>t. history [After 10 True 0, Step 1 0 False 0, Cancel 1, After 3 True 5] Timer_ctor = Inr t \<and>
    (thread_step 0 True 10 1 t = Inl UseAfterFree \<or> thread_step 0 True 10 1 t = Inl StdTerminate)"
proof -
  let ?es = "[After 10 True 0, Step 1 0 False 0]" and ?fs = "[After 3 True 5]"
  note d = Timer_ctor_def asyncAfter_def generateId_def no_info_def thread_step_def thread_defs cancel_def
  obtain t where t: "history ?es Timer_ctor = Inr t" "threads t 1 = Some AsyncWait"
    by (simp add: d)
  obtain t1 where t1: "cancel 1 t = Inr (True, t1)" using t(1) by (auto simp: d)
  obtain t2 where t2: "history ?fs t1 = Inr t2" by simp
  have "thread_step 0 True 10 1 t2 = Inl UseAfterFree \<or> thread_step 0 True 10 1 t2 = Inl StdTerminate"
    by (rule cancel_is_fatal[OF t(1) _ t(2) _ _ t2, where b = True]) (use t1 in \<open>simp_all add: waiting_def\<close>)
  moreover have "history [After 10 True 0, Step 1 0 False 0, Cancel 1, After 3 True 5] Timer_ctor = Inr t2"
    using history_append[of ?es "[Cancel 1, After 3 True 5]" Timer_ctor] t(1) t1 t2 by simp
  ultimately show ?thesis by blast
qed

end
