(* ===== verification/JT_List.thy ===== *)
theory JT_List
  imports Fifo_Queue
begin

text \<open>
  The linked list and its iterator of \<^verbatim>\<open>src/design_mode/iterator/iterator.cc\<close>, with the nodes on the heap; a node is one
  of \<open>Fifo_Queue\<close> with \<open>item\<close> for \<^verbatim>\<open>value\<close> and \<open>next_node\<close> for \<^verbatim>\<open>pNext\<close>. Loops along the list take fuel for the nodes they
  visit; as much as the list is long is shown to be enough.
\<close>

type_synonym Node = "int node"

record JTList =
  m_pHead :: ptr
  m_pTail :: ptr
  m_lCount :: int

type_synonym list_state = "JTList \<times> Node heap"

text \<open>\<^verbatim>\<open>long\<close> has 64 bits; a signed overflow is undefined.\<close>

definition in_long :: "int \<Rightarrow> bool" where
  "in_long x \<longleftrightarrow> - 9223372036854775808 \<le> x \<and> x \<le> 9223372036854775807"

definition chk_long :: "int \<Rightarrow> int result" where
  "chk_long x = (if in_long x then Inr x else Inl IntOverflow)"

lemma chk_long_in [simp]: "in_long x \<Longrightarrow> chk_long x = Inr x"
  by (simp add: chk_long_def)

text \<open>The constructor leaves \<^verbatim>\<open>m_lCount\<close> as it finds it.\<close>

definition JTList_ctor :: "int \<Rightarrow> JTList" where
  "JTList_ctor junk = \<lparr>m_pHead = None, m_pTail = None, m_lCount = junk\<rparr>"

definition GetCount :: "JTList \<Rightarrow> int" where
  "GetCount l = m_lCount l"

fun get_loop :: "nat \<Rightarrow> int \<Rightarrow> int \<Rightarrow> ptr \<Rightarrow> Node heap \<Rightarrow> ptr option result" where
  "get_loop 0 index pos p h = Inr (if p = None then Some None else None)"
| "get_loop (Suc k) index pos p h =
     (if p = None then Inr (Some None)
      else rbind (chk_int (pos + 1)) (\<lambda>pos1.
           if index = pos then Inr (Some p)
           else rbind (h_read h p) (\<lambda>n. get_loop k index pos1 (next_node n) h)))"

definition Get :: "nat \<Rightarrow> int \<Rightarrow> list_state \<Rightarrow> ptr option result" where
  "Get k index = (\<lambda>(l, h). rbind (chk_long (m_lCount l - 1)) (\<lambda>m.
     if m < index \<or> index < 0 then Inr (Some None) else get_loop k index 0 (m_pHead l) h))"

fun includes_loop :: "nat \<Rightarrow> int \<Rightarrow> ptr \<Rightarrow> Node heap \<Rightarrow> bool option result" where
  "includes_loop 0 v p h = Inr (if p = None then Some False else None)"
| "includes_loop (Suc k) v p h =
     (if p = None then Inr (Some False)
      else rbind (h_read h p) (\<lambda>n. if v = item n then Inr (Some True) else includes_loop k v (next_node n) h))"

definition Includes :: "nat \<Rightarrow> int \<Rightarrow> list_state \<Rightarrow> bool option result" where
  "Includes k v = (\<lambda>(l, h). includes_loop k v (m_pHead l) h)"

definition Append :: "int \<Rightarrow> list_state \<Rightarrow> list_state result" where
  "Append v = (\<lambda>(l, h).
     let (p, h1) = h_new \<lparr>item = v, next_node = None\<rparr> h;
         count_up = (\<lambda>(l1, h2). rbind (chk_long (m_lCount l1 + 1)) (\<lambda>c. Inr (l1\<lparr>m_lCount := c\<rparr>, h2)))
     in if m_pHead l = None then count_up (l\<lparr>m_pHead := p, m_pTail := p\<rparr>, h1)
        else rbind (h_read h1 (m_pTail l)) (\<lambda>t.
             rbind (h_write h1 (m_pTail l) (t\<lparr>next_node := p\<rparr>)) (\<lambda>h2. count_up (l\<lparr>m_pTail := p\<rparr>, h2))))"

text \<open>The search for the node before \<open>p\<close>; at the end of the list it stops as well.\<close>

fun find_previous :: "nat \<Rightarrow> ptr \<Rightarrow> ptr \<Rightarrow> ptr \<Rightarrow> Node heap \<Rightarrow> ptr option result" where
  "find_previous 0 p prev cur h = Inr (if cur = None then Some prev else None)"
| "find_previous (Suc k) p prev cur h =
     (if cur = None then Inr (Some prev)
      else rbind (h_read h cur) (\<lambda>n. if next_node n = p then Inr (Some cur) else find_previous k p cur (next_node n) h))"

definition Remove :: "nat \<Rightarrow> ptr \<Rightarrow> list_state \<Rightarrow> list_state option result" where
  "Remove k p = (\<lambda>(l, h).
     if p = None \<or> m_pHead l = None \<or> m_pTail l = None then Inr (Some (l, h))
     else
       let finish = (\<lambda>(l1, h1). rbind (h_delete h1 p) (\<lambda>h2. rbind (chk_long (m_lCount l1 - 1)) (\<lambda>c. Inr (Some (l1\<lparr>m_lCount := c\<rparr>, h2)))))
       in if p = m_pHead l then rbind (h_read h (m_pHead l)) (\<lambda>n. finish (l\<lparr>m_pHead := next_node n\<rparr>, h))
          else rbind (find_previous k p None (m_pHead l) h) (\<lambda>r. case r of None \<Rightarrow> Inr None
            | Some prev \<Rightarrow>
                rbind (h_read h p) (\<lambda>n.
                let l1 = (if next_node n = None then l\<lparr>m_pTail := prev\<rparr> else l) in
                rbind (h_read h prev) (\<lambda>m.
                rbind (h_write h prev (m\<lparr>next_node := next_node n\<rparr>)) (\<lambda>h1. finish (l1, h1))))))"

definition JTList_dtor :: "nat \<Rightarrow> list_state \<Rightarrow> Node heap option result" where
  "JTList_dtor k = (\<lambda>(l, h). dtor_loop k (m_pHead l) h)"

section \<open>The iterator\<close>

definition it_First :: "list_state \<Rightarrow> ptr" where
  "it_First = (\<lambda>(l, h). m_pHead l)"

definition it_Next :: "ptr \<Rightarrow> list_state \<Rightarrow> ptr result" where
  "it_Next cur = (\<lambda>(l, h). rbind (h_read h cur) (\<lambda>n. Inr (next_node n)))"

definition IsDone :: "ptr \<Rightarrow> list_state \<Rightarrow> bool result" where
  "IsDone cur = (\<lambda>(l, h). rbind (h_read h (m_pTail l)) (\<lambda>t. Inr (cur = next_node t)))"

text \<open>The loop of \<^verbatim>\<open>main\<close> that prints the values.\<close>

fun print_loop :: "nat \<Rightarrow> ptr \<Rightarrow> list_state \<Rightarrow> int list option result" where
  "print_loop 0 cur s = rbind (IsDone cur s) (\<lambda>d. Inr (if d then Some [] else None))"
| "print_loop (Suc k) cur s = rbind (IsDone cur s) (\<lambda>d. if d then Inr (Some [])
     else rbind (h_read (snd s) cur) (\<lambda>n. rbind (it_Next cur s) (\<lambda>nx. rbind (print_loop k nx s) (\<lambda>r.
       Inr (map_option ((#) (item n)) r)))))"

text \<open>The loop of \<^verbatim>\<open>main\<close> that removes the first node with a value.\<close>

fun remove_value_loop :: "nat \<Rightarrow> int \<Rightarrow> nat \<Rightarrow> ptr \<Rightarrow> list_state \<Rightarrow> list_state option result" where
  "remove_value_loop 0 v fuel cur s = rbind (IsDone cur s) (\<lambda>d. Inr (if d then Some s else None))"
| "remove_value_loop (Suc k) v fuel cur s = rbind (IsDone cur s) (\<lambda>d. if d then Inr (Some s)
     else rbind (h_read (snd s) cur) (\<lambda>n. if item n = v then Remove fuel cur s
       else rbind (it_Next cur s) (\<lambda>nx. remove_value_loop k v fuel nx s)))"

definition remove_value :: "nat \<Rightarrow> int \<Rightarrow> list_state \<Rightarrow> list_state option result" where
  "remove_value fuel v s = remove_value_loop fuel v fuel (it_First s) s"

text \<open>A program over one list: values are appended and removed as \<^verbatim>\<open>main\<close> does it.\<close>

datatype list_op = Add int | Del int

fun list_run :: "nat \<Rightarrow> list_op list \<Rightarrow> list_state \<Rightarrow> list_state option result" where
  "list_run fuel [] s = Inr (Some s)"
| "list_run fuel (Add v # ops) s = rbind (Append v s) (list_run fuel ops)"
| "list_run fuel (Del v # ops) s = rbind (remove_value fuel v s) (\<lambda>r.
     case r of None \<Rightarrow> Inr None | Some s1 \<Rightarrow> list_run fuel ops s1)"

text \<open>The same program on a list of integers; an empty list has no iterator.\<close>

fun abs_run :: "list_op list \<Rightarrow> int list \<Rightarrow> int list option" where
  "abs_run [] xs = Some xs"
| "abs_run (Add v # ops) xs = abs_run ops (xs @ [v])"
| "abs_run (Del v # ops) xs = (if xs = [] then None else abs_run ops (remove1 v xs))"

section \<open>A list of nodes\<close>

definition list_at :: "(nat \<times> int) list \<Rightarrow> int \<Rightarrow> list_state \<Rightarrow> bool" where
  "list_at as junk s \<longleftrightarrow> heap_ok (snd s) \<and> chain (snd s) (m_pHead (fst s)) as \<and> distinct (map fst as) \<and>
     m_lCount (fst s) = junk + int (length as) \<and>
     (as \<noteq> [] \<longrightarrow> m_pTail (fst s) = Some (fst (last as))) \<and>
     (as = [] \<longrightarrow> (\<forall>a. m_pTail (fst s) = Some a \<longrightarrow> mem (snd s) a = Freed))"

lemma list_at_ctor: "heap_ok h \<Longrightarrow> list_at [] junk (JTList_ctor junk, h)"
  by (simp add: list_at_def JTList_ctor_def)

lemma Append_at:
  assumes at: "list_at as junk (l, h)" and lg: "in_long (junk + int (Suc (length as)))"
  shows "\<exists>l' h'. Append x (l, h) = Inr (l', h') \<and> list_at (as @ [(brk h, x)]) junk (l', h') \<and> live h' = insert (brk h) (live h)"
proof -
  let ?n = "\<lparr>item = x, next_node = None\<rparr>" and ?a = "brk h"
  let ?h1 = "h\<lparr>mem := (mem h)(?a := Live ?n), brk := Suc ?a\<rparr>"
  have ok: "heap_ok h" "chain h (m_pHead l) as" "distinct (map fst as)" "m_lCount l = junk + int (length as)"
    using at by (auto simp: list_at_def)
  have cu: "chk_long (m_lCount l + 1) = Inr (junk + int (Suc (length as)))" using lg ok(4) by (simp add: algebra_simps)
  have fresh: "?a \<notin> fst ` set as" using chain_live[OF ok(2)] brk_not_live[OF ok(1)] by blast
  show ?thesis
  proof (cases as rule: rev_cases)
    case Nil
    then have "m_pHead l = None" using ok(2) by simp
    then have "Append x (l, h) = Inr (l\<lparr>m_pHead := Some ?a, m_pTail := Some ?a, m_lCount := junk + 1\<rparr>, ?h1)"
      using cu Nil by (simp add: Append_def h_new_def Let_def)
    moreover have "live ?h1 = insert ?a (live h)" by (auto simp: live_def)
    ultimately show ?thesis using ok Nil by (simp add: list_at_def heap_ok_def)
  next
    case (snoc as' lx)
    obtain b y where [simp]: "lx = (b, y)" by force
    have b: "mem h b = Live \<lparr>item = y, next_node = None\<rparr>" using chain_last_live[of h "m_pHead l" as' b y] ok(2) snoc by simp
    have ba: "b \<noteq> ?a" using fresh snoc by auto
    obtain f where fr: "m_pHead l = Some f" using ok(2) snoc by (cases as') auto
    have re: "m_pTail l = Some b" using at snoc by (simp add: list_at_def)
    let ?h2 = "?h1\<lparr>mem := (mem ?h1)(b := Live \<lparr>item = y, next_node = Some ?a\<rparr>)\<rparr>"
    have "Append x (l, h) = Inr (l\<lparr>m_pTail := Some ?a, m_lCount := junk + int (Suc (length as))\<rparr>, ?h2)"
      using fr re b ba cu by (simp add: Append_def h_new_def Let_def h_read_def h_write_def)
    moreover have "chain ?h2 (m_pHead l) (as' @ [(b, y), (?a, x)])"
      by (rule chain_last[of h]) (use ok(2,3) snoc fresh in auto)
    moreover have "heap_ok ?h2"
      using ok(1) live_below_brk[OF ok(1), of b] b by (auto simp: heap_ok_def live_def)
    moreover have "live ?h2 = insert ?a (live h)" using b ba by (auto simp: live_def)
    ultimately show ?thesis using ok fresh snoc by (simp add: list_at_def)
  qed
qed

lemma chain_split:
  "chain h p (as @ (a, x) # bs) \<Longrightarrow> \<exists>n. mem h a = Live \<lparr>item = x, next_node = n\<rparr> \<and> chain h n bs \<and> chain h (Some a) ((a, x) # bs)"
  by (induction as arbitrary: p) auto

lemma chain_head: "chain h p bs \<Longrightarrow> p = (case bs of [] \<Rightarrow> None | ax # _ \<Rightarrow> Some (fst ax))"
  by (cases bs) auto

text \<open>Unlinking the node behind \<open>b\<close>.\<close>

lemma chain_unlink:
  assumes "chain h p (as @ (b, y) # (a, x) # bs)" and "distinct (map fst (as @ (b, y) # (a, x) # bs))"
    and "mem h a = Live \<lparr>item = x, next_node = n\<rparr>"
    and h': "mem h' = (mem h)(b := Live \<lparr>item = y, next_node = n\<rparr>, a := Freed)"
  shows "chain h' p (as @ (b, y) # bs)"
  using assms(1,2)
proof (induction as arbitrary: p)
  case Nil
  then have bs: "chain h n bs" using assms(3) by auto
  have "chain h' n bs" by (rule chain_frame[OF bs]) (use Nil.prems(2) in \<open>auto simp: h'\<close>)
  then show ?case using Nil.prems by (auto simp: h')
next
  case (Cons cz as)
  obtain c z where [simp]: "cz = (c, z)" by force
  from Cons.prems(1) obtain m where m: "p = Some c" "mem h c = Live \<lparr>item = z, next_node = m\<rparr>"
    "chain h m (as @ (b, y) # (a, x) # bs)" by auto
  have "chain h' m (as @ (b, y) # bs)" using Cons.IH[OF m(3)] Cons.prems(2) by auto
  moreover have "mem h' c = mem h c" using Cons.prems(2) by (auto simp: h')
  ultimately show ?case using m by simp
qed

lemma find_previous_at:
  assumes "chain h cur (as @ (b, y) # (a, x) # bs)" and "distinct (map fst (as @ (b, y) # (a, x) # bs))" and "length as < k"
  shows "find_previous k (Some a) prev cur h = Inr (Some (Some b))"
  using assms
proof (induction as arbitrary: cur prev k)
  case Nil
  then show ?case by (cases k) (auto simp: h_read_def)
next
  case (Cons cz as)
  obtain c z where [simp]: "cz = (c, z)" by force
  obtain k' where k: "k = Suc k'" using Cons.prems(3) by (cases k) auto
  from Cons.prems(1) obtain m where m: "cur = Some c" "mem h c = Live \<lparr>item = z, next_node = m\<rparr>"
    "chain h m (as @ (b, y) # (a, x) # bs)" by auto
  have "m \<noteq> Some a" using chain_head[OF m(3)] Cons.prems(2) by (auto split: list.splits) (cases as; auto)
  moreover have "find_previous k' (Some a) cur m h = Inr (Some (Some b))"
    by (rule Cons.IH[OF m(3)]) (use Cons.prems k in auto)
  ultimately show ?case using m k by (simp add: h_read_def)
qed


lemma Remove_at:
  assumes at: "list_at (as @ (a, x) # bs) junk (l, h)" and lg: "in_long (junk + int (length (as @ bs)))" and k: "length as \<le> k"
  shows "\<exists>l' h'. Remove k (Some a) (l, h) = Inr (Some (l', h')) \<and> list_at (as @ bs) junk (l', h') \<and> live h' = live h - {a}"
proof -
  have ok: "heap_ok h" "chain h (m_pHead l) (as @ (a, x) # bs)" "distinct (map fst (as @ (a, x) # bs))"
    "m_lCount l = junk + 1 + int (length (as @ bs))" using at by (auto simp: list_at_def)
  have tl: "m_pTail l = Some (fst (last (as @ (a, x) # bs)))" using at by (simp add: list_at_def)
  obtain n where n: "mem h a = Live \<lparr>item = x, next_node = n\<rparr>" "chain h n bs" using chain_split[OF ok(2)] by blast
  have abrk: "a < brk h" using live_below_brk[OF ok(1), of a] n by (auto simp: live_def)
  show ?thesis
  proof (cases as rule: rev_cases)
    case Nil
    then have hd: "m_pHead l = Some a" using ok(2) by simp
    let ?h1 = "h\<lparr>mem := (mem h)(a := Freed)\<rparr>"
    have "chain ?h1 n bs" by (rule chain_frame[OF n(2)]) (use ok(3) Nil in auto)
    moreover have "Remove k (Some a) (l, h) = Inr (Some (l\<lparr>m_pHead := n, m_lCount := junk + int (length bs)\<rparr>, ?h1))"
      using hd n tl ok(4) lg Nil by (simp add: Remove_def Let_def h_read_def h_delete_def)
    moreover have "live ?h1 = live h - {a}" by (auto simp: live_def)
    moreover have "heap_ok ?h1" by (rule heap_ok_upd[OF ok(1) abrk])
    ultimately show ?thesis using ok(3) Nil tl by (auto simp: list_at_def)
  next
    case (snoc as' by')
    obtain b y where by': "by' = (b, y)" by force
    note as = snoc[unfolded by']
    have ch: "chain h (m_pHead l) (as' @ (b, y) # (a, x) # bs)" using ok(2) as by simp
    have di: "distinct (map fst (as' @ (b, y) # (a, x) # bs))" using ok(3) as by simp
    have b: "mem h b = Live \<lparr>item = y, next_node = Some a\<rparr>" using chain_split[OF ch] by auto
    have ab: "b \<noteq> a" using di by auto
    have hd: "m_pHead l \<noteq> Some a" "m_pHead l \<noteq> None" using chain_head[OF ch] di by (cases as'; auto)+
    have fp: "find_previous k (Some a) None (m_pHead l) h = Inr (Some (Some b))"
      by (rule find_previous_at[OF ch di]) (use k as in auto)
    let ?h2 = "h\<lparr>mem := (mem h)(b := Live \<lparr>item = y, next_node = n\<rparr>, a := Freed)\<rparr>"
    let ?l = "if n = None then l\<lparr>m_pTail := Some b\<rparr> else l"
    have "Remove k (Some a) (l, h) = Inr (Some (?l\<lparr>m_lCount := junk + int (length (as @ bs))\<rparr>, ?h2))"
      using hd n tl ok(4) lg fp b ab
      by (simp add: Remove_def Let_def h_read_def h_write_def h_delete_def split: if_splits)
    moreover have "chain ?h2 (m_pHead l) (as' @ (b, y) # bs)" by (rule chain_unlink[OF ch di n(1)]) simp
    moreover have "live ?h2 = live h - {a}" using b ab by (auto simp: live_def)
    moreover have "heap_ok ?h2" using ok(1) abrk live_below_brk[OF ok(1), of b] b by (auto simp: heap_ok_def live_def)
    moreover have "(n = None) = (bs = [])" using chain_head[OF n(2)] by (cases bs) auto
    ultimately show ?thesis using ok(3) as tl by (auto simp: list_at_def)
  qed
qed


lemma IsDone_at: "list_at as junk (l, h) \<Longrightarrow> as \<noteq> [] \<Longrightarrow> IsDone cur (l, h) = Inr (cur = None)"
  by (cases as rule: rev_cases)
    (auto simp: list_at_def IsDone_def h_read_def dest!: chain_last_live split: prod.splits)

lemma IsDone_empty: "list_at [] junk (l, h) \<Longrightarrow> \<exists>e. IsDone cur (l, h) = Inl e \<and> (e = NullDeref \<or> e = UseAfterFree)"
  by (cases "m_pTail l") (auto simp: list_at_def IsDone_def h_read_def)

lemma includes_at: "chain h p as \<Longrightarrow> length as \<le> k \<Longrightarrow> includes_loop k v p h = Inr (Some (v \<in> snd ` set as))"
proof (induction as arbitrary: p k)
  case Nil
  then show ?case by (cases k) auto
next
  case (Cons ax as)
  then show ?case by (cases k; cases ax) (auto simp: h_read_def)
qed

lemma get_at:
  "chain h p as \<Longrightarrow> length as \<le> k \<Longrightarrow> 0 \<le> pos \<Longrightarrow> pos \<le> index \<Longrightarrow> pos + int (length as) \<le> INT_MAX \<Longrightarrow>
     get_loop k index pos p h = Inr (Some (if index - pos < int (length as) then Some (fst (as ! nat (index - pos))) else None))"
proof (induction as arbitrary: p k pos)
  case Nil
  then show ?case by (cases k) auto
next
  case (Cons ax as)
  obtain a x where [simp]: "ax = (a, x)" by force
  obtain k' where k: "k = Suc k'" using Cons.prems(2) by (cases k) auto
  from Cons.prems(1) obtain n where n: "p = Some a" "mem h a = Live \<lparr>item = x, next_node = n\<rparr>" "chain h n as" by auto
  have pos: "chk_int (pos + 1) = Inr (pos + 1)" using Cons.prems(3,5) by (simp add: in_int_numerals INT_MAX_def)
  show ?case
  proof (cases "index = pos")
    case True
    then show ?thesis using n k pos by simp
  next
    case False
    then have nat: "nat (index - pos) = Suc (nat (index - (pos + 1)))" using Cons.prems(4) by simp
    show ?thesis using Cons.IH[OF n(3), of k' "pos + 1"] Cons.prems k n pos False
      by (simp add: h_read_def nat)
  qed
qed

lemma print_at:
  assumes "list_at as junk (l, h)" and "as \<noteq> []"
  shows "chain h cur bs \<Longrightarrow> length bs \<le> k \<Longrightarrow> print_loop k cur (l, h) = Inr (Some (map snd bs))"
proof (induction bs arbitrary: cur k)
  case Nil
  then show ?case by (cases k) (auto simp: IsDone_at[OF assms])
next
  case (Cons bx bs)
  obtain b x where [simp]: "bx = (b, x)" by force
  obtain k' where k: "k = Suc k'" using Cons.prems(2) by (cases k) auto
  from Cons.prems(1) obtain n where n: "cur = Some b" "mem h b = Live \<lparr>item = x, next_node = n\<rparr>" "chain h n bs" by auto
  show ?case using Cons.IH[OF n(3), of k'] Cons.prems(2) k n
    by (simp add: IsDone_at[OF assms] h_read_def it_Next_def)
qed

fun del_first :: "int \<Rightarrow> (nat \<times> int) list \<Rightarrow> (nat \<times> int) list" where
  "del_first v [] = []"
| "del_first v (ax # as) = (if snd ax = v then as else ax # del_first v as)"

lemma map_del_first: "map snd (del_first v as) = remove1 v (map snd as)"
  by (induction as) auto

lemma set_del_first: "distinct (map fst as) \<Longrightarrow> fst ` set (del_first v as) \<subseteq> fst ` set as"
  by (induction as) auto

lemma remove_value_at:
  assumes "chain h cur bs" and "list_at (as @ bs) junk (l, h)" and "as @ bs \<noteq> []" and "length bs \<le> k" and "length (as @ bs) \<le> fuel"
    and "in_long (junk + int (length (as @ bs)) - 1)"
  shows "\<exists>l' h'. remove_value_loop k v fuel cur (l, h) = Inr (Some (l', h')) \<and> list_at (as @ del_first v bs) junk (l', h') \<and>
    live h' = live h - (fst ` set bs - fst ` set (del_first v bs))"
  using assms
proof (induction bs arbitrary: cur k as)
  case Nil
  then show ?case by (cases k) (auto simp: IsDone_at)
next
  case (Cons bx bs)
  obtain b x where [simp]: "bx = (b, x)" by force
  obtain k' where k: "k = Suc k'" using Cons.prems(4) by (cases k) auto
  from Cons.prems(1) obtain n where n: "cur = Some b" "mem h b = Live \<lparr>item = x, next_node = n\<rparr>" "chain h n bs" by auto
  note d = IsDone_at[OF Cons.prems(2,3)]
  have di: "distinct (map fst (as @ (b, x) # bs))" using Cons.prems(2) by (simp add: list_at_def)
  show ?case
  proof (cases "x = v")
    case True
    from Remove_at[of as b x bs junk l h fuel] Cons.prems obtain l' h' where
      "Remove fuel (Some b) (l, h) = Inr (Some (l', h'))" "list_at (as @ bs) junk (l', h')" "live h' = live h - {b}"
      by (auto simp: algebra_simps)
    moreover have "insert b (fst ` set bs) - fst ` set bs = {b}" using di by auto
    ultimately show ?thesis using k n d True by (auto simp: h_read_def)
  next
    case False
    have "list_at ((as @ [bx]) @ bs) junk (l, h)" using Cons.prems(2) by simp
    from Cons.IH[OF n(3) this, of k'] Cons.prems(4,5,6) k obtain l' h' where r:
      "remove_value_loop k' v fuel n (l, h) = Inr (Some (l', h'))" "list_at (as @ bx # del_first v bs) junk (l', h')"
      "live h' = live h - (fst ` set bs - fst ` set (del_first v bs))" by auto
    moreover have "insert b (fst ` set bs) - insert b (fst ` set (del_first v bs)) = fst ` set bs - fst ` set (del_first v bs)"
      using di by auto
    ultimately show ?thesis using k n d False by (auto simp: h_read_def it_Next_def)
  qed
qed


text \<open>\<open>L\<close> are the objects that do not belong to the list.\<close>

definition list_inv :: "nat set \<Rightarrow> int \<Rightarrow> int list \<Rightarrow> (nat \<times> int) list \<Rightarrow> list_state \<Rightarrow> bool" where
  "list_inv L junk xs as s \<longleftrightarrow> list_at as junk s \<and> map snd as = xs \<and> live (snd s) = L \<union> fst ` set as \<and> L \<inter> fst ` set as = {}"

lemma list_inv_Append:
  assumes "list_inv L junk xs as s" and "in_long (junk + int (Suc (length xs)))"
  shows "\<exists>as' s'. Append x s = Inr s' \<and> list_inv L junk (xs @ [x]) as' s'"
proof -
  obtain l h where s: "s = (l, h)" by force
  have at: "list_at as junk (l, h)" "length as = length xs" "heap_ok h" using assms(1) s by (auto simp: list_inv_def list_at_def)
  from Append_at[OF at(1), of x] assms(2) at(2) obtain l' h' where r: "Append x s = Inr (l', h')"
    "list_at (as @ [(brk h, x)]) junk (l', h')" "live h' = insert (brk h) (live h)" using s by auto
  have "brk h \<notin> live h" by (rule brk_not_live[OF at(3)])
  then have "list_inv L junk (xs @ [x]) (as @ [(brk h, x)]) (l', h')" using r assms(1) s by (auto simp: list_inv_def)
  with r(1) show ?thesis by blast
qed

lemma set_keep: "D \<subseteq> A \<Longrightarrow> L \<inter> A = {} \<Longrightarrow> (L \<union> A) - (A - D) = L \<union> D \<and> L \<inter> D = {}"
  by blast

lemma list_inv_remove:
  assumes "list_inv L junk xs as s" and "xs \<noteq> []" and "length xs \<le> fuel" and "in_long (junk + int (length xs) - 1)"
  shows "\<exists>as' s'. remove_value fuel v s = Inr (Some s') \<and> list_inv L junk (remove1 v xs) as' s'"
proof -
  obtain l h where s: "s = (l, h)" by force
  have at: "list_at ([] @ as) junk (l, h)" "length as = length xs" "as \<noteq> []" "chain h (m_pHead l) as" "distinct (map fst as)"
    using assms(1,2) s by (auto simp: list_inv_def list_at_def)
  from remove_value_at[OF at(4,1), of fuel fuel v] at assms(3,4) obtain l' h' where r:
    "remove_value fuel v s = Inr (Some (l', h'))" "list_at (del_first v as) junk (l', h')"
    "live h' = live h - (fst ` set as - fst ` set (del_first v as))" using s
    by (simp add: remove_value_def it_First_def) blast
  have "fst ` set (del_first v as) \<subseteq> fst ` set as" by (rule set_del_first[OF at(5)])
  moreover have "live h = L \<union> fst ` set as" "L \<inter> fst ` set as = {}" using assms(1) s by (auto simp: list_inv_def)
  ultimately have "live h' = L \<union> fst ` set (del_first v as)" "L \<inter> fst ` set (del_first v as) = {}" using r(3)
      set_keep[of "fst ` set (del_first v as)" "fst ` set as" L] by simp_all
  then have "list_inv L junk (remove1 v xs) (del_first v as) (l', h')"
    using r(2) assms(1) by (simp add: list_inv_def map_del_first)
  with r(1) show ?thesis by blast
qed

lemma remove_value_empty:
  assumes "list_inv L junk [] as s"
  shows "\<exists>e. remove_value fuel v s = Inl e \<and> (e = NullDeref \<or> e = UseAfterFree)"
proof -
  obtain l h where s: "s = (l, h)" by force
  have "list_at [] junk (l, h)" using assms s by (auto simp: list_inv_def)
  from IsDone_empty[OF this, of "it_First s"] show ?thesis
    by (cases fuel) (auto simp: remove_value_def s)
qed

lemma list_run_inv:
  assumes "list_inv L junk xs as s" and "length xs + length ops \<le> fuel" and "in_long junk" and "in_long (junk + int (length xs + length ops))"
  shows "case abs_run ops xs of
      None \<Rightarrow> \<exists>e. list_run fuel ops s = Inl e \<and> (e = NullDeref \<or> e = UseAfterFree)
    | Some ys \<Rightarrow> length ys \<le> fuel \<and> (\<exists>bs s'. list_run fuel ops s = Inr (Some s') \<and> list_inv L junk ys bs s')"
  using assms
proof (induction ops arbitrary: xs as s)
  case (Cons op ops)
  show ?case
  proof (cases op)
    case (Add x)
    from list_inv_Append[OF Cons.prems(1), of x] Cons.prems(3,4) obtain as' s' where
      "Append x s = Inr s'" "list_inv L junk (xs @ [x]) as' s'" by (auto simp: in_long_def)
    with Cons.IH[OF this(2)] Cons.prems(2-4) Add show ?thesis by (auto simp: add.assoc split: option.splits)
  next
    case (Del x)
    show ?thesis
    proof (cases "xs = []")
      case True
      then show ?thesis using remove_value_empty[of L junk as s fuel x] Cons.prems(1) Del by auto
    next
      case False
      then have l: "0 < length xs" by simp
      have "in_long (junk + int (length xs) - 1)" using Cons.prems(3,4) l unfolding in_long_def by linarith
      with list_inv_remove[OF Cons.prems(1) False, of fuel x] Cons.prems(2) obtain as' s' where
        r: "remove_value fuel x s = Inr (Some s')" "list_inv L junk (remove1 x xs) as' s'" by auto
      have "length (remove1 x xs) \<le> length xs" by (simp add: length_remove1)
      with Cons.IH[OF r(2)] Cons.prems(2-4) Del False r(1) show ?thesis
        by (auto simp: in_long_def split: option.splits)
    qed
  qed
qed auto

section \<open>Properties\<close>

text \<open>C15: The linked list refines lists of integers. For any program of appends and removals by value that starts with a new
  list: as long as no removal finds the list empty the program ends without a memory error, the counter is off by exactly
  the value it had before it was constructed, a non-empty list prints what the list of integers holds, and the
  destructor frees every node and nothing else; a removal from an empty list is an invalid access, as is
  printing one.\<close>

theorem jtlist_refines_lists:
  assumes "heap_ok h" and "length ops \<le> fuel" and "in_long junk" and "in_long (junk + int (length ops))"
  shows "case abs_run ops [] of
      None \<Rightarrow> \<exists>e. list_run fuel ops (JTList_ctor junk, h) = Inl e \<and> (e = NullDeref \<or> e = UseAfterFree)
    | Some xs \<Rightarrow> \<exists>l h1 h2. list_run fuel ops (JTList_ctor junk, h) = Inr (Some (l, h1)) \<and>
        GetCount l = junk + int (length xs) \<and>
        (case xs of
           [] \<Rightarrow> \<exists>e. print_loop fuel (it_First (l, h1)) (l, h1) = Inl e \<and> (e = NullDeref \<or> e = UseAfterFree)
         | _ \<Rightarrow> print_loop fuel (it_First (l, h1)) (l, h1) = Inr (Some xs)) \<and>
        Includes fuel v (l, h1) = Inr (Some (v \<in> set xs)) \<and>
        JTList_dtor fuel (l, h1) = Inr (Some h2) \<and> live h2 = live h"
proof -
  have inv: "list_inv (live h) junk [] [] (JTList_ctor junk, h)"
    using list_at_ctor[OF assms(1), of junk] by (simp add: list_inv_def)
  note run = list_run_inv[OF inv, of ops fuel] assms(2-4)
  show ?thesis
  proof (cases "abs_run ops []")
    case None
    then show ?thesis using run by simp
  next
    case (Some xs)
    then obtain bs l h1 where r: "list_run fuel ops (JTList_ctor junk, h) = Inr (Some (l, h1))" "length xs \<le> fuel"
      "list_inv (live h) junk xs bs (l, h1)" using run by auto
    then have at: "list_at bs junk (l, h1)" "chain h1 (m_pHead l) bs" "distinct (map fst bs)" "map snd bs = xs" "length bs = length xs"
      "live h1 - fst ` set bs = live h" "m_lCount l = junk + int (length xs)"
      by (auto simp: list_inv_def list_at_def)
    have gc: "GetCount l = junk + int (length xs)" using at(7) by (simp add: GetCount_def)
    obtain h2 where d: "JTList_dtor fuel (l, h1) = Inr (Some h2)" "live h2 = live h"
      using dtor_chain[OF at(2,3), of fuel] r(2) at(5,6) by (auto simp: JTList_dtor_def)
    have inc: "Includes fuel v (l, h1) = Inr (Some (v \<in> set xs))"
    proof -
      have "snd ` set bs = set xs" using at(4) by (metis set_map)
      then show ?thesis using includes_at[OF at(2), of fuel v] r(2) at(5) by (simp add: Includes_def)
    qed
    have pr: "case xs of
           [] \<Rightarrow> \<exists>e. print_loop fuel (it_First (l, h1)) (l, h1) = Inl e \<and> (e = NullDeref \<or> e = UseAfterFree)
         | _ \<Rightarrow> print_loop fuel (it_First (l, h1)) (l, h1) = Inr (Some xs)"
    proof (cases xs)
      case Nil
      then have "list_at [] junk (l, h1)" using at(1,5) by simp
      from IsDone_empty[OF this, of "m_pHead l"] show ?thesis using Nil by (cases fuel) (auto simp: it_First_def)
    next
      case (Cons y ys)
      then have "bs \<noteq> []" using at(5) by auto
      then show ?thesis using print_at[OF at(1) _ at(2), of fuel] at(4,5) r(2) Cons by (simp add: it_First_def)
    qed
    show ?thesis unfolding Some option.case
      by (rule exI[of _ l], rule exI[of _ h1], rule exI[of _ h2]) (intro conjI r(1) gc pr inc d)
  qed
qed

theorem jtlist_refines_lists_witness:
  "\<exists>l h1 h2. list_run 4 [Add 10, Add 20, Del 10, Add 30] (JTList_ctor 7, heap_empty) = Inr (Some (l, h1)) \<and>
     GetCount l = 9 \<and> print_loop 4 (it_First (l, h1)) (l, h1) = Inr (Some [20, 30]) \<and>
     Includes 4 20 (l, h1) = Inr (Some True) \<and>
     JTList_dtor 4 (l, h1) = Inr (Some h2) \<and> live h2 = live (heap_empty :: Node heap)"
  using jtlist_refines_lists[OF heap_ok_empty, of "[Add 10, Add 20, Del 10, Add 30]" 4 7 20] by (simp add: in_long_def)

text \<open>\<^verbatim>\<open>Get\<close> finds the node at an index exactly when the counter started at zero; with another start value that is too small it
  misses nodes that are there.\<close>

theorem jtlist_get:
  assumes "list_at as junk (l, h)" and "length as \<le> k" and "int (length as) \<le> INT_MAX" and "in_long (junk + int (length as) - 1)"
  shows "Get k index (l, h) = Inr (Some (if 0 \<le> index \<and> index < int (length as) \<and> index < junk + int (length as)
    then Some (fst (as ! nat index)) else None))"
proof -
  have c: "m_lCount l = junk + int (length as)" "chain h (m_pHead l) as" using assms(1) by (auto simp: list_at_def)
  show ?thesis
  proof (cases "0 \<le> index")
    case True
    then show ?thesis using get_at[OF c(2) assms(2), of 0 index] assms(3,4) c(1) by (auto simp: Get_def)
  next
    case False
    then show ?thesis using c(1) assms(4) by (simp add: Get_def)
  qed
qed

theorem jtlist_get_witness:
  "\<exists>l h. Append 10 (JTList_ctor 0, heap_empty) = Inr (l, h) \<and> Get 1 0 (l, h) = Inr (Some (Some 0))"
proof -
  obtain l h where a: "Append 10 (JTList_ctor 0, heap_empty) = Inr (l, h)" "list_at ([] @ [(0, 10)]) 0 (l, h)"
    using Append_at[OF list_at_ctor[OF heap_ok_empty], of 0 10] by (auto simp: in_long_def heap_empty_def)
  then show ?thesis using jtlist_get[OF a(2), of 1 0] by (simp add: in_long_def INT_MAX_def)
qed

end
