(* ===== verification/Perf_Files.thy ===== *)
theory Perf_Files
  imports Decimal Throughput_System
begin

text \<open>
  The files that set up the performance tests: \<^verbatim>\<open>load_demands_payload\<close> and \<^verbatim>\<open>load_recoveries\<close> of
  \<^verbatim>\<open>throughout/ThroughputPublisher.cpp\<close>, the start of its \<^verbatim>\<open>run\<close>, and \<^verbatim>\<open>load_demands_payload\<close> of
  \<^verbatim>\<open>latency/main_LatencyTest.cpp\<close> (all under \<^verbatim>\<open>src/other/pubsub/dds/performance\<close>). A file is its text, or \<open>None\<close> when it
  cannot be opened. The three loaders share the shape of their loop over the fields of a line, \<open>walk_fields\<close>.
\<close>

section \<open>Reading numbers from a stream\<close>

text \<open>\<^verbatim>\<open>iss >> x\<close> with the value of \<open>x\<close> before: unchanged when there is nothing but white space, zero when no digit
  comes, the largest value when the number is too large. \<open>neg\<close> is what the library makes of a minus sign in front of an
  unsigned number, on which implementations differ.\<close>

definition extract_u32 :: "(nat \<Rightarrow> 32 word \<times> bool) \<Rightarrow> string \<Rightarrow> 32 word \<Rightarrow> 32 word \<times> bool" where
  "extract_u32 neg s old = (case dropWhile is_space s of [] \<Rightarrow> (old, False)
     | t \<Rightarrow> (case read_sign t of (sg, ds) \<Rightarrow>
         if ds = [] \<or> \<not> is_digit (hd ds) then (0, False)
         else let v = read_digits 0 ds in
           if sg < 0 then neg v else if v < 2 ^ 32 then (of_nat v, True) else (- 1, False)))"

definition extract_i32 :: "string \<Rightarrow> int \<Rightarrow> int \<times> bool" where
  "extract_i32 s old = (case dropWhile is_space s of [] \<Rightarrow> (old, False)
     | t \<Rightarrow> (case read_sign t of (sg, ds) \<Rightarrow>
         if ds = [] \<or> \<not> is_digit (hd ds) then (0, False)
         else let v = sg * int (read_digits 0 ds) in
           if v < INT_MIN then (INT_MIN, False) else if INT_MAX < v then (INT_MAX, False) else (v, True)))"

text \<open>The lines \<^verbatim>\<open>std::getline\<close> delivers.\<close>

fun getlines :: "string \<Rightarrow> string list" where
  "getlines [] = []"
| "getlines (c # cs) = (if c = CHR 0x0A then [] # getlines cs
     else case getlines cs of [] \<Rightarrow> [[c]] | l # ls \<Rightarrow> (c # l) # ls)"

section \<open>The fields of a line\<close>

fun find_delim :: "string \<Rightarrow> nat option" where
  "find_delim [] = None"
| "find_delim (c # cs) = (if c = CHR '';'' then Some 0 else map_option Suc (find_delim cs))"

text \<open>\<^verbatim>\<open>line.find(DELIM, start)\<close>; \<open>None\<close> is \<^verbatim>\<open>npos\<close>, which plus one is zero.\<close>

definition find_from :: "string \<Rightarrow> nat \<Rightarrow> nat option" where
  "find_from line start = map_option ((+) start) (find_delim (drop start line))"

definition field :: "string \<Rightarrow> nat \<Rightarrow> nat option \<Rightarrow> string" where
  "field line start en = (case en of None \<Rightarrow> drop start line | Some e \<Rightarrow> take (e - start) (drop start line))"

definition next_start :: "nat option \<Rightarrow> nat" where
  "next_start en = (case en of None \<Rightarrow> 0 | Some e \<Rightarrow> Suc e)"

lemma find_delim_less: "find_delim s = Some e \<Longrightarrow> e < length s"
  by (induction s arbitrary: e) (auto split: if_splits)

lemma find_from_less: "find_from line start = Some e \<Longrightarrow> start \<le> e \<and> e < length line"
  by (auto simp: find_from_def dest!: find_delim_less)

function walk_fields ::
  "(nat \<Rightarrow> string \<Rightarrow> 's \<Rightarrow> 's + 's) \<Rightarrow> (string \<Rightarrow> 's \<Rightarrow> 's) \<Rightarrow> string \<Rightarrow> nat \<Rightarrow> nat option \<Rightarrow> 's \<Rightarrow> 's + 's" where
  "walk_fields each finish line start en s =
     (case each start (field line start en) s of Inl s1 \<Rightarrow> Inl s1
      | Inr s1 \<Rightarrow> let start1 = next_start en; en1 = find_from line start1 in
          if en1 = None then Inr (finish (field line start1 en1) s1)
          else walk_fields each finish line start1 en1 s1)"
  by pat_completeness auto

termination
proof (relation "measure (\<lambda>(each, finish, line, start, en, s). case en of None \<Rightarrow> Suc (length line) | Some e \<Rightarrow> length line - e)")
  fix each :: "nat \<Rightarrow> string \<Rightarrow> 's \<Rightarrow> 's + 's" and finish :: "string \<Rightarrow> 's \<Rightarrow> 's" and line start en and s s1 :: 's and start1 en1
  assume s: "start1 = next_start en" and e: "en1 = find_from line start1" "en1 \<noteq> None"
  from e obtain e1 where e1: "en1 = Some e1" "start1 \<le> e1" "e1 < length line" using find_from_less by (cases en1) force+
  then show "((each, finish, line, start1, en1, s1), each, finish, line, start, en, s)
    \<in> measure (\<lambda>(each, finish, line, start, en, s). case en of None \<Rightarrow> Suc (length line) | Some e \<Rightarrow> length line - e)"
    using s by (cases en) (auto simp: next_start_def)
qed simp

declare walk_fields.simps [simp del]

definition walk_line :: "(nat \<Rightarrow> string \<Rightarrow> 's \<Rightarrow> 's + 's) \<Rightarrow> (string \<Rightarrow> 's \<Rightarrow> 's) \<Rightarrow> string \<Rightarrow> 's \<Rightarrow> 's + 's" where
  "walk_line each finish line s = walk_fields each finish line 0 (find_from line 0) s"

section \<open>Demands and recovery times of the throughput test\<close>

text \<open>\<^verbatim>\<open>demand_payload_\<close>, in the order of its keys.\<close>

type_synonym demand_map = "(32 word \<times> 32 word list) list"

fun push_demand :: "32 word \<Rightarrow> 32 word \<Rightarrow> demand_map \<Rightarrow> demand_map" where
  "push_demand k d [] = [(k, [d])]"
| "push_demand k d ((j, ds) # m) = (if k = j then (j, ds @ [d]) # m
     else if k < j then (k, [d]) # (j, ds) # m else (j, ds) # push_demand k d m)"

record demand_load =
  ld_payload :: "32 word"
  ld_first :: bool
  ld_demand :: "32 word"
  ld_map :: demand_map

definition demand_field :: "32 word \<Rightarrow> (nat \<Rightarrow> 32 word \<times> bool) \<Rightarrow> string \<Rightarrow> demand_load \<Rightarrow> demand_load + demand_load" where
  "demand_field ov neg text s =
     (if ld_first s then
        let p = fst (extract_u32 neg text (ld_payload s))
        in if p < ov then Inl (s\<lparr>ld_payload := p\<rparr>) else Inr (s\<lparr>ld_payload := p - ov, ld_first := False\<rparr>)
      else let d = fst (extract_u32 neg text (ld_demand s))
        in Inr (s\<lparr>ld_demand := d, ld_map := push_demand (ld_payload s) d (ld_map s)\<rparr>))"

definition demand_last :: "(nat \<Rightarrow> 32 word \<times> bool) \<Rightarrow> string \<Rightarrow> demand_load \<Rightarrow> demand_load" where
  "demand_last neg text s = (case extract_u32 neg text (ld_demand s) of (d, ok) \<Rightarrow>
     if ok then s\<lparr>ld_demand := d, ld_map := push_demand (ld_payload s) d (ld_map s)\<rparr> else s\<lparr>ld_demand := d\<rparr>)"

text \<open>\<open>junk i\<close> is what the local \<^verbatim>\<open>demand\<close> holds before line \<open>i\<close> gives it a value.\<close>

fun demand_lines ::
  "32 word \<Rightarrow> (nat \<Rightarrow> 32 word \<times> bool) \<Rightarrow> (nat \<Rightarrow> 32 word) \<Rightarrow> nat \<Rightarrow> string list \<Rightarrow> 32 word \<times> demand_map \<Rightarrow> (32 word \<times> demand_map) option" where
  "demand_lines ov neg junk i [] pm = Some pm"
| "demand_lines ov neg junk i (line # lines) pm =
     (case walk_line (\<lambda>_. demand_field ov neg) (demand_last neg) line
        \<lparr>ld_payload = fst pm, ld_first = True, ld_demand = junk i, ld_map = snd pm\<rparr> of
        Inl _ \<Rightarrow> None
      | Inr s \<Rightarrow> demand_lines ov neg junk (Suc i) lines (ld_payload s, ld_map s))"

definition load_demands_payload ::
  "32 word \<Rightarrow> (nat \<Rightarrow> 32 word \<times> bool) \<Rightarrow> (nat \<Rightarrow> 32 word) \<Rightarrow> string option \<Rightarrow> 32 word \<times> demand_map \<Rightarrow> (32 word \<times> demand_map) option" where
  "load_demands_payload ov neg junk file pm = (case file of None \<Rightarrow> None
     | Some text \<Rightarrow> map_option (\<lambda>(p, m). (p + ov, m)) (demand_lines ov neg junk 0 (getlines text) pm))"

definition add_recovery :: "32 word \<Rightarrow> 32 word list \<Rightarrow> 32 word list" where
  "add_recovery r rs = (if r \<in> set rs then rs else rs @ [r])"

text \<open>The state is \<^verbatim>\<open>input_recovery\<close>, \<^verbatim>\<open>recovery\<close> and the vector; the two locals live for the whole call.\<close>

type_synonym recovery_load = "int \<times> 32 word \<times> 32 word list"

definition recovery_field :: "string \<Rightarrow> recovery_load \<Rightarrow> recovery_load + recovery_load" where
  "recovery_field text = (\<lambda>(input, r, rs).
     let inp = fst (extract_i32 text input) in
     if inp < 0 then Inl (inp, r, rs) else Inr (inp, of_int inp, add_recovery (of_int inp) rs))"

definition recovery_last :: "(nat \<Rightarrow> 32 word \<times> bool) \<Rightarrow> string \<Rightarrow> recovery_load \<Rightarrow> recovery_load" where
  "recovery_last neg text = (\<lambda>(input, r, rs). case extract_u32 neg text r of (r', ok) \<Rightarrow>
     (input, r', if ok then add_recovery r' rs else rs))"

fun recovery_lines :: "(nat \<Rightarrow> 32 word \<times> bool) \<Rightarrow> string list \<Rightarrow> recovery_load \<Rightarrow> recovery_load option" where
  "recovery_lines neg [] s = Some s"
| "recovery_lines neg (line # lines) s = (case walk_line (\<lambda>_. recovery_field) (recovery_last neg) line s of
     Inl _ \<Rightarrow> None | Inr s1 \<Rightarrow> recovery_lines neg lines s1)"

definition load_recoveries ::
  "(nat \<Rightarrow> 32 word \<times> bool) \<Rightarrow> int \<Rightarrow> 32 word \<Rightarrow> string option \<Rightarrow> 32 word list \<Rightarrow> 32 word list option" where
  "load_recoveries neg junk_input junk file rs = (case file of None \<Rightarrow> None
     | Some text \<Rightarrow> map_option (snd \<circ> snd) (recovery_lines neg (getlines text) (junk_input, junk, rs)))"

text \<open>The part of \<^verbatim>\<open>run\<close> before its first wait, with static types; an empty file name is \<open>None\<close> here and the outer
  \<open>option\<close> says whether a name was given. \<open>None\<close> as the result: \<^verbatim>\<open>run\<close> returns.\<close>

definition overhead :: "32 word" where
  "overhead = 4"

definition run_setup ::
  "(nat \<Rightarrow> 32 word \<times> bool) \<Rightarrow> (nat \<Rightarrow> 32 word) \<Rightarrow> int \<Rightarrow> 32 word \<Rightarrow> string option \<Rightarrow> string option option \<Rightarrow>
   32 word \<Rightarrow> int \<Rightarrow> 32 word \<Rightarrow> (32 word \<times> demand_map \<times> 32 word list) option" where
  "run_setup neg junk ji jr demands_file recoveries_file recovery_time dm msg_size =
     (case (if dm = 0 \<or> msg_size = 0 then load_demands_payload overhead neg junk demands_file (0, [])
            else Some (msg_size, push_demand (msg_size - overhead) (of_int dm) [])) of
        None \<Rightarrow> None
      | Some (p, m) \<Rightarrow>
          (case (case recoveries_file of None \<Rightarrow> Some [recovery_time] | Some f \<Rightarrow> load_recoveries neg ji jr f []) of
             None \<Rightarrow> None
           | Some rs \<Rightarrow> Some (p, m, rs)))"

section \<open>Payloads of the latency test\<close>

text \<open>\<open>junk i start\<close> is what the local \<^verbatim>\<open>payload\<close> holds before the field at \<open>start\<close> of line \<open>i\<close> is read.\<close>

type_synonym payload_load = "32 word \<times> 32 word list"

definition payload_field :: "(nat \<Rightarrow> 32 word \<times> bool) \<Rightarrow> (nat \<Rightarrow> 32 word) \<Rightarrow> nat \<Rightarrow> string \<Rightarrow> payload_load \<Rightarrow> payload_load + payload_load" where
  "payload_field neg junk start text = (\<lambda>(_, ds).
     let p = fst (extract_u32 neg text (junk start)) in
     if p < 16 then Inl (p, ds) else Inr (p, ds @ [p]))"

definition payload_last :: "(nat \<Rightarrow> 32 word \<times> bool) \<Rightarrow> string \<Rightarrow> payload_load \<Rightarrow> payload_load" where
  "payload_last neg text = (\<lambda>(p, ds). case extract_u32 neg text p of (p', ok) \<Rightarrow>
     (p', if ok then ds @ [p'] else ds))"

fun payload_lines ::
  "(nat \<Rightarrow> 32 word \<times> bool) \<Rightarrow> (nat \<Rightarrow> nat \<Rightarrow> 32 word) \<Rightarrow> nat \<Rightarrow> string list \<Rightarrow> payload_load \<Rightarrow> payload_load + payload_load" where
  "payload_lines neg junk i [] s = Inr s"
| "payload_lines neg junk i (line # lines) s = (case walk_line (payload_field neg (junk i)) (payload_last neg) line s of
     Inl s1 \<Rightarrow> Inl s1 | Inr s1 \<Rightarrow> payload_lines neg junk (Suc i) lines s1)"

text \<open>The result and the vector, which keeps what was read before a failure.\<close>

definition load_payloads ::
  "(nat \<Rightarrow> 32 word \<times> bool) \<Rightarrow> (nat \<Rightarrow> nat \<Rightarrow> 32 word) \<Rightarrow> string option \<Rightarrow> bool \<times> 32 word list" where
  "load_payloads neg junk file = (case file of None \<Rightarrow> (False, [])
     | Some text \<Rightarrow> (case payload_lines neg junk 0 (getlines text) (0, []) of
         Inl s \<Rightarrow> (False, snd s) | Inr s \<Rightarrow> (True, snd s)))"

section \<open>Files of numbers\<close>

fun join_fields :: "string list \<Rightarrow> string" where
  "join_fields [] = []"
| "join_fields [f] = f"
| "join_fields (f # g # fs) = f @ CHR '';'' # join_fields (g # fs)"

definition show_line :: "32 word list \<Rightarrow> string" where
  "show_line ws = join_fields (map (\<lambda>w. show_nat (unat w)) ws) @ [CHR 0x0A]"

definition show_file :: "32 word list list \<Rightarrow> string" where
  "show_file ls = concat (map show_line ls)"

fun fold_sum :: "('a \<Rightarrow> 's \<Rightarrow> 's + 's) \<Rightarrow> 'a list \<Rightarrow> 's \<Rightarrow> 's + 's" where
  "fold_sum f [] s = Inr s"
| "fold_sum f (x # xs) s = (case f x s of Inl s1 \<Rightarrow> Inl s1 | Inr s1 \<Rightarrow> fold_sum f xs s1)"

lemma find_delim_none: "CHR '';'' \<notin> set f \<Longrightarrow> find_delim f = None"
  by (induction f) auto

lemma find_delim_field: "CHR '';'' \<notin> set f \<Longrightarrow> find_delim (f @ CHR '';'' # r) = Some (length f)"
  by (induction f) auto

lemma walk_join:
  assumes "drop start line = join_fields (f # fs @ [l])" and "\<forall>g \<in> set (f # fs @ [l]). CHR '';'' \<notin> set g"
    and "\<And>st g s. g \<in> set (f # fs) \<Longrightarrow> each st g s = b g s"
  shows "walk_fields each finish line start (Some (start + length f)) s =
    (case fold_sum b (f # fs) s of Inl s1 \<Rightarrow> Inl s1 | Inr s1 \<Rightarrow> Inr (finish l s1))"
  using assms
proof (induction fs arbitrary: f start s)
  case Nil
  have d: "drop (Suc (start + length f)) line = l"
    using arg_cong[OF Nil.prems(1), of "drop (Suc (length f))"] by (simp add: add.commute)
  have f: "field line start (Some (start + length f)) = f" using Nil.prems(1) by (simp add: field_def)
  have n: "find_from line (Suc (start + length f)) = None" using Nil.prems(2) d by (simp add: find_from_def find_delim_none)
  have e: "each start f s = b f s" using Nil.prems(3) by simp
  have fl: "field line (Suc (start + length f)) None = l" by (simp add: field_def d)
  show ?case by (subst walk_fields.simps, cases "b f s") (simp_all add: f e next_start_def n fl)
next
  case (Cons g fs)
  have d: "drop (Suc (start + length f)) line = join_fields (g # fs @ [l])"
    using arg_cong[OF Cons.prems(1), of "drop (Suc (length f))"] by (simp add: add.commute)
  have f: "field line start (Some (start + length f)) = f" using Cons.prems(1) by (simp add: field_def)
  have "find_delim (join_fields (g # fs @ [l])) = Some (length g)"
    using find_delim_field[of g] Cons.prems(2) by (cases "fs @ [l]") auto
  then have n: "find_from line (Suc (start + length f)) = Some (Suc (start + length f) + length g)"
    by (simp add: find_from_def d)
  have e: "each start f s = b f s" using Cons.prems(3) by simp
  have IH: "walk_fields each finish line (Suc (start + length f)) (Some (Suc (start + length f) + length g)) s1 =
    (case fold_sum b (g # fs) s1 of Inl s1 \<Rightarrow> Inl s1 | Inr s1 \<Rightarrow> Inr (finish l s1))" for s1
    by (rule Cons.IH[OF d]) (use Cons.prems(2,3) in auto)
  show ?case
    by (subst walk_fields.simps, cases "b f s") (simp_all add: f e next_start_def n IH[simplified add_Suc] del: fold_sum.simps(2) add: fold_sum.simps(2)[of b f])
qed

lemma walk_line_single:
  assumes "CHR '';'' \<notin> set f"
  shows "walk_line each finish f s = (case each 0 f s of Inl s1 \<Rightarrow> Inl s1 | Inr s1 \<Rightarrow> Inr (finish f s1))"
proof -
  have n: "find_from f 0 = None" using assms by (simp add: find_from_def find_delim_none)
  show ?thesis unfolding walk_line_def
    by (subst walk_fields.simps, cases "each 0 f s") (simp_all add: n next_start_def field_def)
qed

lemma walk_line_fields:
  assumes "\<forall>g \<in> set (f # fs @ [l]). CHR '';'' \<notin> set g" and "\<And>st g s. g \<in> set (f # fs) \<Longrightarrow> each st g s = b g s"
  shows "walk_line each finish (join_fields (f # fs @ [l])) s =
    (case fold_sum b (f # fs) s of Inl s1 \<Rightarrow> Inl s1 | Inr s1 \<Rightarrow> Inr (finish l s1))"
proof -
  have "find_delim (join_fields (f # fs @ [l])) = Some (length f)"
    using find_delim_field[of f] assms(1) by (cases "fs @ [l]") auto
  then have "find_from (join_fields (f # fs @ [l])) 0 = Some (0 + length f)" by (simp add: find_from_def)
  then show ?thesis unfolding walk_line_def by (simp only: walk_join[of 0, OF _ assms] drop_0)
qed


lemma show_nat_chars: "c \<in> set (show_nat n) \<Longrightarrow> is_digit c"
  using show_nat_digits[of n] by (auto simp: list_all_iff)

lemma show_nat_plain: "CHR '';'' \<notin> set (show_nat n)" "CHR 0x0A \<notin> set (show_nat n)"
  by (auto dest!: show_nat_chars simp: is_digit_def)

lemma show_nat_Cons: "\<exists>c cs. show_nat n = c # cs \<and> is_digit c"
  using show_nat_digits[of n] by (cases "show_nat n") auto

lemma extract_u32_show [simp]: "extract_u32 neg (show_nat (unat w)) old = (w, True)" for w :: "32 word"
proof -
  obtain c cs where c: "show_nat (unat w) = c # cs" "is_digit c" using show_nat_Cons by blast
  then have "dropWhile is_space (show_nat (unat w)) = c # cs" "read_sign (c # cs) = (1, c # cs)"
    using digit_not_sign[OF c(2)] by (auto simp: read_sign_def)
  moreover have "read_digits 0 (c # cs) = unat w" using read_show_nat[of "unat w"] c by simp
  moreover have "unat w < 2 ^ 32" using unsigned_less[of w, where ?'a = nat] by simp
  ultimately show ?thesis using c(2) by (simp add: extract_u32_def)
qed

lemma extract_i32_show: "unat w < 2147483648 \<Longrightarrow> extract_i32 (show_nat (unat w)) old = (int (unat w), True)" for w :: "32 word"
proof -
  assume w: "unat w < 2147483648"
  obtain c cs where c: "show_nat (unat w) = c # cs" "is_digit c" using show_nat_Cons by blast
  then have "dropWhile is_space (show_nat (unat w)) = c # cs" "read_sign (c # cs) = (1, c # cs)"
    using digit_not_sign[OF c(2)] by (auto simp: read_sign_def)
  moreover have "read_digits 0 (c # cs) = unat w" using read_show_nat[of "unat w"] c by simp
  moreover have "\<not> int (unat w) < INT_MIN" "\<not> INT_MAX < int (unat w)" using w unfolding INT_MIN_def INT_MAX_def by linarith+
  ultimately show ?thesis using c(2) by (simp add: extract_i32_def Let_def)
qed

lemma getlines_line: "CHR 0x0A \<notin> set l \<Longrightarrow> getlines (l @ CHR 0x0A # r) = l # getlines r"
  by (induction l) auto

lemma join_plain: "\<forall>f \<in> set fs. CHR 0x0A \<notin> set f \<Longrightarrow> CHR 0x0A \<notin> set (join_fields fs)"
  by (induction fs rule: join_fields.induct) auto

lemma getlines_show_file: "getlines (show_file ls) = map (\<lambda>ws. join_fields (map (\<lambda>w. show_nat (unat w)) ws)) ls"
proof (induction ls)
  case (Cons ws ls)
  have "CHR 0x0A \<notin> set (join_fields (map (\<lambda>w. show_nat (unat w)) ws))"
    by (rule join_plain) (auto simp: show_nat_plain)
  then show ?case using Cons.IH by (simp add: show_file_def show_line_def getlines_line)
qed (simp add: show_file_def)

text \<open>A line of at least two numbers, and a line of one.\<close>

lemma walk_show_line:
  fixes w l :: "32 word" and ws :: "32 word list"
  assumes "\<And>st g s. g \<in> set (w # ws) \<Longrightarrow> each st (show_nat (unat g)) s = b g s"
  shows "walk_line each finish (join_fields (map (\<lambda>w. show_nat (unat w)) (w # ws @ [l]))) s =
    (case fold_sum b (w # ws) s of Inl s1 \<Rightarrow> Inl s1 | Inr s1 \<Rightarrow> Inr (finish (show_nat (unat l)) s1))"
proof -
  have f: "fold_sum (each 0) (map (\<lambda>w. show_nat (unat w)) vs) s = fold_sum b vs s" if "set vs \<subseteq> set (w # ws)" for vs s
    using that by (induction vs arbitrary: s) (auto simp: assms split: sum.split)
  have "walk_line each finish (join_fields ((show_nat (unat w)) # map (\<lambda>w. show_nat (unat w)) ws @ [show_nat (unat l)])) s =
    (case fold_sum (each 0) (show_nat (unat w) # map (\<lambda>w. show_nat (unat w)) ws) s of Inl s1 \<Rightarrow> Inl s1
      | Inr s1 \<Rightarrow> Inr (finish (show_nat (unat l)) s1))"
    by (rule walk_line_fields) (auto simp: show_nat_plain assms)
  then show ?thesis using f[of "w # ws" s] by simp
qed

lemma walk_show_single:
  "walk_line each finish (join_fields (map (\<lambda>w. show_nat (unat w)) [w])) s =
    (case each 0 (show_nat (unat w)) s of Inl s1 \<Rightarrow> Inl s1 | Inr s1 \<Rightarrow> Inr (finish (show_nat (unat w)) s1))"
  for w :: "32 word"
  by (simp add: walk_line_single show_nat_plain)


section \<open>What the throughput loader reads\<close>

definition push_demands :: "32 word \<Rightarrow> 32 word list \<Rightarrow> demand_map \<Rightarrow> demand_map" where
  "push_demands k ds m = foldl (\<lambda>m d. push_demand k d m) m ds"

lemma fold_demand_fields:
  assumes "\<And>g s. \<not> ld_first s \<Longrightarrow> b g s = Inr (s\<lparr>ld_demand := g, ld_map := push_demand (ld_payload s) g (ld_map s)\<rparr>)"
  shows "\<not> ld_first s \<Longrightarrow> \<exists>d. fold_sum b ds s = Inr (s\<lparr>ld_demand := d, ld_map := push_demands (ld_payload s) ds (ld_map s)\<rparr>)"
proof (induction ds arbitrary: s)
  case Nil
  show ?case by (rule exI[of _ "ld_demand s"]) (simp add: push_demands_def)
next
  case (Cons d ds)
  let ?s = "s\<lparr>ld_demand := d, ld_map := push_demand (ld_payload s) d (ld_map s)\<rparr>"
  from Cons.IH[of ?s] Cons.prems obtain e where
    "fold_sum b ds ?s = Inr (?s\<lparr>ld_demand := e, ld_map := push_demands (ld_payload s) ds (ld_map ?s)\<rparr>)" by auto
  then show ?case using assms[OF Cons.prems] by (auto simp: push_demands_def)
qed

lemma demand_line:
  assumes "ov \<le> p" and "ds \<noteq> []"
  shows "\<exists>d. walk_line (\<lambda>_. demand_field ov neg) (demand_last neg) (join_fields (map (\<lambda>w. show_nat (unat w)) (p # ds)))
      \<lparr>ld_payload = p0, ld_first = True, ld_demand = j, ld_map = m\<rparr> =
    Inr \<lparr>ld_payload = p - ov, ld_first = False, ld_demand = d, ld_map = push_demands (p - ov) ds m\<rparr>"
proof -
  obtain ds' l where ds: "ds = ds' @ [l]" using assms(2) by (cases ds rule: rev_cases) auto
  let ?b = "\<lambda>g. demand_field ov neg (show_nat (unat g))"
  let ?s = "\<lparr>ld_payload = p - ov, ld_first = False, ld_demand = j, ld_map = m\<rparr>"
  have "?b p \<lparr>ld_payload = p0, ld_first = True, ld_demand = j, ld_map = m\<rparr> = Inr ?s"
    using assms(1) by (simp add: demand_field_def)
  moreover obtain d where "fold_sum ?b ds' ?s = Inr (?s\<lparr>ld_demand := d, ld_map := push_demands (ld_payload ?s) ds' (ld_map ?s)\<rparr>)"
    using fold_demand_fields[of ?b ?s ds'] by (auto simp: demand_field_def)
  ultimately show ?thesis
    using walk_show_line[of p ds' "\<lambda>_. demand_field ov neg" ?b "demand_last neg" l] ds
    by (simp add: demand_last_def push_demands_def)
qed

fun load_entries :: "32 word \<Rightarrow> (32 word \<times> 32 word list) list \<Rightarrow> demand_map \<Rightarrow> demand_map" where
  "load_entries ov [] m = m"
| "load_entries ov ((p, ds) # es) m = load_entries ov es (push_demands (p - ov) ds m)"

lemma demand_lines_entries:
  assumes "\<forall>(p, ds) \<in> set es. ov \<le> p \<and> ds \<noteq> []"
  shows "\<exists>p. demand_lines ov neg junk i (map (\<lambda>ws. join_fields (map (\<lambda>w. show_nat (unat w)) ws)) (map (\<lambda>(p, ds). p # ds) es)) (p0, m) =
    Some (p, load_entries ov es m)"
  using assms
proof (induction es arbitrary: i p0 m)
  case (Cons e es)
  obtain p ds where e: "e = (p, ds)" by force
  obtain d where "walk_line (\<lambda>_. demand_field ov neg) (demand_last neg) (join_fields (map (\<lambda>w. show_nat (unat w)) (p # ds)))
      \<lparr>ld_payload = p0, ld_first = True, ld_demand = junk i, ld_map = m\<rparr> =
    Inr \<lparr>ld_payload = p - ov, ld_first = False, ld_demand = d, ld_map = push_demands (p - ov) ds m\<rparr>"
    using demand_line[of ov p ds neg p0 "junk i" m] Cons.prems e by auto
  then show ?case using Cons.IH[of "Suc i" "p - ov" "push_demands (p - ov) ds m"] Cons.prems e by simp
qed simp

definition demands_of :: "demand_map \<Rightarrow> 32 word \<Rightarrow> 32 word list" where
  "demands_of m k = (case map_of m k of None \<Rightarrow> [] | Some ds \<Rightarrow> ds)"

definition map_ok :: "demand_map \<Rightarrow> bool" where
  "map_ok m \<longleftrightarrow> sorted_wrt (<) (map fst m) \<and> (\<forall>(k, ds) \<in> set m. ds \<noteq> [])"

lemma push_demand_keys: "fst ` set (push_demand k d m) = insert k (fst ` set m)"
  by (induction k d m rule: push_demand.induct) auto

lemma push_demand_ok: "map_ok m \<Longrightarrow> map_ok (push_demand k d m)"
proof (induction k d m rule: push_demand.induct)
  case (2 k d j ds m)
  have "\<forall>x \<in> fst ` set (push_demand k d m). j < x" if "j < k" "\<forall>x \<in> fst ` set m. j < x" for m :: demand_map
    using that push_demand_keys[of k d m] by auto
  then show ?case using 2 by (auto simp: map_ok_def not_less_iff_gr_or_eq dest: less_trans)
qed (simp add: map_ok_def)

lemma push_demand_of: "map_ok m \<Longrightarrow> demands_of (push_demand k d m) j = demands_of m j @ (if j = k then [d] else [])"
proof (induction k d m rule: push_demand.induct)
  case (2 k d i ds m)
  have "k < i \<Longrightarrow> map_of m k = None" using 2(2) by (force simp: map_ok_def map_of_eq_None_iff)
  then show ?case using 2 by (auto simp: demands_of_def map_ok_def split: option.splits)
qed (simp add: demands_of_def)

lemma push_demands_ok: "map_ok m \<Longrightarrow> map_ok (push_demands k ds m)"
  by (induction ds arbitrary: m) (auto simp: push_demands_def push_demand_ok)

lemma push_demands_of: "map_ok m \<Longrightarrow> demands_of (push_demands k ds m) j = demands_of m j @ (if j = k then ds else [])"
proof (induction ds arbitrary: m)
  case (Cons d ds)
  then show ?case using push_demand_ok[of m k d] push_demand_of[of m k d j] by (simp add: push_demands_def)
qed (simp add: push_demands_def)

lemma load_entries_ok: "map_ok m \<Longrightarrow> map_ok (load_entries ov es m)"
  by (induction ov es m rule: load_entries.induct) (auto simp: push_demands_ok)

lemma load_entries_of:
  "map_ok m \<Longrightarrow> demands_of (load_entries ov es m) j = demands_of m j @ concat (map (\<lambda>(p, ds). if p - ov = j then ds else []) es)"
  by (induction ov es m rule: load_entries.induct) (auto simp: push_demands_ok push_demands_of)

lemma map_ok_of: "map_ok m \<Longrightarrow> map_of m k = (if demands_of m k = [] then None else Some (demands_of m k))"
  by (auto simp: map_ok_def demands_of_def dest!: map_of_SomeD split: option.splits)

section \<open>What the other loaders read\<close>

definition add_recoveries :: "32 word list \<Rightarrow> 32 word list \<Rightarrow> 32 word list" where
  "add_recoveries ws rs = foldl (\<lambda>rs r. add_recovery r rs) rs ws"

lemma recovery_field_show:
  "unat w < 2147483648 \<Longrightarrow> recovery_field (show_nat (unat w)) (i, r, rs) = Inr (int (unat w), w, add_recovery w rs)"
  by (simp add: recovery_field_def extract_i32_show)

lemma fold_recovery:
  "\<forall>w \<in> set ws. unat w < 2147483648 \<Longrightarrow>
    \<exists>i' r'. fold_sum (\<lambda>w. recovery_field (show_nat (unat w))) ws (i, r, rs) = Inr (i', r', add_recoveries ws rs)"
  by (induction ws arbitrary: i r rs) (auto simp: recovery_field_show add_recoveries_def)

lemma add_recovery_again: "add_recovery w (add_recovery w rs) = add_recovery w rs"
  by (simp add: add_recovery_def)

lemma recovery_line:
  assumes "\<forall>w \<in> set ws. unat w < 2147483648" and "ws \<noteq> []"
  shows "\<exists>i' r'. walk_line (\<lambda>_. recovery_field) (recovery_last neg) (join_fields (map (\<lambda>w. show_nat (unat w)) ws)) (i, r, rs) =
    Inr (i', r', add_recoveries ws rs)"
proof (cases "\<exists>w. ws = [w]")
  case True
  then obtain w where w: "ws = [w]" by blast
  then have "unat w < 2147483648" using assms(1) by simp
  then show ?thesis unfolding w
    by (simp only: walk_show_single recovery_field_show)
      (simp add: recovery_last_def add_recoveries_def add_recovery_again)
next
  case False
  then obtain w ws' l where w: "ws = w # ws' @ [l]" using assms(2)
    by (metis append_butlast_last_id list.exhaust)
  obtain i' r' where "fold_sum (\<lambda>w. recovery_field (show_nat (unat w))) (w # ws') (i, r, rs) = Inr (i', r', add_recoveries (w # ws') rs)"
    using fold_recovery[of "w # ws'" i r rs] assms(1) w by (auto simp del: fold_sum.simps)
  then show ?thesis
    using walk_show_line[of w ws' "\<lambda>_. recovery_field" "\<lambda>w. recovery_field (show_nat (unat w))" "recovery_last neg" l "(i, r, rs)"]
    unfolding w by (simp add: recovery_last_def add_recoveries_def del: fold_sum.simps)
qed

lemma recovery_lines_file:
  "\<forall>ws \<in> set ls. ws \<noteq> [] \<and> (\<forall>w \<in> set ws. unat w < 2147483648) \<Longrightarrow>
   \<exists>i' r'. recovery_lines neg (map (\<lambda>ws. join_fields (map (\<lambda>w. show_nat (unat w)) ws)) ls) (i, r, rs) =
     Some (i', r', add_recoveries (concat ls) rs)"
proof (induction ls arbitrary: i r rs)
  case (Cons ws ls)
  from recovery_line[of ws neg i r rs] Cons.prems obtain i1 r1 where
    "walk_line (\<lambda>_. recovery_field) (recovery_last neg) (join_fields (map (\<lambda>w. show_nat (unat w)) ws)) (i, r, rs) =
      Inr (i1, r1, add_recoveries ws rs)" by auto
  then show ?case using Cons.IH[of i1 r1 "add_recoveries ws rs"] Cons.prems by (simp add: add_recoveries_def)
qed (simp add: add_recoveries_def)


lemma add_recoveries_remdups: "add_recoveries ws [] = rev (remdups (rev ws))"
proof (induction ws rule: rev_induct)
  case (snoc w ws)
  then show ?case by (simp add: add_recoveries_def add_recovery_def)
qed (simp add: add_recoveries_def)

lemma load_demands_file:
  assumes "\<forall>(p, ds) \<in> set es. ov \<le> p \<and> ds \<noteq> []"
  shows "\<exists>p. load_demands_payload ov neg junk (Some (show_file (map (\<lambda>(p, ds). p # ds) es))) (p0, m) = Some (p, load_entries ov es m)"
  using demand_lines_entries[OF assms, of neg junk 0 p0 m]
  by (auto simp: load_demands_payload_def getlines_show_file)

lemma load_recoveries_file:
  assumes "\<forall>ws \<in> set ls. ws \<noteq> [] \<and> (\<forall>w \<in> set ws. unat w < 2147483648)"
  shows "load_recoveries neg i r (Some (show_file ls)) [] = Some (rev (remdups (rev (concat ls))))"
  using recovery_lines_file[OF assms, of neg i r "[]"]
  by (auto simp: load_recoveries_def getlines_show_file add_recoveries_remdups)

definition take_payload :: "32 word \<Rightarrow> payload_load \<Rightarrow> payload_load + payload_load" where
  "take_payload w s = (if w < 16 then Inl (w, snd s) else Inr (w, snd s @ [w]))"

lemma payload_field_show: "payload_field neg junk st (show_nat (unat g)) s = take_payload g s"
  by (cases s) (simp add: payload_field_def take_payload_def)

lemma fold_payload:
  "\<exists>q'. fold_sum take_payload ws (q, ds) = (if list_all (\<lambda>w. 16 \<le> w) ws then Inr else Inl) (q', ds @ takeWhile (\<lambda>w. 16 \<le> w) ws)"
proof (induction ws arbitrary: q ds)
  case (Cons w ws)
  show ?case
  proof (cases "w < 16")
    case True
    then have "\<not> 16 \<le> w" by (simp only: not_le)
    then show ?thesis using True by (simp add: take_payload_def)
  next
    case False
    then have "16 \<le> w" by (simp only: not_less)
    moreover from Cons.IH[of w "ds @ [w]"] obtain q' where "fold_sum take_payload ws (w, ds @ [w]) =
      (if list_all (\<lambda>w. 16 \<le> w) ws then Inr else Inl) (q', (ds @ [w]) @ takeWhile (\<lambda>w. 16 \<le> w) ws)" by blast
    moreover have "take_payload w (q, ds) = Inr (w, ds @ [w])" using False by (simp add: take_payload_def)
    ultimately show ?thesis by simp
  qed
qed simp

text \<open>What the latency test reads in a line, number by number, and whether it checks the number. A line of a single number is
  read twice.\<close>

definition items :: "32 word list \<Rightarrow> (bool \<times> 32 word) list" where
  "items ws = map (Pair True) (case ws of [w] \<Rightarrow> [w] | _ \<Rightarrow> butlast ws) @ [(False, last ws)]"

definition accepts :: "bool \<times> 32 word \<Rightarrow> bool" where
  "accepts x \<longleftrightarrow> (fst x \<longrightarrow> 16 \<le> snd x)"

lemma items_single: "items [w] = [(True, w), (False, w)]"
  by (simp add: items_def)

lemma items_more: "items (w # ws @ [l]) = map (Pair True) (w # ws) @ [(False, l)]"
  by (cases ws) (simp_all add: items_def)

lemma accepts_checked:
  "list_all accepts (map (Pair True) ws) \<longleftrightarrow> list_all (\<lambda>w. 16 \<le> w) ws"
  "takeWhile accepts (map (Pair True) ws) = map (Pair True) (takeWhile (\<lambda>w. 16 \<le> w) ws)"
  by (simp_all add: accepts_def list.pred_map takeWhile_map comp_def)

lemma accepts_last [simp]: "accepts (False, l)"
  by (simp add: accepts_def)

lemma takeWhile_split:
  "takeWhile p (xs @ ys) = (if list_all p xs then xs @ takeWhile p ys else takeWhile p xs)"
  by (induction xs) auto

lemma takeWhile_id: "list_all p xs \<Longrightarrow> takeWhile p xs = xs"
  by (induction xs) auto

lemma payload_line:
  assumes "ws \<noteq> []"
  shows "\<exists>q'. walk_line (payload_field neg junk) (payload_last neg) (join_fields (map (\<lambda>w. show_nat (unat w)) ws)) (q, ds) =
    (if list_all accepts (items ws) then Inr else Inl) (q', ds @ map snd (takeWhile accepts (items ws)))"
proof (cases "\<exists>w. ws = [w]")
  case True
  then obtain w where w: "ws = [w]" by blast
  have "w < 16 \<longleftrightarrow> \<not> 16 \<le> w" by (simp only: not_le)
  then show ?thesis unfolding w walk_show_single payload_field_show items_single
    by (simp add: take_payload_def payload_last_def accepts_def)
next
  case False
  then obtain w ws' l where w: "ws = w # ws' @ [l]" using assms by (metis append_butlast_last_id list.exhaust)
  let ?f = "fold_sum take_payload (w # ws') (q, ds)" and ?ok = "list_all (\<lambda>w. 16 \<le> w) (w # ws')"
  have e: "walk_line (payload_field neg junk) (payload_last neg) (join_fields (map (\<lambda>w. show_nat (unat w)) ws)) (q, ds) =
      (case ?f of Inl s1 \<Rightarrow> Inl s1 | Inr s1 \<Rightarrow> Inr (payload_last neg (show_nat (unat l)) s1))"
    unfolding w by (rule walk_show_line) (rule payload_field_show)
  obtain q1 where f: "?f = (if ?ok then Inr else Inl) (q1, ds @ takeWhile (\<lambda>w. 16 \<le> w) (w # ws'))" using fold_payload by blast
  have k: "list_all accepts (items ws) = ?ok"
    unfolding w items_more list_all_append accepts_checked by simp
  have m: "map snd (takeWhile accepts (items ws)) = (if ?ok then w # ws' @ [l] else takeWhile (\<lambda>w. 16 \<le> w) (w # ws'))"
    unfolding w items_more takeWhile_split accepts_checked by (cases ?ok) (simp_all only: if_True if_False, simp_all add: comp_def)
  show ?thesis unfolding e f k m
    by (cases ?ok) (simp_all only: if_True if_False sum.case takeWhile_id, auto simp: payload_last_def)
qed

lemma payload_lines_file:
  "\<forall>ws \<in> set ls. ws \<noteq> [] \<Longrightarrow>
   \<exists>q'. payload_lines neg junk i (map (\<lambda>ws. join_fields (map (\<lambda>w. show_nat (unat w)) ws)) ls) (q, ds) =
     (if list_all accepts (concat (map items ls)) then Inr else Inl) (q', ds @ map snd (takeWhile accepts (concat (map items ls))))"
proof (induction ls arbitrary: i q ds)
  case (Cons ws ls)
  obtain q1 where l: "walk_line (payload_field neg (junk i)) (payload_last neg) (join_fields (map (\<lambda>w. show_nat (unat w)) ws)) (q, ds) =
      (if list_all accepts (items ws) then Inr else Inl) (q1, ds @ map snd (takeWhile accepts (items ws)))"
    using payload_line Cons.prems by (metis list.set_intros(1))
  show ?case
  proof (cases "list_all accepts (items ws)")
    case False
    then show ?thesis using l by (simp add: takeWhile_split)
  next
    case True
    then show ?thesis using l Cons.IH[of "Suc i" q1 "ds @ map snd (items ws)"] Cons.prems
      by (simp add: takeWhile_split takeWhile_id)
  qed
qed simp

lemma some_list: "(let xs = ys in if xs = [] then None else Some xs) = Some zs \<Longrightarrow> ys = zs"
  by (simp add: Let_def split: if_splits)

section \<open>Properties\<close>

lemma throughput_files_load:
  assumes "\<forall>(p, ds) \<in> set es. 4 \<le> p \<and> ds \<noteq> [] \<and> demands_ok ds"
    and "\<forall>ws \<in> set ls. ws \<noteq> [] \<and> (\<forall>w \<in> set ws. unat w < 2147483648)"
  shows "\<exists>p m. run_setup neg junk ji jr (Some (show_file (map (\<lambda>(p, ds). p # ds) es))) (Some (Some (show_file ls))) rt 0 sz =
      Some (p, m, rev (remdups (rev (concat ls)))) \<and>
    sorted_wrt (<) (map fst m) \<and>
    (\<forall>k. map_of m k = (let ds = concat (map (\<lambda>(p, ds). if p - 4 = k then ds else []) es) in if ds = [] then None else Some ds)) \<and>
    sizes_ok m"
proof -
  let ?m = "load_entries overhead es []"
  have e: "\<forall>(p, ds) \<in> set es. overhead \<le> p \<and> ds \<noteq> []" using assms(1) by (auto simp: overhead_def)
  obtain p where l: "load_demands_payload overhead neg junk (Some (show_file (map (\<lambda>(p, ds). p # ds) es))) (0, []) = Some (p, ?m)"
    using load_demands_file[OF e, of neg junk 0 "[]"] by blast
  have ok: "map_ok ?m" by (rule load_entries_ok) (simp add: map_ok_def)
  have of: "map_of ?m k = (let ds = concat (map (\<lambda>(p, ds). if p - 4 = k then ds else []) es) in if ds = [] then None else Some ds)" for k
    using map_ok_of[OF ok, of k] load_entries_of[of "[]" overhead es k]
    by (simp add: overhead_def map_ok_def demands_of_def Let_def)
  have "sizes_ok ?m"
    unfolding sizes_ok_def list_all_iff
  proof (intro ballI)
    fix x assume x: "x \<in> set ?m"
    obtain k ds where xk: "x = (k, ds)" by force
    have "distinct (map fst ?m)" using ok by (auto simp: map_ok_def strict_sorted_iff)
    then have "map_of ?m k = Some ds" using x xk by (simp add: map_of_eq_Some_iff)
    then have "concat (map (\<lambda>(p, ds). if p - 4 = k then ds else []) es) = ds"
      unfolding of by (rule some_list)
    moreover have "ds \<noteq> []" using ok x xk by (auto simp: map_ok_def)
    moreover have "\<forall>d \<in> set (concat (map (\<lambda>(p, ds). if p - 4 = k then ds else []) es)). unat d < 4294967295"
      using assms(1) by (auto simp: demands_ok_def list_all_iff split: if_splits)
    ultimately show "snd x \<noteq> [] \<and> demands_ok (snd x)" using xk by (simp add: demands_ok_def list_all_iff)
  qed
  moreover have "run_setup neg junk ji jr (Some (show_file (map (\<lambda>(p, ds). p # ds) es))) (Some (Some (show_file ls))) rt 0 sz =
      Some (p, ?m, rev (remdups (rev (concat ls))))"
    using l load_recoveries_file[OF assms(2), of neg ji jr] by (simp add: run_setup_def)
  ultimately show ?thesis using ok of by (auto simp: map_ok_def)
qed

text \<open>C20: The throughput publisher runs the tests its files describe. For a demands file with one line per payload and a
  recovery file, however the library reads minus signs and whatever the uninitialised locals hold, \<^verbatim>\<open>run\<close> gets
  past its set-up; the payloads come in increasing order, without the header of a sample, each with the demands of all its lines in
  the order of the file; the recovery times are those of the file without repetitions, in order of first appearance;
  and the result is one the properties of the test system apply to.\<close>

theorem throughput_files_exact:
  assumes "\<forall>(p, ds) \<in> set es. 4 \<le> p \<and> ds \<noteq> [] \<and> demands_ok ds"
    and "\<forall>ws \<in> set ls. ws \<noteq> [] \<and> (\<forall>w \<in> set ws. unat w < 2147483648)"
  shows "\<exists>p m. run_setup neg junk ji jr (Some (show_file (map (\<lambda>(p, ds). p # ds) es))) (Some (Some (show_file ls))) rt 0 sz =
      Some (p, m, rev (remdups (rev (concat ls)))) \<and>
    sorted_wrt (<) (map fst m) \<and>
    (\<forall>k. map_of m k = (let ds = concat (map (\<lambda>(p, ds). if p - 4 = k then ds else []) es) in if ds = [] then None else Some ds)) \<and>
    sizes_ok m"
  by (rule throughput_files_load[OF assms])

theorem throughput_files_exact_witness:
  "\<exists>p m. run_setup (\<lambda>n. (0, False)) (\<lambda>_. 9) 0 0 (Some (show_file [[32, 100], [16, 50, 60], [32, 7]])) (Some (Some (show_file [[5, 10], [5]]))) 1 0 0 =
      Some (p, m, [5, 10]) \<and> sorted_wrt (<) (map fst m) \<and> map_of m 28 = Some [100, 7] \<and> map_of m 12 = Some [50, 60] \<and> sizes_ok m"
proof -
  obtain p m where r: "run_setup (\<lambda>n. (0, False)) (\<lambda>_. 9) 0 0 (Some (show_file (map (\<lambda>(p, ds). p # ds) [(32, [100]), (16, [50, 60]), (32, [7])])))
      (Some (Some (show_file [[5, 10], [5]]))) 1 0 0 = Some (p, m, rev (remdups (rev (concat [[5, 10], [5]]))))"
    "sorted_wrt (<) (map fst m)" "sizes_ok m"
    "\<forall>k. map_of m k = (let ds = concat (map (\<lambda>(p, ds). if p - 4 = k then ds else []) [(32, [100]), (16, [50, 60]), (32, [7])])
      in if ds = [] then None else Some ds)"
    using throughput_files_exact[of "[(32, [100]), (16, [50, 60]), (32, [7])]" "[[5, 10], [5]]" "\<lambda>n. (0, False)" "\<lambda>_. 9" 0 0 1 0]
    by (auto simp: demands_ok_def)
  show ?thesis using r(1,2,3) r(4)[rule_format, of 28] r(4)[rule_format, of 12] by (intro exI[of _ p] exI[of _ m]) simp
qed

text \<open>A line of a single number is taken twice: its payload is also its demand.\<close>

theorem demands_single_number:
  assumes "ov \<le> p"
  shows "load_demands_payload ov neg junk (Some (show_file [[p]])) (p0, []) = Some (p, [(p - ov, [p])])"
proof -
  have g: "getlines (show_file [[p]]) = [join_fields (map (\<lambda>w. show_nat (unat w)) [p])]"
    by (simp only: getlines_show_file list.map)
  have "walk_line (\<lambda>_. demand_field ov neg) (demand_last neg) (join_fields (map (\<lambda>w. show_nat (unat w)) [p]))
      \<lparr>ld_payload = p0, ld_first = True, ld_demand = junk 0, ld_map = []\<rparr> =
    Inr \<lparr>ld_payload = p - ov, ld_first = False, ld_demand = p, ld_map = [(p - ov, [p])]\<rparr>"
    unfolding walk_show_single using assms by (simp add: demand_field_def demand_last_def)
  then show ?thesis unfolding load_demands_payload_def option.case g by simp
qed

text \<open>C21: What the latency test makes of every file of lines of numbers. It reads the numbers in order, a line of a single number
  twice, and checks all but the last that it reads of a line (\<open>items\<close>): the payloads are the numbers before the first checked
  one that is below 16, and reading succeeds exactly when there is no such number. The last number of a line is never
  checked.\<close>

theorem latency_payloads_exact:
  assumes "\<forall>ws \<in> set ls. ws \<noteq> []"
  shows "load_payloads neg junk (Some (show_file ls)) =
    (list_all accepts (concat (map items ls)), map snd (takeWhile accepts (concat (map items ls))))"
  using payload_lines_file[OF assms, of neg junk 0 0 "[]"]
  by (cases "list_all accepts (concat (map items ls))") (auto simp: load_payloads_def getlines_show_file)

theorem latency_payloads_exact_witness:
  "load_payloads (\<lambda>n. (0, False)) (\<lambda>_ _. 3) (Some (show_file [[16, 16384], [1024], [64, 8]])) = (True, [16, 16384, 1024, 1024, 64, 8]) \<and>
   load_payloads (\<lambda>n. (0, False)) (\<lambda>_ _. 3) (Some (show_file [[16, 64], [32, 15, 48], [1024]])) = (False, [16, 64, 32])"
  using latency_payloads_exact[of "[[16, 16384], [1024], [64, 8]]" "\<lambda>n. (0, False)" "\<lambda>_ _. 3"]
    latency_payloads_exact[of "[[16, 64], [32, 15, 48], [1024]]" "\<lambda>n. (0, False)" "\<lambda>_ _. 3"]
  by (simp add: items_def accepts_def)

text \<open>A recovery time with a minus sign is rejected anywhere but in the last place of a line with several numbers, where it is read as
  an unsigned number.\<close>

theorem recovery_minus_sign:
  assumes "unat w < 2147483648" and "0 < n" and "n < 2147483648" and "neg n = (v, True)"
  shows "load_recoveries neg i r (Some (CHR ''-'' # show_nat n @ CHR '';'' # show_nat (unat w))) [] = None"
    and "load_recoveries neg i r (Some (show_nat (unat w) @ CHR '';'' # CHR ''-'' # show_nat n)) [] = Some (add_recovery v [w])"
proof -
  have m: "is_space CHR ''-'' = False" by (simp add: is_space_def)
  obtain c cs where c: "show_nat n = c # cs" "is_digit c" using show_nat_Cons by blast
  have rd: "read_digits 0 (show_nat n) = n" by (rule read_show_nat)
  have i: "extract_i32 (CHR ''-'' # show_nat n) old = (- int n, True)" for old
    using assms(2,3) c rd m by (simp add: extract_i32_def read_sign_def INT_MIN_def INT_MAX_def Let_def)
  have u: "extract_u32 neg (CHR ''-'' # show_nat n) old = (v, True)" for old
    using assms(4) c rd m by (simp add: extract_u32_def read_sign_def Let_def)
  have np: "CHR '';'' \<notin> set (CHR ''-'' # show_nat n)" "CHR 0x0A \<notin> set (CHR ''-'' # show_nat n)"
    using show_nat_plain[of n] by auto
  have gl: "getlines (l @ []) = [l]" if "CHR 0x0A \<notin> set l" "l \<noteq> []" for l
    using that by (induction l rule: induct_list012) auto
  have w1: "walk_line (\<lambda>_. recovery_field) (recovery_last neg) (join_fields ((CHR ''-'' # show_nat n) # [] @ [show_nat (unat w)])) s = Inl (- int n, snd s)" for s
    by (subst walk_line_fields[where b = recovery_field]) (use np show_nat_plain assms(2) in \<open>auto simp: recovery_field_def i split: prod.splits\<close>)
  have w2: "walk_line (\<lambda>_. recovery_field) (recovery_last neg) (join_fields (show_nat (unat w) # [] @ [CHR ''-'' # show_nat n])) (i, r, []) =
      Inr (int (unat w), v, add_recovery v [w])"
    by (subst walk_line_fields[where b = recovery_field])
      (use np show_nat_plain in \<open>auto simp: recovery_field_show[OF assms(1)] recovery_last_def u add_recovery_def\<close>)
  show "load_recoveries neg i r (Some (CHR ''-'' # show_nat n @ CHR '';'' # show_nat (unat w))) [] = None"
    using w1 gl[of "(CHR ''-'' # show_nat n) @ CHR '';'' # show_nat (unat w)"] np(2) show_nat_plain by (simp add: load_recoveries_def)
  show "load_recoveries neg i r (Some (show_nat (unat w) @ CHR '';'' # CHR ''-'' # show_nat n)) [] = Some (add_recovery v [w])"
    using w2 gl[of "show_nat (unat w) @ CHR '';'' # CHR ''-'' # show_nat n"] np(2) show_nat_plain by (simp add: load_recoveries_def)
qed

end
