(* ===== verification/Instruction.thy ===== *)
theory Instruction
  imports Prelude
begin

text \<open>
  The instruction interpreter of \<^verbatim>\<open>src/design_mode/interpreter_Pattern/interpreter_pattern.cc\<close>: a text such as
  \<^verbatim>\<open>up move 5 and down walk 10\<close> is cut into words, turned into a tree of nodes and interpreted. A wide character is
  its code. The words live in ten arrays of ten characters, here lists of that length; an access behind them is
  \<open>OutOfBounds\<close>. A node owns its word until it interprets itself, which deletes the word; the arrays are allocated with
  \<^verbatim>\<open>new[]\<close> and released with \<^verbatim>\<open>delete\<close>, a mismatch that is left out here.
\<close>

type_synonym wstr = "nat list"

text \<open>The literals, with the terminator for those that are compared; in the C locale \<^verbatim>\<open>wcscasecmp\<close> folds the ASCII letters.\<close>

definition wide :: "string \<Rightarrow> wstr" where
  "wide s = map of_char s"

definition to_lower :: "nat \<Rightarrow> nat" where
  "to_lower c = (if 65 \<le> c \<and> c \<le> 90 then c + 32 else c)"

fun same_word :: "wstr \<Rightarrow> wstr \<Rightarrow> bool result" where
  "same_word [] _ = Inl OutOfBounds"
| "same_word _ [] = Inl OutOfBounds"
| "same_word (c # cs) (d # ds) = (if to_lower c \<noteq> to_lower d then Inr False else if c = 0 then Inr True else same_word cs ds)"

definition wcscasecmp :: "wstr option \<Rightarrow> string \<Rightarrow> bool result" where
  "wcscasecmp p s = (case p of None \<Rightarrow> Inl NullDeref | Some a \<Rightarrow> same_word a (wide s @ [0]))"

text \<open>\<^verbatim>\<open>std::wstring(p)\<close>: up to the terminator.\<close>

fun c_string :: "wstr \<Rightarrow> wstr result" where
  "c_string [] = Inl OutOfBounds"
| "c_string (c # cs) = (if c = 0 then Inr [] else rbind (c_string cs) (\<lambda>r. Inr (c # r)))"

section \<open>The nodes\<close>

datatype AbstractNode =
    DirectionNode "wstr option"
  | ActionNode "wstr option"
  | DistanceNode "wstr option"
  | SentenceNode AbstractNode AbstractNode AbstractNode
  | AndNode "AbstractNode option" AbstractNode

definition direction_text :: "wstr option \<Rightarrow> wstr result" where
  "direction_text p =
     rbind (wcscasecmp p ''down'') (\<lambda>e. if e then Inr [0x5411, 0x4E0B] else
     rbind (wcscasecmp p ''up'') (\<lambda>e. if e then Inr [0x5411, 0x4E0A] else
     rbind (wcscasecmp p ''left'') (\<lambda>e. if e then Inr [0x5411, 0x5DE6] else
     rbind (wcscasecmp p ''right'') (\<lambda>e. if e then Inr [0x5411, 0x53F3] else Inr [0x672A, 0x77E5, 0x65B9, 0x5411]))))"

definition action_text :: "wstr option \<Rightarrow> wstr result" where
  "action_text p =
     rbind (wcscasecmp p ''move'') (\<lambda>e. if e then Inr [0x79FB, 0x52A8] else
     rbind (wcscasecmp p ''walk'') (\<lambda>e. if e then Inr [0x884C, 0x8D70] else Inr [0x672A, 0x77E5, 0x52A8, 0x4F5C]))"

definition distance_text :: "wstr option \<Rightarrow> wstr result" where
  "distance_text p = (case p of None \<Rightarrow> Inl NullDeref | Some a \<Rightarrow> rbind (c_string a) (\<lambda>s. Inr (s @ [0x7C73])))"

text \<open>The text of a node, and the node afterwards.\<close>

fun Interpret :: "AbstractNode \<Rightarrow> (wstr \<times> AbstractNode) result" where
  "Interpret (DirectionNode p) = rbind (direction_text p) (\<lambda>s. Inr (s, DirectionNode None))"
| "Interpret (ActionNode p) = rbind (action_text p) (\<lambda>s. Inr (s, ActionNode None))"
| "Interpret (DistanceNode p) = rbind (distance_text p) (\<lambda>s. Inr (s, DistanceNode None))"
| "Interpret (SentenceNode d a m) =
     rbind (Interpret d) (\<lambda>(sd, d1). rbind (Interpret a) (\<lambda>(sa, a1). rbind (Interpret m) (\<lambda>(sm, m1).
       Inr (sd @ sa @ sm, SentenceNode d1 a1 m1))))"
| "Interpret (AndNode None r) = Inl NullDeref"
| "Interpret (AndNode (Some l) r) =
     rbind (Interpret l) (\<lambda>(sl, l1). rbind (Interpret r) (\<lambda>(sr, r1). Inr (sl @ sr, AndNode (Some l1) r1)))"

section \<open>Words and the tree\<close>

text \<open>The loop of \<^verbatim>\<open>SplitInstruction\<close>; the list is what is left of the text.\<close>

fun split_loop :: "wstr \<Rightarrow> wstr list \<Rightarrow> nat \<Rightarrow> nat \<Rightarrow> (wstr list \<times> nat) result" where
  "split_loop [] rows sz n = Inr (rows, sz + 1)"
| "split_loop (c # cs) rows sz n =
     (if c = 32 then split_loop cs rows (sz + 1) 0
      else if sz < length rows \<and> n < length (rows ! sz) then split_loop cs (rows[sz := (rows ! sz)[n := c]]) sz (n + 1)
      else Inl OutOfBounds)"

definition SplitInstruction :: "wstr \<Rightarrow> (wstr list \<times> nat) result" where
  "SplitInstruction text = split_loop text (replicate 10 (replicate 10 0)) 0 0"

definition word_at :: "wstr list \<Rightarrow> nat \<Rightarrow> wstr option result" where
  "word_at rows i = (if i < length rows then Inr (Some (rows ! i)) else Inl OutOfBounds)"

definition sentence_at :: "wstr list \<Rightarrow> nat \<Rightarrow> AbstractNode result" where
  "sentence_at rows i = rbind (word_at rows i) (\<lambda>d. rbind (word_at rows (i + 1)) (\<lambda>a. rbind (word_at rows (i + 2)) (\<lambda>m.
     Inr (SentenceNode (DirectionNode d) (ActionNode a) (DistanceNode m)))))"

function handle_loop :: "wstr list \<Rightarrow> nat \<Rightarrow> nat \<Rightarrow> AbstractNode option \<Rightarrow> AbstractNode list \<Rightarrow> AbstractNode list result" where
  "handle_loop rows sz i pLeft node =
     (if \<not> i < sz then Inr node
      else rbind (word_at rows i) (\<lambda>w. rbind (wcscasecmp w ''and'') (\<lambda>e.
        if e then rbind (sentence_at rows (i + 1)) (\<lambda>r. handle_loop rows sz (i + 4) pLeft (node @ [AndNode pLeft r]))
        else rbind (sentence_at rows i) (\<lambda>l. handle_loop rows sz (i + 3) (Some l) (node @ [l])))))"
  by pat_completeness auto

termination by (relation "measure (\<lambda>(rows, sz, i, pLeft, node). sz - i)") auto

declare handle_loop.simps [simp del]

definition Handle :: "wstr \<Rightarrow> AbstractNode result" where
  "Handle text = rbind (SplitInstruction text) (\<lambda>(rows, sz).
     rbind (handle_loop rows sz 0 None []) (\<lambda>node. if node = [] then Inl OutOfBounds else Inr (last node)))"

text \<open>What \<^verbatim>\<open>main\<close> prints after the prefix, for a text of its own.\<close>

definition Output :: "AbstractNode \<Rightarrow> wstr result" where
  "Output t = rbind (Interpret t) (\<lambda>(s, t1). Inr s)"

definition interpret_text :: "wstr \<Rightarrow> wstr result" where
  "interpret_text text = rbind (Handle text) Output"

section \<open>Reading words back\<close>

fun join_sp :: "wstr list \<Rightarrow> wstr" where
  "join_sp [] = []"
| "join_sp [w] = w"
| "join_sp (w # v # ws) = w @ 32 # join_sp (v # ws)"

definition pad :: "wstr \<Rightarrow> wstr" where
  "pad w = w @ replicate (10 - length w) 0"

lemma length_pad: "length w \<le> 10 \<Longrightarrow> length (pad w) = 10"
  by (simp add: pad_def)

lemma pad_Nil: "pad [] = replicate 10 0"
  by (simp add: pad_def)

lemma update_pad: "length w < 10 \<Longrightarrow> (pad w)[length w := c] = pad (w @ [c])"
proof -
  assume "length w < 10"
  then obtain k where "10 - length w = Suc k" "10 - Suc (length w) = k" by (metis Suc_diff_Suc)
  then show ?thesis by (simp add: pad_def list_update_append)
qed


fun words :: "wstr \<Rightarrow> wstr list" where
  "words [] = [[]]"
| "words (c # cs) = (if c = 32 then [] # words cs else (c # hd (words cs)) # tl (words cs))"

definition rows_of :: "wstr list \<Rightarrow> wstr list" where
  "rows_of ws = take 10 (map pad ws @ replicate 10 (pad []))"

definition words_fit :: "wstr list \<Rightarrow> bool" where
  "words_fit ws \<longleftrightarrow> (\<forall>w \<in> set ws. length w \<le> 10) \<and> (\<forall>w \<in> set (drop 10 ws). w = [])"

lemma words_not_Nil [simp]: "words s \<noteq> []"
  by (cases s) auto

lemma rows_of_empty: "rows_of (ws @ [[]]) = rows_of ws"
proof -
  have "pad [] # replicate 10 (pad []) = replicate 10 (pad []) @ [pad []]" by (simp add: replicate_append_same)
  then show ?thesis by (simp add: rows_of_def)
qed

lemma words_fit_empty: "words_fit (ws @ [[]]) = words_fit ws"
  by (cases "10 \<le> length ws") (auto simp: words_fit_def)

lemma length_rows_of [simp]: "length (rows_of ws) = 10"
  by (simp add: rows_of_def)

lemma rows_of_at: "length ds < 10 \<Longrightarrow> rows_of (ds @ [cur]) ! length ds = pad cur"
  by (simp add: rows_of_def nth_append)

lemma rows_of_upd: "length ds < 10 \<Longrightarrow> (rows_of (ds @ [cur]))[length ds := pad w] = rows_of (ds @ [w])"
  by (auto simp: rows_of_def nth_append nth_list_update intro: nth_equalityI)

lemma split_loop_words:
  "words_fit (ds @ [cur]) \<Longrightarrow>
   split_loop s (rows_of (ds @ [cur])) (length ds) (length cur) =
     (let ws = ds @ (cur @ hd (words s)) # tl (words s) in
      if words_fit ws then Inr (rows_of ws, length ws) else Inl OutOfBounds)"
proof (induction s arbitrary: ds cur)
  case (Cons c s)
  show ?case
  proof (cases "c = 32")
    case True
    have "words_fit ((ds @ [cur]) @ [[]])" using Cons.prems by (simp only: words_fit_empty)
    from Cons.IH[OF this] True show ?thesis by (simp add: rows_of_empty[of "ds @ [cur]", simplified] Let_def)
  next
    case False
    let ?ws = "ds @ (cur @ c # hd (words s)) # tl (words s)"
    show ?thesis
    proof (cases "length ds < 10 \<and> length cur < 10")
      case True
      then have "words_fit (ds @ [cur @ [c]])" using Cons.prems by (auto simp: words_fit_def)
      from Cons.IH[OF this] True False show ?thesis
        by (simp add: rows_of_at length_pad update_pad rows_of_upd Let_def)
    next
      case no: False
      have "\<not> words_fit ?ws"
      proof (cases "length cur < 10")
        case True
        then have "10 \<le> length ds" using no by simp
        then show ?thesis by (auto simp: words_fit_def)
      next
        case False
        then show ?thesis by (auto simp: words_fit_def)
      qed
      moreover have "length ds < 10 \<Longrightarrow> length (pad cur) = 10" using Cons.prems by (simp add: words_fit_def length_pad)
      ultimately show ?thesis using False no by (auto simp: rows_of_at)
    qed
  qed
qed simp

lemma SplitInstruction_words:
  "SplitInstruction s = (if words_fit (words s) then Inr (rows_of (words s), length (words s)) else Inl OutOfBounds)"
proof -
  have "rows_of ([] @ [[]]) = replicate 10 (replicate 10 0)" by (simp add: rows_of_def pad_def take_Cons' replicate_append_same numeral_eq_Suc)
  then show ?thesis using split_loop_words[of "[]" "[]" s] by (simp add: SplitInstruction_def words_fit_def Let_def)
qed

lemma words_join: "ws \<noteq> [] \<Longrightarrow> \<forall>w \<in> set ws. 32 \<notin> set w \<Longrightarrow> words (join_sp ws) = ws"
proof (induction ws rule: join_sp.induct)
  case (2 w)
  then have "32 \<notin> set w" by simp
  then show ?case by (induction w) auto
next
  case (3 w v ws)
  have "32 \<notin> set w \<Longrightarrow> words (w @ 32 # r) = w # words r" for r by (induction w) auto
  then show ?case using 3 by simp
qed simp

section \<open>What a word means\<close>

definition lower :: "wstr \<Rightarrow> wstr" where
  "lower w = map to_lower w"

definition direction_of :: "wstr \<Rightarrow> wstr" where
  "direction_of w = (if lower w = wide ''down'' then [0x5411, 0x4E0B] else if lower w = wide ''up'' then [0x5411, 0x4E0A]
     else if lower w = wide ''left'' then [0x5411, 0x5DE6] else if lower w = wide ''right'' then [0x5411, 0x53F3]
     else [0x672A, 0x77E5, 0x65B9, 0x5411])"

definition action_of :: "wstr \<Rightarrow> wstr" where
  "action_of w = (if lower w = wide ''move'' then [0x79FB, 0x52A8] else if lower w = wide ''walk'' then [0x884C, 0x8D70]
     else [0x672A, 0x77E5, 0x52A8, 0x4F5C])"

definition sentence_of :: "wstr \<Rightarrow> wstr \<Rightarrow> wstr \<Rightarrow> wstr" where
  "sentence_of d a m = direction_of d @ action_of a @ m @ [0x7C73]"

definition plain_word :: "wstr \<Rightarrow> bool" where
  "plain_word w \<longleftrightarrow> 0 < length w \<and> length w < 10 \<and> 0 \<notin> set w \<and> 32 \<notin> set w"

lemma to_lower_0: "to_lower c = 0 \<longleftrightarrow> c = 0"
  by (auto simp: to_lower_def)

lemma to_lower_zero [simp]: "to_lower 0 = 0" "to_lower 0 = to_lower c \<longleftrightarrow> c = 0" "to_lower c = to_lower 0 \<longleftrightarrow> c = 0" "0 < to_lower c \<longleftrightarrow> 0 < c"
  by (auto simp: to_lower_def)

lemma same_word_eq:
  "0 \<notin> set w \<Longrightarrow> 0 \<notin> set v \<Longrightarrow> same_word (w @ 0 # r) (v @ [0]) = Inr (map to_lower w = map to_lower v)"
proof (induction w arbitrary: v)
  case Nil
  then show ?case by (cases v) auto
next
  case (Cons c w)
  then show ?case by (cases v) auto
qed

lemma pad_terminated: "plain_word w \<Longrightarrow> pad w = w @ 0 # replicate (9 - length w) 0"
  by (auto simp: plain_word_def pad_def Suc_diff_Suc simp flip: replicate_Suc)

lemma c_string_pad: "plain_word w \<Longrightarrow> c_string (pad w) = Inr w"
proof -
  have "0 \<notin> set w \<Longrightarrow> c_string (w @ 0 # r) = Inr w" for r by (induction w) auto
  then show "plain_word w \<Longrightarrow> c_string (pad w) = Inr w" by (simp add: pad_terminated) (simp add: plain_word_def)
qed

lemma wcscasecmp_pad:
  assumes "plain_word w" and "0 \<notin> set (wide s)" and "map to_lower (wide s) = wide s"
  shows "wcscasecmp (Some (pad w)) s = Inr (lower w = wide s)"
  using same_word_eq[of w "wide s" "replicate (9 - length w) 0"] assms
  by (simp add: wcscasecmp_def pad_terminated lower_def) (simp add: plain_word_def)

lemma literals:
  "0 \<notin> set (wide ''down'')" "map to_lower (wide ''down'') = wide ''down''"
  "0 \<notin> set (wide ''up'')" "map to_lower (wide ''up'') = wide ''up''"
  "0 \<notin> set (wide ''left'')" "map to_lower (wide ''left'') = wide ''left''"
  "0 \<notin> set (wide ''right'')" "map to_lower (wide ''right'') = wide ''right''"
  "0 \<notin> set (wide ''move'')" "map to_lower (wide ''move'') = wide ''move''"
  "0 \<notin> set (wide ''walk'')" "map to_lower (wide ''walk'') = wide ''walk''"
  "0 \<notin> set (wide ''and'')" "map to_lower (wide ''and'') = wide ''and''"
  by (simp_all add: wide_def to_lower_def)

lemmas compare_literals = wcscasecmp_pad[OF _ literals(1,2)] wcscasecmp_pad[OF _ literals(3,4)] wcscasecmp_pad[OF _ literals(5,6)]
  wcscasecmp_pad[OF _ literals(7,8)] wcscasecmp_pad[OF _ literals(9,10)] wcscasecmp_pad[OF _ literals(11,12)] wcscasecmp_pad[OF _ literals(13,14)]

lemma node_texts:
  "plain_word w \<Longrightarrow> direction_text (Some (pad w)) = Inr (direction_of w)"
  "plain_word w \<Longrightarrow> action_text (Some (pad w)) = Inr (action_of w)"
  "plain_word w \<Longrightarrow> distance_text (Some (pad w)) = Inr (w @ [0x7C73])"
  by (simp_all add: direction_text_def action_text_def distance_text_def compare_literals direction_of_def action_of_def c_string_pad
      del: append.simps)


section \<open>Instructions\<close>

text \<open>An instruction is a sequence of phrases: a sentence, or \<^verbatim>\<open>and\<close> with a sentence.\<close>

datatype phrase = Sentence wstr wstr wstr | AndSentence wstr wstr wstr

fun phrase_words :: "phrase \<Rightarrow> wstr list" where
  "phrase_words (Sentence d a m) = [d, a, m]"
| "phrase_words (AndSentence d a m) = [wide ''and'', d, a, m]"

fun phrase_text :: "phrase \<Rightarrow> wstr" where
  "phrase_text (Sentence d a m) = sentence_of d a m"
| "phrase_text (AndSentence d a m) = sentence_of d a m"

fun is_and :: "phrase \<Rightarrow> bool" where
  "is_and (Sentence d a m) \<longleftrightarrow> False"
| "is_and (AndSentence d a m) \<longleftrightarrow> True"

definition phrase_ok :: "phrase \<Rightarrow> bool" where
  "phrase_ok p \<longleftrightarrow> list_all plain_word (phrase_words p) \<and> (\<not> is_and p \<longrightarrow> lower (hd (phrase_words p)) \<noteq> wide ''and'')"

definition instruction_words :: "phrase list \<Rightarrow> wstr list" where
  "instruction_words ps = concat (map phrase_words ps)"

text \<open>What the program makes of an instruction: the last phrase alone, or, when that starts with \<^verbatim>\<open>and\<close>, the last sentence
  without \<^verbatim>\<open>and\<close> and it.\<close>

definition meaning :: "phrase list \<Rightarrow> wstr result" where
  "meaning ps = (if \<not> is_and (last ps) then Inr (phrase_text (last ps))
     else if filter (Not \<circ> is_and) ps = [] then Inl NullDeref
     else Inr (phrase_text (last (filter (Not \<circ> is_and) ps)) @ phrase_text (last ps)))"

definition sentence_node :: "wstr \<Rightarrow> wstr \<Rightarrow> wstr \<Rightarrow> AbstractNode" where
  "sentence_node d a m = SentenceNode (DirectionNode (Some (pad d))) (ActionNode (Some (pad a))) (DistanceNode (Some (pad m)))"

fun phrase_node :: "phrase \<Rightarrow> AbstractNode" where
  "phrase_node (Sentence d a m) = sentence_node d a m"
| "phrase_node (AndSentence d a m) = sentence_node d a m"

definition left_after :: "AbstractNode option \<Rightarrow> phrase list \<Rightarrow> AbstractNode option" where
  "left_after l ps = (case filter (Not \<circ> is_and) ps of [] \<Rightarrow> l | qs \<Rightarrow> Some (phrase_node (last qs)))"

fun build :: "AbstractNode option \<Rightarrow> phrase list \<Rightarrow> AbstractNode list" where
  "build l [] = []"
| "build l (p # ps) = (if is_and p then AndNode l (phrase_node p) # build l ps
     else phrase_node p # build (Some (phrase_node p)) ps)"

lemma rows_of_nth: "i < length ws \<Longrightarrow> length ws \<le> 10 \<Longrightarrow> word_at (rows_of ws) i = Inr (Some (pad (ws ! i)))"
  by (simp add: word_at_def rows_of_def nth_append)

lemma sentence_at_words:
  "length (xs @ d # a # m # ys) \<le> 10 \<Longrightarrow>
     sentence_at (rows_of (xs @ d # a # m # ys)) (length xs) = Inr (sentence_node d a m)"
  by (simp add: sentence_at_def rows_of_nth sentence_node_def nth_append)

lemma handle_loop_phrases:
  "list_all phrase_ok ps \<Longrightarrow> length (pre @ instruction_words ps) \<le> 10 \<Longrightarrow>
   handle_loop (rows_of (pre @ instruction_words ps)) (length (pre @ instruction_words ps)) (length pre) l node =
     Inr (node @ build l ps)"
proof (induction ps arbitrary: pre l node)
  case Nil
  then show ?case by (simp add: instruction_words_def handle_loop.simps)
next
  case (Cons p ps)
  let ?rest = "instruction_words ps" and ?ws = "pre @ instruction_words (p # ps)"
  have ok: "list_all phrase_ok ps" "phrase_ok p" using Cons.prems(1) by auto
  show ?case
  proof (cases p)
    case (Sentence d a m)
    have ws: "?ws = pre @ d # a # m # ?rest" "?ws = (pre @ [d, a, m]) @ ?rest" by (simp_all add: instruction_words_def Sentence)
    have w: "word_at (rows_of ?ws) (length pre) = Inr (Some (pad d))" "length pre < length ?ws"
      using Cons.prems(2) ws(1) by (simp_all add: rows_of_nth nth_append)
    have c: "wcscasecmp (Some (pad d)) ''and'' = Inr False"
      using ok(2) Sentence compare_literals(7)[of d] by (simp add: phrase_ok_def)
    have s: "sentence_at (rows_of ?ws) (length pre) = Inr (sentence_node d a m)"
      using sentence_at_words[of pre d a m ?rest] Cons.prems(2) ws(1) by simp
    have "handle_loop (rows_of ?ws) (length ?ws) (length (pre @ [d, a, m])) (Some (sentence_node d a m)) (node @ [sentence_node d a m]) =
        Inr ((node @ [sentence_node d a m]) @ build (Some (sentence_node d a m)) ps)"
      unfolding ws(2) by (rule Cons.IH[OF ok(1)]) (use Cons.prems(2) ws(2) in simp)
    then show ?thesis using w c s Sentence by (subst handle_loop.simps) (simp add: eval_nat_numeral)
  next
    case (AndSentence d a m)
    have ws: "?ws = pre @ wide ''and'' # d # a # m # ?rest" "?ws = (pre @ [wide ''and'', d, a, m]) @ ?rest"
      "?ws = (pre @ [wide ''and'']) @ d # a # m # ?rest"
      by (simp_all add: instruction_words_def AndSentence)
    have w: "word_at (rows_of ?ws) (length pre) = Inr (Some (pad (wide ''and'')))" "length pre < length ?ws"
      using Cons.prems(2) ws(1) by (simp_all add: rows_of_nth nth_append)
    have c: "wcscasecmp (Some (pad (wide ''and''))) ''and'' = Inr True"
      using ok(2) AndSentence compare_literals(7)[of "wide ''and''"] literals(14) by (simp add: phrase_ok_def lower_def)
    have s: "sentence_at (rows_of ?ws) (length pre + 1) = Inr (sentence_node d a m)"
      using sentence_at_words[of "pre @ [wide ''and'']" d a m ?rest] Cons.prems(2) unfolding ws(3) by simp
    have "handle_loop (rows_of ?ws) (length ?ws) (length (pre @ [wide ''and'', d, a, m])) l (node @ [AndNode l (sentence_node d a m)]) =
        Inr ((node @ [AndNode l (sentence_node d a m)]) @ build l ps)"
      unfolding ws(2) by (rule Cons.IH[OF ok(1)]) (use Cons.prems(2) ws(2) in simp)
    then show ?thesis using w c s AndSentence by (subst handle_loop.simps) (simp add: eval_nat_numeral)
  qed
qed

lemma build_append: "build l (ps @ qs) = build l ps @ build (left_after l ps) qs"
  by (induction ps arbitrary: l) (auto simp: left_after_def split: list.splits)

lemma Output_sentence:
  "phrase_ok p \<Longrightarrow> Output (phrase_node p) = Inr (phrase_text p)"
  by (cases p) (auto simp: Output_def phrase_ok_def sentence_node_def node_texts sentence_of_def)

lemma Output_and:
  "phrase_ok p \<Longrightarrow> phrase_ok q \<Longrightarrow> Output (AndNode (Some (phrase_node p)) (phrase_node q)) = Inr (phrase_text p @ phrase_text q)"
  by (cases p; cases q) (auto simp: Output_def phrase_ok_def sentence_node_def node_texts sentence_of_def)

lemma Output_build:
  assumes "list_all phrase_ok ps" and "ps \<noteq> []"
  shows "Output (last (build None ps)) = meaning ps"
proof -
  obtain qs q where ps: "ps = qs @ [q]" using assms(2) by (cases ps rule: rev_cases) auto
  have q: "phrase_ok q" using assms(1) ps by simp
  show ?thesis
  proof (cases "is_and q")
    case False
    then show ?thesis using Output_sentence[OF q] by (simp add: ps build_append meaning_def)
  next
    case True
    show ?thesis
    proof (cases "filter (Not \<circ> is_and) qs")
      case Nil
      then show ?thesis using True by (simp add: ps build_append meaning_def left_after_def Output_def)
    next
      case (Cons r rs)
      then have "last (r # rs) \<in> set (filter (Not \<circ> is_and) qs)" by simp
      then have "phrase_ok (last (r # rs))" using assms(1) ps by (auto simp: list_all_iff)
      from Output_and[OF this q] Cons True show ?thesis by (simp add: ps build_append meaning_def left_after_def)
    qed
  qed
qed

section \<open>Properties\<close>

text \<open>C22: The interpreter is exact on instructions of up to ten words. For every sequence of phrases whose words have one to nine
  characters and whose sentences do not begin with \<^verbatim>\<open>and\<close>: with at most ten words the program prints the text of the last
  phrase, preceded by that of the last sentence without \<^verbatim>\<open>and\<close> when the last phrase has one, and follows a null pointer when
  there is no such sentence; with more than ten words it writes behind its array.\<close>

theorem interpreter_exact:
  assumes "ps \<noteq> []" and "list_all phrase_ok ps"
  shows "interpret_text (join_sp (instruction_words ps)) =
    (if length (instruction_words ps) \<le> 10 then meaning ps else Inl OutOfBounds)"
proof -
  let ?ws = "instruction_words ps"
  have pl: "\<forall>w \<in> set ?ws. plain_word w" using assms(2) by (auto simp: instruction_words_def phrase_ok_def list_all_iff)
  have ne: "?ws \<noteq> []" using assms(1) by (cases ps; cases "hd ps") (auto simp: instruction_words_def)
  have w: "words (join_sp ?ws) = ?ws" by (rule words_join[OF ne]) (use pl in \<open>auto simp: plain_word_def\<close>)
  have fit: "words_fit ?ws \<longleftrightarrow> length ?ws \<le> 10"
  proof
    assume f: "words_fit ?ws"
    show "length ?ws \<le> 10"
    proof (rule ccontr)
      assume "\<not> length ?ws \<le> 10"
      then obtain v where "v \<in> set (drop 10 ?ws)" by (cases "drop 10 ?ws") auto
      then show False using f pl by (auto simp: words_fit_def plain_word_def dest: in_set_dropD)
    qed
  qed (use pl in \<open>auto simp: words_fit_def plain_word_def\<close>)
  show ?thesis
  proof (cases "length ?ws \<le> 10")
    case True
    have "handle_loop (rows_of ?ws) (length ?ws) 0 None [] = Inr (build None ps)"
      using handle_loop_phrases[of ps "[]" None "[]"] assms(2) True by simp
    moreover have "build None ps \<noteq> []" using assms(1) by (cases ps) auto
    ultimately show ?thesis using Output_build[OF assms(2,1)] True fit w
      by (simp add: interpret_text_def Handle_def SplitInstruction_words)
  next
    case False
    then show ?thesis using fit w by (simp add: interpret_text_def Handle_def SplitInstruction_words)
  qed
qed

theorem interpreter_exact_witness:
  "interpret_text (wide ''up move 5 and down walk 10'') =
     Inr ([0x5411, 0x4E0A, 0x79FB, 0x52A8] @ wide ''5'' @ [0x7C73] @ [0x5411, 0x4E0B, 0x884C, 0x8D70] @ wide ''10'' @ [0x7C73]) \<and>
   interpret_text (wide ''up move 5 down walk 10'') = Inr ([0x5411, 0x4E0B, 0x884C, 0x8D70] @ wide ''10'' @ [0x7C73])"
proof -
  let ?s = "Sentence (wide ''up'') (wide ''move'') (wide ''5'')"
  let ?t = "Sentence (wide ''down'') (wide ''walk'') (wide ''10'')"
  let ?a = "AndSentence (wide ''down'') (wide ''walk'') (wide ''10'')"
  note defs = wide_def phrase_ok_def plain_word_def lower_def to_lower_def instruction_words_def meaning_def sentence_of_def
    direction_of_def action_of_def
  show ?thesis
    using interpreter_exact[of "[?s, ?a]"] interpreter_exact[of "[?s, ?t]"] by (simp add: defs)
qed

end
