(* ===== verification/Perf_Setup.thy ===== *)
theory Perf_Setup
  imports Decimal
begin

text \<open>
  Set-up and teardown of the four programs of the performance tests (\<^verbatim>\<open>src/other/pubsub/dds/performance\<close>): the
  \<^verbatim>\<open>init\<close> functions, the destructors and \<^verbatim>\<open>destroy_user_entities\<close>, with static types, and for the latency test the
  endpoints of each payload. Which DDS calls fail is a parameter, as are the quality of service that a profile holds,
  the host name and what the library does when it is asked to delete a null pointer. DDS deletes an entity only when
  nothing belongs to it any more; that is what its documentation says and what the model does. Property policies,
  names of participants and the settings that are the same for every configuration are left out.
\<close>

datatype EnablerValue = NO_SET | ON | OFF

record setup_options =
  opt_reliable :: bool
  opt_pid :: "32 word"
  opt_hostname :: bool
  opt_xml :: bool
  opt_data_sharing :: EnablerValue
  opt_data_loans :: bool
  opt_shared_memory :: EnablerValue
  opt_forced_domain :: int

datatype dds_call = ParticipantProfile | CreateParticipant | RegisterCommand | CreatePublisher | CreateSubscriber
  | WriterProfile | ReaderProfile | CreateSubTopic | CreatePubTopic | CreateReader | CreateWriter
  | FindData | RegisterData | CreateDataPubTopic | CreateDataSubTopic | CreateDataWriter | CreateDataReader
  | DeleteDataWriter | DeleteDataReader | DeleteDataPubTopic | DeleteDataSubTopic | UnregisterData

datatype transport = SharedMem | UDPv4

record transports =
  use_builtin :: bool
  user_transports :: "transport list"

record data_qos =
  q_reliable :: bool
  q_short_times :: bool
  q_sharing :: EnablerValue
  q_realloc :: bool
  q_extra_samples :: "int option"

text \<open>The members that point to entities; an endpoint remembers the name of its topic.\<close>

record perf_app =
  ready :: bool
  participant :: "(32 word \<times> transports) option"
  publisher :: bool
  subscriber :: bool
  dw_qos :: data_qos
  dr_qos :: data_qos
  command_sub_topic :: "string option"
  command_pub_topic :: "string option"
  command_reader :: "string option"
  command_writer :: "string option"
  data_type :: "32 word option"
  data_pub_topic :: "string option"
  data_sub_topic :: "string option"
  data_writer :: "string option"
  data_reader :: "string option"

definition new_app :: "data_qos \<Rightarrow> data_qos \<Rightarrow> perf_app" where
  "new_app w r = \<lparr>ready = True, participant = None, publisher = False, subscriber = False, dw_qos = w, dr_qos = r,
     command_sub_topic = None, command_pub_topic = None, command_reader = None, command_writer = None, data_type = None,
     data_pub_topic = None, data_sub_topic = None, data_writer = None, data_reader = None\<rparr>"

section \<open>What the configuration asks for\<close>

definition domain_of :: "setup_options \<Rightarrow> 32 word" where
  "domain_of o1 = (if 0 \<le> opt_forced_domain o1 then of_int (opt_forced_domain o1) else opt_pid o1 mod 230)"

definition transports_of :: "setup_options \<Rightarrow> transports" where
  "transports_of o1 = (case opt_shared_memory o1 of
     NO_SET \<Rightarrow> \<lparr>use_builtin = True, user_transports = []\<rparr>
   | ON \<Rightarrow> \<lparr>use_builtin = False, user_transports = [SharedMem, UDPv4]\<rparr>
   | OFF \<Rightarrow> \<lparr>use_builtin = False, user_transports = [UDPv4]\<rparr>)"

definition topic_name :: "string \<Rightarrow> string \<Rightarrow> setup_options \<Rightarrow> string \<Rightarrow> string" where
  "topic_name prefix host o1 suffix = prefix @ (if opt_hostname o1 then host @ ''_'' else []) @ show_nat (unat (opt_pid o1)) @ suffix"

definition PUB2SUB :: string where "PUB2SUB = ''_PUB2SUB''"
definition SUB2PUB :: string where "SUB2PUB = ''_SUB2PUB''"

definition throughput_command_topic :: "string \<Rightarrow> setup_options \<Rightarrow> string \<Rightarrow> string" where
  "throughput_command_topic = topic_name ''ThroughputTest_Command_''"

definition latency_command_topic :: "string \<Rightarrow> setup_options \<Rightarrow> string \<Rightarrow> string" where
  "latency_command_topic = topic_name ''LatencyTest_Command_''"

definition latency_data_topic :: "string \<Rightarrow> setup_options \<Rightarrow> string \<Rightarrow> string" where
  "latency_data_topic = topic_name ''LatencyTest_''"

definition set_sharing :: "EnablerValue \<Rightarrow> data_qos \<Rightarrow> data_qos" where
  "set_sharing v q = (if v = NO_SET then q else q\<lparr>q_sharing := v\<rparr>)"

section \<open>Steps that can fail\<close>

type_synonym 'e step = "'e \<Rightarrow> bool \<times> 'e"

text \<open>A function that returns false at the first step that fails.\<close>

fun run_steps :: "'e step list \<Rightarrow> 'e step" where
  "run_steps [] e = (True, e)"
| "run_steps (s # ss) e = (case s e of (ok, e1) \<Rightarrow> if ok then run_steps ss e1 else (False, e1))"

definition make :: "(dds_call \<Rightarrow> bool) \<Rightarrow> dds_call \<Rightarrow> ('e \<Rightarrow> 'e) \<Rightarrow> 'e step" where
  "make fails c upd e = (if fails c then (False, e) else (True, upd e))"

definition need_profile :: "(dds_call \<Rightarrow> bool) \<Rightarrow> setup_options \<Rightarrow> dds_call \<Rightarrow> ('e \<Rightarrow> 'e) \<Rightarrow> 'e step" where
  "need_profile fails o1 c upd e = (if opt_xml o1 then (if fails c then (False, e) else (True, upd e)) else (True, e))"

text \<open>Participant, command type, publisher and subscriber, as all four programs create them. \<open>bad\<close> is what a failed
  creation of the participant leaves in \<^verbatim>\<open>ready_\<close>.\<close>

definition common_steps :: "(dds_call \<Rightarrow> bool) \<Rightarrow> bool \<Rightarrow> setup_options \<Rightarrow> perf_app step list" where
  "common_steps fails bad o1 =
     [need_profile fails o1 ParticipantProfile id,
      \<lambda>e. if fails CreateParticipant then (False, e\<lparr>ready := bad\<rparr>)
          else (True, e\<lparr>participant := Some (domain_of o1, transports_of o1)\<rparr>),
      make fails RegisterCommand id,
      make fails CreatePublisher (\<lambda>e. e\<lparr>publisher := True\<rparr>),
      make fails CreateSubscriber (\<lambda>e. e\<lparr>subscriber := True\<rparr>)]"

section \<open>Throughput test\<close>

definition throughput_writer_qos :: "setup_options \<Rightarrow> data_qos \<Rightarrow> data_qos" where
  "throughput_writer_qos o1 q = set_sharing (opt_data_sharing o1)
     (if opt_reliable o1 then q\<lparr>q_reliable := True, q_short_times := True\<rparr> else q\<lparr>q_reliable := False\<rparr>)"

definition throughput_reader_qos :: "setup_options \<Rightarrow> data_qos \<Rightarrow> data_qos" where
  "throughput_reader_qos o1 q = set_sharing (opt_data_sharing o1) (q\<lparr>q_reliable := opt_reliable o1\<rparr>)"

definition ThroughputPublisher_init ::
  "(dds_call \<Rightarrow> bool) \<Rightarrow> string \<Rightarrow> data_qos \<Rightarrow> setup_options \<Rightarrow> perf_app step" where
  "ThroughputPublisher_init fails host profile o1 = run_steps (common_steps fails False o1 @
     [need_profile fails o1 WriterProfile (\<lambda>e. e\<lparr>dw_qos := profile\<rparr>),
      \<lambda>e. (True, e\<lparr>dw_qos := throughput_writer_qos o1 (dw_qos e)\<rparr>),
      make fails CreateSubTopic (\<lambda>e. e\<lparr>command_sub_topic := Some (throughput_command_topic host o1 SUB2PUB)\<rparr>),
      make fails CreatePubTopic (\<lambda>e. e\<lparr>command_pub_topic := Some (throughput_command_topic host o1 PUB2SUB)\<rparr>),
      make fails CreateReader (\<lambda>e. e\<lparr>command_reader := command_sub_topic e\<rparr>),
      make fails CreateWriter (\<lambda>e. e\<lparr>command_writer := command_pub_topic e\<rparr>)])"

definition ThroughputSubscriber_init ::
  "(dds_call \<Rightarrow> bool) \<Rightarrow> string \<Rightarrow> data_qos \<Rightarrow> setup_options \<Rightarrow> perf_app step" where
  "ThroughputSubscriber_init fails host profile o1 = run_steps (common_steps fails True o1 @
     [need_profile fails o1 ReaderProfile (\<lambda>e. e\<lparr>dr_qos := profile\<rparr>),
      \<lambda>e. (True, e\<lparr>dr_qos := throughput_reader_qos o1 (dr_qos e)\<rparr>),
      make fails CreateSubTopic (\<lambda>e. e\<lparr>command_sub_topic := Some (throughput_command_topic host o1 PUB2SUB)\<rparr>),
      make fails CreatePubTopic (\<lambda>e. e\<lparr>command_pub_topic := Some (throughput_command_topic host o1 SUB2PUB)\<rparr>),
      make fails CreateReader (\<lambda>e. e\<lparr>command_reader := command_sub_topic e\<rparr>),
      make fails CreateWriter (\<lambda>e. e\<lparr>command_writer := command_pub_topic e\<rparr>)])"

section \<open>Latency test\<close>

definition latency_default_qos :: "bool \<Rightarrow> setup_options \<Rightarrow> data_qos \<Rightarrow> data_qos" where
  "latency_default_qos writer o1 q = (if writer \<and> opt_reliable o1 then q\<lparr>q_short_times := True\<rparr> else q)
     \<lparr>q_reliable := opt_reliable o1, q_realloc := True\<rparr>"

definition latency_sharing_qos :: "setup_options \<Rightarrow> data_qos \<Rightarrow> data_qos" where
  "latency_sharing_qos o1 q = (let q1 = set_sharing (opt_data_sharing o1) q in
     if opt_data_loans o1 then q1\<lparr>q_extra_samples := Some 30\<rparr> else q1)"

text \<open>A reader profile that is missing is only logged by the publisher; \<open>strict\<close> says that it ends the function.\<close>

definition latency_qos_step ::
  "(dds_call \<Rightarrow> bool) \<Rightarrow> bool \<Rightarrow> data_qos \<Rightarrow> data_qos \<Rightarrow> setup_options \<Rightarrow> perf_app step" where
  "latency_qos_step fails strict wp rp o1 e =
     (if opt_xml o1 then
        if fails WriterProfile then (False, e)
        else let e1 = e\<lparr>dw_qos := wp\<rparr> in
          if fails ReaderProfile then (\<not> strict, e1) else (True, e1\<lparr>dr_qos := rp\<rparr>)
      else (True, e\<lparr>dw_qos := latency_default_qos True o1 (dw_qos e), dr_qos := latency_default_qos False o1 (dr_qos e)\<rparr>))"

definition LatencyTestPublisher_init ::
  "(dds_call \<Rightarrow> bool) \<Rightarrow> string \<Rightarrow> data_qos \<Rightarrow> data_qos \<Rightarrow> setup_options \<Rightarrow> perf_app step" where
  "LatencyTestPublisher_init fails host wp rp o1 = run_steps (common_steps fails True o1 @
     [latency_qos_step fails False wp rp o1,
      \<lambda>e. (True, e\<lparr>dw_qos := latency_sharing_qos o1 (dw_qos e), dr_qos := latency_sharing_qos o1 (dr_qos e)\<rparr>),
      make fails CreatePubTopic (\<lambda>e. e\<lparr>command_pub_topic := Some (latency_command_topic host o1 PUB2SUB)\<rparr>),
      make fails CreateSubTopic (\<lambda>e. e\<lparr>command_sub_topic := Some (latency_command_topic host o1 SUB2PUB)\<rparr>),
      make fails CreateWriter (\<lambda>e. e\<lparr>command_writer := command_pub_topic e\<rparr>),
      make fails CreateReader (\<lambda>e. e\<lparr>command_reader := command_sub_topic e\<rparr>)])"

definition LatencyTestSubscriber_init ::
  "(dds_call \<Rightarrow> bool) \<Rightarrow> string \<Rightarrow> data_qos \<Rightarrow> data_qos \<Rightarrow> setup_options \<Rightarrow> perf_app step" where
  "LatencyTestSubscriber_init fails host wp rp o1 = run_steps (common_steps fails True o1 @
     [latency_qos_step fails True wp rp o1,
      \<lambda>e. (True, e\<lparr>dw_qos := latency_sharing_qos o1 (dw_qos e), dr_qos := latency_sharing_qos o1 (dr_qos e)\<rparr>),
      make fails CreateSubTopic (\<lambda>e. e\<lparr>command_sub_topic := Some (latency_command_topic host o1 PUB2SUB)\<rparr>),
      make fails CreatePubTopic (\<lambda>e. e\<lparr>command_pub_topic := Some (latency_command_topic host o1 SUB2PUB)\<rparr>),
      make fails CreateWriter (\<lambda>e. e\<lparr>command_writer := command_pub_topic e\<rparr>),
      make fails CreateReader (\<lambda>e. e\<lparr>command_reader := command_sub_topic e\<rparr>)])"


text \<open>The type and the endpoints of one payload. \<open>ov\<close> is the size of the fixed part of a sample.\<close>

definition init_static_types :: "(dds_call \<Rightarrow> bool) \<Rightarrow> 32 word \<Rightarrow> 32 word \<Rightarrow> perf_app step" where
  "init_static_types fails ov payload e =
     (if data_type e \<noteq> None then (False, e)
      else if fails FindData then (False, e)
      else let e1 = e\<lparr>data_type := Some (payload - ov)\<rparr> in if fails RegisterData then (False, e1) else (True, e1))"

definition nothing_yet :: "perf_app step" where
  "nothing_yet e = (data_pub_topic e = None \<and> data_sub_topic e = None \<and> data_writer e = None \<and> data_reader e = None, e)"

definition publisher_data_endpoints :: "(dds_call \<Rightarrow> bool) \<Rightarrow> string \<Rightarrow> setup_options \<Rightarrow> perf_app step" where
  "publisher_data_endpoints fails host o1 = run_steps
     [nothing_yet,
      make fails CreateDataPubTopic (\<lambda>e. e\<lparr>data_pub_topic := Some (latency_data_topic host o1 PUB2SUB)\<rparr>),
      make fails CreateDataSubTopic (\<lambda>e. e\<lparr>data_sub_topic := Some (latency_data_topic host o1 SUB2PUB)\<rparr>),
      make fails CreateDataWriter (\<lambda>e. e\<lparr>data_writer := data_pub_topic e\<rparr>),
      make fails CreateDataReader (\<lambda>e. e\<lparr>data_reader := data_sub_topic e\<rparr>)]"

definition subscriber_data_endpoints :: "(dds_call \<Rightarrow> bool) \<Rightarrow> string \<Rightarrow> setup_options \<Rightarrow> perf_app step" where
  "subscriber_data_endpoints fails host o1 = run_steps
     [nothing_yet,
      make fails CreateDataSubTopic (\<lambda>e. e\<lparr>data_sub_topic := Some (latency_data_topic host o1 PUB2SUB)\<rparr>),
      make fails CreateDataPubTopic (\<lambda>e. e\<lparr>data_pub_topic := Some (latency_data_topic host o1 SUB2PUB)\<rparr>),
      make fails CreateDataWriter (\<lambda>e. e\<lparr>data_writer := data_pub_topic e\<rparr>),
      make fails CreateDataReader (\<lambda>e. e\<lparr>data_reader := data_sub_topic e\<rparr>)]"

text \<open>Deleting one of them: an error when the pointer is null or the call fails.\<close>

definition unmake :: "(dds_call \<Rightarrow> bool) \<Rightarrow> dds_call \<Rightarrow> ('e \<Rightarrow> 'a option) \<Rightarrow> ('e \<Rightarrow> 'e) \<Rightarrow> 'e step" where
  "unmake fails c sel upd e = (if sel e = None \<or> fails c then (False, e) else (True, upd e))"

definition destroy_data_endpoints :: "(dds_call \<Rightarrow> bool) \<Rightarrow> perf_app step" where
  "destroy_data_endpoints fails = run_steps
     [unmake fails DeleteDataWriter data_writer (\<lambda>e. e\<lparr>data_writer := None\<rparr>),
      unmake fails DeleteDataReader data_reader (\<lambda>e. e\<lparr>data_reader := None\<rparr>),
      unmake fails DeleteDataPubTopic data_pub_topic (\<lambda>e. e\<lparr>data_pub_topic := None\<rparr>),
      unmake fails DeleteDataSubTopic data_sub_topic (\<lambda>e. e\<lparr>data_sub_topic := None\<rparr>),
      make fails UnregisterData (\<lambda>e. e\<lparr>data_type := None\<rparr>)]"

section \<open>Teardown\<close>

text \<open>A call through a pointer; \<open>nul\<close> is what the library does with a null argument, \<open>None\<close> when it just reports an error.\<close>

definition via :: "bool \<Rightarrow> cpp_error option \<Rightarrow> bool \<Rightarrow> (perf_app \<Rightarrow> perf_app) \<Rightarrow> perf_app \<Rightarrow> perf_app result" where
  "via owner nul arg f e = (if \<not> owner then Inl NullDeref
     else if \<not> arg then (case nul of None \<Rightarrow> Inr e | Some err \<Rightarrow> Inl err) else Inr (f e))"

definition delete_command_reader :: "cpp_error option \<Rightarrow> perf_app \<Rightarrow> perf_app result" where
  "delete_command_reader nul e = via (subscriber e) nul (command_reader e \<noteq> None) (\<lambda>e. e\<lparr>command_reader := None\<rparr>) e"

definition delete_subscriber :: "cpp_error option \<Rightarrow> perf_app \<Rightarrow> perf_app result" where
  "delete_subscriber nul e = via (participant e \<noteq> None) nul (subscriber e)
     (\<lambda>e. if command_reader e = None \<and> data_reader e = None then e\<lparr>subscriber := False\<rparr> else e) e"

definition delete_command_writer :: "cpp_error option \<Rightarrow> perf_app \<Rightarrow> perf_app result" where
  "delete_command_writer nul e = via (publisher e) nul (command_writer e \<noteq> None) (\<lambda>e. e\<lparr>command_writer := None\<rparr>) e"

definition delete_publisher :: "cpp_error option \<Rightarrow> perf_app \<Rightarrow> perf_app result" where
  "delete_publisher nul e = via (participant e \<noteq> None) nul (publisher e)
     (\<lambda>e. if command_writer e = None \<and> data_writer e = None then e\<lparr>publisher := False\<rparr> else e) e"

definition delete_sub_topic :: "cpp_error option \<Rightarrow> perf_app \<Rightarrow> perf_app result" where
  "delete_sub_topic nul e = via (participant e \<noteq> None) nul (command_sub_topic e \<noteq> None)
     (\<lambda>e. if command_reader e = None then e\<lparr>command_sub_topic := None\<rparr> else e) e"

definition delete_pub_topic :: "cpp_error option \<Rightarrow> perf_app \<Rightarrow> perf_app result" where
  "delete_pub_topic nul e = via (participant e \<noteq> None) nul (command_pub_topic e \<noteq> None)
     (\<lambda>e. if command_writer e = None then e\<lparr>command_pub_topic := None\<rparr> else e) e"

definition no_children :: "perf_app \<Rightarrow> bool" where
  "no_children e \<longleftrightarrow> \<not> publisher e \<and> \<not> subscriber e \<and> command_sub_topic e = None \<and> command_pub_topic e = None \<and>
     data_pub_topic e = None \<and> data_sub_topic e = None"

definition delete_participant :: "cpp_error option \<Rightarrow> perf_app \<Rightarrow> perf_app result" where
  "delete_participant nul e = via True nul (participant e \<noteq> None)
     (\<lambda>e. if no_children e then e\<lparr>participant := None\<rparr> else e) e"

definition command_teardown :: "cpp_error option \<Rightarrow> perf_app \<Rightarrow> perf_app result" where
  "command_teardown nul e =
     rbind (delete_command_reader nul e) (\<lambda>e. rbind (delete_subscriber nul e) (\<lambda>e.
     rbind (delete_command_writer nul e) (\<lambda>e. rbind (delete_publisher nul e) (\<lambda>e.
     rbind (delete_sub_topic nul e) (delete_pub_topic nul)))))"

text \<open>The destructors of the throughput test; \<open>data\<close> is the pointer to the data writer of the publisher or to the data
  reader of the subscriber, \<open>topic\<close> the one to the data topic.\<close>

definition throughput_dtor ::
  "(perf_app \<Rightarrow> string option) \<Rightarrow> (perf_app \<Rightarrow> string option) \<Rightarrow> cpp_error option \<Rightarrow> perf_app \<Rightarrow> perf_app result" where
  "throughput_dtor data topic nul e =
     (if data e \<noteq> None \<or> topic e \<noteq> None \<or> data_type e \<noteq> None then Inr e
      else rbind (command_teardown nul e) (delete_participant nul))"

definition ThroughputPublisher_dtor :: "cpp_error option \<Rightarrow> perf_app \<Rightarrow> perf_app result" where
  "ThroughputPublisher_dtor = throughput_dtor data_writer data_pub_topic"

definition ThroughputSubscriber_dtor :: "cpp_error option \<Rightarrow> perf_app \<Rightarrow> perf_app result" where
  "ThroughputSubscriber_dtor = throughput_dtor data_reader data_sub_topic"

text \<open>\<^verbatim>\<open>destroy_user_entities\<close> with static types; what it finds of the data endpoints it only reports.\<close>

definition destroy_user_entities :: "cpp_error option \<Rightarrow> perf_app \<Rightarrow> perf_app result" where
  "destroy_user_entities = command_teardown"

definition latency_dtor :: "cpp_error option \<Rightarrow> perf_app \<Rightarrow> perf_app result" where
  "latency_dtor nul e = (if participant e = None then Inl NullDeref else delete_participant nul e)"

text \<open>What \<^verbatim>\<open>main\<close> does with a program of the latency test after its \<^verbatim>\<open>init\<close>, when a run leaves no data endpoints.\<close>

definition latency_end :: "cpp_error option \<Rightarrow> bool \<times> perf_app \<Rightarrow> perf_app result" where
  "latency_end nul = (\<lambda>(ok, e). if ok then rbind (destroy_user_entities nul e) (latency_dtor nul) else latency_dtor nul e)"

text \<open>How a program ends: with an exit code, unless what is left to do at the end crashes.\<close>

datatype program_end = Exits int | Crashes cpp_error

definition exit_with :: "int \<Rightarrow> 'a result \<Rightarrow> program_end" where
  "exit_with n r = (case r of Inl err \<Rightarrow> Crashes err | Inr _ \<Rightarrow> Exits n)"

section \<open>Lemmas\<close>

lemmas teardown_defs = command_teardown_def delete_command_reader_def delete_subscriber_def delete_command_writer_def
  delete_publisher_def delete_sub_topic_def delete_pub_topic_def delete_participant_def via_def no_children_def

definition clean :: "perf_app \<Rightarrow> bool" where
  "clean e \<longleftrightarrow> participant e = None \<and> no_children e \<and> command_reader e = None \<and> command_writer e = None"

text \<open>What an \<^verbatim>\<open>init\<close> can leave behind: its entities in the order in which it makes them, up to the first failure.\<close>

definition early :: "(dds_call \<Rightarrow> bool) \<Rightarrow> setup_options \<Rightarrow> bool" where
  "early fails o1 \<longleftrightarrow> opt_xml o1 \<and> fails ParticipantProfile \<or> fails CreateParticipant \<or> fails RegisterCommand \<or>
     fails CreatePublisher \<or> fails CreateSubscriber"

definition made :: "bool \<Rightarrow> perf_app \<Rightarrow> bool" where
  "made ok e \<longleftrightarrow> data_type e = None \<and> data_writer e = None \<and> data_reader e = None \<and> data_pub_topic e = None \<and> data_sub_topic e = None \<and>
     (subscriber e \<longrightarrow> publisher e) \<and> (publisher e \<longrightarrow> participant e \<noteq> None) \<and>
     (\<not> subscriber e \<longrightarrow> command_sub_topic e = None \<and> command_pub_topic e = None) \<and>
     (command_reader e \<noteq> None \<longrightarrow> command_sub_topic e \<noteq> None) \<and> (command_writer e \<noteq> None \<longrightarrow> command_pub_topic e \<noteq> None) \<and>
     (\<not> ok \<longrightarrow> command_reader e = None \<or> command_writer e = None) \<and>
     (ok \<longrightarrow> subscriber e \<and> command_reader e \<noteq> None \<and> command_writer e \<noteq> None \<and> command_sub_topic e \<noteq> None \<and> command_pub_topic e \<noteq> None)"

lemma update_same:
  "command_reader e = None \<Longrightarrow> e\<lparr>command_reader := None\<rparr> = e" "command_writer e = None \<Longrightarrow> e\<lparr>command_writer := None\<rparr> = e"
  "command_sub_topic e = None \<Longrightarrow> e\<lparr>command_sub_topic := None\<rparr> = e" "command_pub_topic e = None \<Longrightarrow> e\<lparr>command_pub_topic := None\<rparr> = e"
  by (cases e, simp)+

text \<open>Each step, when its receiver is there and a null argument is harmless or absent.\<close>

lemma delete_steps:
  "subscriber e \<Longrightarrow> nul = None \<or> command_reader e \<noteq> None \<Longrightarrow> delete_command_reader nul e = Inr (e\<lparr>command_reader := None\<rparr>)"
  "participant e \<noteq> None \<Longrightarrow> subscriber e \<Longrightarrow> command_reader e = None \<Longrightarrow> data_reader e = None \<Longrightarrow>
     delete_subscriber nul e = Inr (e\<lparr>subscriber := False\<rparr>)"
  "publisher e \<Longrightarrow> nul = None \<or> command_writer e \<noteq> None \<Longrightarrow> delete_command_writer nul e = Inr (e\<lparr>command_writer := None\<rparr>)"
  "participant e \<noteq> None \<Longrightarrow> publisher e \<Longrightarrow> command_writer e = None \<Longrightarrow> data_writer e = None \<Longrightarrow>
     delete_publisher nul e = Inr (e\<lparr>publisher := False\<rparr>)"
  "participant e \<noteq> None \<Longrightarrow> command_reader e = None \<Longrightarrow> nul = None \<or> command_sub_topic e \<noteq> None \<Longrightarrow>
     delete_sub_topic nul e = Inr (e\<lparr>command_sub_topic := None\<rparr>)"
  "participant e \<noteq> None \<Longrightarrow> command_writer e = None \<Longrightarrow> nul = None \<or> command_pub_topic e \<noteq> None \<Longrightarrow>
     delete_pub_topic nul e = Inr (e\<lparr>command_pub_topic := None\<rparr>)"
  by (auto simp: delete_command_reader_def delete_subscriber_def delete_command_writer_def delete_publisher_def
      delete_sub_topic_def delete_pub_topic_def via_def update_same)

lemma teardown_made:
  assumes "made ok e" and "subscriber e" and "nul = None \<or> ok"
  shows "\<exists>e'. command_teardown nul e = Inr e' \<and> no_children e' \<and> participant e' = participant e \<and> command_reader e' = None \<and>
    command_writer e' = None"
proof -
  have m: "publisher e" "participant e \<noteq> None" "data_reader e = None" "data_writer e = None" "data_pub_topic e = None" "data_sub_topic e = None"
    "nul = None \<or> command_reader e \<noteq> None" "nul = None \<or> command_writer e \<noteq> None" "nul = None \<or> command_sub_topic e \<noteq> None"
    "nul = None \<or> command_pub_topic e \<noteq> None"
    using assms by (auto simp: made_def)
  have "command_teardown nul e = Inr (e\<lparr>command_reader := None, subscriber := False, command_writer := None, publisher := False,
      command_sub_topic := None, command_pub_topic := None\<rparr>)"
    using m assms(2) by (simp add: command_teardown_def delete_steps)
  then show ?thesis using m by (simp add: no_children_def)
qed

lemma teardown_early: "\<not> subscriber e \<Longrightarrow> command_teardown nul e = Inl NullDeref"
  by (simp add: command_teardown_def delete_command_reader_def via_def)


text \<open>Running a step in front of others.\<close>

lemma run_make: "run_steps (make fails c upd # ss) e = (if fails c then (False, e) else run_steps ss (upd e))"
  by (simp add: make_def)

lemma run_profile: "run_steps (need_profile fails o1 c upd # ss) e =
   (if opt_xml o1 \<and> fails c then (False, e) else run_steps ss (if opt_xml o1 then upd e else e))"
  by (simp add: need_profile_def)

lemma run_participant: "run_steps ((\<lambda>e. if fails c then (False, f e) else (True, g e)) # ss) e =
   (if fails c then (False, f e) else run_steps ss (g e))"
  by simp

definition next_dw :: "(dds_call \<Rightarrow> bool) \<Rightarrow> data_qos \<Rightarrow> setup_options \<Rightarrow> data_qos \<Rightarrow> data_qos" where
  "next_dw fails wp o1 q = (if opt_xml o1 then if fails WriterProfile then q else wp else latency_default_qos True o1 q)"

definition next_dr :: "(dds_call \<Rightarrow> bool) \<Rightarrow> data_qos \<Rightarrow> setup_options \<Rightarrow> data_qos \<Rightarrow> data_qos" where
  "next_dr fails rp o1 q = (if opt_xml o1 then if fails WriterProfile \<or> fails ReaderProfile then q else rp else latency_default_qos False o1 q)"

lemma run_latency_qos: "run_steps (latency_qos_step fails strict wp rp o1 # ss) e =
   (if opt_xml o1 \<and> (fails WriterProfile \<or> strict \<and> fails ReaderProfile)
    then (False, e\<lparr>dw_qos := next_dw fails wp o1 (dw_qos e), dr_qos := next_dr fails rp o1 (dr_qos e)\<rparr>)
    else run_steps ss (e\<lparr>dw_qos := next_dw fails wp o1 (dw_qos e), dr_qos := next_dr fails rp o1 (dr_qos e)\<rparr>))"
  by (cases e) (simp add: latency_qos_step_def Let_def next_dw_def next_dr_def)

lemma run_always: "run_steps ((\<lambda>e. (True, f e)) # ss) e = run_steps ss (f e)"
  by simp

lemmas run_rules = run_make run_profile run_participant run_latency_qos run_always run_steps.simps(1)

definition after_init :: "(dds_call \<Rightarrow> bool) \<Rightarrow> setup_options \<Rightarrow> bool \<times> perf_app \<Rightarrow> bool" where
  "after_init fails o1 r \<longleftrightarrow> made (fst r) (snd r) \<and> (subscriber (snd r) \<longleftrightarrow> \<not> early fails o1) \<and>
   (participant (snd r) \<noteq> None \<longleftrightarrow> \<not> (opt_xml o1 \<and> fails ParticipantProfile) \<and> \<not> fails CreateParticipant) \<and>
   (publisher (snd r) \<longleftrightarrow> \<not> (opt_xml o1 \<and> fails ParticipantProfile) \<and> \<not> fails CreateParticipant \<and>
      \<not> fails RegisterCommand \<and> \<not> fails CreatePublisher)"

text \<open>An app with participant, publisher and subscriber and nothing else.\<close>

definition base :: "setup_options \<Rightarrow> perf_app \<Rightarrow> bool" where
  "base o1 e \<longleftrightarrow> participant e = Some (domain_of o1, transports_of o1) \<and> publisher e \<and> subscriber e \<and> data_type e = None \<and>
     data_writer e = None \<and> data_reader e = None \<and> data_pub_topic e = None \<and> data_sub_topic e = None \<and>
     command_sub_topic e = None \<and> command_pub_topic e = None \<and> command_reader e = None \<and> command_writer e = None"

lemma common_cases:
  "(\<exists>e. run_steps (common_steps fails bad o1 @ ss) (new_app w v) = (False, e) \<and> early fails o1 \<and> after_init fails o1 (False, e)) \<or>
   (\<exists>e. run_steps (common_steps fails bad o1 @ ss) (new_app w v) = run_steps ss e \<and> \<not> early fails o1 \<and> base o1 e)"
proof (cases "early fails o1")
  case True
  then show ?thesis unfolding common_steps_def append.simps run_rules
    by (auto simp: new_app_def early_def after_init_def made_def)
next
  case False
  let ?e = "(new_app w v)\<lparr>participant := Some (domain_of o1, transports_of o1), publisher := True, subscriber := True\<rparr>"
  have "run_steps (common_steps fails bad o1 @ ss) (new_app w v) = run_steps ss ?e"
    unfolding common_steps_def append.simps run_rules using False by (auto simp: early_def new_app_def)
  moreover have "base o1 ?e" by (simp add: base_def new_app_def)
  ultimately show ?thesis using False by blast
qed

text \<open>What the other steps can add, for the names of the two command topics.\<close>

definition tail_done :: "string \<Rightarrow> string \<Rightarrow> setup_options \<Rightarrow> bool \<times> perf_app \<Rightarrow> bool" where
  "tail_done st pt o1 r \<longleftrightarrow> participant (snd r) = Some (domain_of o1, transports_of o1) \<and> publisher (snd r) \<and> subscriber (snd r) \<and>
     data_type (snd r) = None \<and> data_writer (snd r) = None \<and> data_reader (snd r) = None \<and> data_pub_topic (snd r) = None \<and>
     data_sub_topic (snd r) = None \<and>
     (command_reader (snd r) = None \<or> command_sub_topic (snd r) \<noteq> None) \<and>
     (command_writer (snd r) = None \<or> command_pub_topic (snd r) \<noteq> None) \<and>
     (\<not> fst r \<longrightarrow> command_reader (snd r) = None \<or> command_writer (snd r) = None) \<and>
     (fst r \<longrightarrow> command_reader (snd r) = Some st \<and> command_writer (snd r) = Some pt)"

lemma throughput_tails:
  assumes "base o1 e"
  shows "tail_done st pt o1 (run_steps
     [need_profile fails o1 c (\<lambda>e. e\<lparr>dw_qos := profile\<rparr>), \<lambda>e. (True, e\<lparr>dw_qos := q1 (dw_qos e)\<rparr>),
      make fails CreateSubTopic (\<lambda>e. e\<lparr>command_sub_topic := Some st\<rparr>), make fails CreatePubTopic (\<lambda>e. e\<lparr>command_pub_topic := Some pt\<rparr>),
      make fails CreateReader (\<lambda>e. e\<lparr>command_reader := command_sub_topic e\<rparr>),
      make fails CreateWriter (\<lambda>e. e\<lparr>command_writer := command_pub_topic e\<rparr>)] e)"
    and "tail_done st pt o1 (run_steps
     [need_profile fails o1 c (\<lambda>e. e\<lparr>dr_qos := profile\<rparr>), \<lambda>e. (True, e\<lparr>dr_qos := q1 (dr_qos e)\<rparr>),
      make fails CreateSubTopic (\<lambda>e. e\<lparr>command_sub_topic := Some st\<rparr>), make fails CreatePubTopic (\<lambda>e. e\<lparr>command_pub_topic := Some pt\<rparr>),
      make fails CreateReader (\<lambda>e. e\<lparr>command_reader := command_sub_topic e\<rparr>),
      make fails CreateWriter (\<lambda>e. e\<lparr>command_writer := command_pub_topic e\<rparr>)] e)"
  using assms unfolding run_rules by (simp_all add: base_def tail_done_def)

lemma latency_tails:
  assumes "base o1 e"
  shows "tail_done st pt o1 (run_steps
     [latency_qos_step fails strict wp rp o1, \<lambda>e. (True, e\<lparr>dw_qos := q1 (dw_qos e), dr_qos := q2 (dr_qos e)\<rparr>),
      make fails CreatePubTopic (\<lambda>e. e\<lparr>command_pub_topic := Some pt\<rparr>), make fails CreateSubTopic (\<lambda>e. e\<lparr>command_sub_topic := Some st\<rparr>),
      make fails CreateWriter (\<lambda>e. e\<lparr>command_writer := command_pub_topic e\<rparr>),
      make fails CreateReader (\<lambda>e. e\<lparr>command_reader := command_sub_topic e\<rparr>)] e)"
    and "tail_done st pt o1 (run_steps
     [latency_qos_step fails strict wp rp o1, \<lambda>e. (True, e\<lparr>dw_qos := q1 (dw_qos e), dr_qos := q2 (dr_qos e)\<rparr>),
      make fails CreateSubTopic (\<lambda>e. e\<lparr>command_sub_topic := Some st\<rparr>), make fails CreatePubTopic (\<lambda>e. e\<lparr>command_pub_topic := Some pt\<rparr>),
      make fails CreateWriter (\<lambda>e. e\<lparr>command_writer := command_pub_topic e\<rparr>),
      make fails CreateReader (\<lambda>e. e\<lparr>command_reader := command_sub_topic e\<rparr>)] e)"
  using assms unfolding run_rules by (simp_all add: base_def tail_done_def)

text \<open>Both outcomes of an \<^verbatim>\<open>init\<close>.\<close>

definition init_outcome :: "(dds_call \<Rightarrow> bool) \<Rightarrow> setup_options \<Rightarrow> string \<Rightarrow> string \<Rightarrow> bool \<times> perf_app \<Rightarrow> bool" where
  "init_outcome fails o1 st pt r \<longleftrightarrow> \<not> fst r \<and> early fails o1 \<and> after_init fails o1 r \<or> \<not> early fails o1 \<and> tail_done st pt o1 r"

lemma outcome_common:
  assumes "\<And>e. base o1 e \<Longrightarrow> tail_done st pt o1 (run_steps ss e)"
  shows "init_outcome fails o1 st pt (run_steps (common_steps fails bad o1 @ ss) (new_app w v))"
  using common_cases[of fails bad o1 ss w v] assms by (auto simp: init_outcome_def)

lemma init_outcomes:
  "init_outcome fails o1 (throughput_command_topic host o1 SUB2PUB) (throughput_command_topic host o1 PUB2SUB)
     (ThroughputPublisher_init fails host p o1 (new_app w v))"
  "init_outcome fails o1 (throughput_command_topic host o1 PUB2SUB) (throughput_command_topic host o1 SUB2PUB)
     (ThroughputSubscriber_init fails host p o1 (new_app w v))"
  "init_outcome fails o1 (latency_command_topic host o1 SUB2PUB) (latency_command_topic host o1 PUB2SUB)
     (LatencyTestPublisher_init fails host p q o1 (new_app w v))"
  "init_outcome fails o1 (latency_command_topic host o1 PUB2SUB) (latency_command_topic host o1 SUB2PUB)
     (LatencyTestSubscriber_init fails host p q o1 (new_app w v))"
  unfolding ThroughputPublisher_init_def ThroughputSubscriber_init_def LatencyTestPublisher_init_def LatencyTestSubscriber_init_def
  by (rule outcome_common, erule throughput_tails latency_tails)+

lemma outcome_after:
  assumes "init_outcome fails o1 st pt r"
  shows "after_init fails o1 r"
proof (cases "early fails o1")
  case True
  then show ?thesis using assms by (simp add: init_outcome_def)
next
  case False
  then have t: "tail_done st pt o1 r" using assms by (simp add: init_outcome_def)
  then have "made (fst r) (snd r)" by (auto simp: tail_done_def made_def)
  then show ?thesis using t False by (auto simp: after_init_def tail_done_def early_def)
qed

lemmas init_made = init_outcomes[THEN outcome_after]

lemma outcome_ok:
  "init_outcome fails o1 st pt r \<Longrightarrow> fst r \<Longrightarrow> command_reader (snd r) = Some st \<and> command_writer (snd r) = Some pt \<and>
     participant (snd r) = Some (domain_of o1, transports_of o1) \<and> data_writer (snd r) = None \<and> data_reader (snd r) = None \<and>
     data_pub_topic (snd r) = None \<and> data_sub_topic (snd r) = None"
  by (auto simp: init_outcome_def tail_done_def)

lemma teardown_failed:
  assumes "made False e" and "subscriber e"
  shows "command_teardown (Some err) e = Inl err"
proof -
  have m: "publisher e" "participant e \<noteq> None" "data_reader e = None" "command_reader e = None \<or> command_writer e = None"
    using assms by (auto simp: made_def)
  show ?thesis
  proof (cases "command_reader e = None")
    case True
    then show ?thesis using assms(2) by (simp add: command_teardown_def delete_command_reader_def via_def)
  next
    case False
    with m(4) have w: "command_writer e = None" by simp
    then show ?thesis using m assms(2) False
      by (auto simp add: command_teardown_def delete_command_reader_def delete_subscriber_def delete_command_writer_def via_def)
  qed
qed

lemma throughput_dtor_made:
  assumes "after_init fails o1 r" and "\<And>e. made (fst r) e \<Longrightarrow> data e = None" and "\<And>e. made (fst r) e \<Longrightarrow> topic e = None"
  shows "case throughput_dtor data topic nul (snd r) of
      Inl err \<Rightarrow> early fails o1 \<and> err = NullDeref \<or> \<not> early fails o1 \<and> \<not> fst r \<and> nul = Some err
    | Inr e \<Rightarrow> \<not> early fails o1 \<and> (fst r \<or> nul = None) \<and> clean e"
proof -
  have m: "made (fst r) (snd r)" "subscriber (snd r) \<longleftrightarrow> \<not> early fails o1" using assms(1) by (auto simp: after_init_def)
  have d: "throughput_dtor data topic nul (snd r) = rbind (command_teardown nul (snd r)) (delete_participant nul)"
    using assms(2,3)[OF m(1)] m(1) by (simp add: throughput_dtor_def made_def)
  consider "early fails o1" | err where "\<not> early fails o1" "\<not> fst r" "nul = Some err" | "\<not> early fails o1" "nul = None \<or> fst r"
    by (cases nul) auto
  then show ?thesis
  proof cases
    case 1
    then show ?thesis using m(2) by (simp add: d teardown_early)
  next
    case 2
    then show ?thesis using m teardown_failed[of "snd r" err] unfolding d by simp
  next
    case 3
    from teardown_made[OF m(1) _ 3(2)] m(2) 3(1) obtain e' where
      e: "command_teardown nul (snd r) = Inr e'" "no_children e'" "participant e' = participant (snd r)"
        "command_reader e' = None" "command_writer e' = None" by auto
    have "participant (snd r) \<noteq> None" using m 3(1) by (auto simp: made_def)
    then show ?thesis using e 3
      by (auto simp add: d delete_participant_def via_def clean_def no_children_def)
  qed
qed

section \<open>Properties\<close>

text \<open>C24: How the programs of the throughput test end after their \<^verbatim>\<open>init\<close>, whichever DDS calls fail in it, and whatever DDS does
  when it is asked to delete a null pointer (\<open>nul\<close>: nothing, or the given error). After an \<^verbatim>\<open>init\<close> that succeeded the destructor
  deletes every entity. After one that failed before it had a subscriber it follows a null pointer. After one that failed
  later it always asks DDS to delete a null pointer: when that does no harm every entity is deleted, otherwise the
  destructor ends with that error.\<close>

theorem throughput_teardown_exact:
  "(case ThroughputPublisher_init fails host p o1 (new_app w v) of (ok, e) \<Rightarrow>
      case ThroughputPublisher_dtor nul e of
        Inl err \<Rightarrow> early fails o1 \<and> err = NullDeref \<or> \<not> early fails o1 \<and> \<not> ok \<and> nul = Some err
      | Inr e' \<Rightarrow> \<not> early fails o1 \<and> (ok \<or> nul = None) \<and> clean e') \<and>
   (case ThroughputSubscriber_init fails host p o1 (new_app w v) of (ok, e) \<Rightarrow>
      case ThroughputSubscriber_dtor nul e of
        Inl err \<Rightarrow> early fails o1 \<and> err = NullDeref \<or> \<not> early fails o1 \<and> \<not> ok \<and> nul = Some err
      | Inr e' \<Rightarrow> \<not> early fails o1 \<and> (ok \<or> nul = None) \<and> clean e')"
  using throughput_dtor_made[OF init_made(1)[of fails o1 host p w v], of data_writer data_pub_topic nul]
    throughput_dtor_made[OF init_made(2)[of fails o1 host p w v], of data_reader data_sub_topic nul]
  by (simp add: ThroughputPublisher_dtor_def ThroughputSubscriber_dtor_def made_def case_prod_beta)

text \<open>The programs of the latency test crash only when the participant could not be created; when \<^verbatim>\<open>init\<close> fails after it has
  made a publisher, the participant and what belongs to it stay behind.\<close>

theorem latency_teardown_exact:
  assumes "r = LatencyTestPublisher_init fails host p q o1 (new_app w v) \<or> r = LatencyTestSubscriber_init fails host p q o1 (new_app w v)"
  shows "case latency_end nul r of
      Inl err \<Rightarrow> err = NullDeref \<and> (opt_xml o1 \<and> fails ParticipantProfile \<or> fails CreateParticipant)
    | Inr e \<Rightarrow> \<not> (opt_xml o1 \<and> fails ParticipantProfile \<or> fails CreateParticipant) \<and>
        (clean e \<longleftrightarrow> fst r \<or> fails RegisterCommand \<or> fails CreatePublisher)"
proof -
  have a: "after_init fails o1 r" using assms init_made(3,4) by blast
  then have m: "made (fst r) (snd r)" by (simp add: after_init_def)
  have r: "r = (fst r, snd r)" by simp
  show ?thesis
  proof (cases "fst r")
    case True
    then have e: "\<not> early fails o1" "subscriber (snd r)" "participant (snd r) \<noteq> None"
      using a m by (auto simp: after_init_def made_def)
    from teardown_made[OF m e(2), of nul] True obtain e' where
      e': "command_teardown nul (snd r) = Inr e'" "no_children e'" "participant e' = participant (snd r)"
        "command_reader e' = None" "command_writer e' = None" by auto
    have "latency_end nul r = Inr (e'\<lparr>participant := None\<rparr>)"
      using e' e(3) True by (subst r) (simp add: latency_end_def destroy_user_entities_def latency_dtor_def delete_participant_def via_def)
    then show ?thesis using e' e(1) True by (simp add: clean_def no_children_def early_def)
  next
    case False
    have l: "latency_end nul r = latency_dtor nul (snd r)" using False by (subst r) (simp add: latency_end_def)
    show ?thesis
    proof (cases "publisher (snd r)")
      case True
      then have "participant (snd r) \<noteq> None" "\<not> no_children (snd r)" using m by (auto simp: made_def no_children_def)
      then show ?thesis using a True False
        by (auto simp: l latency_dtor_def delete_participant_def via_def after_init_def clean_def)
    next
      case no: False
      then have n: "no_children (snd r)" "command_reader (snd r) = None" "command_writer (snd r) = None"
        using m by (auto simp: made_def no_children_def)
      show ?thesis
      proof (cases "participant (snd r) = None")
        case True
        then show ?thesis using a no False by (simp add: l latency_dtor_def after_init_def)
      next
        case p: False
        then show ?thesis using a no n False
          by (auto simp: l latency_dtor_def delete_participant_def via_def after_init_def clean_def no_children_def)
      qed
    qed
  qed
qed

text \<open>What the two sides of a test have to agree on.\<close>

definition crossed :: "perf_app \<Rightarrow> perf_app \<Rightarrow> bool" where
  "crossed a b \<longleftrightarrow> participant a = participant b \<and> participant a \<noteq> None \<and>
     command_writer a \<noteq> None \<and> command_writer a = command_reader b \<and>
     command_reader a \<noteq> None \<and> command_reader a = command_writer b \<and> command_writer a \<noteq> command_reader a"

definition data_crossed :: "perf_app \<Rightarrow> perf_app \<Rightarrow> bool" where
  "data_crossed a b \<longleftrightarrow> data_writer a \<noteq> None \<and> data_writer a = data_reader b \<and>
     data_reader a \<noteq> None \<and> data_reader a = data_writer b \<and> data_writer a \<noteq> data_reader a"

lemma topics_differ: "topic_name pre host o1 PUB2SUB \<noteq> topic_name pre host o1 SUB2PUB"
  by (simp add: topic_name_def PUB2SUB_def SUB2PUB_def)

lemma crossed_outcomes:
  assumes "init_outcome f o1 (topic_name pre host o1 SUB2PUB) (topic_name pre host o1 PUB2SUB) r" and "fst r"
    and "init_outcome g o1 (topic_name pre host o1 PUB2SUB) (topic_name pre host o1 SUB2PUB) s" and "fst s"
  shows "crossed (snd r) (snd s)"
  using outcome_ok[OF assms(1,2)] outcome_ok[OF assms(3,4)] topics_differ by (simp add: crossed_def)


lemma data_endpoints_ok:
  "fst (publisher_data_endpoints fails host o1 e) \<Longrightarrow>
     data_writer (snd (publisher_data_endpoints fails host o1 e)) = Some (latency_data_topic host o1 PUB2SUB) \<and>
     data_reader (snd (publisher_data_endpoints fails host o1 e)) = Some (latency_data_topic host o1 SUB2PUB)"
  "fst (subscriber_data_endpoints fails host o1 e) \<Longrightarrow>
     data_writer (snd (subscriber_data_endpoints fails host o1 e)) = Some (latency_data_topic host o1 SUB2PUB) \<and>
     data_reader (snd (subscriber_data_endpoints fails host o1 e)) = Some (latency_data_topic host o1 PUB2SUB)"
  unfolding publisher_data_endpoints_def subscriber_data_endpoints_def
  by (simp_all only: run_steps.simps(2)[of nothing_yet] nothing_yet_def prod.case run_rules)
    (auto split: if_splits)

text \<open>What destroying the endpoints of a payload leaves is what was there before they were made.\<close>

theorem latency_endpoints_restored:
  assumes "data_type e = None" and "run_steps [init_static_types fails ov payload, publisher_data_endpoints fails host o1] e = (True, e1)"
    and "\<And>c. c \<in> {DeleteDataWriter, DeleteDataReader, DeleteDataPubTopic, DeleteDataSubTopic, UnregisterData} \<Longrightarrow> \<not> fails c"
  shows "destroy_data_endpoints fails e1 = (True, e)"
proof -
  have n: "data_pub_topic e = None" "data_sub_topic e = None" "data_writer e = None" "data_reader e = None"
    using assms(1,2) by (auto simp: init_static_types_def publisher_data_endpoints_def nothing_yet_def Let_def split: if_splits)
  have e1: "e1 = e\<lparr>data_type := Some (payload - ov), data_pub_topic := Some (latency_data_topic host o1 PUB2SUB),
      data_sub_topic := Some (latency_data_topic host o1 SUB2PUB), data_writer := Some (latency_data_topic host o1 PUB2SUB),
      data_reader := Some (latency_data_topic host o1 SUB2PUB)\<rparr>"
    using assms(1,2) n by (auto simp: init_static_types_def publisher_data_endpoints_def nothing_yet_def make_def Let_def split: if_splits)
  have "\<not> fails DeleteDataWriter" "\<not> fails DeleteDataReader" "\<not> fails DeleteDataPubTopic" "\<not> fails DeleteDataSubTopic" "\<not> fails UnregisterData"
    using assms(3) by blast+
  then show ?thesis using n assms(1) unfolding e1
    by (cases e) (simp add: destroy_data_endpoints_def unmake_def make_def)
qed

text \<open>C23: The two programs of a performance test meet. When publisher and subscriber are set up with the same options, whatever
  else they are given, they join the same domain with the same transports, each one's command reader is on the topic of the
  other's command writer, and the two directions do not share a topic; the same holds for the data endpoints of the latency
  test; and a domain that is not forced is below 230.\<close>

theorem perf_channels_meet:
  assumes "ThroughputPublisher_init f1 host p1 o1 (new_app w1 v1) = (True, a1)"
    and "ThroughputSubscriber_init f2 host p2 o1 (new_app w2 v2) = (True, a2)"
    and "LatencyTestPublisher_init f3 host p3 q3 o1 (new_app w3 v3) = (True, a3)"
    and "LatencyTestSubscriber_init f4 host p4 q4 o1 (new_app w4 v4) = (True, a4)"
    and "publisher_data_endpoints f3 host o1 a3 = (True, b3)" and "subscriber_data_endpoints f4 host o1 a4 = (True, b4)"
  shows "crossed a1 a2 \<and> crossed a3 a4 \<and> data_crossed b3 b4 \<and> (opt_forced_domain o1 < 0 \<longrightarrow> unat (domain_of o1) < 230)"
proof -
  have "crossed a1 a2"
    using crossed_outcomes[of f1 o1 "''ThroughputTest_Command_''" host "(True, a1)" f2 "(True, a2)"]
      init_outcomes(1)[of f1 o1 host p1 w1 v1] init_outcomes(2)[of f2 o1 host p2 w2 v2] assms(1,2)
    by (simp add: throughput_command_topic_def)
  moreover have "crossed a3 a4"
    using crossed_outcomes[of f3 o1 "''LatencyTest_Command_''" host "(True, a3)" f4 "(True, a4)"]
      init_outcomes(3)[of f3 o1 host p3 q3 w3 v3] init_outcomes(4)[of f4 o1 host p4 q4 w4 v4] assms(3,4)
    by (simp add: latency_command_topic_def)
  moreover have "data_crossed b3 b4"
    using data_endpoints_ok(1)[of f3 host o1 a3] data_endpoints_ok(2)[of f4 host o1 a4] assms(5,6) topics_differ
    by (simp add: data_crossed_def latency_data_topic_def)
  moreover have "opt_forced_domain o1 < 0 \<Longrightarrow> unat (domain_of o1) < 230"
    by (simp add: domain_of_def unat_mod)
  ultimately show ?thesis by blast
qed


definition sample_qos :: data_qos where
  "sample_qos = \<lparr>q_reliable = False, q_short_times = False, q_sharing = NO_SET, q_realloc = False, q_extra_samples = None\<rparr>"

definition sample_options :: setup_options where
  "sample_options = \<lparr>opt_reliable = True, opt_pid = 1000, opt_hostname = True, opt_xml = False, opt_data_sharing = ON,
     opt_data_loans = True, opt_shared_memory = OFF, opt_forced_domain = - 1\<rparr>"

text \<open>A command writer that cannot be created, when deleting a null pointer crashes.\<close>

theorem throughput_teardown_exact_witness:
  "ThroughputPublisher_dtor (Some NullDeref)
     (snd (ThroughputPublisher_init (\<lambda>c. c = CreateWriter) ''h'' sample_qos sample_options (new_app sample_qos sample_qos))) = Inl NullDeref"
proof -
  let ?f = "\<lambda>c. c = CreateWriter"
  have i: "\<not> early ?f sample_options" "\<not> fst (ThroughputPublisher_init ?f ''h'' sample_qos sample_options (new_app sample_qos sample_qos))"
    by (simp_all add: early_def ThroughputPublisher_init_def common_steps_def make_def need_profile_def sample_options_def)
  from throughput_teardown_exact[of ?f sample_options "Some NullDeref" "''h''" sample_qos sample_qos sample_qos] i show ?thesis
    by (auto simp: case_prod_beta split: sum.splits)
qed

definition sample_app :: "(bool \<times> perf_app) \<Rightarrow> perf_app" where
  "sample_app r = snd r"

lemma inits_ok:
  assumes "\<And>c. \<not> f c"
  shows "fst (ThroughputPublisher_init f host p o1 e)" and "fst (ThroughputSubscriber_init f host p o1 e)"
    and "fst (LatencyTestPublisher_init f host p q o1 e)" and "fst (LatencyTestSubscriber_init f host p q o1 e)"
  unfolding ThroughputPublisher_init_def ThroughputSubscriber_init_def LatencyTestPublisher_init_def LatencyTestSubscriber_init_def
    common_steps_def append.simps run_rules
  by (simp_all add: assms)

lemma inits_succeed:
  "ThroughputPublisher_init (\<lambda>_. False) host p o1 e = (True, sample_app (ThroughputPublisher_init (\<lambda>_. False) host p o1 e))"
  "ThroughputSubscriber_init (\<lambda>_. False) host p o1 e = (True, sample_app (ThroughputSubscriber_init (\<lambda>_. False) host p o1 e))"
  "LatencyTestPublisher_init (\<lambda>_. False) host p q o1 e = (True, sample_app (LatencyTestPublisher_init (\<lambda>_. False) host p q o1 e))"
  "LatencyTestSubscriber_init (\<lambda>_. False) host p q o1 e = (True, sample_app (LatencyTestSubscriber_init (\<lambda>_. False) host p q o1 e))"
  by (simp_all add: prod_eq_iff inits_ok sample_app_def)

lemma endpoints_succeed:
  "data_pub_topic e = None \<and> data_sub_topic e = None \<and> data_writer e = None \<and> data_reader e = None \<Longrightarrow>
     publisher_data_endpoints (\<lambda>_. False) host o1 e = (True, sample_app (publisher_data_endpoints (\<lambda>_. False) host o1 e)) \<and>
     subscriber_data_endpoints (\<lambda>_. False) host o1 e = (True, sample_app (subscriber_data_endpoints (\<lambda>_. False) host o1 e))"
  by (simp add: publisher_data_endpoints_def subscriber_data_endpoints_def nothing_yet_def make_def sample_app_def)

theorem perf_channels_meet_witness:
  "crossed (sample_app (ThroughputPublisher_init (\<lambda>_. False) ''h'' sample_qos sample_options (new_app sample_qos sample_qos)))
     (sample_app (ThroughputSubscriber_init (\<lambda>_. False) ''h'' sample_qos sample_options (new_app sample_qos sample_qos))) \<and>
   unat (domain_of sample_options) < 230"
proof -
  let ?n = "new_app sample_qos sample_qos" and ?f = "\<lambda>_. False"
  let ?p = "LatencyTestPublisher_init ?f ''h'' sample_qos sample_qos sample_options ?n"
  let ?s = "LatencyTestSubscriber_init ?f ''h'' sample_qos sample_qos sample_options ?n"
  have p: "fst ?p" "fst ?s" using inits_succeed(3,4)[of "''h''" sample_qos sample_qos sample_options ?n] by (simp_all add: prod_eq_iff)
  note e = endpoints_succeed[of "sample_app ?p" "''h''" sample_options] endpoints_succeed[of "sample_app ?s" "''h''" sample_options]
  have q: "data_pub_topic (sample_app r) = None \<and> data_sub_topic (sample_app r) = None \<and> data_writer (sample_app r) = None \<and>
      data_reader (sample_app r) = None" if "fst r" "init_outcome ?f sample_options st pt r" for r st pt
    using outcome_ok[OF that(2,1)] by (simp add: sample_app_def)
  note e1 = e(1)[OF q[OF p(1) init_outcomes(3)], THEN conjunct1] and e2 = e(2)[OF q[OF p(2) init_outcomes(4)], THEN conjunct2]
  show ?thesis using perf_channels_meet[OF inits_succeed e1 e2] by (simp add: sample_options_def)
qed

end
