(* ===== verification/Option_Parser.thy ===== *)
theory Option_Parser
  imports Decimal
begin

text \<open>
  The option parser that the performance tests are built with (\<^verbatim>\<open>fastdds/thirdparty/optionparser/optionparser.h\<close> under
  \<^verbatim>\<open>src/other/pubsub/dds/arm_porting/arm_install/include\<close>) and the argument checks that they add to it
  (\<^verbatim>\<open>src/other/pubsub/dds/performance/optionarg.hpp\<close>).

  A C string is a list of characters, without its terminator; the argument vector is a list whose length is
  \<^verbatim>\<open>numargs\<close>. The pointer to a descriptor is its position in the table. The words that are not options and that have
  been passed over are the list \<open>nonops\<close>: \<^verbatim>\<open>shift\<close> moves an element in front of them, so that after it and
  \<^verbatim>\<open>++args\<close> the element is gone from what is left. The list of the options with one index, linked by tagged pointers in the
  code, is a list; only its first element is used here. Messages are left out.
\<close>

section \<open>Options and descriptors\<close>

datatype ArgStatus = ARG_NONE | ARG_OK | ARG_IGNORE | ARG_ILLEGAL

record Option =
  o_desc :: nat
  o_name :: string
  o_arg :: "string option"
  o_namelen :: nat

record 'i Descriptor =
  d_index :: 'i
  d_shortopt :: string
  d_longopt :: string
  d_check_arg :: "Option \<Rightarrow> ArgStatus"

text \<open>The number of leading elements without the property: the index at which a search loop stops.\<close>

primrec scan :: "('a \<Rightarrow> bool) \<Rightarrow> 'a list \<Rightarrow> nat" where
  "scan p [] = 0"
| "scan p (x # xs) = (if p x then 0 else Suc (scan p xs))"

definition option_namelen :: "string \<Rightarrow> nat" where
  "option_namelen nm = (if nm \<noteq> [] \<and> hd nm = CHR ''-'' then Suc (scan (\<lambda>c. c = CHR ''='') (tl nm)) else 1)"

definition Option_init :: "nat \<Rightarrow> string \<Rightarrow> string option \<Rightarrow> Option" where
  "Option_init d nm a = \<lparr>o_desc = d, o_name = nm, o_arg = a, o_namelen = option_namelen nm\<rparr>"

fun streq :: "string \<Rightarrow> string \<Rightarrow> bool" where
  "streq [] st2 = (st2 = [] \<or> hd st2 = CHR ''='')"
| "streq (c # cs) [] = False"
| "streq (c # cs) (d # ds) = (if c \<noteq> d then False else streq cs ds)"

text \<open>\<open>n\<close> counts the characters passed.\<close>

fun streqabbr_from :: "nat \<Rightarrow> string \<Rightarrow> string \<Rightarrow> int \<Rightarrow> bool" where
  "streqabbr_from n (c # cs) (d # ds) mn =
     (if c = d then streqabbr_from (Suc n) cs ds mn else (mn > 0 \<and> int n \<ge> mn) \<and> d = CHR ''='')"
| "streqabbr_from n st1 st2 mn = ((st1 = [] \<or> (mn > 0 \<and> int n \<ge> mn)) \<and> (st2 = [] \<or> hd st2 = CHR ''=''))"

definition streqabbr :: "string \<Rightarrow> string \<Rightarrow> int \<Rightarrow> bool" where
  "streqabbr = streqabbr_from 0"

primrec instr :: "char \<Rightarrow> string \<Rightarrow> bool" where
  "instr ch [] = False"
| "instr ch (c # cs) = (c = ch \<or> instr ch cs)"

section \<open>Argument checks\<close>

definition Arg_None :: "Option \<Rightarrow> ArgStatus" where
  "Arg_None opt = ARG_NONE"

definition Arg_Optional :: "Option \<Rightarrow> ArgStatus" where
  "Arg_Optional opt = (if o_arg opt \<noteq> None \<and> o_namelen opt < length (o_name opt) then ARG_OK else ARG_IGNORE)"

definition Arg_OptionalAny :: "Option \<Rightarrow> ArgStatus" where
  "Arg_OptionalAny opt = (if o_arg opt \<noteq> None then ARG_OK else ARG_IGNORE)"

definition Arg_Unknown :: "Option \<Rightarrow> ArgStatus" where
  "Arg_Unknown opt = ARG_ILLEGAL"

definition Arg_Required :: "Option \<Rightarrow> ArgStatus" where
  "Arg_Required opt = (case o_arg opt of
     Some a \<Rightarrow> if a \<noteq> [] then ARG_OK else ARG_ILLEGAL | None \<Rightarrow> ARG_ILLEGAL)"

text \<open>\<^verbatim>\<open>strtol\<close> in base 10 with a 64-bit \<^verbatim>\<open>long\<close>: the value and what it leaves of the text, all of it when there is no
  number. \<^verbatim>\<open>strtoul\<close> negates after a minus sign.\<close>

definition strtol :: "string \<Rightarrow> int \<times> string" where
  "strtol s = (case read_sign (dropWhile is_space s) of (sg, ds) \<Rightarrow>
     if ds = [] \<or> \<not> is_digit (hd ds) then (0, s)
     else (max (- (2 ^ 63)) (min (2 ^ 63 - 1) (sg * int (read_digits 0 ds))), dropWhile is_digit ds))"

definition strtoul :: "string \<Rightarrow> int" where
  "strtoul s = (case read_sign (dropWhile is_space s) of (sg, ds) \<Rightarrow>
     if ds = [] \<or> \<not> is_digit (hd ds) then 0
     else if int (read_digits 0 ds) > 2 ^ 64 - 1 then 2 ^ 64 - 1
     else (sg * int (read_digits 0 ds)) mod 2 ^ 64)"

definition Arg_Numeric :: "Option \<Rightarrow> ArgStatus" where
  "Arg_Numeric opt = (case o_arg opt of
     Some a \<Rightarrow> if snd (strtol a) \<noteq> a \<and> snd (strtol a) = [] then ARG_OK else ARG_ILLEGAL
   | None \<Rightarrow> ARG_ILLEGAL)"

definition Arg_String :: "Option \<Rightarrow> ArgStatus" where
  "Arg_String opt = (if o_arg opt \<noteq> None then ARG_OK else ARG_ILLEGAL)"

definition c_tolower :: "char \<Rightarrow> char" where
  "c_tolower c = (let n = (of_char c :: nat) in if 65 \<le> n \<and> n \<le> 90 then char_of (n + 32) else c)"

definition starts_no_case :: "string \<Rightarrow> string \<Rightarrow> bool" where
  "starts_no_case w s \<longleftrightarrow> map c_tolower (take (length w) s) = w"

definition Arg_Enabler :: "Option \<Rightarrow> ArgStatus" where
  "Arg_Enabler opt = (case o_arg opt of
     None \<Rightarrow> ARG_OK
   | Some a \<Rightarrow> if starts_no_case ''on'' a \<or> starts_no_case ''off'' a then ARG_OK else ARG_ILLEGAL)"

section \<open>The parser\<close>

text \<open>The table entry of a long option; \<^verbatim>\<open>length usage\<close> is the end of the table.\<close>

definition find_long :: "'i Descriptor list \<Rightarrow> int \<Rightarrow> string \<Rightarrow> nat" where
  "find_long usage min_abbr nm =
     (let idx = scan (\<lambda>d. streq (d_longopt d) nm) usage in
      if idx = length usage \<and> min_abbr > 0 then
        let i1 = scan (\<lambda>d. streqabbr (d_longopt d) nm min_abbr) usage in
        if i1 < length usage then
          let i2 = Suc i1 + scan (\<lambda>d. streqabbr (d_longopt d) nm min_abbr) (drop (Suc i1) usage) in
          if i2 = length usage then i1 else idx
        else idx
      else idx)"

definition find_short :: "'i Descriptor list \<Rightarrow> char \<Rightarrow> nat" where
  "find_short usage c = scan (\<lambda>d. instr c (d_shortopt d)) usage"

definition find_dummy :: "'i Descriptor list \<Rightarrow> nat" where
  "find_dummy usage = scan (\<lambda>d. d_shortopt d = [] \<and> d_longopt d = []) usage"

text \<open>A possible argument, and whether it is the next element of the vector.\<close>

type_synonym optarg = "(bool \<times> string) option"

definition detached :: "string list \<Rightarrow> optarg" where
  "detached rest = (if rest = [] then None else Some (True, hd rest))"

definition long_optarg :: "string \<Rightarrow> string list \<Rightarrow> optarg" where
  "long_optarg nm rest = (let e = dropWhile (\<lambda>c. c \<noteq> CHR ''='') nm in
     if e \<noteq> [] then Some (False, tl e) else detached rest)"

text \<open>What an option leads to: the end of the parse, or going on, with \<open>go_on\<close> when more short options of the group
  follow and \<open>skip\<close> when the next element was its argument.\<close>

datatype 's step_outcome = Fatal 's | Go bool bool 's

type_synonym 's action = "Option \<Rightarrow> 's \<Rightarrow> (bool \<times> 's) result"

definition option_step ::
  "'i Descriptor list \<Rightarrow> 's action \<Rightarrow> bool \<Rightarrow> nat \<Rightarrow> string \<Rightarrow> optarg \<Rightarrow> 's \<Rightarrow> 's step_outcome result" where
  "option_step usage perform go_on idx nm oa s =
     (let d = (if idx < length usage then idx else find_dummy usage) in
      if d < length usage then
        let opt = Option_init d nm (map_option snd oa) in
        case d_check_arg (usage ! d) opt of
          ARG_ILLEGAL \<Rightarrow> Inr (Fatal s)
        | ARG_OK \<Rightarrow> rbind (perform opt s) (\<lambda>(ok, s1).
            Inr (if ok then Go False (oa \<noteq> None \<and> fst (the oa)) s1 else Fatal s1))
        | ARG_IGNORE \<Rightarrow> rbind (perform (opt\<lparr>o_arg := None\<rparr>) s) (\<lambda>(ok, s1). Inr (if ok then Go go_on False s1 else Fatal s1))
        | ARG_NONE \<Rightarrow> rbind (perform (opt\<lparr>o_arg := None\<rparr>) s) (\<lambda>(ok, s1). Inr (if ok then Go go_on False s1 else Fatal s1))
      else Inr (Go go_on False s))"

fun short_options ::
  "'i Descriptor list \<Rightarrow> 's action \<Rightarrow> string list \<Rightarrow> string \<Rightarrow> 's \<Rightarrow> 's step_outcome result" where
  "short_options usage perform rest [] s = Inr (Go False False s)"
| "short_options usage perform rest (c # cs) s =
     rbind (option_step usage perform True (find_short usage c) (c # cs)
       (if cs = [] then detached rest else Some (False, cs)) s)
     (\<lambda>out. case out of
        Fatal s1 \<Rightarrow> Inr (Fatal s1)
      | Go go_on skip s1 \<Rightarrow> if go_on then short_options usage perform rest cs s1 else Inr (Go False skip s1))"

definition param_step ::
  "'i Descriptor list \<Rightarrow> 's action \<Rightarrow> bool \<Rightarrow> int \<Rightarrow> string \<Rightarrow> string list \<Rightarrow> 's \<Rightarrow> 's step_outcome result" where
  "param_step usage perform single_minus min_abbr param rest s =
     (if hd (tl param) = CHR ''-'' then
        let nm = tl (tl param) in
        option_step usage perform False (find_long usage min_abbr nm) param (long_optarg nm rest) s
      else
        let nm = tl param; idx = find_long usage min_abbr nm in
        if single_minus \<and> idx < length usage then option_step usage perform False idx param (long_optarg nm rest) s
        else short_options usage perform rest nm s)"

definition is_operand :: "string \<Rightarrow> bool" where
  "is_operand a \<longleftrightarrow> \<not> (a \<noteq> [] \<and> hd a = CHR ''-'') \<or> tl a = []"

text \<open>The result is what the parse returns, the state of the action and the operands, as \<^verbatim>\<open>finished\<close> gets them.\<close>

function workhorse ::
  "bool \<Rightarrow> 'i Descriptor list \<Rightarrow> 's action \<Rightarrow> bool \<Rightarrow> int \<Rightarrow> string list \<Rightarrow> string list \<Rightarrow> 's \<Rightarrow>
   (bool \<times> 's \<times> string list) result" where
  "workhorse gnu usage perform single_minus min_abbr nonops [] s = Inr (True, s, nonops)"
| "workhorse gnu usage perform single_minus min_abbr nonops (a # rest) s =
     (if is_operand a then
        if gnu then workhorse gnu usage perform single_minus min_abbr (nonops @ [a]) rest s
        else Inr (True, s, nonops @ a # rest)
      else if tl a = ''-'' then Inr (True, s, nonops @ rest)
      else rbind (param_step usage perform single_minus min_abbr a rest s) (\<lambda>out. case out of
          Fatal s1 \<Rightarrow> Inr (False, s1, [])
        | Go go_on skip s1 \<Rightarrow>
            workhorse gnu usage perform single_minus min_abbr nonops (if skip then tl rest else rest) s1))"
  by pat_completeness auto

termination
  by (relation "measure (\<lambda>(gnu, usage, perform, single_minus, min_abbr, nonops, args, s). length args)") auto

section \<open>Counting and storing\<close>

definition count_perform :: "nat action" where
  "count_perform opt n = Inr (if n = 2147483647 then (False, n) else (True, Suc n))"

primrec options_max_from :: "('i \<Rightarrow> nat) \<Rightarrow> nat \<Rightarrow> 'i Descriptor list \<Rightarrow> nat" where
  "options_max_from num m [] = m"
| "options_max_from num m (d # ds) =
     options_max_from num (if num (d_index d) + 1 \<ge> m then num (d_index d) + 1 + 1 else m) ds"

definition Stats_buffer_max :: "'i Descriptor list \<Rightarrow> string list \<Rightarrow> nat" where
  "Stats_buffer_max usage args = (case workhorse False usage count_perform False 0 [] args 1 of
     Inr (ok, n, ops) \<Rightarrow> n | Inl e \<Rightarrow> 1)"

record parsed =
  p_buffer :: "Option list"
  p_options :: "nat \<Rightarrow> Option list"

text \<open>\<open>bmax\<close> and \<open>omax\<close> are the sizes of the two vectors.\<close>

definition store_perform :: "('i \<Rightarrow> nat) \<Rightarrow> 'i Descriptor list \<Rightarrow> nat \<Rightarrow> nat \<Rightarrow> parsed action" where
  "store_perform num usage bmax omax opt st =
     (let idx = num (d_index (usage ! o_desc opt)) in
      if length (p_buffer st) = 2147483647 then Inr (False, st)
      else if \<not> length (p_buffer st) < bmax then Inl OutOfBounds
      else if \<not> idx < omax then Inl OutOfBounds
      else Inr (True, st\<lparr>p_buffer := p_buffer st @ [opt], p_options := (p_options st)(idx := p_options st idx @ [opt])\<rparr>))"

text \<open>\<^verbatim>\<open>Stats\<close>, the two vectors and the \<^verbatim>\<open>Parser\<close>, as both programs use them: POSIX order, full names.\<close>

definition parse_args :: "('i \<Rightarrow> nat) \<Rightarrow> 'i Descriptor list \<Rightarrow> string list \<Rightarrow> (bool \<times> parsed) result" where
  "parse_args num usage args =
     rbind (workhorse False usage
         (store_perform num usage (Stats_buffer_max usage args) (options_max_from num 1 usage)) False 0 [] args
         \<lparr>p_buffer = [], p_options = (\<lambda>_. [])\<rparr>)
       (\<lambda>(ok, st, ops). Inr (ok, st))"

section \<open>The options of a command line\<close>

text \<open>What the parser finds, without the action: the options in the order in which it passes them on, and how it ends.\<close>

definition step_found :: "'i Descriptor list \<Rightarrow> bool \<Rightarrow> nat \<Rightarrow> string \<Rightarrow> optarg \<Rightarrow> Option list \<times> (bool \<times> bool) option" where
  "step_found usage go_on idx nm oa =
     (let d = (if idx < length usage then idx else find_dummy usage) in
      if d < length usage then
        let opt = Option_init d nm (map_option snd oa) in
        case d_check_arg (usage ! d) opt of
          ARG_ILLEGAL \<Rightarrow> ([], None)
        | ARG_OK \<Rightarrow> ([opt], Some (False, oa \<noteq> None \<and> fst (the oa)))
        | ARG_IGNORE \<Rightarrow> ([opt\<lparr>o_arg := None\<rparr>], Some (go_on, False))
        | ARG_NONE \<Rightarrow> ([opt\<lparr>o_arg := None\<rparr>], Some (go_on, False))
      else ([], Some (go_on, False)))"

fun short_found :: "'i Descriptor list \<Rightarrow> string list \<Rightarrow> string \<Rightarrow> Option list \<times> (bool \<times> bool) option" where
  "short_found usage rest [] = ([], Some (False, False))"
| "short_found usage rest (c # cs) =
     (case step_found usage True (find_short usage c) (c # cs) (if cs = [] then detached rest else Some (False, cs)) of
        (os, None) \<Rightarrow> (os, None)
      | (os, Some (g, skip)) \<Rightarrow>
          if g then (case short_found usage rest cs of (os2, k) \<Rightarrow> (os @ os2, k)) else (os, Some (False, skip)))"

definition param_found ::
  "'i Descriptor list \<Rightarrow> bool \<Rightarrow> int \<Rightarrow> string \<Rightarrow> string list \<Rightarrow> Option list \<times> (bool \<times> bool) option" where
  "param_found usage single_minus min_abbr param rest =
     (if hd (tl param) = CHR ''-'' then
        let nm = tl (tl param) in step_found usage False (find_long usage min_abbr nm) param (long_optarg nm rest)
      else
        let nm = tl param; idx = find_long usage min_abbr nm in
        if single_minus \<and> idx < length usage then step_found usage False idx param (long_optarg nm rest)
        else short_found usage rest nm)"

function found ::
  "bool \<Rightarrow> 'i Descriptor list \<Rightarrow> bool \<Rightarrow> int \<Rightarrow> string list \<Rightarrow> string list \<Rightarrow> Option list \<times> string list option" where
  "found gnu usage single_minus min_abbr nonops [] = ([], Some nonops)"
| "found gnu usage single_minus min_abbr nonops (a # rest) =
     (if is_operand a then
        if gnu then found gnu usage single_minus min_abbr (nonops @ [a]) rest else ([], Some (nonops @ a # rest))
      else if tl a = ''-'' then ([], Some (nonops @ rest))
      else (case param_found usage single_minus min_abbr a rest of
          (os, None) \<Rightarrow> (os, None)
        | (os, Some (g, skip)) \<Rightarrow>
            (case found gnu usage single_minus min_abbr nonops (if skip then tl rest else rest) of
               (os2, fin) \<Rightarrow> (os @ os2, fin))))"
  by pat_completeness auto

termination
  by (relation "measure (\<lambda>(gnu, usage, single_minus, min_abbr, nonops, args). length args)") auto

text \<open>The action over a list of options.\<close>

fun perform_all :: "'s action \<Rightarrow> Option list \<Rightarrow> 's \<Rightarrow> (bool \<times> 's) result" where
  "perform_all perform [] s = Inr (True, s)"
| "perform_all perform (opt # os) s =
     rbind (perform opt s) (\<lambda>(ok, s1). if ok then perform_all perform os s1 else Inr (False, s1))"

definition step_end :: "(bool \<times> bool) option \<Rightarrow> (bool \<times> 's) \<Rightarrow> 's step_outcome" where
  "step_end k = (\<lambda>(ok, s). if ok then (case k of None \<Rightarrow> Fatal s | Some (g, skip) \<Rightarrow> Go g skip s) else Fatal s)"

definition parse_end :: "string list option \<Rightarrow> (bool \<times> 's) \<Rightarrow> bool \<times> 's \<times> string list" where
  "parse_end fin = (\<lambda>(ok, s). if ok then (case fin of None \<Rightarrow> (False, s, []) | Some ops \<Rightarrow> (True, s, ops)) else (False, s, []))"

lemma perform_all_append:
  "perform_all perform (xs @ ys) s =
     rbind (perform_all perform xs s) (\<lambda>(ok, s1). if ok then perform_all perform ys s1 else Inr (False, s1))"
  by (induction xs arbitrary: s) (auto simp: rbind_assoc split_def intro!: arg_cong[of _ _ "rbind _"])

lemma option_step_found:
  "option_step usage perform go_on idx nm oa s =
     (case step_found usage go_on idx nm oa of (os, k) \<Rightarrow> rbind (perform_all perform os s) (\<lambda>r. Inr (step_end k r)))"
  by (simp add: option_step_def step_found_def Let_def rbind_assoc step_end_def split_def
      split: ArgStatus.splits) (auto intro!: arg_cong[of _ _ "rbind _"] simp: split_def)

lemma short_options_found:
  "short_options usage perform rest cs s =
     (case short_found usage rest cs of (os, k) \<Rightarrow> rbind (perform_all perform os s) (\<lambda>r. Inr (step_end k r)))"
proof (induction cs arbitrary: s)
  case Nil
  then show ?case by (simp add: step_end_def)
next
  case (Cons c cs)
  obtain os k where f: "step_found usage True (find_short usage c) (c # cs)
      (if cs = [] then detached rest else Some (False, cs)) = (os, k)" by fastforce
  obtain os2 k2 where f2: "short_found usage rest cs = (os2, k2)" by fastforce
  have r: "rbind (perform_all perform os s) (\<lambda>r. case step_end k r of Fatal s1 \<Rightarrow> Inr (Fatal s1)
        | Go g skip s1 \<Rightarrow> if g then short_options usage perform rest cs s1 else Inr (Go False skip s1)) =
      (case short_found usage rest (c # cs) of (os, k) \<Rightarrow> rbind (perform_all perform os s) (\<lambda>r. Inr (step_end k r)))"
    by (cases k; cases "perform_all perform os s")
      (auto simp: f f2 Cons.IH step_end_def perform_all_append rbind_assoc)
  show ?case using r by (simp add: option_step_found f rbind_assoc)
qed

lemma param_step_found:
  "param_step usage perform single_minus min_abbr param rest s =
     (case param_found usage single_minus min_abbr param rest of (os, k) \<Rightarrow>
        rbind (perform_all perform os s) (\<lambda>r. Inr (step_end k r)))"
  by (simp add: param_step_def param_found_def Let_def option_step_found short_options_found)

theorem workhorse_found:
  "workhorse gnu usage perform single_minus min_abbr nonops args s =
     (case found gnu usage single_minus min_abbr nonops args of (os, fin) \<Rightarrow>
        rbind (perform_all perform os s) (\<lambda>r. Inr (parse_end fin r)))"
proof (induction gnu usage single_minus min_abbr nonops args arbitrary: s rule: found.induct)
  case (1 gnu usage single_minus min_abbr nonops)
  then show ?case by (simp add: parse_end_def)
next
  case (2 gnu usage single_minus min_abbr nonops a rest)
  show ?case
  proof (cases "is_operand a \<or> tl a = ''-''")
    case True
    then show ?thesis using 2(1) by (auto simp: parse_end_def)
  next
    case False
    obtain os k where f: "param_found usage single_minus min_abbr a rest = (os, k)" by fastforce
    show ?thesis
    proof (cases k)
      case None
      then show ?thesis using False f
        by (cases "perform_all perform os s") (auto simp: param_step_found step_end_def parse_end_def rbind_assoc)
    next
      case (Some gs)
      obtain g skip where gs: "gs = (g, skip)" by fastforce
      obtain os2 fin where f2: "found gnu usage single_minus min_abbr nonops (if skip then tl rest else rest) = (os2, fin)"
        by fastforce
      have ih: "workhorse gnu usage perform single_minus min_abbr nonops (if skip then tl rest else rest) s1 =
          rbind (perform_all perform os2 s1) (\<lambda>r. Inr (parse_end fin r))" for s1
        using 2(2)[OF _ _ f[symmetric] Some gs[symmetric]] False f2 by (simp only: de_Morgan_disj prod.case not_False_eq_True simp_thms)
      show ?thesis
        using False f Some gs f2
        by (cases "perform_all perform os s")
          (auto simp: param_step_found step_end_def ih perform_all_append rbind_assoc parse_end_def simp del: if_split)
    qed
  qed
qed

section \<open>Typed options\<close>

text \<open>What an accepted option is: its argument passed the check of its entry, or it has none because the entry takes none.\<close>

definition typed_option :: "'i Descriptor list \<Rightarrow> Option \<Rightarrow> bool" where
  "typed_option usage opt \<longleftrightarrow> o_desc opt < length usage \<and>
     (d_check_arg (usage ! o_desc opt) opt = ARG_OK \<or>
      o_arg opt = None \<and> (\<exists>a. d_check_arg (usage ! o_desc opt) (opt\<lparr>o_arg := a\<rparr>) \<in> {ARG_NONE, ARG_IGNORE}))"

text \<open>An accepted option without an argument that its check has seen without one: nothing followed it.\<close>

definition bare_option :: "'i Descriptor list \<Rightarrow> Option \<Rightarrow> bool" where
  "bare_option usage opt \<longleftrightarrow> o_arg opt = None \<and> d_check_arg (usage ! o_desc opt) opt = ARG_OK"

lemma find_dummy_init: "o_arg ((Option_init d nm a)\<lparr>o_arg := b\<rparr>) = b" "o_desc ((Option_init d nm a)\<lparr>o_arg := b\<rparr>) = d"
  "o_desc (Option_init d nm a) = d" "o_arg (Option_init d nm a) = a"
  "(Option_init d nm a)\<lparr>o_arg := b, o_arg := c\<rparr> = Option_init d nm c"
  by (simp_all add: Option_init_def)

lemma step_found_typed: "step_found usage g idx nm oa = (os, k) \<Longrightarrow> opt \<in> set os \<Longrightarrow> typed_option usage opt"
  by (auto simp: step_found_def Let_def typed_option_def find_dummy_init split: if_splits ArgStatus.splits
      intro!: exI[of _ "map_option snd oa"])

lemma short_found_typed: "short_found usage rest cs = (os, k) \<Longrightarrow> opt \<in> set os \<Longrightarrow> typed_option usage opt"
proof (induction usage rest cs arbitrary: os k rule: short_found.induct)
  case (2 usage rest c cs)
  obtain os1 k1 where f: "step_found usage True (find_short usage c) (c # cs)
      (if cs = [] then detached rest else Some (False, cs)) = (os1, k1)" by fastforce
  obtain os2 k2 where f2: "short_found usage rest cs = (os2, k2)" by fastforce
  have "opt \<in> set os1 \<or> (\<exists>skip. k1 = Some (True, skip)) \<and> opt \<in> set os2"
    using 2(2,3) f f2 by (auto split: option.splits if_splits)
  then show ?case using step_found_typed[OF f] 2(1)[OF f[symmetric] _ _ _ f2] by blast
qed simp

lemma param_found_typed: "param_found usage sm ma p rest = (os, k) \<Longrightarrow> opt \<in> set os \<Longrightarrow> typed_option usage opt"
  by (auto simp: param_found_def Let_def split: if_splits intro: step_found_typed short_found_typed)

text \<open>Every option comes from one element of the vector.\<close>

lemma found_from:
  "found gnu usage sm ma nonops args = (os, fin) \<Longrightarrow> opt \<in> set os \<Longrightarrow>
    \<exists>pre a rest os1 k. args = pre @ a # rest \<and> \<not> is_operand a \<and> param_found usage sm ma a rest = (os1, k) \<and> opt \<in> set os1"
proof (induction gnu usage sm ma nonops args arbitrary: os fin rule: found.induct)
  case (2 gnu usage sm ma nonops a rest)
  obtain os1 k1 where f: "param_found usage sm ma a rest = (os1, k1)" by fastforce
  consider (op) "is_operand a" | (stop) "\<not> is_operand a" "tl a = ''-''" | (bad) "\<not> is_operand a" "tl a \<noteq> ''-''" "k1 = None"
    | (go) g skip where "\<not> is_operand a" "tl a \<noteq> ''-''" "k1 = Some (g, skip)" by (cases k1) auto
  then show ?case
  proof cases
    case op
    then have "found gnu usage sm ma (nonops @ [a]) rest = (os, fin)" "gnu" using 2(3,4) by (auto split: if_splits)
    then obtain pre b rest' os1 k where "rest = pre @ b # rest'" "\<not> is_operand b" "param_found usage sm ma b rest' = (os1, k)" "opt \<in> set os1"
      using 2(1)[OF op _ _ 2(4)] by blast
    then show ?thesis by (intro exI[of _ "a # pre"] exI[of _ b] exI[of _ rest']) auto
  next
    case stop
    then show ?thesis using 2(3,4) by simp
  next
    case bad
    then show ?thesis using 2(3,4) f by (intro exI[of _ "[]"] exI[of _ a] exI[of _ rest] exI[of _ os1] exI[of _ k1]) auto
  next
    case go
    obtain os2 fin2 where f2: "found gnu usage sm ma nonops (if skip then tl rest else rest) = (os2, fin2)" by fastforce
    have "opt \<in> set os1 \<or> opt \<in> set os2" using 2(3,4) go f f2 by (auto simp del: if_split)
    then show ?thesis
    proof
      assume "opt \<in> set os1"
      then show ?thesis using f go by (intro exI[of _ "[]"] exI[of _ a] exI[of _ rest] exI[of _ os1] exI[of _ k1]) auto
    next
      assume o: "opt \<in> set os2"
      obtain pre b rest' os3 k where e: "(if skip then tl rest else rest) = pre @ b # rest'" "\<not> is_operand b"
          "param_found usage sm ma b rest' = (os3, k)" "opt \<in> set os3"
        using 2(2)[OF go(1,2) f[symmetric] go(3) refl f2 o] by blast
      have "\<exists>pre'. a # rest = pre' @ b # rest'"
        using e(1) by (cases rest) (auto split: if_splits intro: exI[of _ "a # pre"] exI[of _ "a # hd rest # pre"])
      then show ?thesis using e by blast
    qed
  qed
qed simp

lemma found_typed: "found gnu usage sm ma nonops args = (os, fin) \<Longrightarrow> opt \<in> set os \<Longrightarrow> typed_option usage opt"
  using found_from param_found_typed by metis

section \<open>Where an option comes from\<close>

text \<open>In POSIX order with full names: a dummy entry, a long option of the vector, or a character of a short one.\<close>

definition origin :: "'i Descriptor list \<Rightarrow> string list \<Rightarrow> Option \<Rightarrow> bool" where
  "origin usage args opt \<longleftrightarrow> o_desc opt = find_dummy usage \<or>
     (\<exists>nm. ''--'' @ nm \<in> set args \<and> o_desc opt = find_long usage 0 nm) \<or> (\<exists>c. o_desc opt = find_short usage c)"

text \<open>A bare option is what the last element of the vector ends with.\<close>

definition at_the_end :: "'i Descriptor list \<Rightarrow> string list \<Rightarrow> Option \<Rightarrow> bool" where
  "at_the_end usage args opt \<longleftrightarrow> args \<noteq> [] \<and>
     ((\<exists>nm. last args = ''--'' @ nm \<and> CHR ''='' \<notin> set nm \<and> o_desc opt = find_long usage 0 nm) \<or>
      (\<exists>p c. last args = CHR ''-'' # p @ [c] \<and> o_desc opt = find_short usage c))"

lemma step_found_desc: "step_found usage g idx nm oa = (os, k) \<Longrightarrow> opt \<in> set os \<Longrightarrow> o_desc opt = idx \<or> o_desc opt = find_dummy usage"
  by (auto simp: step_found_def Let_def find_dummy_init split: if_splits ArgStatus.splits)

text \<open>Tables that use only the checks of the performance tests.\<close>

definition plain_table :: "'i Descriptor list \<Rightarrow> bool" where
  "plain_table usage \<longleftrightarrow> find_dummy usage < length usage \<and> d_check_arg (usage ! find_dummy usage) = Arg_None \<and>
     (\<forall>d \<in> set usage. CHR ''='' \<notin> set (d_longopt d) \<and>
        d_check_arg d \<in> {Arg_None, Arg_Required, Arg_Numeric, Arg_String, Arg_Enabler})"

lemma plain_check:
  assumes "plain_table usage" "k < length usage"
  shows "d_check_arg (usage ! k) \<in> {Arg_None, Arg_Required, Arg_Numeric, Arg_String, Arg_Enabler}"
  using assms nth_mem unfolding plain_table_def by blast

lemmas check_defs = Arg_None_def Arg_Required_def Arg_Numeric_def Arg_String_def Arg_Enabler_def

lemma check_arg_only:
  assumes "f \<in> {Arg_None, Arg_Required, Arg_Numeric, Arg_String, Arg_Enabler}"
  shows "f (Option_init d nm a) = f (Option_init d' nm' a)" "f opt \<noteq> ARG_IGNORE" "f opt = ARG_NONE \<longleftrightarrow> f = Arg_None"
    "f opt = ARG_OK \<Longrightarrow> o_arg opt = None \<Longrightarrow> f = Arg_Enabler"
proof -
  have "Arg_Required opt \<noteq> ARG_NONE" "Arg_Numeric opt \<noteq> ARG_NONE" "Arg_String opt \<noteq> ARG_NONE" "Arg_Enabler opt \<noteq> ARG_NONE"
    by (auto simp: check_defs split: option.splits)
  moreover have "Arg_Required (Option_init 0 [] None) \<noteq> ARG_NONE" "Arg_Numeric (Option_init 0 [] None) \<noteq> ARG_NONE"
    "Arg_String (Option_init 0 [] None) \<noteq> ARG_NONE" "Arg_Enabler (Option_init 0 [] None) \<noteq> ARG_NONE"
    "Arg_None (Option_init 0 [] None) = ARG_NONE" "Arg_None opt = ARG_NONE"
    by (auto simp: check_defs Option_init_def)
  ultimately show "f opt = ARG_NONE \<longleftrightarrow> f = Arg_None" using assms by auto
  show "f (Option_init d nm a) = f (Option_init d' nm' a)" "f opt \<noteq> ARG_IGNORE"
    "f opt = ARG_OK \<Longrightarrow> o_arg opt = None \<Longrightarrow> f = Arg_Enabler"
    using assms by (auto simp: check_defs Option_init_def split: option.splits if_splits)
qed

text \<open>In such a table an option without an argument has an entry that takes none or an enabler.\<close>

definition bare_enabler :: "'i Descriptor list \<Rightarrow> Option \<Rightarrow> bool" where
  "bare_enabler usage opt \<longleftrightarrow> o_arg opt = None \<and> d_check_arg (usage ! o_desc opt) = Arg_Enabler"

lemma enabler_not_none: "Arg_Enabler \<noteq> Arg_None"
  by (auto simp: fun_eq_iff check_defs split: option.splits)

lemma step_found_bare:
  assumes "plain_table usage" "step_found usage g idx nm oa = (os, k)" "opt \<in> set os" "bare_enabler usage opt"
  shows "o_desc opt = idx" "oa = None"
proof -
  define d where "d = (if idx < length usage then idx else find_dummy usage)"
  have d: "d < length usage" using assms(1) by (simp add: d_def plain_table_def)
  note c = check_arg_only[OF plain_check[OF assms(1) d]]
  have "o_desc opt = d" "oa = None"
    using assms(2,3,4) d c(2,3) enabler_not_none
    by (auto simp: step_found_def Let_def d_def[symmetric] find_dummy_init bare_enabler_def split: ArgStatus.splits)
  then show "o_desc opt = idx" "oa = None"
    using assms(1,4) enabler_not_none by (auto simp: d_def bare_enabler_def plain_table_def split: if_splits)
qed

lemma short_found_desc: "short_found usage rest cs = (os, k) \<Longrightarrow> opt \<in> set os \<Longrightarrow>
    (\<exists>c. o_desc opt = find_short usage c) \<or> o_desc opt = find_dummy usage"
proof (induction usage rest cs arbitrary: os k rule: short_found.induct)
  case (2 usage rest c cs)
  obtain os1 k1 where f: "step_found usage True (find_short usage c) (c # cs)
      (if cs = [] then detached rest else Some (False, cs)) = (os1, k1)" by fastforce
  obtain os2 k2 where f2: "short_found usage rest cs = (os2, k2)" by fastforce
  have "opt \<in> set os1 \<or> (\<exists>skip. k1 = Some (True, skip)) \<and> opt \<in> set os2"
    using 2(2,3) f f2 by (auto split: option.splits if_splits)
  then show ?case using step_found_desc[OF f] 2(1)[OF f[symmetric] _ _ _ f2] by blast
qed simp

lemma short_found_bare:
  assumes "plain_table usage"
  shows "short_found usage rest cs = (os, k) \<Longrightarrow> opt \<in> set os \<Longrightarrow> bare_enabler usage opt \<Longrightarrow>
    rest = [] \<and> (\<exists>p c. cs = p @ [c] \<and> o_desc opt = find_short usage c)"
proof (induction cs arbitrary: os k)
  case (Cons c cs)
  obtain os1 k1 where f: "step_found usage True (find_short usage c) (c # cs)
      (if cs = [] then detached rest else Some (False, cs)) = (os1, k1)" by fastforce
  obtain os2 k2 where f2: "short_found usage rest cs = (os2, k2)" by fastforce
  have "opt \<in> set os1 \<or> (\<exists>skip. k1 = Some (True, skip)) \<and> opt \<in> set os2"
    using Cons.prems(1,2) f f2 by (auto split: option.splits if_splits)
  then show ?case
  proof
    assume "opt \<in> set os1"
    note b = step_found_bare[OF assms f this Cons.prems(3)]
    then show ?thesis by (auto simp: detached_def split: if_splits)
  next
    assume "(\<exists>skip. k1 = Some (True, skip)) \<and> opt \<in> set os2"
    then obtain p c' where "rest = []" "cs = p @ [c']" "o_desc opt = find_short usage c'"
      using Cons.IH[OF f2 _ Cons.prems(3)] by blast
    then show ?thesis by (intro conjI exI[of _ "c # p"]) auto
  qed
qed simp

lemma dash_split:
  assumes "\<not> is_operand a"
  obtains (long) nm where "a = ''--'' @ nm" | (short) p where "a = CHR ''-'' # p" "p \<noteq> []" "hd p \<noteq> CHR ''-''"
proof -
  obtain p where "a = CHR ''-'' # p" "p \<noteq> []" using assms by (cases a) (auto simp: is_operand_def)
  moreover from this have "p = CHR ''-'' # tl p" if "hd p = CHR ''-''" using that by (cases p) auto
  ultimately show thesis using that(1)[of "tl p"] that(2)[of p] by auto
qed

lemma found_origin:
  assumes "found False usage False 0 nonops args = (os, fin)" "opt \<in> set os"
  shows "origin usage args opt"
proof -
  obtain pre a rest os1 k where a: "args = pre @ a # rest" "\<not> is_operand a"
      "param_found usage False 0 a rest = (os1, k)" "opt \<in> set os1"
    using found_from[OF assms] by blast
  from a(2) show ?thesis
  proof (cases rule: dash_split)
    case (long nm)
    then show ?thesis using a step_found_desc[of usage False "find_long usage 0 nm" a "long_optarg nm rest" os1 k opt]
      by (auto simp: param_found_def origin_def)
  next
    case (short p)
    then show ?thesis using a short_found_desc[of usage rest p os1 k opt]
      by (auto simp: param_found_def origin_def Let_def)
  qed
qed

lemma found_bare:
  assumes "plain_table usage" "found False usage False 0 nonops args = (os, fin)" "opt \<in> set os" "bare_enabler usage opt"
  shows "at_the_end usage args opt"
proof -
  obtain pre a rest os1 k where a: "args = pre @ a # rest" "\<not> is_operand a"
      "param_found usage False 0 a rest = (os1, k)" "opt \<in> set os1"
    using found_from[OF assms(2,3)] by blast
  from a(2) show ?thesis
  proof (cases rule: dash_split)
    case (long nm)
    have f: "step_found usage False (find_long usage 0 nm) a (long_optarg nm rest) = (os1, k)"
      using a(3) long by (simp add: param_found_def)
    note b = step_found_bare[OF assms(1) f a(4) assms(4)]
    have "dropWhile (\<lambda>c. c \<noteq> CHR ''='') nm = []" "rest = []"
      using b(2) by (auto simp: long_optarg_def detached_def Let_def split: if_splits)
    then show ?thesis using a(1) b(1) long by (auto simp: at_the_end_def)
  next
    case (short p)
    have "short_found usage rest p = (os1, k)" using a(3) short by (simp add: param_found_def Let_def)
    from short_found_bare[OF assms(1) this a(4) assms(4)] show ?thesis using a(1) short(1) by (auto simp: at_the_end_def)
  qed
qed

section \<open>Writing options\<close>

text \<open>What a program sees of the options: the index and the argument of each, and whether the parse ends well.\<close>

definition reading :: "'i Descriptor list \<Rightarrow> string list \<Rightarrow> ('i \<times> string option) list \<times> bool" where
  "reading usage args = (case found False usage False 0 [] args of (os, fin) \<Rightarrow>
     (map (\<lambda>opt. (d_index (usage ! o_desc opt), o_arg opt)) os, fin \<noteq> None))"

datatype spelling = LongJoined | LongApart | ShortJoined | ShortApart

text \<open>The four ways to write an option with an argument; without a short name only the first two are left.\<close>

definition write_option :: "'i Descriptor \<Rightarrow> spelling \<Rightarrow> string \<Rightarrow> string list" where
  "write_option d sp v =
     (if d_shortopt d = [] \<and> sp = ShortJoined \<or> sp = LongJoined then [''--'' @ d_longopt d @ CHR ''='' # v]
      else if d_shortopt d = [] \<and> sp = ShortApart \<or> sp = LongApart then [''--'' @ d_longopt d, v]
      else if sp = ShortJoined then [''-'' @ hd (d_shortopt d) # v]
      else [''-'' @ [hd (d_shortopt d)], v])"

definition write_flag :: "'i Descriptor \<Rightarrow> spelling \<Rightarrow> string list" where
  "write_flag d sp = (if d_shortopt d = [] \<or> sp = LongJoined \<or> sp = LongApart then [''--'' @ d_longopt d]
     else [''-'' @ [hd (d_shortopt d)]])"

text \<open>Entry \<open>k\<close> can be named in this way: its long name leads to it and, when that is used, its short name.\<close>

definition named_entry :: "'i Descriptor list \<Rightarrow> spelling \<Rightarrow> nat \<Rightarrow> bool" where
  "named_entry usage sp k \<longleftrightarrow> k < length usage \<and> d_longopt (usage ! k) \<noteq> [] \<and> CHR ''='' \<notin> set (d_longopt (usage ! k)) \<and>
     find_long usage 0 (d_longopt (usage ! k)) = k \<and>
     (d_shortopt (usage ! k) \<noteq> [] \<and> sp \<in> {ShortJoined, ShortApart} \<longrightarrow> hd (d_shortopt (usage ! k)) \<noteq> CHR ''-'' \<and> find_short usage (hd (d_shortopt (usage ! k))) = k)"

lemma streq_attached: "CHR ''='' \<notin> set l \<Longrightarrow> CHR ''='' \<notin> set nm \<Longrightarrow> streq l (nm @ CHR ''='' # v) = streq l nm"
  by (induction l nm rule: streq.induct) (auto split: list.splits, (case_tac st2; auto)+)

lemma scan_cong: "(\<And>x. x \<in> set xs \<Longrightarrow> p x = q x) \<Longrightarrow> scan p xs = scan q xs"
  by (induction xs) auto

lemma find_long_attached:
  assumes "plain_table usage" "CHR ''='' \<notin> set nm"
  shows "find_long usage 0 (nm @ CHR ''='' # v) = find_long usage 0 nm"
  using assms by (auto simp: find_long_def plain_table_def streq_attached Let_def intro!: scan_cong)

lemma reading_step:
  assumes "\<not> is_operand a" "tl a \<noteq> ''-''" "param_found usage False 0 a rest = ([opt], Some (g, skip))"
  shows "reading usage (a # rest) = (case reading usage (if skip then tl rest else rest) of
    (xs, ok) \<Rightarrow> ((d_index (usage ! o_desc opt), o_arg opt) # xs, ok))"
  using assms by (auto simp: reading_def split_def)

lemma step_found_value:
  assumes "k < length usage" "d_check_arg (usage ! k) (Option_init 0 [] (Some v)) = ARG_OK" "plain_table usage"
  shows "step_found usage g k nm (Some (b, v)) = ([Option_init k nm (Some v)], Some (False, b))"
  using assms check_arg_only(1)[OF plain_check[OF assms(3,1)], of 0 "[]" "Some v" k nm]
  by (simp add: step_found_def Let_def)

lemma step_found_flag:
  assumes "k < length usage" "d_check_arg (usage ! k) = Arg_None"
  shows "step_found usage g k nm oa = ([Option_init k nm None], Some (g, False))"
  using assms by (simp add: step_found_def Let_def Arg_None_def Option_init_def)

lemma drop_name: "CHR ''='' \<notin> set nm \<Longrightarrow> dropWhile (\<lambda>c. c \<noteq> CHR ''='') nm = []"
  "CHR ''='' \<notin> set nm \<Longrightarrow> dropWhile (\<lambda>c. c \<noteq> CHR ''='') (nm @ CHR ''='' # v) = CHR ''='' # v"
  by (auto simp: dropWhile_append)

lemma reading_write_option:
  assumes "plain_table usage" "named_entry usage sp k" "d_check_arg (usage ! k) (Option_init 0 [] (Some v)) = ARG_OK"
    and "d_shortopt (usage ! k) \<noteq> [] \<longrightarrow> v \<noteq> []"
  shows "reading usage (write_option (usage ! k) sp v @ rest) =
    (case reading usage rest of (xs, ok) \<Rightarrow> ((d_index (usage ! k), Some v) # xs, ok))"
proof -
  let ?d = "usage ! k" and ?l = "d_longopt (usage ! k)" and ?c = "hd (d_shortopt (usage ! k))"
  have k: "k < length usage" and l: "?l \<noteq> []" "CHR ''='' \<notin> set ?l" "find_long usage 0 ?l = k"
    and c: "d_shortopt ?d \<noteq> [] \<Longrightarrow> sp \<in> {ShortJoined, ShortApart} \<Longrightarrow> ?c \<noteq> CHR ''-'' \<and> find_short usage ?c = k"
    using assms(2) by (auto simp: named_entry_def)
  note st = step_found_value[OF k assms(3,1)]
  have joined: "reading usage ((''--'' @ ?l @ CHR ''='' # v) # rest) =
      (case reading usage rest of (xs, ok) \<Rightarrow> ((d_index ?d, Some v) # xs, ok))"
    using l assms(1) by (subst reading_step[where opt = "Option_init k (''--'' @ ?l @ CHR ''='' # v) (Some v)" and g = False and skip = False])
      (auto simp: is_operand_def param_found_def find_long_attached st long_optarg_def drop_name Option_init_def Let_def)
  have apart: "reading usage ((''--'' @ ?l) # v # rest) =
      (case reading usage rest of (xs, ok) \<Rightarrow> ((d_index ?d, Some v) # xs, ok))"
    using l by (subst reading_step[where opt = "Option_init k (''--'' @ ?l) (Some v)" and g = False and skip = True])
      (auto simp: is_operand_def param_found_def st long_optarg_def drop_name detached_def Option_init_def Let_def)
  have sjoined: "reading usage ((''-'' @ ?c # v) # rest) =
      (case reading usage rest of (xs, ok) \<Rightarrow> ((d_index ?d, Some v) # xs, ok))" if "d_shortopt ?d \<noteq> []" "sp \<in> {ShortJoined, ShortApart}"
    using c[OF that] assms(4) that
    by (subst reading_step[where opt = "Option_init k (?c # v) (Some v)" and g = False and skip = False])
      (auto simp: is_operand_def param_found_def st Option_init_def Let_def)
  have sapart: "reading usage ((''-'' @ [?c]) # v # rest) =
      (case reading usage rest of (xs, ok) \<Rightarrow> ((d_index ?d, Some v) # xs, ok))" if "d_shortopt ?d \<noteq> []" "sp \<in> {ShortJoined, ShortApart}"
    using c[OF that] that
    by (subst reading_step[where opt = "Option_init k [?c] (Some v)" and g = False and skip = True])
      (auto simp: is_operand_def param_found_def st detached_def Option_init_def Let_def)
  show ?thesis using joined apart sjoined sapart by (cases sp) (auto simp: write_option_def)
qed

lemma reading_write_flag:
  assumes "named_entry usage sp k" "d_check_arg (usage ! k) = Arg_None"
  shows "reading usage (write_flag (usage ! k) sp @ rest) =
    (case reading usage rest of (xs, ok) \<Rightarrow> ((d_index (usage ! k), None) # xs, ok))"
proof -
  let ?d = "usage ! k" and ?l = "d_longopt (usage ! k)" and ?c = "hd (d_shortopt (usage ! k))"
  have k: "k < length usage" and l: "?l \<noteq> []" "CHR ''='' \<notin> set ?l" "find_long usage 0 ?l = k"
    and c: "d_shortopt ?d \<noteq> [] \<Longrightarrow> sp \<in> {ShortJoined, ShortApart} \<Longrightarrow> ?c \<noteq> CHR ''-'' \<and> find_short usage ?c = k"
    using assms(1) by (auto simp: named_entry_def)
  note st = step_found_flag[OF k assms(2)]
  have lng: "reading usage ((''--'' @ ?l) # rest) =
      (case reading usage rest of (xs, ok) \<Rightarrow> ((d_index ?d, None) # xs, ok))"
    using l by (subst reading_step[where opt = "Option_init k (''--'' @ ?l) None" and g = False and skip = False])
      (auto simp: is_operand_def param_found_def st Option_init_def Let_def)
  have shrt: "reading usage ((''-'' @ [?c]) # rest) =
      (case reading usage rest of (xs, ok) \<Rightarrow> ((d_index ?d, None) # xs, ok))" if "d_shortopt ?d \<noteq> []" "sp \<in> {ShortJoined, ShortApart}"
    using c[OF that] that
    by (subst reading_step[where opt = "Option_init k [?c] None" and g = False and skip = False])
      (auto simp: is_operand_def param_found_def st Option_init_def Let_def)
  show ?thesis using lng shrt by (cases sp) (auto simp: write_flag_def)
qed

text \<open>Whole command lines: options with their arguments, each written in its own way.\<close>

definition entry_at :: "'i Descriptor list \<Rightarrow> 'i \<Rightarrow> nat" where
  "entry_at usage i = scan (\<lambda>d. d_index d = i) usage"

definition write_line :: "'i Descriptor list \<Rightarrow> ('i \<Rightarrow> spelling) \<Rightarrow> ('i \<times> string option) list \<Rightarrow> string list" where
  "write_line usage sp xs = concat (map (\<lambda>(i, a). case a of
      Some v \<Rightarrow> write_option (usage ! entry_at usage i) (sp i) v
    | None \<Rightarrow> write_flag (usage ! entry_at usage i) (sp i)) xs)"

definition writable :: "'i Descriptor list \<Rightarrow> ('i \<Rightarrow> spelling) \<Rightarrow> 'i \<times> string option \<Rightarrow> bool" where
  "writable usage sp = (\<lambda>(i, a). let k = entry_at usage i in named_entry usage (sp i) k \<and> (case a of
      Some v \<Rightarrow> d_check_arg (usage ! k) (Option_init 0 [] (Some v)) = ARG_OK \<and> (d_shortopt (usage ! k) \<noteq> [] \<longrightarrow> v \<noteq> [])
    | None \<Rightarrow> d_check_arg (usage ! k) = Arg_None))"

lemma scan_hit: "scan p xs < length xs \<Longrightarrow> p (xs ! scan p xs)"
  by (induction xs) auto

lemma reading_write_line:
  assumes "plain_table usage" "\<forall>x \<in> set xs. writable usage sp x"
  shows "reading usage (write_line usage sp xs) = (xs, True)"
  using assms(2)
proof (induction xs)
  case Nil
  then show ?case by (simp add: reading_def write_line_def)
next
  case (Cons x xs)
  obtain i a where x: "x = (i, a)" by fastforce
  let ?k = "entry_at usage i"
  have w: "named_entry usage (sp i) ?k" using Cons.prems x by (simp add: writable_def Let_def)
  then have i: "d_index (usage ! ?k) = i" using scan_hit[of "\<lambda>d. d_index d = i" usage]
    by (auto simp: named_entry_def entry_at_def)
  have ih: "reading usage (write_line usage sp xs) = (xs, True)" using Cons by simp
  show ?case
  proof (cases a)
    case None
    then have "d_check_arg (usage ! ?k) = Arg_None" using Cons.prems x by (simp add: writable_def Let_def)
    then show ?thesis using reading_write_flag[OF w, of "write_line usage sp xs"] ih x None i by (simp add: write_line_def)
  next
    case (Some v)
    then have "d_check_arg (usage ! ?k) (Option_init 0 [] (Some v)) = ARG_OK" "d_shortopt (usage ! ?k) \<noteq> [] \<longrightarrow> v \<noteq> []"
      using Cons.prems x by (simp_all add: writable_def Let_def)
    then show ?thesis using reading_write_option[OF assms(1) w, of v "write_line usage sp xs"] ih x Some i
      by (simp add: write_line_def)
  qed
qed

section \<open>Both passes agree\<close>

lemma count_all:
  assumes "n \<le> 2147483647"
  shows "perform_all count_perform os n = Inr (n + length os \<le> 2147483647, min (n + length os) 2147483647)"
  using assms by (induction os arbitrary: n) (auto simp: count_perform_def)

definition stored :: "('i \<Rightarrow> nat) \<Rightarrow> 'i Descriptor list \<Rightarrow> parsed \<Rightarrow> Option list \<Rightarrow> parsed" where
  "stored num usage st os = st\<lparr>p_buffer := p_buffer st @ os,
     p_options := (\<lambda>i. p_options st i @ filter (\<lambda>opt. num (d_index (usage ! o_desc opt)) = i) os)\<rparr>"

lemma stored_Nil: "stored num usage st [] = st"
  by (simp add: stored_def)

lemma store_all:
  assumes "\<forall>opt \<in> set os. num (d_index (usage ! o_desc opt)) < omax" and "length (p_buffer st) \<le> 2147483647"
    and "min (length (p_buffer st) + length os) 2147483647 \<le> bmax"
  shows "perform_all (store_perform num usage bmax omax) os st =
    Inr (length (p_buffer st) + length os \<le> 2147483647, stored num usage st (take (2147483647 - length (p_buffer st)) os))"
  using assms
proof (induction os arbitrary: st)
  case (Cons opt os)
  show ?case
  proof (cases "length (p_buffer st) = 2147483647")
    case True
    then show ?thesis by (simp add: store_perform_def stored_Nil Let_def)
  next
    case False
    let ?idx = "num (d_index (usage ! o_desc opt))"
    let ?st = "st\<lparr>p_buffer := p_buffer st @ [opt], p_options := (p_options st)(?idx := p_options st ?idx @ [opt])\<rparr>"
    have s: "store_perform num usage bmax omax opt st = Inr (True, ?st)"
      using Cons.prems False by (auto simp: store_perform_def Let_def)
    have "perform_all (store_perform num usage bmax omax) os ?st =
      Inr (length (p_buffer ?st) + length os \<le> 2147483647, stored num usage ?st (take (2147483647 - length (p_buffer ?st)) os))"
      using Cons.prems False by (intro Cons.IH) auto
    moreover have "2147483647 - length (p_buffer st) = Suc (2147483647 - Suc (length (p_buffer st)))"
      using False Cons.prems(2) by simp
    ultimately show ?thesis using s by (auto simp: stored_def fun_eq_iff)
  qed
qed (simp add: stored_Nil)

lemma options_max_ge: "m \<le> options_max_from num m ds"
proof (induction ds arbitrary: m)
  case (Cons d ds)
  show ?case using Cons.IH[of m] Cons.IH[of "Suc (Suc (num (d_index d)))"] by auto
qed simp

lemma options_max_index: "d \<in> set ds \<Longrightarrow> num (d_index d) < options_max_from num m ds"
proof (induction ds arbitrary: m)
  case (Cons e ds)
  show ?case
  proof (cases "d = e")
    case True
    then show ?thesis using options_max_ge[of "if num (d_index e) + 1 \<ge> m then num (d_index e) + 1 + 1 else m" num ds]
      by (auto split: if_splits)
  qed (use Cons in auto)
qed simp

lemma parse_args_found:
  "parse_args num usage args =
     (case found False usage False 0 [] args of (os, fin) \<Rightarrow>
        Inr (fin \<noteq> None \<and> length os \<le> 2147483647,
          \<lparr>p_buffer = take 2147483647 os,
           p_options = (\<lambda>i. filter (\<lambda>opt. num (d_index (usage ! o_desc opt)) = i) (take 2147483647 os))\<rparr>))"
proof -
  obtain os fin where f: "found False usage False 0 [] args = (os, fin)" by fastforce
  have b: "Stats_buffer_max usage args = min (1 + length os) 2147483647"
    by (simp add: Stats_buffer_max_def workhorse_found f count_all parse_end_def split: option.split)
  have i: "\<forall>opt \<in> set os. num (d_index (usage ! o_desc opt)) < options_max_from num 1 usage"
    using found_typed[OF f] by (auto simp: typed_option_def intro!: options_max_index)
  let ?st = "\<lparr>p_buffer = [], p_options = (\<lambda>_. [])\<rparr> :: parsed"
  have "perform_all (store_perform num usage (Stats_buffer_max usage args) (options_max_from num 1 usage)) os ?st =
    Inr (length os \<le> 2147483647, stored num usage ?st (take 2147483647 os))"
    using store_all[OF i, of ?st "Stats_buffer_max usage args"] b by simp
  then show ?thesis
    by (auto simp: parse_args_def workhorse_found f parse_end_def stored_def split: option.split)
qed

text \<open>C27: The buffer that the first pass sizes is always large enough for the second, and what the second leaves in it are
  the options of the command line in their order, up to the number that fits an \<^verbatim>\<open>int\<close>; the list of an index
  holds those with that index.\<close>

theorem parser_exact:
  "parse_args num usage args =
     (case found False usage False 0 [] args of (os, fin) \<Rightarrow>
        Inr (fin \<noteq> None \<and> length os \<le> 2147483647,
          \<lparr>p_buffer = take 2147483647 os,
           p_options = (\<lambda>i. filter (\<lambda>opt. num (d_index (usage ! o_desc opt)) = i) (take 2147483647 os))\<rparr>))"
  by (rule parse_args_found)

end
