(* ===== verification/Perf_Options.thy ===== *)
theory Perf_Options
  imports Option_Parser Perf_Setup
begin

text \<open>
  The command lines of the latency and the throughput test (\<^verbatim>\<open>main_LatencyTest.cpp\<close>, \<^verbatim>\<open>main_ThroughputTest.cpp\<close> under
  \<^verbatim>\<open>src/other/pubsub/dds/performance\<close>): the tables, from the program's arguments through the parser to the
  configuration that the test is started with. \<^verbatim>\<open>HAVE_SECURITY\<close> is 0, as \<^verbatim>\<open>fastdds/config.hpp\<close> defines it. Help
  texts are left out, and so is the loading of an XML file.
\<close>

datatype optionIndex = UNKNOWN_OPT | HELP | RELIABILITY | SAMPLES | SEED | SUBSCRIBERS | ECHO_OPT | HOSTNAME | EXPORT_CSV
  | EXPORT_RAW_DATA | EXPORT_PREFIX | USE_SECURITY | CERTS_PATH | XML_FILE | DYNAMIC_TYPES | FORCED_DOMAIN | FILE_R
  | DATA_SHARING | DATA_LOAN | SHARED_MEMORY | TIME | RECOVERY_TIME | RECOVERIES | DEMAND | MSG_SIZE

definition latency_enum :: "optionIndex list" where
  "latency_enum = [UNKNOWN_OPT, HELP, RELIABILITY, SAMPLES, SEED, SUBSCRIBERS, ECHO_OPT, HOSTNAME, EXPORT_CSV,
     EXPORT_RAW_DATA, EXPORT_PREFIX, USE_SECURITY, CERTS_PATH, XML_FILE, DYNAMIC_TYPES, FORCED_DOMAIN, FILE_R,
     DATA_SHARING, DATA_LOAN, SHARED_MEMORY]"

definition throughput_enum :: "optionIndex list" where
  "throughput_enum = [UNKNOWN_OPT, HELP, RELIABILITY, SEED, TIME, RECOVERY_TIME, RECOVERIES, DEMAND, MSG_SIZE, FILE_R,
     HOSTNAME, EXPORT_CSV, USE_SECURITY, CERTS_PATH, XML_FILE, DYNAMIC_TYPES, FORCED_DOMAIN, SUBSCRIBERS,
     DATA_SHARING, DATA_LOAN, SHARED_MEMORY]"

definition option_number :: "optionIndex list \<Rightarrow> optionIndex \<Rightarrow> nat" where
  "option_number enum i = scan (\<lambda>j. j = i) enum"

datatype TestAgent = AgentPublisher | AgentSubscriber | AgentBoth

definition entry :: "optionIndex \<Rightarrow> string \<Rightarrow> string \<Rightarrow> (Option \<Rightarrow> ArgStatus) \<Rightarrow> optionIndex Descriptor" where
  "entry i s l f = \<lparr>d_index = i, d_shortopt = s, d_longopt = l, d_check_arg = f\<rparr>"

definition latency_usage :: "optionIndex Descriptor list" where
  "latency_usage =
    [entry UNKNOWN_OPT '''' '''' Arg_None,
     entry HELP ''h'' ''help'' Arg_None,
     entry RELIABILITY ''r'' ''reliability'' Arg_Required,
     entry SAMPLES ''s'' ''samples'' Arg_Numeric,
     entry SEED '''' ''seed'' Arg_Numeric,
     entry HOSTNAME '''' ''hostname'' Arg_None,
     entry XML_FILE '''' ''xml'' Arg_String,
     entry FORCED_DOMAIN '''' ''domain'' Arg_Numeric,
     entry FILE_R ''f'' ''file'' Arg_Required,
     entry DYNAMIC_TYPES '''' ''dynamic_types'' Arg_None,
     entry DATA_SHARING ''d'' ''data_sharing'' Arg_Enabler,
     entry DATA_LOAN ''l'' ''data_loans'' Arg_None,
     entry SHARED_MEMORY '''' ''shared_memory'' Arg_Enabler,
     entry UNKNOWN_OPT '''' '''' Arg_None,
     entry SUBSCRIBERS ''n'' ''subscribers'' Arg_Numeric,
     entry EXPORT_CSV '''' ''export_csv'' Arg_None,
     entry EXPORT_RAW_DATA '''' ''export_raw_data'' Arg_String,
     entry EXPORT_PREFIX '''' ''export_prefix'' Arg_String,
     entry UNKNOWN_OPT '''' '''' Arg_None,
     entry ECHO_OPT ''e'' ''echo'' Arg_Required]"

definition throughput_usage :: "optionIndex Descriptor list" where
  "throughput_usage =
    [entry UNKNOWN_OPT '''' '''' Arg_None,
     entry HELP ''h'' ''help'' Arg_None,
     entry RELIABILITY ''r'' ''reliability'' Arg_Required,
     entry SEED '''' ''seed'' Arg_Numeric,
     entry HOSTNAME '''' ''hostname'' Arg_None,
     entry XML_FILE '''' ''xml'' Arg_String,
     entry DYNAMIC_TYPES '''' ''dynamic_types'' Arg_None,
     entry FORCED_DOMAIN '''' ''domain'' Arg_Numeric,
     entry DATA_SHARING ''d'' ''data_sharing'' Arg_Enabler,
     entry DATA_LOAN ''l'' ''data_loans'' Arg_None,
     entry SHARED_MEMORY '''' ''shared_memory'' Arg_Enabler,
     entry UNKNOWN_OPT '''' '''' Arg_None,
     entry SUBSCRIBERS ''n'' ''subscribers'' Arg_Numeric,
     entry TIME ''t'' ''time'' Arg_Numeric,
     entry RECOVERY_TIME '''' ''recovery_time'' Arg_Numeric,
     entry RECOVERIES '''' ''recoveries_file'' Arg_String,
     entry DEMAND ''d'' ''demand'' Arg_Numeric,
     entry MSG_SIZE ''s'' ''msg_size'' Arg_Numeric,
     entry FILE_R ''f'' ''file'' Arg_Required,
     entry EXPORT_CSV '''' ''export_csv'' Arg_String,
     entry UNKNOWN_OPT '''' '''' Arg_None]"

section \<open>From the arguments to the options\<close>

text \<open>A program returns before its test, or runs it with a configuration.\<close>

datatype 'c outcome = Returns int | Runs 'c

definition deref :: "string option \<Rightarrow> string result" where
  "deref a = (case a of None \<Rightarrow> Inl NullDeref | Some s \<Rightarrow> Inr s)"

text \<open>The loop over the options; \<open>None\<close> is the early return after the usage text.\<close>

fun option_loop :: "('i \<Rightarrow> string option \<Rightarrow> 'c \<Rightarrow> 'c option result) \<Rightarrow> ('i \<times> string option) list \<Rightarrow> 'c \<Rightarrow> 'c option result" where
  "option_loop sw [] c = Inr (Some c)"
| "option_loop sw ((i, a) # xs) c =
     rbind (sw i a c) (\<lambda>r. case r of None \<Rightarrow> Inr None | Some c1 \<Rightarrow> option_loop sw xs c1)"

definition agent_of :: "string \<Rightarrow> TestAgent option" where
  "agent_of s = (if s = ''publisher'' then Some AgentPublisher else if s = ''subscriber'' then Some AgentSubscriber
     else if s = ''both'' then Some AgentBoth else None)"

definition read_options ::
  "optionIndex list \<Rightarrow> optionIndex Descriptor list \<Rightarrow> (optionIndex \<Rightarrow> string option \<Rightarrow> 'c \<Rightarrow> 'c option result) \<Rightarrow> 'c \<Rightarrow>
   string list \<Rightarrow> 'c outcome result" where
  "read_options enum usage sw c0 args = rbind (parse_args (option_number enum) usage args) (\<lambda>(ok, st).
     if \<not> ok then Inr (Returns 1)
     else if p_options st (option_number enum HELP) \<noteq> [] then Inr (Returns 0)
     else rbind (option_loop sw (map (\<lambda>opt. (d_index (usage ! o_desc opt), o_arg opt)) (p_buffer st)) c0)
       (\<lambda>r. Inr (case r of None \<Rightarrow> Returns 0 | Some c \<Rightarrow> Runs c)))"

definition enabler_value :: "string \<Rightarrow> EnablerValue" where
  "enabler_value a = (if starts_no_case ''on'' a then ON else OFF)"

text \<open>\<^verbatim>\<open>long\<close> to \<^verbatim>\<open>int\<close> and to \<^verbatim>\<open>uint32_t\<close>.\<close>

definition to_int :: "string \<Rightarrow> int" where
  "to_int a = wrap_int (fst (strtol a))"

definition to_uint :: "string \<Rightarrow> 32 word" where
  "to_uint a = word_of_int (fst (strtol a))"

section \<open>Latency test\<close>

record latency_config =
  lo_agent :: TestAgent
  lo_subscribers :: int
  lo_samples :: int
  lo_echo :: bool
  lo_reliable :: bool
  lo_seed :: "32 word"
  lo_hostname :: bool
  lo_export_csv :: bool
  lo_export_prefix :: string
  lo_raw_data_file :: string
  lo_xml_config_file :: string
  lo_dynamic_types :: bool
  lo_forced_domain :: int
  lo_demands_file :: string
  lo_data_sharing :: EnablerValue
  lo_data_loans :: bool
  lo_shared_memory :: EnablerValue

definition latency_default :: "TestAgent \<Rightarrow> latency_config" where
  "latency_default ag = \<lparr>lo_agent = ag, lo_subscribers = 1, lo_samples = 10000, lo_echo = True, lo_reliable = False,
     lo_seed = 80, lo_hostname = False, lo_export_csv = False, lo_export_prefix = [], lo_raw_data_file = [],
     lo_xml_config_file = [], lo_dynamic_types = False, lo_forced_domain = - 1, lo_demands_file = [],
     lo_data_sharing = NO_SET, lo_data_loans = False, lo_shared_memory = NO_SET\<rparr>"

definition latency_option :: "optionIndex \<Rightarrow> string option \<Rightarrow> latency_config \<Rightarrow> latency_config option result" where
  "latency_option i a c = (case i of
     HELP \<Rightarrow> Inr (Some c)
   | RELIABILITY \<Rightarrow> rbind (deref a) (\<lambda>s. Inr (if s = ''reliable'' then Some (c\<lparr>lo_reliable := True\<rparr>)
       else if s = ''besteffort'' then Some (c\<lparr>lo_reliable := False\<rparr>) else None))
   | SEED \<Rightarrow> rbind (deref a) (\<lambda>s. Inr (Some (c\<lparr>lo_seed := to_uint s\<rparr>)))
   | SAMPLES \<Rightarrow> rbind (deref a) (\<lambda>s. Inr (Some (c\<lparr>lo_samples := to_int s\<rparr>)))
   | SUBSCRIBERS \<Rightarrow> rbind (deref a) (\<lambda>s. Inr (Some (c\<lparr>lo_subscribers := to_int s\<rparr>)))
   | ECHO_OPT \<Rightarrow> rbind (deref a) (\<lambda>s. Inr (if s = ''true'' then Some (c\<lparr>lo_echo := True\<rparr>)
       else if s = ''false'' then Some (c\<lparr>lo_echo := False\<rparr>) else None))
   | HOSTNAME \<Rightarrow> Inr (Some (c\<lparr>lo_hostname := True\<rparr>))
   | EXPORT_CSV \<Rightarrow> Inr (Some (c\<lparr>lo_export_csv := True\<rparr>))
   | EXPORT_RAW_DATA \<Rightarrow> rbind (deref a) (\<lambda>s. Inr (Some (c\<lparr>lo_raw_data_file := s\<rparr>)))
   | EXPORT_PREFIX \<Rightarrow> Inr (map_option (\<lambda>s. c\<lparr>lo_export_prefix := s\<rparr>) a)
   | XML_FILE \<Rightarrow> Inr (map_option (\<lambda>s. c\<lparr>lo_xml_config_file := s\<rparr>) a)
   | DYNAMIC_TYPES \<Rightarrow> Inr (Some (c\<lparr>lo_dynamic_types := True\<rparr>))
   | FORCED_DOMAIN \<Rightarrow> rbind (deref a) (\<lambda>s. Inr (Some (c\<lparr>lo_forced_domain := to_int s\<rparr>)))
   | FILE_R \<Rightarrow> rbind (deref a) (\<lambda>s. Inr (Some (c\<lparr>lo_demands_file := s\<rparr>)))
   | DATA_SHARING \<Rightarrow> rbind (deref a) (\<lambda>s. Inr (Some (c\<lparr>lo_data_sharing := enabler_value s\<rparr>)))
   | DATA_LOAN \<Rightarrow> Inr (Some (c\<lparr>lo_data_loans := True\<rparr>))
   | SHARED_MEMORY \<Rightarrow> rbind (deref a) (\<lambda>s. Inr (Some (c\<lparr>lo_shared_memory := enabler_value s\<rparr>)))
   | _ \<Rightarrow> Inr None)"

definition latency_conflict :: "latency_config \<Rightarrow> bool" where
  "latency_conflict c \<longleftrightarrow> (lo_data_sharing c = ON \<or> lo_data_loans c) \<and> lo_dynamic_types c"

definition latency_main :: "string list \<Rightarrow> latency_config outcome result" where
  "latency_main argv = (let args = tl argv in
     if args = [] then Inr (Returns 0)
     else case agent_of (hd args) of
       None \<Rightarrow> Inr (Returns 0)
     | Some ag \<Rightarrow> rbind (read_options latency_enum latency_usage latency_option (latency_default ag) (tl args))
         (\<lambda>out. Inr (case out of Returns n \<Rightarrow> Returns n
                     | Runs c \<Rightarrow> if latency_conflict c then Returns 1 else Runs c)))"

section \<open>Throughput test\<close>

record throughput_config =
  to_agent :: TestAgent
  to_test_time_sec :: "32 word"
  to_recovery_time_ms :: "32 word"
  to_demand :: int
  to_msg_size :: "32 word"
  to_reliable :: bool
  to_seed :: "32 word"
  to_hostname :: bool
  to_export_csv :: string
  to_file_name :: string
  to_xml_config_file :: string
  to_recoveries_file :: string
  to_dynamic_types :: bool
  to_forced_domain :: int
  to_subscribers :: "32 word"
  to_data_sharing :: EnablerValue
  to_data_loans :: bool
  to_shared_memory :: EnablerValue

definition throughput_default :: "TestAgent \<Rightarrow> throughput_config" where
  "throughput_default ag = \<lparr>to_agent = ag, to_test_time_sec = 5, to_recovery_time_ms = 5, to_demand = 10000,
     to_msg_size = 1024, to_reliable = False, to_seed = 80, to_hostname = False, to_export_csv = [], to_file_name = [],
     to_xml_config_file = [], to_recoveries_file = [], to_dynamic_types = False, to_forced_domain = - 1,
     to_subscribers = 1, to_data_sharing = NO_SET, to_data_loans = False, to_shared_memory = NO_SET\<rparr>"

text \<open>The switch has no default: an index that it does not name changes nothing.\<close>

definition throughput_option :: "optionIndex \<Rightarrow> string option \<Rightarrow> throughput_config \<Rightarrow> throughput_config option result" where
  "throughput_option i a c = (case i of
     RELIABILITY \<Rightarrow> rbind (deref a) (\<lambda>s. Inr (if s = ''reliable'' then Some (c\<lparr>to_reliable := True\<rparr>)
       else if s = ''besteffort'' then Some (c\<lparr>to_reliable := False\<rparr>) else None))
   | SEED \<Rightarrow> rbind (deref a) (\<lambda>s. Inr (Some (c\<lparr>to_seed := to_uint s\<rparr>)))
   | TIME \<Rightarrow> rbind (deref a) (\<lambda>s. Inr (Some (c\<lparr>to_test_time_sec := to_uint s\<rparr>)))
   | RECOVERY_TIME \<Rightarrow> rbind (deref a) (\<lambda>s. Inr (Some (c\<lparr>to_recovery_time_ms := to_uint s\<rparr>)))
   | RECOVERIES \<Rightarrow> rbind (deref a) (\<lambda>s. Inr (Some (c\<lparr>to_recoveries_file := s\<rparr>)))
   | DEMAND \<Rightarrow> rbind (deref a) (\<lambda>s. Inr (Some (c\<lparr>to_demand := to_int s\<rparr>)))
   | MSG_SIZE \<Rightarrow> rbind (deref a) (\<lambda>s. Inr (Some (c\<lparr>to_msg_size := word_of_int (strtoul s)\<rparr>)))
   | FILE_R \<Rightarrow> rbind (deref a) (\<lambda>s. Inr (Some (c\<lparr>to_file_name := s\<rparr>)))
   | HOSTNAME \<Rightarrow> Inr (Some (c\<lparr>to_hostname := True\<rparr>))
   | SUBSCRIBERS \<Rightarrow> rbind (deref a) (\<lambda>s. Inr (Some (c\<lparr>to_subscribers := to_uint s\<rparr>)))
   | EXPORT_CSV \<Rightarrow> Inr (map_option (\<lambda>s. c\<lparr>to_export_csv := s\<rparr>) a)
   | XML_FILE \<Rightarrow> Inr (map_option (\<lambda>s. c\<lparr>to_xml_config_file := s\<rparr>) a)
   | DYNAMIC_TYPES \<Rightarrow> Inr (Some (c\<lparr>to_dynamic_types := True\<rparr>))
   | FORCED_DOMAIN \<Rightarrow> rbind (deref a) (\<lambda>s. Inr (Some (c\<lparr>to_forced_domain := to_int s\<rparr>)))
   | DATA_SHARING \<Rightarrow> rbind (deref a) (\<lambda>s. Inr (Some (c\<lparr>to_data_sharing := enabler_value s\<rparr>)))
   | DATA_LOAN \<Rightarrow> Inr (Some (c\<lparr>to_data_loans := True\<rparr>))
   | SHARED_MEMORY \<Rightarrow> rbind (deref a) (\<lambda>s. Inr (Some (c\<lparr>to_shared_memory := enabler_value s\<rparr>)))
   | UNKNOWN_OPT \<Rightarrow> Inr None
   | _ \<Rightarrow> Inr (Some c))"

definition throughput_conflict :: "throughput_config \<Rightarrow> bool" where
  "throughput_conflict c \<longleftrightarrow> (to_data_sharing c = ON \<or> to_data_loans c) \<and> to_dynamic_types c"

text \<open>A demands file overrides the demand and the message size.\<close>

definition throughput_file_wins :: "throughput_config \<Rightarrow> throughput_config" where
  "throughput_file_wins c = (if to_file_name c \<noteq> [] then c\<lparr>to_demand := 0, to_msg_size := 0\<rparr> else c)"

definition throughput_main :: "string list \<Rightarrow> throughput_config outcome result" where
  "throughput_main argv = (let args = tl argv in
     if args = [] then Inr (Returns 0)
     else case agent_of (hd args) of
       None \<Rightarrow> Inr (Returns 0)
     | Some ag \<Rightarrow> rbind (read_options throughput_enum throughput_usage throughput_option (throughput_default ag) (tl args))
         (\<lambda>out. Inr (case out of Returns n \<Rightarrow> Returns n
                     | Runs c \<Rightarrow> if throughput_conflict c then Returns 1 else Runs (throughput_file_wins c))))"

section \<open>Facts about the tables\<close>

lemma find_long_zero: "find_long usage 0 nm = scan (\<lambda>d. streq (d_longopt d) nm) usage"
  by (simp add: find_long_def Let_def)



lemma plain_latency: "plain_table latency_usage"
  by (simp add: plain_table_def latency_usage_def entry_def find_dummy_def)

lemma plain_throughput: "plain_table throughput_usage"
  by (simp add: plain_table_def throughput_usage_def entry_def find_dummy_def)




lemma help_latency:
  "\<forall>d \<in> set latency_usage. option_number latency_enum (d_index d) = option_number latency_enum HELP \<longleftrightarrow> d_index d = HELP"
  by (auto simp: latency_usage_def entry_def option_number_def latency_enum_def)

lemma help_throughput:
  "\<forall>d \<in> set throughput_usage. option_number throughput_enum (d_index d) = option_number throughput_enum HELP \<longleftrightarrow> d_index d = HELP"
  by (auto simp: throughput_usage_def entry_def option_number_def throughput_enum_def)

section \<open>The loop over the options\<close>

lemma option_loop_append: "option_loop sw (xs @ ys) c =
    rbind (option_loop sw xs c) (\<lambda>r. case r of None \<Rightarrow> Inr None | Some c1 \<Rightarrow> option_loop sw ys c1)"
proof (induction xs arbitrary: c)
  case (Cons x xs)
  obtain i a where "x = (i, a)" by fastforce
  then show ?case using Cons by (auto simp: rbind_assoc intro!: arg_cong2[of _ _ _ _ rbind] split: option.splits)
qed simp



text \<open>Reading the options of a command line, when they are not too many to count.\<close>

lemma read_options_found:
  assumes "found False usage False 0 [] args = (os, fin)"
    and "\<forall>d \<in> set usage. option_number enum (d_index d) = option_number enum HELP \<longleftrightarrow> d_index d = HELP"
  shows "read_options enum usage sw c0 args =
    (if fin = None \<or> length os > 2147483647 then Inr (Returns 1)
     else if \<exists>opt \<in> set os. d_index (usage ! o_desc opt) = HELP then Inr (Returns 0)
     else rbind (option_loop sw (map (\<lambda>opt. (d_index (usage ! o_desc opt), o_arg opt)) os) c0)
       (\<lambda>r. Inr (case r of None \<Rightarrow> Returns 0 | Some c \<Rightarrow> Runs c)))"
proof -
  have n: "option_number enum (d_index (usage ! o_desc opt)) = option_number enum HELP \<longleftrightarrow> d_index (usage ! o_desc opt) = HELP"
    if "opt \<in> set os" for opt
    using found_typed[OF assms(1) that] assms(2) by (simp add: typed_option_def)
  show ?thesis by (auto simp: read_options_def parse_args_found assms(1) filter_empty_conv n)
qed

lemma read_options_reading:
  assumes "reading usage args = (xs, True)" "length xs \<le> 2147483647" "\<forall>x \<in> set xs. fst x \<noteq> HELP"
    and "\<forall>d \<in> set usage. option_number enum (d_index d) = option_number enum HELP \<longleftrightarrow> d_index d = HELP"
  shows "read_options enum usage sw c0 args =
    rbind (option_loop sw xs c0) (\<lambda>r. Inr (case r of None \<Rightarrow> Returns 0 | Some c \<Rightarrow> Runs c))"
proof -
  obtain os fin where f: "found False usage False 0 [] args = (os, fin)" by fastforce
  have "xs = map (\<lambda>opt. (d_index (usage ! o_desc opt), o_arg opt)) os" "fin \<noteq> None"
    using assms(1) f by (auto simp: reading_def)
  then show ?thesis using assms(2,3) by (auto simp: read_options_found[OF f assms(4)])
qed

section \<open>What a command line can lead to\<close>


definition ints_ok :: "int list \<Rightarrow> bool" where
  "ints_ok xs \<longleftrightarrow> list_all in_int xs"













text \<open>It does so when that is the only option.\<close>

lemma bare_switch_crashes:
  "latency_main [p, ''publisher'', ''--data_sharing''] = Inl NullDeref"
  "throughput_main [p, ''publisher'', ''--shared_memory''] = Inl NullDeref"
proof -
  have 1: "found False latency_usage False 0 [] [''--data_sharing''] = ([Option_init 10 ''--data_sharing'' None], Some [])"
    by (simp add: is_operand_def param_found_def find_long_def Let_def latency_usage_def entry_def step_found_def
        long_optarg_def detached_def Arg_Enabler_def Option_init_def)
  have 2: "found False throughput_usage False 0 [] [''--shared_memory''] = ([Option_init 10 ''--shared_memory'' None], Some [])"
    by (simp add: is_operand_def param_found_def find_long_def Let_def throughput_usage_def entry_def step_found_def
        long_optarg_def detached_def Arg_Enabler_def Option_init_def)
  note h = help_latency help_throughput
  have i: "d_index (latency_usage ! 10) = DATA_SHARING" "d_index (throughput_usage ! 10) = SHARED_MEMORY"
    by (simp_all add: latency_usage_def throughput_usage_def entry_def)
  show "latency_main [p, ''publisher'', ''--data_sharing''] = Inl NullDeref"
    by (simp add: latency_main_def agent_of_def read_options_found[OF 1 h(1)] Option_init_def latency_option_def deref_def i)
  show "throughput_main [p, ''publisher'', ''--shared_memory''] = Inl NullDeref"
    by (simp add: throughput_main_def agent_of_def read_options_found[OF 2 h(2)] Option_init_def throughput_option_def deref_def i)
qed

section \<open>Writing a configuration\<close>

definition agent_word :: "TestAgent \<Rightarrow> string" where
  "agent_word ag = (case ag of AgentPublisher \<Rightarrow> ''publisher'' | AgentSubscriber \<Rightarrow> ''subscriber'' | AgentBoth \<Rightarrow> ''both'')"

definition enabler_text :: "EnablerValue \<Rightarrow> string" where
  "enabler_text v = (if v = ON then ''on'' else ''off'')"

definition flag :: "'i \<Rightarrow> bool \<Rightarrow> ('i \<times> string option) list" where
  "flag i b = (if b then [(i, None)] else [])"

definition enabler :: "'i \<Rightarrow> EnablerValue \<Rightarrow> ('i \<times> string option) list" where
  "enabler i v = (if v = NO_SET then [] else [(i, Some (enabler_text v))])"

definition file_option :: "'i \<Rightarrow> string \<Rightarrow> ('i \<times> string option) list" where
  "file_option i s = (if s = [] then [] else [(i, Some s)])"

definition reliability_text :: "bool \<Rightarrow> string" where
  "reliability_text b = (if b then ''reliable'' else ''besteffort'')"

definition echo_text :: "bool \<Rightarrow> string" where
  "echo_text b = (if b then ''true'' else ''false'')"

definition uint_text :: "32 word \<Rightarrow> string" where
  "uint_text w = show_nat (unat w)"

definition latency_settings :: "latency_config \<Rightarrow> (optionIndex \<times> string option) list" where
  "latency_settings c = [(RELIABILITY, Some (reliability_text (lo_reliable c))), (SAMPLES, Some (show_int (lo_samples c))),
       (SEED, Some (uint_text (lo_seed c))), (SUBSCRIBERS, Some (show_int (lo_subscribers c))),
       (ECHO_OPT, Some (echo_text (lo_echo c))), (EXPORT_RAW_DATA, Some (lo_raw_data_file c)),
       (EXPORT_PREFIX, Some (lo_export_prefix c)), (XML_FILE, Some (lo_xml_config_file c)),
       (FORCED_DOMAIN, Some (show_int (lo_forced_domain c)))] @
     flag HOSTNAME (lo_hostname c) @ flag EXPORT_CSV (lo_export_csv c) @ flag DYNAMIC_TYPES (lo_dynamic_types c) @
     flag DATA_LOAN (lo_data_loans c) @ file_option FILE_R (lo_demands_file c) @
     enabler DATA_SHARING (lo_data_sharing c) @ enabler SHARED_MEMORY (lo_shared_memory c)"

definition throughput_settings :: "throughput_config \<Rightarrow> (optionIndex \<times> string option) list" where
  "throughput_settings c = [(RELIABILITY, Some (reliability_text (to_reliable c))), (SEED, Some (uint_text (to_seed c))),
       (TIME, Some (uint_text (to_test_time_sec c))), (RECOVERY_TIME, Some (uint_text (to_recovery_time_ms c))),
       (RECOVERIES, Some (to_recoveries_file c)), (DEMAND, Some (show_int (to_demand c))),
       (MSG_SIZE, Some (uint_text (to_msg_size c))), (SUBSCRIBERS, Some (uint_text (to_subscribers c))),
       (EXPORT_CSV, Some (to_export_csv c)), (XML_FILE, Some (to_xml_config_file c)),
       (FORCED_DOMAIN, Some (show_int (to_forced_domain c)))] @
     flag HOSTNAME (to_hostname c) @ flag DYNAMIC_TYPES (to_dynamic_types c) @
     flag DATA_LOAN (to_data_loans c) @ file_option FILE_R (to_file_name c) @
     enabler DATA_SHARING (to_data_sharing c) @ enabler SHARED_MEMORY (to_shared_memory c)"

lemma strtol_digits:
  assumes "list_all is_digit ds" "ds \<noteq> []" "int (read_digits 0 ds) < 2 ^ 63"
  shows "strtol ds = (int (read_digits 0 ds), [])" "strtol (CHR ''-'' # ds) = (- int (read_digits 0 ds), [])"
proof -
  obtain d ds' where ds: "ds = d # ds'" using assms(2) by (cases ds) auto
  have d: "is_digit d" using assms(1) ds by simp
  have w: "dropWhile is_digit ds = []" using assms(1) by (simp add: list_all_iff)
  have sp: "\<not> is_space CHR ''-''" by (simp add: is_space_def)
  show "strtol ds = (int (read_digits 0 ds), [])"
    using digit_not_sign[OF d] d w assms(3) by (simp add: strtol_def read_sign_def ds)
  show "strtol (CHR ''-'' # ds) = (- int (read_digits 0 ds), [])"
    using d w sp assms(3) by (simp add: strtol_def read_sign_def ds)
qed

lemma strtol_show:
  assumes "in_int x"
  shows "strtol (show_int x) = (x, [])" "show_int x \<noteq> []"
proof -
  have b: "int (read_digits 0 (show_nat (nat x))) < 2 ^ 63" "int (read_digits 0 (show_nat (nat (- x)))) < 2 ^ 63"
    using assms by (simp_all add: read_show_nat in_int_numerals)
  show "strtol (show_int x) = (x, [])"
    using strtol_digits(1)[OF _ _ b(1)] strtol_digits(2)[OF _ _ b(2)] show_nat_digits[of "nat x"] show_nat_digits[of "nat (- x)"]
    by (auto simp: show_int_def read_show_nat)
  show "show_int x \<noteq> []" using show_nat_digits[of "nat x"] by (simp add: show_int_def)
qed

lemma strtol_uint: "strtol (uint_text w) = (uint w, [])" "strtoul (uint_text w) = uint w" "uint_text w \<noteq> []"
proof -
  have "unat w < 2 ^ LENGTH(32)" by (rule unsigned_less)
  then have w: "unat w < 4294967296" by simp
  have u: "int (unat w) = uint w" by simp
  note d = show_nat_digits[of "unat w"]
  have "int (unat w) < 9223372036854775808" using w by linarith
  then have b: "int (read_digits 0 (show_nat (unat w))) < 2 ^ 63" by (simp add: read_show_nat)
  show s: "strtol (uint_text w) = (uint w, [])"
    using strtol_digits(1)[OF _ _ b] d by (simp add: uint_text_def read_show_nat)
  obtain c cs where cs: "show_nat (unat w) = c # cs" using d by (cases "show_nat (unat w)") auto
  then have c: "is_digit c" using d by simp
  have "uint w < 18446744073709551616" using w u by linarith
  then have "uint w mod 18446744073709551616 = uint w" by (intro mod_pos_pos_trivial) simp_all
  then show "strtoul (uint_text w) = uint w"
    using c cs digit_not_sign[OF c] read_show_nat[of "unat w"] w
    by (simp add: strtoul_def read_sign_def uint_text_def)
  show "uint_text w \<noteq> []" using d by (simp add: uint_text_def)
qed

lemma numeric_ok:
  "in_int x \<Longrightarrow> Arg_Numeric (Option_init d nm (Some (show_int x))) = ARG_OK"
  "Arg_Numeric (Option_init d nm (Some (uint_text w))) = ARG_OK"
  by (simp_all add: Arg_Numeric_def Option_init_def strtol_show strtol_uint not_sym[OF strtol_show(2)] not_sym[OF strtol_uint(3)])

lemma enabler_ok: "v \<noteq> NO_SET \<Longrightarrow> enabler_value (enabler_text v) = v" "enabler_text v \<noteq> []"
  "Arg_Enabler (Option_init d nm (Some (enabler_text v))) = ARG_OK"
  by (cases v; simp add: enabler_value_def enabler_text_def starts_no_case_def Arg_Enabler_def Option_init_def c_tolower_def Let_def)+

lemma texts_ok: "reliability_text b \<noteq> []" "echo_text b \<noteq> []"
  by (simp_all add: reliability_text_def echo_text_def)

text \<open>The entries of the two tables, for every way of writing them; \<^verbatim>\<open>demand\<close> only by its long name.\<close>

lemmas entry_simps = writable_def entry_at_def named_entry_def entry_def find_long_def find_short_def Let_def

lemma latency_entry_a:
  "v \<noteq> [] \<Longrightarrow> i \<in> {RELIABILITY, FILE_R, ECHO_OPT} \<Longrightarrow> writable latency_usage sp (i, Some v)"
  by (elim insertE emptyE)
    (simp_all add: entry_simps latency_usage_def Arg_Required_def Arg_String_def Option_init_def)

lemma latency_entry_b:
  "Arg_Numeric (Option_init 0 [] (Some v)) = ARG_OK \<Longrightarrow> v \<noteq> [] \<Longrightarrow> i \<in> {SAMPLES, SEED, SUBSCRIBERS, FORCED_DOMAIN} \<Longrightarrow>
     writable latency_usage sp (i, Some v)"
  by (elim insertE emptyE)
    (simp_all add: entry_simps latency_usage_def Arg_Required_def Arg_String_def Option_init_def)

lemma latency_entry_c:
  "i \<in> {XML_FILE, EXPORT_RAW_DATA, EXPORT_PREFIX} \<Longrightarrow> writable latency_usage sp (i, Some v)"
  by (elim insertE emptyE)
    (simp_all add: entry_simps latency_usage_def Arg_Required_def Arg_String_def Option_init_def)

lemma latency_entry_d:
  "Arg_Enabler (Option_init 0 [] (Some v)) = ARG_OK \<Longrightarrow> v \<noteq> [] \<Longrightarrow> i \<in> {DATA_SHARING, SHARED_MEMORY} \<Longrightarrow>
     writable latency_usage sp (i, Some v)"
  by (elim insertE emptyE)
    (simp_all add: entry_simps latency_usage_def Arg_Required_def Arg_String_def Option_init_def)

lemma latency_entry_e:
  "i \<in> {HOSTNAME, EXPORT_CSV, DYNAMIC_TYPES, DATA_LOAN} \<Longrightarrow> writable latency_usage sp (i, None)"
  by (elim insertE emptyE)
    (simp_all add: entry_simps latency_usage_def Arg_Required_def Arg_String_def Option_init_def)

lemmas latency_entries = latency_entry_a latency_entry_b latency_entry_c latency_entry_d latency_entry_e

lemma throughput_entry_a:
  "v \<noteq> [] \<Longrightarrow> i \<in> {RELIABILITY, FILE_R} \<Longrightarrow> writable throughput_usage sp (i, Some v)"
  by (elim insertE emptyE)
    (simp_all add: entry_simps throughput_usage_def Arg_Required_def Arg_String_def Option_init_def)

lemma throughput_entry_b:
  "Arg_Numeric (Option_init 0 [] (Some v)) = ARG_OK \<Longrightarrow> v \<noteq> [] \<Longrightarrow>
     i \<in> {SEED, TIME, RECOVERY_TIME, MSG_SIZE, SUBSCRIBERS, FORCED_DOMAIN} \<Longrightarrow> writable throughput_usage sp (i, Some v)"
  by (elim insertE emptyE)
    (simp_all add: entry_simps throughput_usage_def Arg_Required_def Arg_String_def Option_init_def)

lemma throughput_entry_c:
  "Arg_Numeric (Option_init 0 [] (Some v)) = ARG_OK \<Longrightarrow> v \<noteq> [] \<Longrightarrow> sp DEMAND \<in> {LongJoined, LongApart} \<Longrightarrow>
     writable throughput_usage sp (DEMAND, Some v)"
  by (cases "sp DEMAND") (simp_all add: entry_simps throughput_usage_def)

lemma throughput_entry_d:
  "i \<in> {XML_FILE, EXPORT_CSV, RECOVERIES} \<Longrightarrow> writable throughput_usage sp (i, Some v)"
  by (elim insertE emptyE)
    (simp_all add: entry_simps throughput_usage_def Arg_Required_def Arg_String_def Option_init_def)

lemma throughput_entry_e:
  "Arg_Enabler (Option_init 0 [] (Some v)) = ARG_OK \<Longrightarrow> v \<noteq> [] \<Longrightarrow> i \<in> {DATA_SHARING, SHARED_MEMORY} \<Longrightarrow>
     writable throughput_usage sp (i, Some v)"
  by (elim insertE emptyE)
    (simp_all add: entry_simps throughput_usage_def Arg_Required_def Arg_String_def Option_init_def)

lemma throughput_entry_f:
  "i \<in> {HOSTNAME, DYNAMIC_TYPES, DATA_LOAN} \<Longrightarrow> writable throughput_usage sp (i, None)"
  by (elim insertE emptyE)
    (simp_all add: entry_simps throughput_usage_def Arg_Required_def Arg_String_def Option_init_def)

lemmas throughput_entries = throughput_entry_a throughput_entry_b throughput_entry_c throughput_entry_d throughput_entry_e throughput_entry_f

lemma latency_settings_writable:
  assumes "ints_ok [lo_subscribers c, lo_samples c, lo_forced_domain c]"
  shows "\<forall>x \<in> set (latency_settings c). writable latency_usage sp x \<and> fst x \<noteq> HELP" "length (latency_settings c) \<le> 16"
  using assms
  by (auto simp: latency_settings_def flag_def enabler_def file_option_def ints_ok_def
      latency_entries numeric_ok strtol_show strtol_uint enabler_ok texts_ok)

lemma throughput_settings_writable:
  assumes "ints_ok [to_demand c, to_forced_domain c]" "sp DEMAND \<in> {LongJoined, LongApart}"
  shows "\<forall>x \<in> set (throughput_settings c). writable throughput_usage sp x \<and> fst x \<noteq> HELP" "length (throughput_settings c) \<le> 17"
  using assms
  by (auto simp: throughput_settings_def flag_def enabler_def file_option_def ints_ok_def
      throughput_entries numeric_ok strtol_show strtol_uint enabler_ok texts_ok)

lemma agent_of_word: "agent_of (agent_word ag) = Some ag"
  by (cases ag) (simp_all add: agent_of_def agent_word_def)

lemma to_int_show: "in_int x \<Longrightarrow> to_int (show_int x) = x"
  by (simp add: to_int_def strtol_show)

lemma to_uint_show: "to_uint (uint_text w) = w" "word_of_int (strtoul (uint_text w)) = w"
  by (simp_all add: to_uint_def strtol_uint)

lemma text_reads: "reliability_text b = ''reliable'' \<longleftrightarrow> b" "reliability_text b = ''besteffort'' \<longleftrightarrow> \<not> b"
  "echo_text b = ''true'' \<longleftrightarrow> b" "echo_text b = ''false'' \<longleftrightarrow> \<not> b"
  by (simp_all add: reliability_text_def echo_text_def)

lemma option_loop_flag:
  assumes "sw i None c = Inr (Some (f True))" "f False = c"
  shows "option_loop sw (flag i b) c = Inr (Some (f b))"
  using assms by (cases b) (auto simp: flag_def)

lemma option_loop_enabler:
  assumes "\<And>s. sw i (Some s) c = Inr (Some (f (enabler_value s)))" "f NO_SET = c"
  shows "option_loop sw (enabler i v) c = Inr (Some (f v))"
  using assms by (cases "v = NO_SET") (auto simp: enabler_def enabler_ok)

lemma option_loop_file:
  assumes "\<And>s. sw i (Some s) c = Inr (Some (f s))" "f [] = c"
  shows "option_loop sw (file_option i v) c = Inr (Some (f v))"
  using assms by (cases "v = []") (auto simp: file_option_def)

lemma latency_writes:
  "latency_option RELIABILITY (Some (reliability_text b)) d = Inr (Some (d\<lparr>lo_reliable := b\<rparr>))"
  "in_int x \<Longrightarrow> latency_option SAMPLES (Some (show_int x)) d = Inr (Some (d\<lparr>lo_samples := x\<rparr>))"
  "latency_option SEED (Some (uint_text w)) d = Inr (Some (d\<lparr>lo_seed := w\<rparr>))"
  "in_int x \<Longrightarrow> latency_option SUBSCRIBERS (Some (show_int x)) d = Inr (Some (d\<lparr>lo_subscribers := x\<rparr>))"
  "latency_option ECHO_OPT (Some (echo_text b)) d = Inr (Some (d\<lparr>lo_echo := b\<rparr>))"
  "latency_option EXPORT_RAW_DATA (Some s) d = Inr (Some (d\<lparr>lo_raw_data_file := s\<rparr>))"
  "latency_option EXPORT_PREFIX (Some s) d = Inr (Some (d\<lparr>lo_export_prefix := s\<rparr>))"
  "latency_option XML_FILE (Some s) d = Inr (Some (d\<lparr>lo_xml_config_file := s\<rparr>))"
  "in_int x \<Longrightarrow> latency_option FORCED_DOMAIN (Some (show_int x)) d = Inr (Some (d\<lparr>lo_forced_domain := x\<rparr>))"
  "\<not> lo_hostname d \<Longrightarrow> option_loop latency_option (flag HOSTNAME b) d = Inr (Some (d\<lparr>lo_hostname := b\<rparr>))"
  "\<not> lo_export_csv d \<Longrightarrow> option_loop latency_option (flag EXPORT_CSV b) d = Inr (Some (d\<lparr>lo_export_csv := b\<rparr>))"
  "\<not> lo_dynamic_types d \<Longrightarrow> option_loop latency_option (flag DYNAMIC_TYPES b) d = Inr (Some (d\<lparr>lo_dynamic_types := b\<rparr>))"
  "\<not> lo_data_loans d \<Longrightarrow> option_loop latency_option (flag DATA_LOAN b) d = Inr (Some (d\<lparr>lo_data_loans := b\<rparr>))"
  "lo_demands_file d = [] \<Longrightarrow> option_loop latency_option (file_option FILE_R s) d = Inr (Some (d\<lparr>lo_demands_file := s\<rparr>))"
  "lo_data_sharing d = NO_SET \<Longrightarrow> option_loop latency_option (enabler DATA_SHARING v) d = Inr (Some (d\<lparr>lo_data_sharing := v\<rparr>))"
  "lo_shared_memory d = NO_SET \<Longrightarrow> option_loop latency_option (enabler SHARED_MEMORY v) d = Inr (Some (d\<lparr>lo_shared_memory := v\<rparr>))"
  by (simp_all add: latency_option_def deref_def text_reads to_int_show to_uint_show option_loop_flag option_loop_file option_loop_enabler)

lemma latency_loop_settings:
  assumes "ints_ok [lo_subscribers c, lo_samples c, lo_forced_domain c]"
  shows "option_loop latency_option (latency_settings c) (latency_default (lo_agent c)) = Inr (Some c)"
  using assms by (cases c) (simp add: latency_settings_def option_loop_append latency_writes latency_default_def ints_ok_def)

lemma throughput_writes:
  "throughput_option RELIABILITY (Some (reliability_text b)) d = Inr (Some (d\<lparr>to_reliable := b\<rparr>))"
  "throughput_option SEED (Some (uint_text w)) d = Inr (Some (d\<lparr>to_seed := w\<rparr>))"
  "throughput_option TIME (Some (uint_text w)) d = Inr (Some (d\<lparr>to_test_time_sec := w\<rparr>))"
  "throughput_option RECOVERY_TIME (Some (uint_text w)) d = Inr (Some (d\<lparr>to_recovery_time_ms := w\<rparr>))"
  "throughput_option RECOVERIES (Some s) d = Inr (Some (d\<lparr>to_recoveries_file := s\<rparr>))"
  "in_int x \<Longrightarrow> throughput_option DEMAND (Some (show_int x)) d = Inr (Some (d\<lparr>to_demand := x\<rparr>))"
  "throughput_option MSG_SIZE (Some (uint_text w)) d = Inr (Some (d\<lparr>to_msg_size := w\<rparr>))"
  "throughput_option SUBSCRIBERS (Some (uint_text w)) d = Inr (Some (d\<lparr>to_subscribers := w\<rparr>))"
  "throughput_option EXPORT_CSV (Some s) d = Inr (Some (d\<lparr>to_export_csv := s\<rparr>))"
  "throughput_option XML_FILE (Some s) d = Inr (Some (d\<lparr>to_xml_config_file := s\<rparr>))"
  "in_int x \<Longrightarrow> throughput_option FORCED_DOMAIN (Some (show_int x)) d = Inr (Some (d\<lparr>to_forced_domain := x\<rparr>))"
  "\<not> to_hostname d \<Longrightarrow> option_loop throughput_option (flag HOSTNAME b) d = Inr (Some (d\<lparr>to_hostname := b\<rparr>))"
  "\<not> to_dynamic_types d \<Longrightarrow> option_loop throughput_option (flag DYNAMIC_TYPES b) d = Inr (Some (d\<lparr>to_dynamic_types := b\<rparr>))"
  "\<not> to_data_loans d \<Longrightarrow> option_loop throughput_option (flag DATA_LOAN b) d = Inr (Some (d\<lparr>to_data_loans := b\<rparr>))"
  "to_file_name d = [] \<Longrightarrow> option_loop throughput_option (file_option FILE_R s) d = Inr (Some (d\<lparr>to_file_name := s\<rparr>))"
  "to_data_sharing d = NO_SET \<Longrightarrow> option_loop throughput_option (enabler DATA_SHARING v) d = Inr (Some (d\<lparr>to_data_sharing := v\<rparr>))"
  "to_shared_memory d = NO_SET \<Longrightarrow> option_loop throughput_option (enabler SHARED_MEMORY v) d = Inr (Some (d\<lparr>to_shared_memory := v\<rparr>))"
  by (simp_all add: throughput_option_def deref_def text_reads to_int_show to_uint_show option_loop_flag option_loop_file option_loop_enabler)

lemma throughput_loop_settings:
  assumes "ints_ok [to_demand c, to_forced_domain c]"
  shows "option_loop throughput_option (throughput_settings c) (throughput_default (to_agent c)) = Inr (Some c)"
  using assms by (cases c) (simp add: throughput_settings_def option_loop_append throughput_writes throughput_default_def ints_ok_def)

lemma latency_options_read:
  assumes "ints_ok [lo_subscribers c, lo_samples c, lo_forced_domain c]"
  shows "latency_main (prog # agent_word (lo_agent c) # write_line latency_usage sp (latency_settings c)) =
    Inr (if latency_conflict c then Returns 1 else Runs c)"
proof -
  note h = help_latency
  note w = latency_settings_writable[OF assms]
  have "reading latency_usage (write_line latency_usage sp (latency_settings c)) = (latency_settings c, True)"
    by (rule reading_write_line[OF plain_latency]) (use w in blast)
  then have "read_options latency_enum latency_usage latency_option (latency_default (lo_agent c)) (write_line latency_usage sp (latency_settings c)) =
      rbind (option_loop latency_option (latency_settings c) (latency_default (lo_agent c))) (\<lambda>r. Inr (case r of None \<Rightarrow> Returns 0 | Some c \<Rightarrow> Runs c))"
    by (rule read_options_reading[OF _ _ _ h]) (use w in auto)
  then show ?thesis by (simp add: latency_main_def agent_of_word latency_loop_settings[OF assms])
qed

text \<open>C26: The latency test runs with exactly the configuration that its command line spells out, whichever of the
  four spellings each option has, unless sharing and dynamic types exclude each other.\<close>

theorem latency_options_exact:
  assumes "ints_ok [lo_subscribers c, lo_samples c, lo_forced_domain c]"
  shows "latency_main (prog # agent_word (lo_agent c) # write_line latency_usage sp (latency_settings c)) =
    Inr (if latency_conflict c then Returns 1 else Runs c)"
  by (rule latency_options_read[OF assms])

lemma throughput_options_read:
  assumes "ints_ok [to_demand c, to_forced_domain c]" and "sp DEMAND \<in> {LongJoined, LongApart}"
  shows "throughput_main (prog # agent_word (to_agent c) # write_line throughput_usage sp (throughput_settings c)) =
    Inr (if throughput_conflict c then Returns 1 else Runs (throughput_file_wins c))"
proof -
  note h = help_throughput
  note w = throughput_settings_writable[where c = c and sp = sp, OF assms]
  have "reading throughput_usage (write_line throughput_usage sp (throughput_settings c)) = (throughput_settings c, True)"
    by (rule reading_write_line[OF plain_throughput]) (use w in blast)
  then have "read_options throughput_enum throughput_usage throughput_option (throughput_default (to_agent c)) (write_line throughput_usage sp (throughput_settings c)) =
      rbind (option_loop throughput_option (throughput_settings c) (throughput_default (to_agent c))) (\<lambda>r. Inr (case r of None \<Rightarrow> Returns 0 | Some c \<Rightarrow> Runs c))"
    by (rule read_options_reading[OF _ _ _ h]) (use w in auto)
  then show ?thesis by (simp add: throughput_main_def agent_of_word throughput_loop_settings[OF assms(1)])
qed

text \<open>The throughput test does so too, when the demand is written with its long name; a file of demands replaces the
  demand and the message size.\<close>

theorem throughput_options_exact:
  assumes "ints_ok [to_demand c, to_forced_domain c]" and "sp DEMAND \<in> {LongJoined, LongApart}"
  shows "throughput_main (prog # agent_word (to_agent c) # write_line throughput_usage sp (throughput_settings c)) =
    Inr (if throughput_conflict c then Returns 1 else Runs (throughput_file_wins c))"
  by (rule throughput_options_read[where c = c and sp = sp, OF assms])

definition sample_latency_config :: latency_config where
  "sample_latency_config = (latency_default AgentBoth)\<lparr>lo_samples := 500, lo_reliable := True, lo_demands_file := ''d.csv'',
     lo_data_sharing := ON\<rparr>"

theorem latency_options_exact_witness:
  "latency_main (''p'' # agent_word AgentBoth # write_line latency_usage (\<lambda>_. ShortJoined) (latency_settings sample_latency_config)) =
    Inr (Runs sample_latency_config)"
  using latency_options_exact[of sample_latency_config "''p''" "\<lambda>_. ShortJoined"]
  by (simp add: sample_latency_config_def latency_default_def ints_ok_def in_int_numerals latency_conflict_def)

definition sample_throughput_config :: throughput_config where
  "sample_throughput_config = (throughput_default AgentPublisher)\<lparr>to_demand := 500, to_msg_size := 64\<rparr>"

theorem throughput_options_exact_witness:
  "throughput_main (''p'' # agent_word AgentPublisher # write_line throughput_usage
      (\<lambda>i. if i = DEMAND then LongApart else ShortApart) (throughput_settings sample_throughput_config)) =
    Inr (Runs sample_throughput_config)"
  using throughput_options_exact[of sample_throughput_config "\<lambda>i. if i = DEMAND then LongApart else ShortApart" "''p''"]
  by (simp add: sample_throughput_config_def throughput_default_def ints_ok_def in_int_numerals throughput_conflict_def
      throughput_file_wins_def)

section \<open>The short name of the demand\<close>

lemma demand_entry:
  "find_short throughput_usage ch \<noteq> 16" "find_dummy throughput_usage = 0" "d_longopt (throughput_usage ! 16) = ''demand''"
  by (auto simp: find_short_def find_dummy_def throughput_usage_def entry_def)

lemma demand_index: "k < length throughput_usage \<Longrightarrow> d_index (throughput_usage ! k) = DEMAND \<Longrightarrow> k = 16"
  by (auto simp: throughput_usage_def entry_def less_Suc_eq)

lemma throughput_option_demand:
  "throughput_option i a c = Inr (Some c') \<Longrightarrow> i \<noteq> DEMAND \<Longrightarrow> to_demand c' = to_demand c"
  by (cases i; cases a) (auto simp: throughput_option_def deref_def split: if_splits)

lemma option_loop_keeps_on:
  assumes "\<And>i a c c'. (i, a) \<in> set xs \<Longrightarrow> sw i a c = Inr (Some c') \<Longrightarrow> g c' = g c"
  shows "option_loop sw xs c = Inr (Some c') \<Longrightarrow> g c' = g c"
  using assms
proof (induction xs arbitrary: c)
  case (Cons x xs)
  obtain i a where x: "x = (i, a)" by fastforce
  then obtain c1 where "sw i a c = Inr (Some c1)" "option_loop sw xs c1 = Inr (Some c')"
    using Cons.prems(1) by (auto elim!: rbindE split: option.splits)
  then show ?case using Cons.IH[of c1] Cons.prems(2) x by (metis list.set_intros)
qed simp

lemma streq_prefix: "streq l nm \<Longrightarrow> take (length l) nm = l"
  by (induction l nm rule: streq.induct) (auto split: if_splits)

text \<open>Without the long name of the option no command line of the throughput test changes the demand, since its short
  name \<^verbatim>\<open>-d\<close> is that of the earlier entry for data sharing.\<close>

theorem demand_needs_long_name:
  assumes "throughput_main argv = Inr (Runs c)" and "\<forall>a \<in> set argv. take 8 a \<noteq> ''--demand''"
  shows "to_demand c = (if to_file_name c = [] then 10000 else 0)"
proof -
  obtain ag where ag: "tl argv \<noteq> []" "agent_of (hd (tl argv)) = Some ag"
    using assms(1) by (auto simp: throughput_main_def Let_def split: if_splits option.splits)
  let ?args = "tl (tl argv)"
  obtain os fin where f: "found False throughput_usage False 0 [] ?args = (os, fin)" by fastforce
  let ?xs = "map (\<lambda>opt. (d_index (throughput_usage ! o_desc opt), o_arg opt)) os"
  note h = help_throughput
  have no: "d_index (throughput_usage ! o_desc opt) \<noteq> DEMAND" if o: "opt \<in> set os" for opt
  proof
    assume d: "d_index (throughput_usage ! o_desc opt) = DEMAND"
    have "o_desc opt < length throughput_usage" using found_typed[OF f o] by (simp add: typed_option_def)
    with demand_index[OF this d] have k: "o_desc opt = 16" "16 < length throughput_usage" by simp_all
    obtain nm where nm: "''--'' @ nm \<in> set ?args" "16 = find_long throughput_usage 0 nm"
      using found_origin[OF f o] k(1) demand_entry(1,2) by (auto simp: origin_def)
    have "streq ''demand'' nm"
      using scan_hit[of "\<lambda>d. streq (d_longopt d) nm" throughput_usage] nm(2) k(2) demand_entry(3) by (simp add: find_long_zero)
    then have "take 8 (''--'' @ nm) = ''--demand''" using streq_prefix[of "''demand''" nm] by (simp add: eval_nat_numeral)
    moreover have "''--'' @ nm \<in> set argv" using nm(1) by (metis list.set_sel(2) tl_Nil)
    ultimately show False using assms(2) by blast
  qed
  obtain c1 where c1: "option_loop throughput_option ?xs (throughput_default ag) = Inr (Some c1)" "c = throughput_file_wins c1"
    using assms(1) ag
    by (auto simp: throughput_main_def Let_def read_options_found[OF f h] elim!: rbindE split: if_splits option.splits)
  have "to_demand c1 = to_demand (throughput_default ag)"
    by (rule option_loop_keeps_on[OF _ c1(1)]) (use no throughput_option_demand in auto)
  then show ?thesis using c1(2) by (simp add: throughput_file_wins_def throughput_default_def)
qed

theorem demand_needs_long_name_witness:
  "throughput_main [''p'', ''publisher'', ''-don''] = Inr (Runs ((throughput_default AgentPublisher)\<lparr>to_data_sharing := ON\<rparr>)) \<and>
   to_demand ((throughput_default AgentPublisher)\<lparr>to_data_sharing := ON\<rparr>) = 10000"
proof -
  have f: "reading throughput_usage [''-don''] = ([(DATA_SHARING, Some ''on'')], True)"
    using reading_write_line[OF plain_throughput, of "[(DATA_SHARING, Some ''on'')]" "\<lambda>_. ShortJoined"]
      throughput_entries(5)[of "''on''" DATA_SHARING "\<lambda>_. ShortJoined"]
    by (simp add: write_line_def write_option_def entry_at_def throughput_usage_def entry_def Arg_Enabler_def
        starts_no_case_def c_tolower_def Let_def Option_init_def)
  note h = help_throughput
  have m: "throughput_main [''p'', ''publisher'', ''-don''] = Inr (Runs ((throughput_default AgentPublisher)\<lparr>to_data_sharing := ON\<rparr>))"
    using read_options_reading[OF f _ _ h, of throughput_option "throughput_default AgentPublisher"]
    by (simp add: throughput_main_def agent_of_def throughput_option_def deref_def enabler_value_def starts_no_case_def
        c_tolower_def Let_def throughput_conflict_def throughput_file_wins_def throughput_default_def)
  show ?thesis using m demand_needs_long_name[OF m] by (simp add: throughput_default_def)
qed

text \<open>With a number \<^verbatim>\<open>-d\<close> is an error.\<close>

lemma short_demand_rejected: "throughput_main [p, ''publisher'', ''-d'', ''100''] = Inr (Returns 1)"
proof -
  have f: "found False throughput_usage False 0 [] [''-d'', ''100''] = ([], None)"
    by (simp add: is_operand_def param_found_def find_short_def Let_def throughput_usage_def entry_def step_found_def
        detached_def Arg_Enabler_def Option_init_def starts_no_case_def c_tolower_def)
  note h = help_throughput
  show ?thesis by (simp add: throughput_main_def agent_of_def read_options_found[OF f h])
qed

end
