(* ===== verification/Composite_Tree.thy ===== *)
theory Composite_Tree
  imports Heap
begin

text \<open>
  The composite pattern of \<^verbatim>\<open>src/design_mode/component/component.cpp\<close>: components on the heap, a composite with a vector
  of pointers to its children, which its destructor and \<^verbatim>\<open>Remove\<close> delete. Deleting takes fuel for the nested calls;
  what is needed for a tree is computed. What the program prints is a list of events.
\<close>

datatype component = Leaf string | Composite string "ptr list"

datatype event = ComponentCtor string | LeafCtor | CompositeCtor | ComponentDtor string | DeleteLine string
  | NameLine string | LeafPrint | IsLeaf string | IsComposite string

type_synonym comp_state = "component heap \<times> event list"

primrec m_strComname :: "component \<Rightarrow> string" where
  "m_strComname (Leaf nm) = nm"
| "m_strComname (Composite nm cs) = nm"

definition GetName :: "component heap \<Rightarrow> ptr \<Rightarrow> string result" where
  "GetName h p = rbind (h_read h p) (\<lambda>c. Inr (m_strComname c))"

definition Leaf_ctor :: "string \<Rightarrow> comp_state \<Rightarrow> ptr \<times> comp_state" where
  "Leaf_ctor nm = (\<lambda>(h, out). let (p, h1) = h_new (Leaf nm) h in (p, h1, out @ [ComponentCtor nm, LeafCtor]))"

definition Composite_ctor :: "string \<Rightarrow> comp_state \<Rightarrow> ptr \<times> comp_state" where
  "Composite_ctor nm = (\<lambda>(h, out). let (p, h1) = h_new (Composite nm []) h in (p, h1, out @ [ComponentCtor nm, CompositeCtor]))"

text \<open>\<^verbatim>\<open>delete\<close> through a pointer to the base class, and the loop of \<^verbatim>\<open>~Composite\<close> on the vector of the object at \<open>p\<close>.\<close>

fun delete_component :: "nat \<Rightarrow> ptr \<Rightarrow> comp_state \<Rightarrow> comp_state option result"
  and Composite_dtor :: "nat \<Rightarrow> ptr \<Rightarrow> comp_state \<Rightarrow> comp_state option result" where
  "delete_component 0 p s = Inr None"
| "delete_component (Suc k) p s =
     (if p = None then Inr (Some s)
      else rbind (h_read (fst s) p) (\<lambda>c.
        rbind (case c of Leaf nm \<Rightarrow> Inr (Some s) | Composite nm cs \<Rightarrow> Composite_dtor k p s) (\<lambda>r. case r of
          None \<Rightarrow> Inr None
        | Some (h, out) \<Rightarrow> rbind (h_delete h p) (\<lambda>h1. Inr (Some (h1, out @ [ComponentDtor (m_strComname c)]))))))"
| "Composite_dtor 0 p s = Inr None"
| "Composite_dtor (Suc k) p s = rbind (h_read (fst s) p) (\<lambda>c. case c of
     Leaf nm \<Rightarrow> Inr (Some s)
   | Composite nm cs \<Rightarrow> (case cs of
       [] \<Rightarrow> Inr (Some s)
     | q # qs \<Rightarrow>
         rbind (if q \<noteq> None then rbind (GetName (fst s) q) (\<lambda>n. delete_component k q (fst s, snd s @ [DeleteLine n])) else Inr (Some s))
         (\<lambda>r. case r of
            None \<Rightarrow> Inr None
          | Some (h, out) \<Rightarrow> rbind (h_read h p) (\<lambda>c1. case c1 of
              Leaf _ \<Rightarrow> Inr None
            | Composite nm1 cs1 \<Rightarrow> rbind (h_write h p (Composite nm1 (tl cs1))) (\<lambda>h1. Composite_dtor k p (h1, out))))))"

definition Operation :: "ptr \<Rightarrow> comp_state \<Rightarrow> comp_state result" where
  "Operation p = (\<lambda>(h, out). rbind (h_read h p) (\<lambda>c. Inr (h, out @ [case c of Leaf nm \<Rightarrow> IsLeaf nm | Composite nm cs \<Rightarrow> IsComposite nm])))"

definition Add :: "ptr \<Rightarrow> ptr \<Rightarrow> comp_state \<Rightarrow> comp_state result" where
  "Add p q = (\<lambda>(h, out). rbind (h_read h p) (\<lambda>c. case c of
     Leaf nm \<Rightarrow> Inr (h, out)
   | Composite nm cs \<Rightarrow> rbind (h_write h p (Composite nm (cs @ [q]))) (\<lambda>h1. Inr (h1, out))))"

text \<open>The loop of \<^verbatim>\<open>Remove\<close> from position \<open>i\<close> on; the loop ends after a removal.\<close>

fun remove_from :: "nat \<Rightarrow> ptr \<Rightarrow> ptr \<Rightarrow> ptr list \<Rightarrow> nat \<Rightarrow> comp_state \<Rightarrow> comp_state option result" where
  "remove_from k p q [] i s = Inr (Some s)"
| "remove_from k p q (c # cs) i s =
     rbind (GetName (fst s) c) (\<lambda>n. rbind (GetName (fst s) q) (\<lambda>m.
       if n = m then
         rbind (if c \<noteq> None then delete_component k c (fst s, snd s @ [DeleteLine n]) else Inr (Some s)) (\<lambda>r. case r of
           None \<Rightarrow> Inr None
         | Some (h, out) \<Rightarrow> rbind (h_read h p) (\<lambda>c1. case c1 of
             Leaf _ \<Rightarrow> Inr None
           | Composite nm cs1 \<Rightarrow> rbind (h_write h p (Composite nm (take i cs1 @ drop (Suc i) cs1))) (\<lambda>h1. Inr (Some (h1, out)))))
       else remove_from k p q cs (Suc i) s))"

definition Remove :: "nat \<Rightarrow> ptr \<Rightarrow> ptr \<Rightarrow> comp_state \<Rightarrow> comp_state option result" where
  "Remove k p q s = rbind (h_read (fst s) p) (\<lambda>c. case c of
     Leaf nm \<Rightarrow> Inr (Some s) | Composite nm cs \<Rightarrow> remove_from k p q cs 0 s)"

text \<open>\<^verbatim>\<open>index\<close> is compared with the size as an unsigned 64-bit number; \<^verbatim>\<open>operator[]\<close> does not check.\<close>

definition GetChild :: "ptr \<Rightarrow> int \<Rightarrow> comp_state \<Rightarrow> ptr result" where
  "GetChild p index = (\<lambda>(h, out). rbind (h_read h p) (\<lambda>c. case c of
     Leaf nm \<Rightarrow> Inr None
   | Composite nm cs \<Rightarrow> if index mod 18446744073709551616 > int (length cs) then Inr None
       else rbind (chk_int (index - 1)) (arr_get cs)))"

fun print_names :: "ptr list \<Rightarrow> comp_state \<Rightarrow> comp_state result" where
  "print_names [] s = Inr s"
| "print_names (c # cs) s = rbind (GetName (fst s) c) (\<lambda>n. print_names cs (fst s, snd s @ [NameLine n]))"

definition Print :: "ptr \<Rightarrow> comp_state \<Rightarrow> comp_state result" where
  "Print p s = rbind (h_read (fst s) p) (\<lambda>c. case c of
     Leaf nm \<Rightarrow> Inr (fst s, snd s @ [LeafPrint]) | Composite nm cs \<Rightarrow> print_names cs s)"

section \<open>Trees of components\<close>

text \<open>A component with its address, its name and its children.\<close>

datatype tree = TLeaf nat string | TNode nat string "tree list"

fun root :: "tree \<Rightarrow> nat" where
  "root (TLeaf a nm) = a"
| "root (TNode a nm ts) = a"

fun tree_name :: "tree \<Rightarrow> string" where
  "tree_name (TLeaf a nm) = nm"
| "tree_name (TNode a nm ts) = nm"

fun cells :: "tree \<Rightarrow> (nat \<times> component) list" where
  "cells (TLeaf a nm) = [(a, Leaf nm)]"
| "cells (TNode a nm ts) = (a, Composite nm (map (\<lambda>t. Some (root t)) ts)) # concat (map cells ts)"

definition addrs :: "tree \<Rightarrow> nat set" where
  "addrs t = fst ` set (cells t)"

definition holds :: "component heap \<Rightarrow> tree \<Rightarrow> bool" where
  "holds h t \<longleftrightarrow> (\<forall>(a, c) \<in> set (cells t). mem h a = Live c) \<and> distinct (map fst (cells t))"

definition freed :: "nat set \<Rightarrow> component heap \<Rightarrow> component heap" where
  "freed A h = h\<lparr>mem := (\<lambda>a. if a \<in> A then Freed else mem h a)\<rparr>"

text \<open>What is printed when a tree is deleted, and the fuel it takes.\<close>

fun delete_log :: "tree \<Rightarrow> event list" where
  "delete_log (TLeaf a nm) = [ComponentDtor nm]"
| "delete_log (TNode a nm ts) = concat (map (\<lambda>t. DeleteLine (tree_name t) # delete_log t) ts) @ [ComponentDtor nm]"

fun fuel :: "tree \<Rightarrow> nat" where
  "fuel (TLeaf a nm) = 1"
| "fuel (TNode a nm ts) = 2 + sum_list (map (\<lambda>t. Suc (fuel t)) ts)"

section \<open>Deleting a tree\<close>

lemma root_addrs: "root t \<in> addrs t"
  by (cases t) (simp_all add: addrs_def)

lemma addrs_node: "addrs (TNode a nm ts) = insert a (\<Union> (addrs ` set ts))"
  by (force simp: addrs_def)

lemma addrs_leaf: "addrs (TLeaf a nm) = {a}"
  by (simp add: addrs_def)

lemma holds_cong: "(\<And>x. x \<in> addrs t \<Longrightarrow> mem h' x = mem h x) \<Longrightarrow> holds h' t = holds h t"
  unfolding holds_def addrs_def by (intro conj_cong ball_cong) force+

lemma holds_upd: "a \<notin> addrs t \<Longrightarrow> holds (h\<lparr>mem := (mem h)(a := c)\<rparr>) t = holds h t"
  by (intro holds_cong) auto

lemma holds_freed: "A \<inter> addrs t = {} \<Longrightarrow> holds (freed A h) t = holds h t"
  by (intro holds_cong) (auto simp: freed_def)

definition holds_all :: "component heap \<Rightarrow> tree list \<Rightarrow> bool" where
  "holds_all h ts \<longleftrightarrow> (\<forall>t \<in> set ts. holds h t) \<and> distinct (map fst (concat (map cells ts)))"

lemma fst_concat_cells: "fst ` set (concat (map cells ts)) = \<Union> (addrs ` set ts)"
  by (auto simp: addrs_def)

lemma holds_node: "holds h (TNode a nm ts) \<longleftrightarrow>
    mem h a = Live (Composite nm (map (\<lambda>t. Some (root t)) ts)) \<and> holds_all h ts \<and> a \<notin> \<Union> (addrs ` set ts)"
proof -
  have d: "\<And>t. t \<in> set ts \<Longrightarrow> distinct (map fst (concat (map cells ts))) \<Longrightarrow> distinct (map fst (cells t))"
    by (induction ts) auto
  have f: "a \<in> fst ` set (concat (map cells ts)) \<longleftrightarrow> a \<in> \<Union> (addrs ` set ts)" by (simp only: fst_concat_cells)
  show ?thesis using d f by (auto simp: holds_def holds_all_def)
qed

lemma holds_leaf: "holds h (TLeaf a nm) \<longleftrightarrow> mem h a = Live (Leaf nm)"
  by (simp add: holds_def)

lemma holds_all_Cons: "holds_all h (t # ts) \<longleftrightarrow> holds h t \<and> holds_all h ts \<and> addrs t \<inter> \<Union> (addrs ` set ts) = {}"
proof -
  have "fst ` set (cells t) \<inter> fst ` set (concat (map cells ts)) = addrs t \<inter> \<Union> (addrs ` set ts)"
    by (simp only: fst_concat_cells addrs_def)
  moreover have "holds h t \<Longrightarrow> distinct (map fst (cells t))" by (simp add: holds_def)
  ultimately show ?thesis by (auto simp: holds_all_def)
qed

lemma holds_all_Nil: "holds_all h []"
  by (simp add: holds_all_def)

lemma holds_all_append: "holds_all h (xs @ ys) \<longleftrightarrow>
    holds_all h xs \<and> holds_all h ys \<and> \<Union> (addrs ` set xs) \<inter> \<Union> (addrs ` set ys) = {}"
  by (induction xs) (auto simp: holds_all_Cons holds_all_Nil)

lemma holds_all_cong: "(\<And>x. x \<in> \<Union> (addrs ` set ts) \<Longrightarrow> mem h' x = mem h x) \<Longrightarrow> holds_all h' ts = holds_all h ts"
  unfolding holds_all_def by (intro conj_cong ball_cong holds_cong) auto

lemma holds_root: "holds h t \<Longrightarrow> \<exists>c. mem h (root t) = Live c \<and> m_strComname c = tree_name t"
  by (cases t) (auto simp: holds_leaf holds_node)

lemma freed_freed: "freed A (freed B h) = freed (A \<union> B) h"
  by (auto simp: freed_def fun_eq_iff)

lemma freed_empty: "freed {} h = h"
  by (simp add: freed_def)

lemma GetName_root: "holds h t \<Longrightarrow> GetName h (Some (root t)) = Inr (tree_name t)"
  using holds_root[of h t] by (auto simp: GetName_def h_read_def)

text \<open>The loop of the destructor, when deleting each child works.\<close>

lemma dtor_children:
  assumes "\<And>t k h out. t \<in> set ts \<Longrightarrow> holds h t \<Longrightarrow> fuel t \<le> k \<Longrightarrow>
      delete_component k (Some (root t)) (h, out) = Inr (Some (freed (addrs t) h, out @ delete_log t))"
    and "mem h a = Live (Composite nm (map (\<lambda>t. Some (root t)) ts))" and "holds_all h ts" and "a \<notin> \<Union> (addrs ` set ts)"
    and "1 + sum_list (map (\<lambda>t. Suc (fuel t)) ts) \<le> k"
  shows "Composite_dtor k (Some a) (h, out) = Inr (Some (freed (\<Union> (addrs ` set ts)) (h\<lparr>mem := (mem h)(a := Live (Composite nm []))\<rparr>),
      out @ concat (map (\<lambda>t. DeleteLine (tree_name t) # delete_log t) ts)))"
  using assms
proof (induction ts arbitrary: h out k)
  case Nil
  then obtain k' where "k = Suc k'" by (cases k) auto
  moreover have "h = h\<lparr>mem := (mem h)(a := Live (Composite nm []))\<rparr>" using Nil.prems(2) by (cases h) (auto simp: fun_eq_iff)
  ultimately show ?case using Nil.prems(2) by (simp del: fun_upd_apply add: h_read_def freed_empty)
next
  case (Cons t ts)
  obtain k' where k': "k = Suc k'" using Cons.prems(5) by (cases k) auto
  have t: "holds h t" "holds_all h ts" "addrs t \<inter> \<Union> (addrs ` set ts) = {}" using Cons.prems(3) by (auto simp: holds_all_Cons)
  have a: "a \<notin> addrs t" "a \<notin> \<Union> (addrs ` set ts)" using Cons.prems(4) by auto
  let ?h1 = "freed (addrs t) h"
  let ?h2 = "?h1\<lparr>mem := (mem ?h1)(a := Live (Composite nm (map (\<lambda>t. Some (root t)) ts)))\<rparr>"
  have d: "delete_component k' (Some (root t)) (h, out @ [DeleteLine (tree_name t)]) =
      Inr (Some (?h1, out @ DeleteLine (tree_name t) # delete_log t))"
    using Cons.prems(1)[of t h k' "out @ [DeleteLine (tree_name t)]"] t(1) Cons.prems(5) k' by simp
  have m: "mem ?h1 a = Live (Composite nm (Some (root t) # map (\<lambda>t. Some (root t)) ts))"
    using Cons.prems(2) a(1) by (simp add: freed_def)
  have "holds_all ?h2 ts" using t(2,3) a(2) by (subst holds_all_cong[where h = h]) (auto simp: freed_def)
  then have r: "Composite_dtor k' (Some a) (?h2, out @ DeleteLine (tree_name t) # delete_log t) =
      Inr (Some (freed (\<Union> (addrs ` set ts)) (?h2\<lparr>mem := (mem ?h2)(a := Live (Composite nm []))\<rparr>),
        (out @ DeleteLine (tree_name t) # delete_log t) @ concat (map (\<lambda>t. DeleteLine (tree_name t) # delete_log t) ts)))"
    using Cons.prems a k' by (intro Cons.IH) auto
  have e: "freed (\<Union> (addrs ` set ts)) (?h2\<lparr>mem := (mem ?h2)(a := Live (Composite nm []))\<rparr>) =
      freed (\<Union> (addrs ` set (t # ts))) (h\<lparr>mem := (mem h)(a := Live (Composite nm []))\<rparr>)"
    using a by (auto simp: freed_def fun_eq_iff)
  show ?case
    using k' Cons.prems(2) GetName_root[OF t(1)] d m r e
    by (simp del: fun_upd_apply add: h_read_def h_write_def)
qed

lemma delete_tree:
  "holds h t \<Longrightarrow> fuel t \<le> k \<Longrightarrow>
    delete_component k (Some (root t)) (h, out) = Inr (Some (freed (addrs t) h, out @ delete_log t))"
proof (induction t arbitrary: k h out)
  case (TLeaf a nm)
  then obtain k' where "k = Suc k'" by (cases k) auto
  then show ?case using TLeaf.prems by (auto simp: holds_leaf h_read_def h_delete_def freed_def addrs_leaf fun_eq_iff)
next
  case (TNode a nm ts)
  obtain k' where k': "k = Suc k'" "1 + sum_list (map (\<lambda>t. Suc (fuel t)) ts) \<le> k'" using TNode.prems(2) by (cases k) auto
  have h: "mem h a = Live (Composite nm (map (\<lambda>t. Some (root t)) ts))" "holds_all h ts" "a \<notin> \<Union> (addrs ` set ts)"
    using TNode.prems(1) by (auto simp: holds_node)
  have d: "Composite_dtor k' (Some a) (h, out) = Inr (Some (freed (\<Union> (addrs ` set ts)) (h\<lparr>mem := (mem h)(a := Live (Composite nm []))\<rparr>),
      out @ concat (map (\<lambda>t. DeleteLine (tree_name t) # delete_log t) ts)))"
    by (rule dtor_children[OF TNode.IH h k'(2)])
  have e: "freed (addrs (TNode a nm ts)) h = (let g = freed (\<Union> (addrs ` set ts)) (h\<lparr>mem := (mem h)(a := Live (Composite nm []))\<rparr>)
      in g\<lparr>mem := (mem g)(a := Freed)\<rparr>)"
    by (auto simp: freed_def Let_def addrs_node fun_eq_iff)
  have m: "mem (freed (\<Union> (addrs ` set ts)) (h\<lparr>mem := (mem h)(a := Live (Composite nm []))\<rparr>)) a = Live (Composite nm [])"
    using h(3) by (auto simp: freed_def)
  show ?case using k' h(1) d m by (simp add: e Let_def h_read_def h_delete_def)
qed

section \<open>Forests of components\<close>

text \<open>A program over components, which are named by their addresses: those are handed out in the order of creation.\<close>

datatype comp_op = NewLeaf string | NewComposite string | AddTo nat nat | RemoveBy nat nat | DeleteAt nat

definition exec :: "nat \<Rightarrow> comp_op \<Rightarrow> comp_state \<Rightarrow> comp_state option result" where
  "exec k op s = (case op of
     NewLeaf nm \<Rightarrow> Inr (Some (snd (Leaf_ctor nm s)))
   | NewComposite nm \<Rightarrow> Inr (Some (snd (Composite_ctor nm s)))
   | AddTo p q \<Rightarrow> rbind (Add (Some p) (Some q) s) (\<lambda>s1. Inr (Some s1))
   | RemoveBy p q \<Rightarrow> Remove k (Some p) (Some q) s
   | DeleteAt p \<Rightarrow> delete_component k (Some p) s)"

fun comp_run :: "nat \<Rightarrow> comp_op list \<Rightarrow> comp_state \<Rightarrow> comp_state option result" where
  "comp_run k [] s = Inr (Some s)"
| "comp_run k (op # ops) s = rbind (exec k op s) (\<lambda>r. case r of None \<Rightarrow> Inr None | Some s1 \<Rightarrow> comp_run k ops s1)"

fun subs :: "tree \<Rightarrow> tree list" where
  "subs (TLeaf a nm) = [TLeaf a nm]"
| "subs (TNode a nm ts) = TNode a nm ts # concat (map subs ts)"

fun upd :: "nat \<Rightarrow> (tree \<Rightarrow> tree) \<Rightarrow> tree \<Rightarrow> tree" where
  "upd p f (TLeaf a nm) = (if a = p then f (TLeaf a nm) else TLeaf a nm)"
| "upd p f (TNode a nm ts) = (if a = p then f (TNode a nm ts) else TNode a nm (map (upd p f) ts))"

definition node_at :: "nat \<Rightarrow> tree list \<Rightarrow> tree option" where
  "node_at p ts = find (\<lambda>u. root u = p) (concat (map subs ts))"

fun add_child :: "tree \<Rightarrow> tree \<Rightarrow> tree" where
  "add_child t (TLeaf a nm) = TLeaf a nm"
| "add_child t (TNode a nm ts) = TNode a nm (ts @ [t])"

fun drop_named :: "string \<Rightarrow> tree list \<Rightarrow> tree list" where
  "drop_named m [] = []"
| "drop_named m (t # ts) = (if tree_name t = m then ts else t # drop_named m ts)"

fun drop_child :: "string \<Rightarrow> tree \<Rightarrow> tree" where
  "drop_child m (TLeaf a nm) = TLeaf a nm"
| "drop_child m (TNode a nm ts) = TNode a nm (drop_named m ts)"

fun children :: "tree \<Rightarrow> tree list" where
  "children (TLeaf a nm) = []"
| "children (TNode a nm ts) = ts"

text \<open>The specification: a forest, the next address and what has been printed.\<close>

type_synonym forest = "tree list \<times> nat \<times> event list"

definition tree_at :: "nat \<Rightarrow> tree list \<Rightarrow> tree" where
  "tree_at a ts = the (find (\<lambda>t. root t = a) ts)"

definition without :: "nat \<Rightarrow> tree list \<Rightarrow> tree list" where
  "without a ts = filter (\<lambda>t. root t \<noteq> a) ts"

fun is_leaf :: "tree \<Rightarrow> bool" where
  "is_leaf (TLeaf a nm) = True"
| "is_leaf (TNode a nm ts) = False"

fun spec_exec :: "comp_op \<Rightarrow> forest \<Rightarrow> forest" where
  "spec_exec (NewLeaf nm) (ts, n, out) = (ts @ [TLeaf n nm], Suc n, out @ [ComponentCtor nm, LeafCtor])"
| "spec_exec (NewComposite nm) (ts, n, out) = (ts @ [TNode n nm []], Suc n, out @ [ComponentCtor nm, CompositeCtor])"
| "spec_exec (AddTo p q) (ts, n, out) =
     (if is_leaf (the (node_at p (without q ts))) then (ts, n, out)
      else (map (upd p (add_child (tree_at q ts))) (without q ts), n, out))"
| "spec_exec (RemoveBy p q) (ts, n, out) =
     (let m = tree_name (the (node_at q ts)) in
      case find (\<lambda>t. tree_name t = m) (children (the (node_at p ts))) of
        None \<Rightarrow> (ts, n, out)
      | Some t \<Rightarrow> (map (upd p (drop_child m)) ts, n, out @ DeleteLine m # delete_log t))"
| "spec_exec (DeleteAt a) (ts, n, out) = (without a ts, n, out @ delete_log (tree_at a ts))"

text \<open>Each component is added at most once, not below itself, and only components of the forest are used.\<close>

fun legal :: "comp_op \<Rightarrow> forest \<Rightarrow> bool" where
  "legal (NewLeaf nm) (ts, n, out) = True"
| "legal (NewComposite nm) (ts, n, out) = True"
| "legal (AddTo p q) (ts, n, out) = (q \<in> set (map root ts) \<and> node_at p (without q ts) \<noteq> None)"
| "legal (RemoveBy p q) (ts, n, out) = (node_at p ts \<noteq> None \<and> node_at q ts \<noteq> None)"
| "legal (DeleteAt a) (ts, n, out) = (a \<in> set (map root ts))"

fun spec_run :: "comp_op list \<Rightarrow> forest \<Rightarrow> forest" where
  "spec_run [] f = f"
| "spec_run (op # ops) f = spec_run ops (spec_exec op f)"

fun legal_run :: "comp_op list \<Rightarrow> forest \<Rightarrow> bool" where
  "legal_run [] f = True"
| "legal_run (op # ops) f = (legal op f \<and> legal_run ops (spec_exec op f))"

text \<open>The heap holds the forest and nothing else.\<close>

definition footprint :: "tree list \<Rightarrow> nat set" where
  "footprint ts = \<Union> (addrs ` set ts)"

definition represents :: "comp_state \<Rightarrow> forest \<Rightarrow> bool" where
  "represents s f = (case (s, f) of ((h, out), (ts, n, out')) \<Rightarrow>
     holds_all h ts \<and> live h = footprint ts \<and> heap_ok h \<and> brk h = n \<and> out' = out)"

section \<open>Lemmas on forests\<close>

lemma footprint_simps [simp]: "footprint [] = {}" "footprint (t # ts) = addrs t \<union> footprint ts"
  "footprint (xs @ ys) = footprint xs \<union> footprint ys"
  by (auto simp: footprint_def)

lemma addrs_TNode: "addrs (TNode a nm ts) = insert a (footprint ts)"
  by (simp add: addrs_node footprint_def)

lemma holds_TNode: "holds h (TNode a nm ts) \<longleftrightarrow>
    mem h a = Live (Composite nm (map (\<lambda>t. Some (root t)) ts)) \<and> holds_all h ts \<and> a \<notin> footprint ts"
  by (auto simp: holds_node footprint_def)

lemma holds_all_cons: "holds_all h (t # ts) \<longleftrightarrow> holds h t \<and> holds_all h ts \<and> addrs t \<inter> footprint ts = {}"
  by (simp add: holds_all_Cons footprint_def)

lemma holds_all_app: "holds_all h (xs @ ys) \<longleftrightarrow> holds_all h xs \<and> holds_all h ys \<and> footprint xs \<inter> footprint ys = {}"
  by (simp add: holds_all_append footprint_def)

lemma holds_all_same: "(\<And>x. x \<in> footprint ts \<Longrightarrow> mem h' x = mem h x) \<Longrightarrow> holds_all h' ts = holds_all h ts"
  by (rule holds_all_cong) (auto simp: footprint_def)

lemma root_upd: "(\<And>u. root (f u) = root u) \<Longrightarrow> root (upd p f t) = root t"
  by (cases t) auto

lemma sub_addrs: "u \<in> set (subs t) \<Longrightarrow> addrs u \<subseteq> addrs t"
  by (induction t) (fastforce simp: addrs_node)+

lemma sub_holds: "u \<in> set (subs t) \<Longrightarrow> holds h t \<Longrightarrow> holds h u"
  by (induction t) (auto simp: holds_node holds_all_def)

lemma upd_other: "p \<notin> addrs t \<Longrightarrow> upd p f t = t"
  by (induction t) (auto simp: addrs_node addrs_leaf intro!: map_idI)

lemma sub_forest:
  assumes "u \<in> set (concat (map subs ts))"
  obtains xs t ys where "ts = xs @ t # ys" "u \<in> set (subs t)"
  using assms by (auto dest!: split_list)

text \<open>Replacing a subtree by one with the same root, in a tree and in a forest.\<close>

definition upd_ok :: "(tree \<Rightarrow> tree) \<Rightarrow> tree \<Rightarrow> component heap \<Rightarrow> component heap \<Rightarrow> tree \<Rightarrow> bool" where
  "upd_ok f u h h' t \<longleftrightarrow> (u \<in> set (subs t) \<longrightarrow> holds h t \<longrightarrow> addrs (f u) \<inter> (addrs t - addrs u) = {} \<longrightarrow>
     holds h' (upd (root u) f t) \<and> addrs (upd (root u) f t) = (addrs t - addrs u) \<union> addrs (f u))"

lemma upd_list:
  assumes "\<And>u. root (f u) = root u" "\<And>x. x \<notin> addrs u \<Longrightarrow> mem h' x = mem h x" "\<And>t. t \<in> set ts \<Longrightarrow> upd_ok f u h h' t"
    and "u \<in> set (concat (map subs ts))" "holds_all h ts" "addrs (f u) \<inter> (footprint ts - addrs u) = {}"
  shows "holds_all h' (map (upd (root u) f) ts) \<and> footprint (map (upd (root u) f) ts) = (footprint ts - addrs u) \<union> addrs (f u)
    \<and> map (\<lambda>t. Some (root t)) (map (upd (root u) f) ts) = map (\<lambda>t. Some (root t)) ts"
proof -
  obtain xs t ys where ts: "ts = xs @ t # ys" "u \<in> set (subs t)" using sub_forest[OF assms(4)] by blast
  have d: "holds h t" "holds_all h xs" "holds_all h ys" "footprint xs \<inter> addrs t = {}" "footprint ys \<inter> addrs t = {}"
      "footprint xs \<inter> footprint ys = {}"
    using assms(5) ts(1) by (auto simp: holds_all_app holds_all_cons)
  have su: "addrs u \<subseteq> addrs t" by (rule sub_addrs[OF ts(2)])
  then have ru: "root u \<in> addrs t" using root_addrs[of u] by blast
  have "map (upd (root u) f) xs = xs" "map (upd (root u) f) ys = ys"
    using d(4,5) ru by (auto simp: footprint_def intro!: map_idI upd_other)
  then have m: "map (upd (root u) f) ts = xs @ upd (root u) f t # ys" using ts(1) by simp
  have t': "holds h' (upd (root u) f t)" "addrs (upd (root u) f t) = (addrs t - addrs u) \<union> addrs (f u)"
    using assms(3)[of t] ts d(1) assms(6) unfolding upd_ok_def by auto
  have "mem h' x = mem h x" if "x \<in> footprint xs \<union> footprint ys" for x
    using assms(2)[of x] that d(4,5) su by blast
  then have "holds_all h' xs" "holds_all h' ys"
    using d(2,3) holds_all_same[of xs h' h] holds_all_same[of ys h' h] by auto
  then have "holds_all h' (map (upd (root u) f) ts)"
    using m t' d su assms(6) ts(1) by (auto simp: holds_all_app holds_all_cons)
  moreover have "footprint (map (upd (root u) f) ts) = (footprint ts - addrs u) \<union> addrs (f u)"
    using m t' ts(1) d(4,5) su by auto
  ultimately show ?thesis using assms(1) by (simp add: root_upd)
qed

lemma upd_tree:
  assumes "\<And>u. root (f u) = root u" "\<And>x. x \<notin> addrs u \<Longrightarrow> mem h' x = mem h x" "holds h' (f u)"
  shows "upd_ok f u h h' t"
proof (induction t)
  case (TLeaf a nm)
  then show ?case using assms(3) by (auto simp: upd_ok_def)
next
  case (TNode a nm ts)
  show ?case unfolding upd_ok_def
  proof (intro impI)
    assume u: "u \<in> set (subs (TNode a nm ts))" and h: "holds h (TNode a nm ts)"
      and f: "addrs (f u) \<inter> (addrs (TNode a nm ts) - addrs u) = {}"
    show "holds h' (upd (root u) f (TNode a nm ts)) \<and> addrs (upd (root u) f (TNode a nm ts)) = (addrs (TNode a nm ts) - addrs u) \<union> addrs (f u)"
    proof (cases "u = TNode a nm ts")
      case True
      then show ?thesis using assms(3) by auto
    next
      case False
      then have u': "u \<in> set (concat (map subs ts))" using u by simp
      have k: "mem h a = Live (Composite nm (map (\<lambda>t. Some (root t)) ts))" "holds_all h ts" "a \<notin> footprint ts"
        using h by (auto simp: holds_TNode)
      have su: "addrs u \<subseteq> footprint ts"
        using u' sub_addrs by (fastforce simp: footprint_def)
      then have a: "a \<noteq> root u" "a \<notin> addrs u" using k(3) root_addrs[of u] by auto
      have f': "addrs (f u) \<inter> (footprint ts - addrs u) = {}" "a \<notin> addrs (f u)"
        using f k(3) a(2) by (auto simp: addrs_TNode)
      note l = upd_list[OF assms(1,2) TNode.IH u' k(2) f'(1)]
      show ?thesis using l a k f'(2) assms(2)[OF a(2)] by (auto simp: holds_TNode addrs_TNode simp del: map_map)
    qed
  qed
qed

lemma find_hit: "find p xs = Some x \<Longrightarrow> x \<in> set xs \<and> p x"
  by (induction xs) (auto split: if_splits)

lemma root_footprint: "u \<in> set ts \<Longrightarrow> root u \<in> footprint ts"
  using root_addrs by (auto simp: footprint_def)

lemma node_at_Some: "node_at p ts = Some u \<Longrightarrow> u \<in> set (concat (map subs ts)) \<and> root u = p"
  unfolding node_at_def by (rule find_hit)

lemma forest_sub_holds: "u \<in> set (concat (map subs ts)) \<Longrightarrow> holds_all h ts \<Longrightarrow> holds h u \<and> addrs u \<subseteq> footprint ts"
  using sub_holds sub_addrs by (fastforce simp: holds_all_def footprint_def)

lemma take_root:
  assumes "holds_all h ts" "q \<in> set (map root ts)"
  shows "holds h (tree_at q ts)" "root (tree_at q ts) = q" "holds_all h (without q ts)"
    "addrs (tree_at q ts) \<inter> footprint (without q ts) = {}" "footprint ts = footprint (without q ts) \<union> addrs (tree_at q ts)"
proof -
  obtain t where "t \<in> set ts" "root t = q" using assms(2) by auto
  then obtain xs ys where ts: "ts = xs @ t # ys" "root t = q" by (auto dest: split_list)
  have d: "holds h t" "holds_all h xs" "holds_all h ys" "footprint xs \<inter> addrs t = {}" "footprint ys \<inter> addrs t = {}"
      "footprint xs \<inter> footprint ys = {}"
    using assms(1) ts(1) by (auto simp: holds_all_app holds_all_cons)
  have q: "q \<notin> footprint xs" "q \<notin> footprint ys" using d(4,5) ts(2) root_addrs[of t] by auto
  have n: "\<forall>u \<in> set xs. root u \<noteq> q" "\<forall>u \<in> set ys. root u \<noteq> q" using q root_footprint by blast+
  have "find (\<lambda>t. root t = q) (xs @ t # ys) = Some t"
    using n(1) ts(2) by (induction xs) auto
  then have "find (\<lambda>t. root t = q) ts = Some t" using ts(1) by simp
  then have t: "tree_at q ts = t" by (simp add: tree_at_def)
  have w: "without q ts = xs @ ys" using n ts by (simp add: without_def filter_id_conv)
  show "holds h (tree_at q ts)" "root (tree_at q ts) = q" "holds_all h (without q ts)"
    "addrs (tree_at q ts) \<inter> footprint (without q ts) = {}" "footprint ts = footprint (without q ts) \<union> addrs (tree_at q ts)"
    using d t w ts by (auto simp: holds_all_app)
qed

lemma fuel_cells: "Suc (fuel t) \<le> 3 * length (cells t)"
proof (induction t)
  case (TNode a nm ts)
  then have "sum_list (map (\<lambda>t. Suc (fuel t)) ts) \<le> sum_list (map (\<lambda>t. 3 * length (cells t)) ts)"
    by (intro sum_list_mono) auto
  also have "\<dots> = 3 * length (concat (map cells ts))"
    by (simp add: length_concat sum_list_const_mult comp_def)
  finally show ?case by simp
qed simp

lemma addrs_card: "holds h t \<Longrightarrow> length (cells t) = card (addrs t)"
  by (metis addrs_def distinct_card holds_def length_map list.set_map)

lemma live_finite: "heap_ok h \<Longrightarrow> live h \<subseteq> {..<brk h}"
  using live_below_brk by blast

lemma fuel_enough:
  assumes "heap_ok h" "holds h t" "addrs t \<subseteq> live h" "3 * brk h \<le> k"
  shows "fuel t \<le> k"
proof -
  have "card (addrs t) \<le> card {..<brk h}"
    using assms(3) live_finite[OF assms(1)] by (intro card_mono) auto
  then show ?thesis using fuel_cells[of t] addrs_card[OF assms(2)] assms(4) by simp
qed

section \<open>The operations on a forest\<close>

lemma represents_iff: "represents (h, out) (ts, n, out') \<longleftrightarrow>
    holds_all h ts \<and> live h = footprint ts \<and> heap_ok h \<and> brk h = n \<and> out' = out"
  by (simp add: represents_def)

lemma represents_new:
  assumes "represents (h, out) (ts, n, out')" "root t = n" "cells t = [(n, c)]"
  shows "represents (snd (h_new c h), out @ l) (ts @ [t], Suc n, out' @ l)"
proof -
  have r: "holds_all h ts" "live h = footprint ts" "heap_ok h" "brk h = n" "out' = out"
    using assms(1) by (auto simp: represents_iff)
  have a: "addrs t = {n}" using assms(3) by (simp add: addrs_def)
  have f: "n \<notin> footprint ts" using r(2,3,4) brk_not_live[of h] by auto
  have "holds_all (snd (h_new c h)) ts" using r(1) f by (subst holds_all_same[where h = h]) (auto simp: h_new_def r(4))
  moreover have "holds (snd (h_new c h)) t" using assms(3) r(4) by (simp add: holds_def h_new_def)
  moreover have "brk (snd (h_new c h)) = Suc n" using r(4) by (simp add: h_new_def)
  ultimately show ?thesis
    using r f a heap_ok_new[of h c] by (auto simp: represents_iff holds_all_app holds_all_cons holds_all_Nil live_new)
qed

lemma represents_delete:
  assumes "represents (h, out) (ts, n, out')" "a \<in> set (map root ts)" "3 * n \<le> k"
  shows "\<exists>s. delete_component k (Some a) (h, out) = Inr (Some s) \<and>
    represents s (without a ts, n, out' @ delete_log (tree_at a ts))"
proof -
  have r: "holds_all h ts" "live h = footprint ts" "heap_ok h" "brk h = n" "out' = out"
    using assms(1) by (auto simp: represents_iff)
  let ?t = "tree_at a ts" and ?ts = "without a ts"
  note t = take_root[OF r(1) assms(2)]
  have f: "fuel ?t \<le> k" using fuel_enough[OF r(3) t(1), of k] t(5) r(2,4) assms(3) by simp
  have "holds_all (freed (addrs ?t) h) ?ts" using t(3,4) by (subst holds_all_same[where h = h]) (auto simp: freed_def)
  moreover have "live (freed (addrs ?t) h) = footprint ?ts"
    using t(4,5) r(2) by (auto simp: live_def freed_def)
  moreover have "heap_ok (freed (addrs ?t) h)"
    using r(2,3) t(5) live_below_brk[OF r(3)] by (fastforce simp: heap_ok_def freed_def)
  ultimately show ?thesis using delete_tree[OF t(1) f, of out] t(2) r(4,5) by (simp add: represents_iff freed_def)
qed

lemma represents_add:
  assumes "represents (h, out) (ts, n, out')" "q \<in> set (map root ts)" "node_at p (without q ts) \<noteq> None"
  shows "\<exists>s. Add (Some p) (Some q) (h, out) = Inr s \<and> represents s (spec_exec (AddTo p q) (ts, n, out'))"
proof -
  have r: "holds_all h ts" "live h = footprint ts" "heap_ok h" "brk h = n" "out' = out"
    using assms(1) by (auto simp: represents_iff)
  let ?t = "tree_at q ts" and ?ts = "without q ts"
  note t = take_root[OF r(1) assms(2)]
  obtain u where u: "node_at p ?ts = Some u" using assms(3) by auto
  note u1 = node_at_Some[OF u]
  note u2 = forest_sub_holds[OF conjunct1[OF u1] t(3)]
  show ?thesis
  proof (cases u)
    case (TLeaf a nm)
    then show ?thesis using u u1 u2 assms(1) by (simp add: Add_def holds_leaf h_read_def)
  next
    case (TNode a nm cs)
    let ?h = "h\<lparr>mem := (mem h)(p := Live (Composite nm (map (\<lambda>t. Some (root t)) cs @ [Some q])))\<rparr>"
    have a: "a = p" using TNode u1 by simp
    have c: "mem h p = Live (Composite nm (map (\<lambda>t. Some (root t)) cs))" "holds_all h cs" "p \<notin> footprint cs"
      using u2 TNode a by (auto simp: holds_TNode)
    have au: "addrs u = insert p (footprint cs)" using TNode a by (simp add: addrs_TNode)
    have pt: "p \<notin> addrs ?t" using t(4) u2 au by auto
    have d: "addrs ?t \<inter> footprint cs = {}" using t(4) u2 au by auto
    have same: "holds_all ?h cs" "holds ?h ?t"
      using c(2,3) t(1) pt by (subst holds_all_same[where h = h], auto, subst holds_upd, auto)
    have hu: "holds ?h (add_child ?t u)"
      using TNode a same c(3) pt d t(2) by (auto simp: holds_TNode holds_all_app holds_all_cons holds_all_Nil)
    have ru: "root (add_child ?t v) = root v" for v by (cases v) auto
    have ad: "addrs (add_child ?t u) = addrs u \<union> addrs ?t" using TNode by (auto simp: addrs_TNode)
    have out: "mem ?h x = mem h x" if "x \<notin> addrs u" for x using that au by auto
    have "holds_all ?h (map (upd (root u) (add_child ?t)) ?ts) \<and>
        footprint (map (upd (root u) (add_child ?t)) ?ts) = (footprint ?ts - addrs u) \<union> addrs (add_child ?t u)"
      using upd_list[of "add_child ?t" u ?h h, OF ru out _ conjunct1[OF u1] t(3)] upd_tree[of "add_child ?t" u ?h h, OF ru out hu] t(4) ad
      by blast
    moreover have "live ?h = live h" using c(1) by (intro live_written) (auto simp: live_def)
    moreover have "heap_ok ?h" using r(3) c(1) by (intro heap_ok_upd live_below_brk) (auto simp: live_def)
    ultimately show ?thesis using u u1 TNode a c(1) r t(5) u2 ad
      by (auto simp: Add_def h_read_def h_write_def represents_iff)
  qed
qed

lemma find_split: "find p xs = Some x \<Longrightarrow> \<exists>ys zs. xs = ys @ x # zs \<and> (\<forall>y \<in> set ys. \<not> p y)"
proof (induction xs)
  case (Cons a xs)
  show ?case
  proof (cases "p a")
    case True
    then show ?thesis using Cons.prems by (intro exI[of _ "[]"] exI[of _ xs]) auto
  next
    case False
    then obtain ys zs where "xs = ys @ x # zs" "\<forall>y \<in> set ys. \<not> p y" using Cons by auto
    then show ?thesis using False by (intro exI[of _ "a # ys"] exI[of _ zs]) auto
  qed
qed simp

lemma drop_named_split: "\<forall>y \<in> set ys. tree_name y \<noteq> m \<Longrightarrow> tree_name t = m \<Longrightarrow> drop_named m (ys @ t # zs) = ys @ zs"
  by (induction ys) auto

lemma remove_from_none:
  assumes "GetName (fst s) (Some q) = Inr m"
  shows "holds_all (fst s) cs \<Longrightarrow> \<forall>t \<in> set cs. tree_name t \<noteq> m \<Longrightarrow>
    remove_from k p (Some q) (map (\<lambda>t. Some (root t)) cs) i s = Inr (Some s)"
  using assms by (induction cs arbitrary: i) (auto simp: holds_all_cons GetName_root)

lemma remove_from_some:
  assumes "GetName h (Some q) = Inr m" "holds h t" "tree_name t = m" "fuel t \<le> k" "p \<notin> addrs t"
    and "mem h p = Live (Composite nm cs0)"
  shows "holds_all h ys \<Longrightarrow> \<forall>y \<in> set ys. tree_name y \<noteq> m \<Longrightarrow>
    remove_from k (Some p) (Some q) (map (\<lambda>t. Some (root t)) (ys @ t # zs)) i (h, out) =
      Inr (Some ((freed (addrs t) h)\<lparr>mem := (mem (freed (addrs t) h))(p := Live (Composite nm (take (i + length ys) cs0 @ drop (Suc (i + length ys)) cs0)))\<rparr>,
        out @ DeleteLine m # delete_log t))"
proof (induction ys arbitrary: i)
  case Nil
  have "mem (freed (addrs t) h) p = Live (Composite nm cs0)" using assms(5,6) by (simp add: freed_def)
  then show ?case
    using delete_tree[OF assms(2,4), of "out @ [DeleteLine m]"] GetName_root[OF assms(2)] assms(1,3)
    by (simp del: fun_upd_apply add: h_read_def h_write_def)
next
  case (Cons y ys)
  then show ?case using assms(1) GetName_root[of h y] by (simp del: fun_upd_apply add: holds_all_cons)
qed

lemma represents_remove:
  assumes "represents (h, out) (ts, n, out')" "node_at p ts \<noteq> None" "node_at q ts \<noteq> None" "3 * n \<le> k"
  shows "\<exists>s. Remove k (Some p) (Some q) (h, out) = Inr (Some s) \<and> represents s (spec_exec (RemoveBy p q) (ts, n, out'))"
proof -
  have r: "holds_all h ts" "live h = footprint ts" "heap_ok h" "brk h = n" "out' = out"
    using assms(1) by (auto simp: represents_iff)
  obtain u v where u: "node_at p ts = Some u" and v: "node_at q ts = Some v" using assms(2,3) by auto
  note u1 = node_at_Some[OF u] and v1 = node_at_Some[OF v]
  note u2 = forest_sub_holds[OF conjunct1[OF u1] r(1)] and v2 = forest_sub_holds[OF conjunct1[OF v1] r(1)]
  have nm: "GetName h (Some q) = Inr (tree_name v)" using GetName_root[of h v] v1 v2 by simp
  let ?m = "tree_name v"
  show ?thesis
  proof (cases u)
    case (TLeaf a nm)
    then show ?thesis using u v u1 u2 assms(1) by (simp add: Remove_def holds_leaf h_read_def)
  next
    case (TNode a nm cs)
    have a: "a = p" using TNode u1 by simp
    have c: "mem h p = Live (Composite nm (map (\<lambda>t. Some (root t)) cs))" "holds_all h cs" "p \<notin> footprint cs"
      using u2 TNode a by (auto simp: holds_TNode)
    have au: "addrs u = insert p (footprint cs)" using TNode a by (simp add: addrs_TNode)
    show ?thesis
    proof (cases "find (\<lambda>t. tree_name t = ?m) cs")
      case None
      then have "\<forall>t \<in> set cs. tree_name t \<noteq> ?m" by (simp add: find_None_iff)
      then show ?thesis using remove_from_none[of "(h, out)" q ?m cs k "Some p" 0] nm c u v TNode None assms(1)
        by (simp add: Remove_def h_read_def)
    next
      case (Some t)
      obtain ys zs where cs: "cs = ys @ t # zs" "\<forall>y \<in> set ys. tree_name y \<noteq> ?m" "tree_name t = ?m"
        using find_split[OF Some] find_hit[OF Some] by blast
      have d: "holds h t" "holds_all h ys" "holds_all h zs" "p \<notin> addrs t" "addrs t \<inter> footprint ys = {}" "addrs t \<inter> footprint zs = {}"
          "footprint ys \<inter> footprint zs = {}" "p \<notin> footprint ys" "p \<notin> footprint zs"
        using c(2,3) cs(1) by (auto simp: holds_all_app holds_all_cons)
      let ?g = "freed (addrs t) h"
      let ?h = "?g\<lparr>mem := (mem ?g)(p := Live (Composite nm (map (\<lambda>t. Some (root t)) (ys @ zs))))\<rparr>"
      have tu: "addrs t \<subseteq> addrs u" using au cs(1) by auto
      have f: "fuel t \<le> k" using fuel_enough[OF r(3) d(1), of k] tu u2 r(2,4) assms(4) by auto
      have ex: "Remove k (Some p) (Some q) (h, out) = Inr (Some (?h, out @ DeleteLine ?m # delete_log t))"
        using remove_from_some[OF nm d(1) cs(3) f d(4) c(1) d(2) cs(2), of zs 0 out] c(1) cs(1)
        by (simp del: fun_upd_apply add: Remove_def h_read_def)
      have keep: "mem ?h x = mem h x" if "x \<notin> addrs t" "x \<noteq> p" for x using that by (simp add: freed_def)
      have "mem ?h x = mem h x" if "x \<in> footprint ys \<union> footprint zs" for x
        using keep[of x] that d(5,6,8,9) by blast
      then have "holds_all ?h ys" "holds_all ?h zs"
        using d(2,3) holds_all_same[of ys ?h h] holds_all_same[of zs ?h h] by blast+
      then have hu: "holds ?h (drop_child ?m u)"
        using TNode a cs d by (auto simp: drop_named_split holds_TNode holds_all_app)
      have ru: "root (drop_child ?m w) = root w" for w by (cases w) auto
      have ad: "addrs (drop_child ?m u) = addrs u - addrs t"
        using TNode a cs d by (auto simp: drop_named_split addrs_TNode)
      have out: "mem ?h x = mem h x" if "x \<notin> addrs u" for x using that au tu keep by blast
      have up: "holds_all ?h (map (upd (root u) (drop_child ?m)) ts)"
          "footprint (map (upd (root u) (drop_child ?m)) ts) = (footprint ts - addrs u) \<union> addrs (drop_child ?m u)"
        using upd_list[of "drop_child ?m" u ?h h, OF ru out _ conjunct1[OF u1] r(1)] upd_tree[of "drop_child ?m" u ?h h, OF ru out hu] ad
        by blast+
      have fp: "footprint (map (upd p (drop_child ?m)) ts) = footprint ts - addrs t" using up(2) ad tu u1 u2 by auto
      have "live ?h = live h - addrs t" using c(1) d(4) by (auto simp: live_def freed_def)
      moreover have "heap_ok ?h"
        using r(2,3) tu u2 live_below_brk[OF r(3)] root_addrs[of u] u1 by (fastforce simp: heap_ok_def freed_def)
      moreover have "brk ?h = n" using r(4) by (simp add: freed_def)
      ultimately show ?thesis using ex up(1) fp r u v TNode Some u1 by (simp del: fun_upd_apply add: represents_iff Let_def)
    qed
  qed
qed

section \<open>Programs over components\<close>

primrec news :: "comp_op list \<Rightarrow> nat" where
  "news [] = 0"
| "news (op # ops) = (case op of NewLeaf nm \<Rightarrow> Suc (news ops) | NewComposite nm \<Rightarrow> Suc (news ops) | _ \<Rightarrow> news ops)"

lemma exec_refines:
  assumes "represents s f" "legal op f" "3 * fst (snd f) \<le> k"
  shows "\<exists>s1. exec k op s = Inr (Some s1) \<and> represents s1 (spec_exec op f)"
proof -
  obtain h out where s: "s = (h, out)" by fastforce
  obtain ts n out' where f: "f = (ts, n, out')" by (cases f) auto
  show ?thesis
  proof (cases op)
    case (NewLeaf nm)
    have n: "brk h = n" using assms(1) s f by (simp add: represents_iff)
    show ?thesis using represents_new[of h out ts n out' "TLeaf n nm" "Leaf nm" "[ComponentCtor nm, LeafCtor]"] assms(1) s f NewLeaf n
      by (simp add: exec_def Leaf_ctor_def h_new_def)
  next
    case (NewComposite nm)
    have n: "brk h = n" using assms(1) s f by (simp add: represents_iff)
    show ?thesis using represents_new[of h out ts n out' "TNode n nm []" "Composite nm []" "[ComponentCtor nm, CompositeCtor]"] assms(1) s f NewComposite n
      by (simp add: exec_def Composite_ctor_def h_new_def)
  next
    case (AddTo p q)
    show ?thesis using represents_add[of h out ts n out' q p] assms s f AddTo by (auto simp: exec_def)
  next
    case (RemoveBy p q)
    show ?thesis using represents_remove[of h out ts n out' p q k] assms s f RemoveBy by (auto simp: exec_def)
  next
    case (DeleteAt a)
    show ?thesis using represents_delete[of h out ts n out' a k] assms s f DeleteAt by (auto simp: exec_def)
  qed
qed

lemma spec_next: "fst (snd (spec_exec op f)) = fst (snd f) + news [op]"
  by (cases op; cases f) (auto simp: Let_def split: option.splits)

lemma run_refines:
  "represents s f \<Longrightarrow> legal_run ops f \<Longrightarrow> 3 * (fst (snd f) + news ops) \<le> k \<Longrightarrow>
    \<exists>s1. comp_run k ops s = Inr (Some s1) \<and> represents s1 (spec_run ops f)"
proof (induction ops arbitrary: s f)
  case (Cons op ops)
  have n: "news (op # ops) = news [op] + news ops" by (cases op) simp_all
  obtain s1 where s1: "exec k op s = Inr (Some s1)" "represents s1 (spec_exec op f)"
    using exec_refines[OF Cons.prems(1), of op k] Cons.prems(2,3) by auto
  show ?case using Cons.IH[OF s1(2)] Cons.prems(2,3) s1(1) n by (simp add: spec_next)
qed simp

text \<open>C19: Every program that adds a component to at most one composite, never below itself, and uses none it has deleted
  does on the heap what it does on a forest of trees: nothing is freed twice or used after it is freed, nested
  deletions end and print the trees in order, and what is allocated at the end is exactly the forest that is left.\<close>

theorem composite_refines_forest:
  assumes "legal_run ops ([], 0, [])" and "3 * news ops \<le> k"
  shows "\<exists>s. comp_run k ops (heap_empty, []) = Inr (Some s) \<and> represents s (spec_run ops ([], 0, []))"
proof -
  have "represents (heap_empty, []) ([], 0, [])"
    by (simp add: represents_iff holds_all_Nil live_empty heap_ok_empty) (simp add: heap_empty_def)
  from run_refines[OF this assms(1)] show ?thesis using assms(2) by simp
qed

text \<open>The program of \<^verbatim>\<open>main\<close> without its prints: it deletes everything it makes.\<close>

definition main_ops :: "comp_op list" where
  "main_ops = [NewComposite ''BJ head office'', NewComposite ''HR'', NewComposite ''SH'', NewComposite ''CD'', NewComposite ''BT'',
     AddTo 0 1, AddTo 0 3, AddTo 0 2, AddTo 0 4,
     NewLeaf ''SH HR'', NewLeaf ''SH Purching Department'', NewLeaf ''SH Sales Department'', NewLeaf ''SH QA Department'',
     AddTo 3 5, AddTo 3 6, AddTo 3 7, AddTo 3 8, RemoveBy 3 8, DeleteAt 0]"

theorem composite_refines_forest_witness:
  "\<exists>s. comp_run 27 main_ops (heap_empty, []) = Inr (Some s) \<and> live (fst s) = {}"
proof -
  have l: "legal_run main_ops ([], 0, [])" and e: "fst (spec_run main_ops ([], 0, [])) = []"
    by (simp_all add: main_ops_def node_at_def tree_at_def without_def Let_def)
  have n: "3 * news main_ops \<le> 27" by (simp add: main_ops_def)
  obtain s where s: "comp_run 27 main_ops (heap_empty, []) = Inr (Some s)" "represents s (spec_run main_ops ([], 0, []))"
    using composite_refines_forest[OF l n] by blast
  have "live (fst s) = {}" using s(2) e by (auto simp: represents_def split: prod.splits)
  then show ?thesis using s(1) by blast
qed

text \<open>\<^verbatim>\<open>Remove\<close> goes by the name: of two children with one name it deletes the first, whichever is given.\<close>

lemma remove_by_name:
  "spec_run [NewComposite ''r'', NewLeaf ''x'', NewLeaf ''x'', AddTo 0 1, AddTo 0 2, RemoveBy 0 2] ([], 0, []) =
    ([TNode 0 ''r'' [TLeaf 2 ''x'']], 3, [ComponentCtor ''r'', CompositeCtor, ComponentCtor ''x'', LeafCtor, ComponentCtor ''x'', LeafCtor,
       DeleteLine ''x'', ComponentDtor ''x''])"
  by (simp add: node_at_def tree_at_def without_def Let_def eval_nat_numeral)

text \<open>A component in two composites is deleted by both.\<close>

lemma shared_child_freed_twice:
  "comp_run 9 [NewComposite ''a'', NewComposite ''b'', NewLeaf ''x'', AddTo 0 2, AddTo 1 2, DeleteAt 0, DeleteAt 1] (heap_empty, []) =
    Inl UseAfterFree"
  by (simp add: exec_def Composite_ctor_def Leaf_ctor_def h_new_def heap_empty_def Add_def h_read_def h_write_def h_delete_def
      GetName_def eval_nat_numeral)

text \<open>\<^verbatim>\<open>GetChild\<close> counts from one; for 0 it reads before the vector.\<close>

lemma GetChild_exact:
  assumes "mem h p = Live (Composite nm cs)" "in_int i" "int (length cs) < 2147483647"
  shows "GetChild (Some p) i (h, out) = (if i = 0 then Inl OutOfBounds
    else if 1 \<le> i \<and> i \<le> int (length cs) then Inr (cs ! nat (i - 1)) else Inr None)"
proof -
  have "i < 0 \<Longrightarrow> i mod 18446744073709551616 = i + 18446744073709551616"
    using assms(2) by (intro mod_pos_pos_trivial[of "i + 18446744073709551616" 18446744073709551616, simplified]) (auto simp: in_int_numerals)
  moreover have "0 \<le> i \<Longrightarrow> i mod 18446744073709551616 = i" using assms(2) by (intro mod_pos_pos_trivial) (auto simp: in_int_numerals)
  ultimately show ?thesis
    using assms by (cases "i < 0") (auto simp: GetChild_def h_read_def arr_get_def in_int_numerals chk_int_def)
qed

end
