(* ===== verification/Flag_Handoff.thy ===== *)
theory Flag_Handoff
  imports Prelude
begin

text \<open>
  The two threads of \<^verbatim>\<open>src/other/timer/producer_consumer.cpp\<close>: a producer that sets four flags in turn and a consumer that
  waits for each in turn, prints and is meant to clear it. What a thread does while it holds the mutex is one step; waiting
  gives the mutex up, a notification or a spurious wakeup makes the waiter check again. The four cases of each switch
  differ only in their flag, which is an element of a list. Neither loop ever ends.
\<close>

datatype producer_pc = PLock | PNotify
datatype consumer_pc = CCheck | CBlocked

record handoff =
  flags :: "bool list"
  prod_i :: nat
  prod_pc :: producer_pc
  cons_i :: nat
  cons_pc :: consumer_pc
  produced :: nat
  printed :: "nat list"

definition handoff_init :: handoff where
  "handoff_init = \<lparr>flags = replicate 4 False, prod_i = 0, prod_pc = PLock, cons_i = 0, cons_pc = CCheck, produced = 0, printed = []\<rparr>"

definition next_i :: "nat \<Rightarrow> nat" where
  "next_i i = (if i + 1 = 4 then 0 else i + 1)"

text \<open>A conversion of a string literal to \<^verbatim>\<open>bool\<close>: a pointer that is not null.\<close>

definition bool_of_literal :: "string \<Rightarrow> bool" where
  "bool_of_literal s = True"

definition producer_step :: "handoff \<Rightarrow> handoff" where
  "producer_step s = (case prod_pc s of
     PLock \<Rightarrow> s\<lparr>flags := (if \<not> flags s ! prod_i s then (flags s)[prod_i s := True] else flags s),
       prod_pc := PNotify, produced := Suc (produced s)\<rparr>
   | PNotify \<Rightarrow> s\<lparr>cons_pc := CCheck, prod_pc := PLock, prod_i := next_i (prod_i s)\<rparr>)"

text \<open>The consumer checks its flag when it enters the wait and whenever it wakes.\<close>

definition consumer_step :: "handoff \<Rightarrow> handoff" where
  "consumer_step s = (if flags s ! cons_i s then
       s\<lparr>printed := printed s @ [cons_i s], flags := (flags s)[cons_i s := bool_of_literal ''false''],
         cons_i := next_i (cons_i s), cons_pc := CCheck\<rparr>
     else s\<lparr>cons_pc := CBlocked\<rparr>)"

inductive handoff_reach :: "handoff \<Rightarrow> bool" where
  start: "handoff_reach handoff_init"
| produce: "handoff_reach s \<Longrightarrow> handoff_reach (producer_step s)"
| consume: "handoff_reach s \<Longrightarrow> cons_pc s = CCheck \<Longrightarrow> handoff_reach (consumer_step s)"
| spurious: "handoff_reach s \<Longrightarrow> cons_pc s = CBlocked \<Longrightarrow> handoff_reach (s\<lparr>cons_pc := CCheck\<rparr>)"

section \<open>What the consumer prints\<close>

text \<open>The flags that are set are those produced so far, and none is ever cleared.\<close>

definition handoff_inv :: "handoff \<Rightarrow> bool" where
  "handoff_inv s \<longleftrightarrow> length (flags s) = 4 \<and> (\<forall>i < 4. flags s ! i \<longleftrightarrow> i < produced s) \<and>
     prod_i s = (produced s - (if prod_pc s = PNotify then 1 else 0)) mod 4 \<and> (prod_pc s = PNotify \<longrightarrow> 0 < produced s) \<and>
     printed s = map (\<lambda>k. k mod 4) [0..<length (printed s)] \<and> cons_i s = length (printed s) mod 4 \<and>
     (produced s < 4 \<longrightarrow> length (printed s) \<le> produced s) \<and>
     (cons_pc s = CBlocked \<longrightarrow> \<not> flags s ! cons_i s \<or> prod_pc s = PNotify)"

lemma next_i_mod: "next_i (n mod 4) = Suc n mod 4"
  by (auto simp: next_i_def mod_Suc)

lemma handoff_inv_produce:
  assumes "handoff_inv s"
  shows "handoff_inv (producer_step s)"
proof (cases "prod_pc s")
  case PLock
  have i: "prod_i s = produced s mod 4" "length (flags s) = 4" "\<forall>i < 4. flags s ! i \<longleftrightarrow> i < produced s"
    using assms PLock by (auto simp: handoff_inv_def)
  have "\<forall>i < 4. (if \<not> flags s ! prod_i s then (flags s)[prod_i s := True] else flags s) ! i \<longleftrightarrow> i < Suc (produced s)"
  proof (intro allI impI)
    fix j :: nat assume j: "j < 4"
    have m: "prod_i s < 4" using i(1) by simp
    show "(if \<not> flags s ! prod_i s then (flags s)[prod_i s := True] else flags s) ! j \<longleftrightarrow> j < Suc (produced s)"
    proof (cases "produced s < 4")
      case True
      then have "prod_i s = produced s" using i(1) by simp
      then show ?thesis using i(2,3) j m True by (auto simp: nth_list_update less_Suc_eq)
    next
      case False
      then show ?thesis using i(2,3) j m by auto
    qed
  qed
  then show ?thesis using assms PLock by (auto simp: handoff_inv_def producer_step_def)
next
  case PNotify
  then obtain n where n: "produced s = Suc n" using assms by (cases "produced s") (auto simp: handoff_inv_def)
  show ?thesis using assms PNotify n by (auto simp: handoff_inv_def producer_step_def next_i_mod)
qed

lemma handoff_inv_consume:
  assumes "handoff_inv s"
  shows "handoff_inv (consumer_step s)"
proof (cases "flags s ! cons_i s")
  case True
  have c: "cons_i s < 4" "length (flags s) = 4" using assms by (auto simp: handoff_inv_def)
  have f: "(flags s)[cons_i s := bool_of_literal ''false''] = flags s"
    using True c by (simp add: bool_of_literal_def list_update_same_conv)
  have p: "cons_i s < produced s" using assms True c by (auto simp: handoff_inv_def)
  have b: "produced s < 4 \<Longrightarrow> length (printed s) < produced s"
    using assms p by (auto simp: handoff_inv_def dest: le_neq_implies_less)
  show ?thesis using assms True f b by (auto simp: handoff_inv_def consumer_step_def next_i_mod)
next
  case False
  then show ?thesis using assms by (auto simp: handoff_inv_def consumer_step_def)
qed

lemma handoff_reach_inv: "handoff_reach s \<Longrightarrow> handoff_inv s"
proof (induction rule: handoff_reach.induct)
  case start
  have "\<forall>i < 4. \<not> replicate 4 False ! i" by simp
  then show ?case by (simp add: handoff_inv_def handoff_init_def)
next
  case (spurious s)
  then show ?case by (auto simp: handoff_inv_def)
qed (auto intro: handoff_inv_produce handoff_inv_consume)

text \<open>The consumer prints the four flags in turn and, in the first round, none before it has been produced; it is never
  blocked on a flag that is set unless a notification is on its way.\<close>

theorem handoff_order:
  assumes "handoff_reach s"
  shows "printed s = map (\<lambda>k. k mod 4) [0..<length (printed s)] \<and> min 4 (length (printed s)) \<le> produced s \<and>
    (cons_pc s = CCheck \<or> \<not> flags s ! cons_i s \<or> prod_pc s = PNotify)"
  using handoff_reach_inv[OF assms] by (cases "cons_pc s") (auto simp: handoff_inv_def)

theorem handoff_order_witness:
  "printed (consumer_step (producer_step handoff_init)) = [0] \<and> min 4 (length (printed (consumer_step (producer_step handoff_init)))) \<le> 1"
proof -
  have "handoff_reach (consumer_step (producer_step handoff_init))"
    by (intro handoff_reach.intros) (simp add: producer_step_def handoff_init_def)
  note o = conjunct1[OF conjunct2[OF handoff_order[OF this]]]
  have "printed (consumer_step (producer_step handoff_init)) = [0]" "produced (consumer_step (producer_step handoff_init)) = 1"
    by (simp_all add: consumer_step_def producer_step_def handoff_init_def eval_nat_numeral)
  then show ?thesis using o by simp
qed

text \<open>After the first round it prints as often as it likes, whatever is produced.\<close>

lemma consume_on:
  assumes "handoff_reach s" "produced s = 4" "cons_pc s = CCheck"
  shows "\<exists>t. handoff_reach t \<and> produced t = 4 \<and> cons_pc t = CCheck \<and> length (printed t) = n + length (printed s)"
proof (induction n)
  case 0
  then show ?case using assms by auto
next
  case (Suc n)
  then obtain t where t: "handoff_reach t" "produced t = 4" "cons_pc t = CCheck" "length (printed t) = n + length (printed s)" by auto
  have "cons_i t < 4 \<and> flags t ! cons_i t" using handoff_reach_inv[OF t(1)] t(2) by (auto simp: handoff_inv_def)
  then show ?case using handoff_reach.consume[OF t(1,3)] t by (intro exI[of _ "consumer_step t"]) (auto simp: consumer_step_def)
qed

text \<open>The flags are never cleared, since what is stored is a string literal converted to \<^verbatim>\<open>bool\<close>: with four productions the
  consumer can print any number of times.\<close>

theorem handoff_overruns: "\<exists>s. handoff_reach s \<and> produced s = 4 \<and> n \<le> length (printed s)"
proof -
  have r: "handoff_reach ((producer_step ^^ m) handoff_init)" for m
    by (induction m) (auto intro: handoff_reach.intros)
  define s where "s = (producer_step ^^ 8) handoff_init"
  have "produced s = 4" "cons_pc s = CCheck"
    by (simp_all add: s_def eval_nat_numeral producer_step_def handoff_init_def next_i_def)
  then obtain t where "handoff_reach t" "produced t = 4" "length (printed t) = n + length (printed s)"
    using consume_on[of s n] r[of 8] by (auto simp: s_def)
  then show ?thesis by (intro exI[of _ t]) simp
qed

end
