(* ===== verification/Move_Semantics.thy ===== *)
theory Move_Semantics
  imports Heap
begin

text \<open>
  The class \<^verbatim>\<open>Useless\<close> of \<^verbatim>\<open>src/primer_plus/chap18\<close>, with deep copies and moves, in both its programs: \<^verbatim>\<open>18_3/stdmove.cpp\<close>, which
  assigns, and \<^verbatim>\<open>18_2/useless.cpp\<close>, which counts its objects. An array is a heap object with the list of its characters, a
  loop over an array goes index by index, and what \<^verbatim>\<open>new char[n]\<close> leaves in it is the argument \<open>junk\<close>. \<open>elide\<close> says whether
  the compiler elides the named object that \<^verbatim>\<open>operator+\<close> returns, as it may; other copies are elided as C++17 has it.
\<close>

datatype variant = Stdmove | UselessCpp

record Useless =
  u_n :: int
  u_pc :: ptr

record uworld =
  ct :: int
  store :: "string heap"

section \<open>Arrays\<close>

definition new_array :: "(nat \<Rightarrow> char) \<Rightarrow> int \<Rightarrow> string heap \<Rightarrow> (ptr \<times> string heap) result" where
  "new_array junk n h = (if n < 0 then Inl BadArrayNewLength else Inr (h_new (map junk [0..<nat n]) h))"

text \<open>\<^verbatim>\<open>for (i = ...) d[i] = c;\<close> and \<^verbatim>\<open>for (i = ...) d[i] = s[i - a];\<close>, over the indices that the loop visits.\<close>

primrec fill_loop :: "ptr \<Rightarrow> char \<Rightarrow> nat list \<Rightarrow> string heap \<Rightarrow> string heap result" where
  "fill_loop d c [] h = Inr h"
| "fill_loop d c (i # js) h =
     rbind (h_read h d) (\<lambda>p. rbind (arr_set p (int i) c) (\<lambda>p1. rbind (h_write h d p1) (fill_loop d c js)))"

primrec copy_loop :: "ptr \<Rightarrow> ptr \<Rightarrow> int \<Rightarrow> nat list \<Rightarrow> string heap \<Rightarrow> string heap result" where
  "copy_loop d s a [] h = Inr h"
| "copy_loop d s a (i # js) h =
     rbind (h_read h s) (\<lambda>f. rbind (arr_get f (int i - a)) (\<lambda>c.
     rbind (h_read h d) (\<lambda>p. rbind (arr_set p (int i) c) (\<lambda>p1. rbind (h_write h d p1) (copy_loop d s a js)))))"

section \<open>Constructors and destructors\<close>

definition count_up :: "uworld \<Rightarrow> uworld result" where
  "count_up w = rbind (chk_int (ct w + 1)) (\<lambda>k. Inr (w\<lparr>ct := k\<rparr>))"

definition Useless_default :: "uworld \<Rightarrow> (Useless \<times> uworld) result" where
  "Useless_default w = rbind (count_up w) (\<lambda>w1. Inr (\<lparr>u_n = 0, u_pc = None\<rparr>, w1))"

definition Useless_sized :: "(nat \<Rightarrow> char) \<Rightarrow> int \<Rightarrow> uworld \<Rightarrow> (Useless \<times> uworld) result" where
  "Useless_sized junk k w = rbind (count_up w) (\<lambda>w1. rbind (new_array junk k (store w1)) (\<lambda>(p, h).
     Inr (\<lparr>u_n = k, u_pc = p\<rparr>, w1\<lparr>store := h\<rparr>)))"

definition Useless_filled :: "(nat \<Rightarrow> char) \<Rightarrow> int \<Rightarrow> char \<Rightarrow> uworld \<Rightarrow> (Useless \<times> uworld) result" where
  "Useless_filled junk k ch w = rbind (count_up w) (\<lambda>w1. rbind (new_array junk k (store w1)) (\<lambda>(p, h).
     rbind (fill_loop p ch [0..<nat k] h) (\<lambda>h1. Inr (\<lparr>u_n = k, u_pc = p\<rparr>, w1\<lparr>store := h1\<rparr>))))"

definition Useless_copy :: "(nat \<Rightarrow> char) \<Rightarrow> Useless \<Rightarrow> uworld \<Rightarrow> (Useless \<times> uworld) result" where
  "Useless_copy junk f w = rbind (count_up w) (\<lambda>w1. rbind (new_array junk (u_n f) (store w1)) (\<lambda>(p, h).
     rbind (copy_loop p (u_pc f) 0 [0..<nat (u_n f)] h) (\<lambda>h1. Inr (\<lparr>u_n = u_n f, u_pc = p\<rparr>, w1\<lparr>store := h1\<rparr>))))"

text \<open>The new object and what is left of the old one.\<close>

definition Useless_move :: "Useless \<Rightarrow> uworld \<Rightarrow> (Useless \<times> Useless \<times> uworld) result" where
  "Useless_move f w = rbind (count_up w) (\<lambda>w1. Inr (\<lparr>u_n = u_n f, u_pc = u_pc f\<rparr>, f\<lparr>u_n := 0, u_pc := None\<rparr>, w1))"

definition Useless_dtor :: "variant \<Rightarrow> Useless \<Rightarrow> uworld \<Rightarrow> uworld result" where
  "Useless_dtor v u w =
     rbind (if v = UselessCpp then rbind (chk_int (ct w - 1)) (\<lambda>k. Inr (w\<lparr>ct := k\<rparr>)) else Inr w) (\<lambda>w1.
     rbind (h_delete (store w1) (u_pc u)) (\<lambda>h. Inr (w1\<lparr>store := h\<rparr>)))"

section \<open>Operators\<close>

text \<open>The temporary of \<^verbatim>\<open>operator+\<close> is a default object whose members are then set, or an object of the right size.\<close>

definition plus_temp :: "variant \<Rightarrow> (nat \<Rightarrow> char) \<Rightarrow> int \<Rightarrow> uworld \<Rightarrow> (Useless \<times> uworld) result" where
  "plus_temp v junk m w = (case v of
     Stdmove \<Rightarrow> rbind (Useless_default w) (\<lambda>(t, w1). rbind (new_array junk m (store w1)) (\<lambda>(p, h).
       Inr (t\<lparr>u_n := m, u_pc := p\<rparr>, w1\<lparr>store := h\<rparr>)))
   | UselessCpp \<Rightarrow> Useless_sized junk m w)"

definition Useless_plus :: "variant \<Rightarrow> bool \<Rightarrow> (nat \<Rightarrow> char) \<Rightarrow> Useless \<Rightarrow> Useless \<Rightarrow> uworld \<Rightarrow> (Useless \<times> uworld) result" where
  "Useless_plus v elide junk u f w =
     rbind (chk_int (u_n u + u_n f)) (\<lambda>m. rbind (plus_temp v junk m w) (\<lambda>(t, w1).
     rbind (copy_loop (u_pc t) (u_pc u) 0 [0..<nat (u_n u)] (store w1)) (\<lambda>h.
     rbind (copy_loop (u_pc t) (u_pc f) (u_n u) [nat (u_n u)..<nat (u_n t)] h) (\<lambda>h1.
     if elide then Inr (t, w1\<lparr>store := h1\<rparr>)
     else rbind (Useless_move t (w1\<lparr>store := h1\<rparr>)) (\<lambda>(r, t1, w2). rbind (Useless_dtor v t1 w2) (\<lambda>w3. Inr (r, w3)))))))"

text \<open>The assignments; \<open>same\<close> is \<^verbatim>\<open>this == &f\<close>.\<close>

definition Useless_assign :: "(nat \<Rightarrow> char) \<Rightarrow> bool \<Rightarrow> Useless \<Rightarrow> Useless \<Rightarrow> uworld \<Rightarrow> (Useless \<times> uworld) result" where
  "Useless_assign junk same u f w = (if same then Inr (u, w)
     else rbind (h_delete (store w) (u_pc u)) (\<lambda>h. rbind (new_array junk (u_n f) h) (\<lambda>(p, h1).
       rbind (copy_loop p (u_pc f) 0 [0..<nat (u_n f)] h1) (\<lambda>h2. Inr (u\<lparr>u_n := u_n f, u_pc := p\<rparr>, w\<lparr>store := h2\<rparr>)))))"

definition Useless_move_assign :: "bool \<Rightarrow> Useless \<Rightarrow> Useless \<Rightarrow> uworld \<Rightarrow> (Useless \<times> Useless \<times> uworld) result" where
  "Useless_move_assign same u f w = (if same then Inr (u, f, w)
     else rbind (h_delete (store w) (u_pc u)) (\<lambda>h.
       Inr (u\<lparr>u_n := u_n f, u_pc := u_pc f\<rparr>, f\<lparr>u_pc := None, u_n := 0\<rparr>, w\<lparr>store := h\<rparr>)))"

datatype show_line = EmptyLine | CharLine string

primrec read_chars :: "ptr \<Rightarrow> nat list \<Rightarrow> string heap \<Rightarrow> string result" where
  "read_chars p [] h = Inr []"
| "read_chars p (i # js) h = rbind (h_read h p) (\<lambda>f. rbind (arr_get f (int i)) (\<lambda>c. rbind (read_chars p js h) (\<lambda>cs. Inr (c # cs))))"

definition ShowData :: "Useless \<Rightarrow> uworld \<Rightarrow> show_line result" where
  "ShowData u w = (if u_n u = 0 then Inr EmptyLine
     else rbind (read_chars (u_pc u) [0..<nat (u_n u)] (store w)) (\<lambda>cs. Inr (CharLine cs)))"

section \<open>Programs\<close>

text \<open>Statements of a program with named objects; the scope is left object by object, the last one first.\<close>

datatype ustmt = Decl | DeclSized int | DeclFilled int char | CopyInit nat | MoveInit nat | SumInit nat nat
  | Assign nat nat | MoveAssign nat nat | SumAssign nat nat nat | Show nat | EndOne

type_synonym ustate = "Useless list \<times> uworld \<times> show_line list"

definition declare_obj :: "ustate \<Rightarrow> (Useless \<times> uworld) result \<Rightarrow> ustate result" where
  "declare_obj = (\<lambda>(env, w, out) r. rbind r (\<lambda>(u, w1). Inr (env @ [u], w1, out)))"

fun ustep :: "variant \<Rightarrow> bool \<Rightarrow> (nat \<Rightarrow> char) \<Rightarrow> ustmt \<Rightarrow> ustate \<Rightarrow> ustate result" where
  "ustep v e junk Decl (env, w, out) = declare_obj (env, w, out) (Useless_default w)"
| "ustep v e junk (DeclSized k) (env, w, out) = declare_obj (env, w, out) (Useless_sized junk k w)"
| "ustep v e junk (DeclFilled k ch) (env, w, out) = declare_obj (env, w, out) (Useless_filled junk k ch w)"
| "ustep v e junk (CopyInit i) (env, w, out) = declare_obj (env, w, out) (Useless_copy junk (env ! i) w)"
| "ustep v e junk (MoveInit i) (env, w, out) = rbind (Useless_move (env ! i) w) (\<lambda>(u, f, w1). Inr (env[i := f] @ [u], w1, out))"
| "ustep v e junk (SumInit i j) (env, w, out) = declare_obj (env, w, out) (Useless_plus v e junk (env ! i) (env ! j) w)"
| "ustep v e junk (Assign i j) (env, w, out) =
     rbind (Useless_assign junk (i = j) (env ! i) (env ! j) w) (\<lambda>(u, w1). Inr (env[i := u], w1, out))"
| "ustep v e junk (MoveAssign i j) (env, w, out) =
     rbind (Useless_move_assign (i = j) (env ! i) (env ! j) w) (\<lambda>(u, f, w1). Inr (env[j := f, i := u], w1, out))"
| "ustep v e junk (SumAssign i j k) (env, w, out) =
     rbind (Useless_plus v e junk (env ! j) (env ! k) w) (\<lambda>(t, w1).
     rbind (Useless_move_assign False (env ! i) t w1) (\<lambda>(u, t1, w2).
     rbind (Useless_dtor v t1 w2) (\<lambda>w3. Inr (env[i := u], w3, out))))"
| "ustep v e junk (Show i) (env, w, out) = rbind (ShowData (env ! i) w) (\<lambda>l. Inr (env, w, out @ [l]))"
| "ustep v e junk EndOne (env, w, out) = rbind (Useless_dtor v (last env) w) (\<lambda>w1. Inr (butlast env, w1, out))"

fun urun :: "variant \<Rightarrow> bool \<Rightarrow> (nat \<Rightarrow> char) \<Rightarrow> ustmt list \<Rightarrow> ustate \<Rightarrow> ustate result" where
  "urun v e junk [] s = Inr s"
| "urun v e junk (x # xs) s = rbind (ustep v e junk x s) (urun v e junk xs)"

section \<open>The same programs on values\<close>

type_synonym vstate = "string list \<times> show_line list"

fun vstep :: "(nat \<Rightarrow> char) \<Rightarrow> ustmt \<Rightarrow> vstate \<Rightarrow> vstate" where
  "vstep junk Decl (vs, out) = (vs @ [[]], out)"
| "vstep junk (DeclSized k) (vs, out) = (vs @ [map junk [0..<nat k]], out)"
| "vstep junk (DeclFilled k ch) (vs, out) = (vs @ [replicate (nat k) ch], out)"
| "vstep junk (CopyInit i) (vs, out) = (vs @ [vs ! i], out)"
| "vstep junk (MoveInit i) (vs, out) = (vs[i := []] @ [vs ! i], out)"
| "vstep junk (SumInit i j) (vs, out) = (vs @ [vs ! i @ vs ! j], out)"
| "vstep junk (Assign i j) (vs, out) = (vs[i := vs ! j], out)"
| "vstep junk (MoveAssign i j) (vs, out) = (if i = j then vs else vs[j := [], i := vs ! j], out)"
| "vstep junk (SumAssign i j k) (vs, out) = (vs[i := vs ! j @ vs ! k], out)"
| "vstep junk (Show i) (vs, out) = (vs, out @ [if vs ! i = [] then EmptyLine else CharLine (vs ! i)])"
| "vstep junk EndOne (vs, out) = (butlast vs, out)"

text \<open>What a compiler and a sensible programmer see to: objects exist, sizes are numbers of type \<^verbatim>\<open>int\<close> and not negative, and
  \<^verbatim>\<open>useless.cpp\<close>, whose class declares a move constructor, has no assignment.\<close>

fun vlegal :: "variant \<Rightarrow> ustmt \<Rightarrow> vstate \<Rightarrow> bool" where
  "vlegal v Decl (vs, out) = True"
| "vlegal v (DeclSized k) (vs, out) = (0 \<le> k \<and> k \<le> INT_MAX)"
| "vlegal v (DeclFilled k ch) (vs, out) = (0 \<le> k \<and> k \<le> INT_MAX)"
| "vlegal v (CopyInit i) (vs, out) = (i < length vs)"
| "vlegal v (MoveInit i) (vs, out) = (i < length vs)"
| "vlegal v (SumInit i j) (vs, out) = (i < length vs \<and> j < length vs \<and> int (length (vs ! i @ vs ! j)) \<le> INT_MAX)"
| "vlegal v (Assign i j) (vs, out) = (v = Stdmove \<and> i < length vs \<and> j < length vs)"
| "vlegal v (MoveAssign i j) (vs, out) = (v = Stdmove \<and> i < length vs \<and> j < length vs)"
| "vlegal v (SumAssign i j k) (vs, out) =
     (v = Stdmove \<and> i < length vs \<and> j < length vs \<and> k < length vs \<and> int (length (vs ! j @ vs ! k)) \<le> INT_MAX)"
| "vlegal v (Show i) (vs, out) = (i < length vs)"
| "vlegal v EndOne (vs, out) = (vs \<noteq> [])"

fun vrun :: "(nat \<Rightarrow> char) \<Rightarrow> ustmt list \<Rightarrow> vstate \<Rightarrow> vstate" where
  "vrun junk [] s = s"
| "vrun junk (x # xs) s = vrun junk xs (vstep junk x s)"

fun vlegal_run :: "variant \<Rightarrow> (nat \<Rightarrow> char) \<Rightarrow> ustmt list \<Rightarrow> vstate \<Rightarrow> bool" where
  "vlegal_run v junk [] s = True"
| "vlegal_run v junk (x # xs) s = (vlegal v x s \<and> vlegal_run v junk xs (vstep junk x s))"

section \<open>Loops\<close>

lemma upt_Suc_left: "[k..<Suc (k + m)] = k # [Suc k..<Suc (k + m)]"
  by (simp add: upt_rec)

lemma take_drop_Suc: "k < length f \<Longrightarrow> take (Suc m) (drop k f) = f ! k # take m (drop (Suc k) f)"
  by (simp flip: Cons_nth_drop_Suc)

lemma copy_loop_ok:
  assumes "mem h d = Live p" "mem h s = Live f" "d \<noteq> s" "a \<le> k" "k + m \<le> length p" "k + m \<le> a + length f"
  shows "copy_loop (Some d) (Some s) (int a) [k..<k + m] h =
    Inr (h\<lparr>mem := (mem h)(d := Live (take k p @ take m (drop (k - a) f) @ drop (k + m) p))\<rparr>)"
  using assms
proof (induction m arbitrary: k p h)
  case 0
  have "(mem h)(d := Live p) = mem h" using "0.prems"(1) by auto
  then show ?case by simp
next
  case (Suc m)
  let ?c = "f ! (k - a)" and ?h = "h\<lparr>mem := (mem h)(d := Live (p[k := f ! (k - a)]))\<rparr>"
  have g: "arr_get f (int k - int a) = Inr ?c" and t: "arr_set p (int k) ?c = Inr (p[k := ?c])"
    using Suc.prems by (simp_all add: arr_get_def arr_set_def nat_diff_distrib)
  have l: "take (Suc k) (p[k := ?c]) = take k p @ [?c]" using Suc.prems by (intro take_Suc_update) simp
  have r: "take (Suc m) (drop (k - a) f) = ?c # take m (drop (Suc k - a) f)"
    using Suc.prems take_drop_Suc[of "k - a" f m] by (simp add: Suc_diff_le)
  have "copy_loop (Some d) (Some s) (int a) [Suc k..<Suc k + m] ?h =
      Inr (?h\<lparr>mem := (mem ?h)(d := Live (take (Suc k) (p[k := ?c]) @ take m (drop (Suc k - a) f) @ drop (Suc k + m) (p[k := ?c])))\<rparr>)"
    using Suc.prems by (intro Suc.IH) simp_all
  moreover have "copy_loop (Some d) (Some s) (int a) [k..<k + Suc m] h = copy_loop (Some d) (Some s) (int a) [Suc k..<Suc k + m] ?h"
    using Suc.prems g t by (simp add: upt_Suc_left heap_simps del: upt_Suc)
  ultimately show ?case by (simp add: l r del: take_Suc_Cons fun_upd_apply)
qed

lemma fill_loop_ok:
  assumes "mem h d = Live p" "k + m \<le> length p"
  shows "fill_loop (Some d) c [k..<k + m] h = Inr (h\<lparr>mem := (mem h)(d := Live (take k p @ replicate m c @ drop (k + m) p))\<rparr>)"
  using assms
proof (induction m arbitrary: k p h)
  case 0
  have "(mem h)(d := Live p) = mem h" using "0.prems"(1) by auto
  then show ?case by simp
next
  case (Suc m)
  let ?h = "h\<lparr>mem := (mem h)(d := Live (p[k := c]))\<rparr>"
  have t: "arr_set p (int k) c = Inr (p[k := c])" using Suc.prems by (simp add: arr_set_def)
  have l: "take (Suc k) (p[k := c]) = take k p @ [c]" using Suc.prems by (intro take_Suc_update) simp
  have "fill_loop (Some d) c [Suc k..<Suc k + m] ?h =
      Inr (?h\<lparr>mem := (mem ?h)(d := Live (take (Suc k) (p[k := c]) @ replicate m c @ drop (Suc k + m) (p[k := c])))\<rparr>)"
    using Suc.prems by (intro Suc.IH) simp_all
  moreover have "fill_loop (Some d) c [k..<k + Suc m] h = fill_loop (Some d) c [Suc k..<Suc k + m] ?h"
    using Suc.prems t by (simp add: upt_Suc_left heap_simps del: upt_Suc)
  ultimately show ?case by (simp add: l del: fun_upd_apply)
qed

lemma read_chars_ok: "mem h a = Live f \<Longrightarrow> k + m \<le> length f \<Longrightarrow> read_chars (Some a) [k..<k + m] h = Inr (take m (drop k f))"
proof (induction m arbitrary: k)
  case (Suc m)
  have "take (Suc m) (drop k f) = f ! k # take m (drop (Suc k) f)"
    using Suc.prems by (intro take_drop_Suc) simp
  then show ?case using Suc.IH[of "Suc k"] Suc.prems by (simp add: upt_Suc_left heap_simps arr_get_def del: upt_Suc)
qed simp

section \<open>Single objects\<close>

definition obj_ok :: "string heap \<Rightarrow> Useless \<Rightarrow> string \<Rightarrow> bool" where
  "obj_ok h u s \<longleftrightarrow> u_n u = int (length s) \<and> (case u_pc u of None \<Rightarrow> s = [] | Some a \<Rightarrow> mem h a = Live s)"

definition alloc :: "string \<Rightarrow> string heap \<Rightarrow> string heap" where
  "alloc s h = snd (h_new s h)"

definition free :: "ptr \<Rightarrow> string heap \<Rightarrow> string heap" where
  "free p h = (case p of None \<Rightarrow> h | Some a \<Rightarrow> h\<lparr>mem := (mem h)(a := Freed)\<rparr>)"

lemma new_array_ok: "new_array junk (int n) h = Inr (Some (brk h), alloc (map junk [0..<n]) h)"
  by (simp add: new_array_def alloc_def h_new_def)

lemma alloc_mem: "mem (alloc s h) a = (if a = brk h then Live s else mem h a)" "brk (alloc s h) = Suc (brk h)"
  by (simp_all add: alloc_def h_new_def)

lemma alloc_overwrite: "(alloc s h)\<lparr>mem := (mem (alloc s h))(brk h := Live t)\<rparr> = alloc t h"
  by (simp add: alloc_def h_new_def)

lemma obj_delete: "obj_ok h u s \<Longrightarrow> h_delete h (u_pc u) = Inr (free (u_pc u) h)"
  by (auto simp: obj_ok_def free_def heap_simps split: option.splits)

text \<open>Copying an object into a fresh array, from some place on.\<close>

lemma obj_copies:
  assumes "obj_ok h u s" "heap_ok h" "length p = length q + length s + r"
  shows "copy_loop (Some (brk h)) (u_pc u) (int (length q)) [length q..<length q + length s] (alloc p h) =
    Inr (alloc (take (length q) p @ s @ drop (length q + length s) p) h)"
proof (cases "u_pc u")
  case None
  then have "s = []" using assms(1) by (simp add: obj_ok_def)
  then show ?thesis by (simp add: None)
next
  case (Some a)
  then have a: "mem h a = Live s" using assms(1) by (simp add: obj_ok_def)
  then have "a \<noteq> brk h" using assms(2) by (auto simp: heap_ok_def)
  then have "copy_loop (Some (brk h)) (Some a) (int (length q)) [length q..<length q + length s] (alloc p h) =
      Inr ((alloc p h)\<lparr>mem := (mem (alloc p h))(brk h := Live (take (length q) p @ take (length s) (drop (length q - length q) s) @
        drop (length q + length s) p))\<rparr>)"
    using a assms(3) by (intro copy_loop_ok) (simp_all add: alloc_mem)
  then show ?thesis by (simp only: Some alloc_overwrite) simp
qed

lemma obj_copies_all:
  assumes "obj_ok h u s" "heap_ok h" "length p = length s"
  shows "copy_loop (Some (brk h)) (u_pc u) 0 [0..<length s] (alloc p h) = Inr (alloc s h)"
  using obj_copies[OF assms(1,2), of p "[]" 0] assms(3) by simp

lemma ShowData_ok: "obj_ok (store w) u s \<Longrightarrow> ShowData u w = Inr (if s = [] then EmptyLine else CharLine s)"
  using read_chars_ok[of "store w" _ s 0 "length s"] by (auto simp: ShowData_def obj_ok_def split: option.splits)

text \<open>The operations on objects that hold strings.\<close>

definition fresh :: "string \<Rightarrow> string heap \<Rightarrow> Useless" where
  "fresh s h = \<lparr>u_n = int (length s), u_pc = Some (brk h)\<rparr>"

definition room :: "uworld \<Rightarrow> bool" where
  "room w \<longleftrightarrow> 0 \<le> ct w \<and> ct w + 2 \<le> INT_MAX \<and> heap_ok (store w)"

lemma count_up_ok: "room w \<Longrightarrow> count_up w = Inr (w\<lparr>ct := ct w + 1\<rparr>)"
  by (simp add: room_def count_up_def in_int_numerals INT_MAX_def)

lemma default_ok: "room w \<Longrightarrow> Useless_default w = Inr (\<lparr>u_n = 0, u_pc = None\<rparr>, w\<lparr>ct := ct w + 1\<rparr>)"
  by (simp add: Useless_default_def count_up_ok)

lemma sized_ok: "room w \<Longrightarrow> Useless_sized junk (int k) w =
    Inr (fresh (map junk [0..<k]) (store w), w\<lparr>ct := ct w + 1, store := alloc (map junk [0..<k]) (store w)\<rparr>)"
  by (simp add: Useless_sized_def count_up_ok new_array_ok fresh_def)

lemma filled_ok: "room w \<Longrightarrow> Useless_filled junk (int k) ch w =
    Inr (fresh (replicate k ch) (store w), w\<lparr>ct := ct w + 1, store := alloc (replicate k ch) (store w)\<rparr>)"
  using fill_loop_ok[of "alloc (map junk [0..<k]) (store w)" "brk (store w)" "map junk [0..<k]" 0 k ch]
  by (simp add: Useless_filled_def count_up_ok new_array_ok fresh_def alloc_mem alloc_overwrite del: fun_upd_apply)

lemma copy_ok: "room w \<Longrightarrow> obj_ok (store w) f s \<Longrightarrow> Useless_copy junk f w =
    Inr (fresh s (store w), w\<lparr>ct := ct w + 1, store := alloc s (store w)\<rparr>)"
  using obj_copies_all[of "store w" f s "map junk [0..<length s]"]
  by (simp add: Useless_copy_def count_up_ok new_array_ok fresh_def obj_ok_def room_def)

lemma move_ok: "room w \<Longrightarrow> Useless_move f w = Inr (f, \<lparr>u_n = 0, u_pc = None\<rparr>, w\<lparr>ct := ct w + 1\<rparr>)"
  by (simp add: Useless_move_def count_up_ok)

definition uncount :: "variant \<Rightarrow> int \<Rightarrow> int" where
  "uncount v k = (if v = UselessCpp then k - 1 else k)"

lemma dtor_ok: "obj_ok (store w) u s \<Longrightarrow> 0 \<le> ct w \<Longrightarrow> ct w \<le> INT_MAX \<Longrightarrow>
    Useless_dtor v u w = Inr (w\<lparr>ct := uncount v (ct w), store := free (u_pc u) (store w)\<rparr>)"
  by (simp add: Useless_dtor_def obj_delete uncount_def in_int_numerals INT_MAX_def)

lemma free_None [simp]: "free None h = h"
  by (simp add: free_def)

lemma empty_ok [simp]: "obj_ok h \<lparr>u_n = 0, u_pc = None\<rparr> []"
  by (simp add: obj_ok_def)

lemma plus_temp_ok: "room w \<Longrightarrow> plus_temp v junk (int k) w =
    Inr (fresh (map junk [0..<k]) (store w), w\<lparr>ct := ct w + 1, store := alloc (map junk [0..<k]) (store w)\<rparr>)"
  by (cases v) (simp_all add: plus_temp_def default_ok sized_ok new_array_ok fresh_def)

lemma plus_ok:
  assumes "room w" "obj_ok (store w) u s" "obj_ok (store w) f t" "int (length (s @ t)) \<le> INT_MAX"
  shows "Useless_plus v e junk u f w =
    Inr (fresh (s @ t) (store w), w\<lparr>ct := (if e then ct w + 1 else uncount v (ct w + 2)), store := alloc (s @ t) (store w)\<rparr>)"
proof -
  let ?p = "map junk [0..<length s + length t]" and ?h = "store w" and ?l = "int (length s + length t)"
  have h: "heap_ok ?h" using assms(1) by (simp add: room_def)
  have n: "u_n u = int (length s)" "u_n f = int (length t)" using assms(2,3) by (simp_all add: obj_ok_def)
  have c: "chk_int (u_n u + u_n f) = Inr ?l" using n assms(4) by (simp add: in_int_numerals INT_MAX_def)
  have l1: "copy_loop (Some (brk ?h)) (u_pc u) 0 [0..<length s] (alloc ?p ?h) = Inr (alloc (s @ drop (length s) ?p) ?h)"
    using obj_copies[OF assms(2) h, of ?p "[]" "length t"] by simp
  have l2: "copy_loop (Some (brk ?h)) (u_pc f) (int (length s)) [length s..<length s + length t] (alloc (s @ drop (length s) ?p) ?h) =
      Inr (alloc (s @ t) ?h)"
    using obj_copies[OF assms(3) h, of "s @ drop (length s) ?p" s 0] by simp
  let ?w = "w\<lparr>ct := ct w + 1, store := alloc (s @ t) ?h\<rparr>" and ?t = "fresh (s @ t) ?h"
  have f: "fresh ?p ?h = ?t" by (simp add: fresh_def)
  have m: "Useless_move ?t ?w = Inr (?t, \<lparr>u_n = 0, u_pc = None\<rparr>, ?w\<lparr>ct := ct w + 2\<rparr>)"
    using assms(1) by (simp add: Useless_move_def count_up_def room_def in_int_numerals INT_MAX_def)
  have d: "Useless_dtor v \<lparr>u_n = 0, u_pc = None\<rparr> (?w\<lparr>ct := ct w + 2\<rparr>) = Inr (?w\<lparr>ct := uncount v (ct w + 2)\<rparr>)"
    using assms(1) by (subst dtor_ok[where s = "[]"]) (simp_all add: room_def)
  have "Useless_plus v e junk u f w = (if e then Inr (?t, ?w)
      else rbind (Useless_move ?t ?w) (\<lambda>(r, t1, w2). rbind (Useless_dtor v t1 w2) (\<lambda>w3. Inr (r, w3))))"
    unfolding Useless_plus_def c rbind_Inr plus_temp_ok[OF assms(1)] f prod.case using l1 l2 n by (simp add: fresh_def nat_int_add)
  then show ?thesis by (simp add: m d[simplified])
qed

lemma obj_free: "obj_ok h f t \<Longrightarrow> u_pc f \<noteq> p \<or> p = None \<Longrightarrow> obj_ok (free p h) f t"
  by (auto simp: obj_ok_def free_def split: option.splits)

lemma free_brk [simp]: "brk (free p h) = brk h"
  by (simp add: free_def split: option.splits)

lemma free_ok: "heap_ok h \<Longrightarrow> obj_ok h u s \<Longrightarrow> heap_ok (free (u_pc u) h)"
  using live_below_brk[of h] by (auto simp: free_def obj_ok_def live_def intro: heap_ok_upd split: option.splits)

lemma assign_ok:
  assumes "heap_ok (store w)" "obj_ok (store w) u s" "obj_ok (store w) f t" "u_pc f \<noteq> u_pc u \<or> u_pc u = None"
  shows "Useless_assign junk False u f w = Inr (fresh t (store w), w\<lparr>store := alloc t (free (u_pc u) (store w))\<rparr>)"
proof -
  let ?h = "free (u_pc u) (store w)"
  have n: "u_n f = int (length t)" using assms(3) by (simp add: obj_ok_def)
  have "copy_loop (Some (brk ?h)) (u_pc f) 0 [0..<length t] (alloc (map junk [0..<length t]) ?h) = Inr (alloc t ?h)"
    using obj_free[OF assms(3,4)] free_ok[OF assms(1,2)] by (intro obj_copies_all) simp_all
  then show ?thesis by (simp add: Useless_assign_def obj_delete[OF assms(2)] n new_array_ok fresh_def)
qed

lemma move_assign_ok: "obj_ok (store w) u s \<Longrightarrow>
    Useless_move_assign False u f w = Inr (f, \<lparr>u_n = 0, u_pc = None\<rparr>, w\<lparr>store := free (u_pc u) (store w)\<rparr>)"
  by (simp add: Useless_move_assign_def obj_delete)

section \<open>All objects\<close>

text \<open>Every object holds its string in an array of its own, and nothing else is allocated.\<close>

definition holds_objs :: "Useless list \<Rightarrow> string list \<Rightarrow> string heap \<Rightarrow> bool" where
  "holds_objs env vs h \<longleftrightarrow> length env = length vs \<and> (\<forall>i < length vs. obj_ok h (env ! i) (vs ! i)) \<and> heap_ok h \<and>
     live h = {a. \<exists>i < length vs. u_pc (env ! i) = Some a} \<and>
     (\<forall>i < length vs. \<forall>j < length vs. i \<noteq> j \<longrightarrow> u_pc (env ! i) \<noteq> u_pc (env ! j) \<or> u_pc (env ! j) = None)"

lemma holdsI:
  assumes "length env = length vs" "\<And>i. i < length vs \<Longrightarrow> obj_ok h (env ! i) (vs ! i)" "heap_ok h"
    "\<And>a. a \<in> live h \<longleftrightarrow> (\<exists>i < length vs. u_pc (env ! i) = Some a)"
    "\<And>i j. i < length vs \<Longrightarrow> j < length vs \<Longrightarrow> i \<noteq> j \<Longrightarrow> u_pc (env ! i) \<noteq> u_pc (env ! j) \<or> u_pc (env ! j) = None"
  shows "holds_objs env vs h"
  unfolding holds_objs_def
proof (intro conjI allI impI)
  show "live h = {a. \<exists>i < length vs. u_pc (env ! i) = Some a}" by (rule set_eqI) (simp add: assms(4))
  show "u_pc (env ! i) \<noteq> u_pc (env ! j) \<or> u_pc (env ! j) = None" if "i < length vs" "j < length vs" "i \<noteq> j" for i j
    using that by (rule assms(5))
qed (simp_all add: assms(1-3))

lemma holdsD:
  assumes "holds_objs env vs h"
  shows "length env = length vs" "i < length vs \<Longrightarrow> obj_ok h (env ! i) (vs ! i)" "heap_ok h"
    "i < length vs \<Longrightarrow> u_pc (env ! i) \<noteq> Some (brk h)" "a \<in> live h \<longleftrightarrow> (\<exists>i < length vs. u_pc (env ! i) = Some a)"
    "i < length vs \<Longrightarrow> j < length vs \<Longrightarrow> i \<noteq> j \<Longrightarrow> u_pc (env ! i) \<noteq> u_pc (env ! j) \<or> u_pc (env ! j) = None"
proof -
  have l: "x \<in> live h \<longleftrightarrow> (\<exists>i < length vs. u_pc (env ! i) = Some x)" for x using assms by (simp add: holds_objs_def)
  show "heap_ok h" using assms by (simp add: holds_objs_def)
  show "u_pc (env ! i) \<noteq> Some (brk h)" if "i < length vs" using l[of "brk h"] that brk_not_live[OF \<open>heap_ok h\<close>] by auto
  show "a \<in> live h \<longleftrightarrow> (\<exists>i < length vs. u_pc (env ! i) = Some a)" by (rule l)
  show "u_pc (env ! i) \<noteq> u_pc (env ! j) \<or> u_pc (env ! j) = None" if "i < length vs" "j < length vs" "i \<noteq> j"
  proof -
    have "\<forall>i < length vs. \<forall>j < length vs. i \<noteq> j \<longrightarrow> u_pc (env ! i) \<noteq> u_pc (env ! j) \<or> u_pc (env ! j) = None"
      using assms unfolding holds_objs_def by (elim conjE)
    then show ?thesis using that by simp
  qed
qed (use assms in \<open>simp_all add: holds_objs_def\<close>)

lemma alloc_live: "a \<in> live (alloc s h) \<longleftrightarrow> a = brk h \<or> a \<in> live h"
  by (simp add: alloc_def live_new)

lemma alloc_ok: "heap_ok h \<Longrightarrow> heap_ok (alloc s h)"
  by (simp add: alloc_def heap_ok_new)

lemma obj_alloc: "obj_ok h u t \<Longrightarrow> u_pc u \<noteq> Some (brk h) \<Longrightarrow> obj_ok (alloc s h) u t"
  by (auto simp: obj_ok_def alloc_mem split: option.splits)

lemma fresh_obj: "obj_ok (alloc s h) (fresh s h) s" "u_pc (fresh s h) = Some (brk h)"
  by (simp_all add: obj_ok_def fresh_def alloc_mem)

lemma free_live: "a \<in> live (free p h) \<longleftrightarrow> a \<in> live h \<and> p \<noteq> Some a"
  by (auto simp: free_def live_freed live_same split: option.splits)

abbreviation no_obj :: Useless where
  "no_obj \<equiv> \<lparr>u_n = 0, u_pc = None\<rparr>"

lemma ex_less_Suc: "(\<exists>i < Suc n. P i) \<longleftrightarrow> (\<exists>i < n. P i) \<or> P n"
  by (auto simp: less_Suc_eq)

lemma holds_append_empty:
  assumes "holds_objs env vs h"
  shows "holds_objs (env @ [no_obj]) (vs @ [[]]) h"
proof (rule holdsI)
  note d = holdsD[OF assms]
  show "obj_ok h ((env @ [no_obj]) ! i) ((vs @ [[]]) ! i)" if "i < length (vs @ [[]])" for i
    using that d(1) d(2)[of i] by (cases "i < length vs") (auto simp: nth_append)
  show "a \<in> live h \<longleftrightarrow> (\<exists>i < length (vs @ [[]]). u_pc ((env @ [no_obj]) ! i) = Some a)" for a
    using d(1) d(5)[of a] by (auto simp: nth_append ex_less_Suc)
  show "u_pc ((env @ [no_obj]) ! i) \<noteq> u_pc ((env @ [no_obj]) ! j) \<or> u_pc ((env @ [no_obj]) ! j) = None"
    if "i < length (vs @ [[]])" "j < length (vs @ [[]])" "i \<noteq> j" for i j
    using that d(1) d(6)[of i j] by (cases "i < length vs"; cases "j < length vs") (auto simp: nth_append)
qed (use holdsD[OF assms] in simp_all)

lemma holds_append:
  assumes "holds_objs env vs h"
  shows "holds_objs (env @ [fresh s h]) (vs @ [s]) (alloc s h)"
proof (rule holdsI)
  note d = holdsD[OF assms] and f = fresh_obj(2)[of s h]
  show "obj_ok (alloc s h) ((env @ [fresh s h]) ! i) ((vs @ [s]) ! i)" if "i < length (vs @ [s])" for i
    using that d(1) d(2,4)[of i] fresh_obj(1) by (cases "i < length vs") (auto simp: nth_append intro: obj_alloc)
  show "a \<in> live (alloc s h) \<longleftrightarrow> (\<exists>i < length (vs @ [s]). u_pc ((env @ [fresh s h]) ! i) = Some a)" for a
    using d(1) d(5)[of a] f by (auto simp: nth_append ex_less_Suc alloc_live)
  show "u_pc ((env @ [fresh s h]) ! i) \<noteq> u_pc ((env @ [fresh s h]) ! j) \<or> u_pc ((env @ [fresh s h]) ! j) = None"
    if "i < length (vs @ [s])" "j < length (vs @ [s])" "i \<noteq> j" for i j
    using that d(1) d(6)[of i j] d(4)[of i] d(4)[of j] f by (cases "i < length vs"; cases "j < length vs") (auto simp: nth_append)
qed (use holdsD[OF assms] alloc_ok in simp_all)

lemma holds_free:
  assumes "holds_objs env vs h" "i < length vs"
  shows "holds_objs (env[i := no_obj]) (vs[i := []]) (free (u_pc (env ! i)) h)"
proof (rule holdsI)
  note d = holdsD[OF assms(1)]
  show "obj_ok (free (u_pc (env ! i)) h) (env[i := no_obj] ! j) (vs[i := []] ! j)" if "j < length (vs[i := []])" for j
    using that assms(2) d(1) d(2)[of j] d(6)[of j i] by (cases "j = i") (auto intro: obj_free)
  show "a \<in> live (free (u_pc (env ! i)) h) \<longleftrightarrow> (\<exists>j < length (vs[i := []]). u_pc (env[i := no_obj] ! j) = Some a)" for a
  proof -
    have "(\<exists>j < length vs. u_pc (env ! j) = Some a) \<and> u_pc (env ! i) \<noteq> Some a \<longleftrightarrow> (\<exists>j < length vs. j \<noteq> i \<and> u_pc (env ! j) = Some a)"
      using d(6)[of _ i] assms(2) by force
    then show ?thesis using d(1) d(5)[of a] assms(2) by (auto simp: free_live nth_list_update)
  qed
  show "u_pc (env[i := no_obj] ! j) \<noteq> u_pc (env[i := no_obj] ! k) \<or> u_pc (env[i := no_obj] ! k) = None"
    if "j < length (vs[i := []])" "k < length (vs[i := []])" "j \<noteq> k" for j k
    using that d(1) d(6)[of j k] by (cases "j = i"; cases "k = i") auto
  show "heap_ok (free (u_pc (env ! i)) h)" using d(2)[OF assms(2)] d(3) by (intro free_ok)
qed (use holdsD[OF assms(1)] in simp_all)

lemma holds_fill:
  assumes "holds_objs env vs h" "i < length vs" "u_pc (env ! i) = None"
  shows "holds_objs (env[i := fresh s h]) (vs[i := s]) (alloc s h)"
proof (rule holdsI)
  note d = holdsD[OF assms(1)] and f = fresh_obj(2)[of s h]
  show "obj_ok (alloc s h) (env[i := fresh s h] ! j) (vs[i := s] ! j)" if "j < length (vs[i := s])" for j
    using that assms(2) d(1) d(2,4)[of j] fresh_obj(1) by (cases "j = i") (auto intro: obj_alloc)
  show "a \<in> live (alloc s h) \<longleftrightarrow> (\<exists>j < length (vs[i := s]). u_pc (env[i := fresh s h] ! j) = Some a)" for a
  proof -
    have "(\<exists>j < length vs. u_pc (env ! j) = Some a) \<longleftrightarrow> (\<exists>j < length vs. j \<noteq> i \<and> u_pc (env ! j) = Some a)"
      using assms(3) by force
    then show ?thesis using d(1) d(5)[of a] assms(2) f by (auto simp: alloc_live nth_list_update)
  qed
  show "u_pc (env[i := fresh s h] ! j) \<noteq> u_pc (env[i := fresh s h] ! k) \<or> u_pc (env[i := fresh s h] ! k) = None"
    if "j < length (vs[i := s])" "k < length (vs[i := s])" "j \<noteq> k" for j k
    using that d(1) d(4)[of j] d(4)[of k] d(6)[of j k] f by (cases "j = i"; cases "k = i") auto
qed (use holdsD[OF assms(1)] alloc_ok in simp_all)

lemma holds_swap:
  assumes "holds_objs env vs h" "i < length vs" "j < length vs"
  shows "holds_objs (env[i := env ! j, j := env ! i]) (vs[i := vs ! j, j := vs ! i]) h"
proof (rule holdsI)
  note d = holdsD[OF assms(1)]
  define f where "f = (\<lambda>k. if k = j then i else if k = i then j else k)"
  have e: "env[i := env ! j, j := env ! i] ! k = env ! f k" "vs[i := vs ! j, j := vs ! i] ! k = vs ! f k" if "k < length vs" for k
    using that assms(2,3) d(1) by (auto simp: f_def nth_list_update)
  have b: "f k < length vs \<and> f (f k) = k" if "k < length vs" for k using that assms(2,3) by (simp add: f_def)
  show "obj_ok h (env[i := env ! j, j := env ! i] ! k) (vs[i := vs ! j, j := vs ! i] ! k)" if "k < length (vs[i := vs ! j, j := vs ! i])" for k
    using that b[of k] e[of k] d(2)[of "f k"] by simp
  show "a \<in> live h \<longleftrightarrow> (\<exists>k < length (vs[i := vs ! j, j := vs ! i]). u_pc (env[i := env ! j, j := env ! i] ! k) = Some a)" for a
    using d(5)[of a] b e by (metis length_list_update)
  show "u_pc (env[i := env ! j, j := env ! i] ! k) \<noteq> u_pc (env[i := env ! j, j := env ! i] ! l) \<or>
      u_pc (env[i := env ! j, j := env ! i] ! l) = None"
    if "k < length (vs[i := vs ! j, j := vs ! i])" "l < length (vs[i := vs ! j, j := vs ! i])" "k \<noteq> l" for k l
  proof -
    have kl: "k < length vs" "l < length vs" using that by simp_all
    then have "f k \<noteq> f l" using that(3) b by metis
    then show ?thesis using kl b[of k] b[of l] e(1) d(6)[of "f k" "f l"] by simp
  qed
qed (use holdsD[OF assms(1)] in simp_all)

lemma holds_butlast:
  assumes "holds_objs (env @ [u]) (vs @ [s]) h" "u_pc u = None"
  shows "holds_objs env vs h"
proof (rule holdsI)
  note d = holdsD[OF assms(1)]
  have n: "length env = length vs" using d(1) by simp
  then show "length env = length vs" .
  show "obj_ok h (env ! i) (vs ! i)" if "i < length vs" for i using that n d(2)[of i] by (simp add: nth_append)
  show "a \<in> live h \<longleftrightarrow> (\<exists>i < length vs. u_pc (env ! i) = Some a)" for a
    using d(5)[of a] n assms(2) by (auto simp: nth_append ex_less_Suc)
  show "u_pc (env ! i) \<noteq> u_pc (env ! j) \<or> u_pc (env ! j) = None" if "i < length vs" "j < length vs" "i \<noteq> j" for i j
    using that n d(6)[of i j] by (simp add: nth_append)
qed (use holdsD[OF assms(1)] in simp_all)

section \<open>Programs do on the heap what they do on values\<close>

definition simulates :: "variant \<Rightarrow> int \<Rightarrow> ustate \<Rightarrow> vstate \<Rightarrow> bool" where
  "simulates v c = (\<lambda>(env, w, out) (vs, out1). holds_objs env vs (store w) \<and> out = out1 \<and> 0 \<le> ct w \<and> ct w \<le> c \<and>
     (v = UselessCpp \<longrightarrow> ct w = int (length vs)))"

lemma simulatesI:
  "holds_objs env vs (store w) \<Longrightarrow> 0 \<le> ct w \<Longrightarrow> ct w \<le> c \<Longrightarrow> v = UselessCpp \<Longrightarrow> ct w = int (length vs) \<Longrightarrow> simulates v c (env, w, out) (vs, out)"
  "holds_objs env vs (store w) \<Longrightarrow> 0 \<le> ct w \<Longrightarrow> ct w \<le> c \<Longrightarrow> v = Stdmove \<Longrightarrow> simulates v c (env, w, out) (vs, out)"
  by (simp_all add: simulates_def)

lemma declares:
  assumes "simulates v c (env, w, out) (vs, out)" "r = Inr (fresh s (store w), w\<lparr>ct := k, store := alloc s (store w)\<rparr>)"
    "0 \<le> k" "k \<le> c + 2" "v = UselessCpp \<Longrightarrow> k = ct w + 1"
  shows "\<exists>st. declare_obj (env, w, out) r = Inr st \<and> simulates v (c + 2) st (vs @ [s], out)"
  using assms holds_append[of env vs "store w" s] by (auto simp: declare_obj_def simulates_def)

lemma move_init_holds:
  assumes "holds_objs env vs h" "i < length vs"
  shows "holds_objs (env[i := no_obj] @ [env ! i]) (vs[i := []] @ [vs ! i]) h"
proof -
  have n: "length env = length vs" by (rule holdsD(1)[OF assms(1)])
  have e: "(env @ [no_obj])[i := (env @ [no_obj]) ! length vs, length vs := (env @ [no_obj]) ! i] = env[i := no_obj] @ [env ! i]"
    using assms(2) by (simp add: nth_append list_update_append flip: n)
  have v: "(vs @ [[]])[i := (vs @ [[]]) ! length vs, length vs := (vs @ [[]]) ! i] = vs[i := []] @ [vs ! i]"
    using assms(2) by (simp add: nth_append list_update_append)
  show ?thesis using holds_swap[OF holds_append_empty[OF assms(1)], of i "length vs"] assms(2) unfolding e v by simp
qed

lemma free_fresh [simp]: "fresh s (free p h) = fresh s h"
  by (simp add: fresh_def)

lemma assign_holds:
  assumes "holds_objs env vs h" "i < length vs"
  shows "holds_objs (env[i := fresh s h]) (vs[i := s]) (alloc s (free (u_pc (env ! i)) h))"
  using holds_fill[OF holds_free[OF assms], of i s] assms(2) holdsD(1)[OF assms(1)] by simp

lemma move_assign_holds:
  assumes "holds_objs env vs h" "i < length vs" "j < length vs" "i \<noteq> j"
  shows "holds_objs (env[j := no_obj, i := env ! j]) (vs[j := [], i := vs ! j]) (free (u_pc (env ! i)) h)"
proof -
  have n: "length env = length vs" by (rule holdsD(1)[OF assms(1)])
  show ?thesis using holds_swap[OF holds_free[OF assms(1,2)], of i j] assms n by (simp add: list_update_swap)
qed

lemma sum_assign_holds:
  assumes "holds_objs env vs h" "i < length vs"
  shows "holds_objs (env[i := fresh s h]) (vs[i := s]) (free (u_pc (env ! i)) (alloc s h))"
proof -
  have n: "length env = length vs" by (rule holdsD(1)[OF assms(1)])
  have "holds_objs ((env @ [fresh s h])[length vs := no_obj, i := fresh s h]) ((vs @ [s])[length vs := [], i := s])
      (free (u_pc (env ! i)) (alloc s h))"
    using move_assign_holds[OF holds_append[OF assms(1), of s], of i "length vs"] assms(2) n by (simp add: nth_append)
  then have "holds_objs (env[i := fresh s h] @ [no_obj]) (vs[i := s] @ [[]]) (free (u_pc (env ! i)) (alloc s h))"
    using assms(2) by (simp add: list_update_append flip: n)
  then show ?thesis by (rule holds_butlast) simp
qed

lemma end_holds:
  assumes "holds_objs (env @ [u]) (vs @ [s]) h"
  shows "holds_objs env vs (free (u_pc u) h)"
proof -
  have n: "length env = length vs" using holdsD(1)[OF assms] by simp
  have "(env @ [u]) ! length vs = u" "(env @ [u])[length vs := no_obj] = env @ [no_obj]" by (simp_all flip: n)
  then have "holds_objs (env @ [no_obj]) (vs @ [[]]) (free (u_pc u) h)" using holds_free[OF assms, of "length vs"] by simp
  then show ?thesis by (rule holds_butlast) simp
qed

lemma simulates_room: "simulates v c (env, w, out) (vs, out1) \<Longrightarrow> c + 2 \<le> INT_MAX \<Longrightarrow> room w \<and> out1 = out"
  using holdsD(3)[of env vs "store w"] by (auto simp: simulates_def room_def)

lemma step_simulates_init:
  assumes s: "simulates v c (env, w, out) (vs, out)" and "c + 2 \<le> INT_MAX" "vlegal v x (vs, out)"
    and "case x of Decl \<Rightarrow> True | DeclSized k \<Rightarrow> True | DeclFilled k ch \<Rightarrow> True | CopyInit i \<Rightarrow> True | MoveInit i \<Rightarrow> True | SumInit i j \<Rightarrow> True | _ \<Rightarrow> False"
  shows "\<exists>st. ustep v e junk x (env, w, out) = Inr st \<and> simulates v (c + 2) st (vstep junk x (vs, out))"
proof -
  have r: "room w" using simulates_room[OF s assms(2)] by simp
  have h: "holds_objs env vs (store w)" using s by (simp add: simulates_def)
  have k: "0 \<le> ct w + 1" "ct w + 1 \<le> c + 2" "0 \<le> ct w + 2" "ct w + 2 \<le> c + 2" using s by (simp_all add: simulates_def)
  note o = holdsD(2)[OF h]
  show ?thesis
  proof (cases x)
    case Decl
    then show ?thesis using default_ok[OF r] holds_append_empty[OF h] s by (auto simp: declare_obj_def simulates_def)
  next
    case (DeclSized m)
    then have "0 \<le> m" using assms(3) by simp
    then obtain n where "m = int n" by (rule nonneg_int_cases)
    then show ?thesis using declares[OF s sized_ok[OF r, of junk n] k(1,2)] DeclSized by simp
  next
    case (DeclFilled m ch)
    then have "0 \<le> m" using assms(3) by simp
    then obtain n where "m = int n" by (rule nonneg_int_cases)
    then show ?thesis using declares[OF s filled_ok[OF r, of junk n ch] k(1,2)] DeclFilled by simp
  next
    case (CopyInit i)
    then show ?thesis using declares[OF s copy_ok[OF r o[of i]] k(1,2)] assms(3) by simp
  next
    case (MoveInit i)
    then show ?thesis using move_ok[OF r, of "env ! i"] move_init_holds[OF h, of i] s assms(3) by (auto simp: simulates_def)
  next
    case (SumInit i j)
    then have "0 \<le> (if e then ct w + 1 else uncount v (ct w + 2))" "(if e then ct w + 1 else uncount v (ct w + 2)) \<le> c + 2"
      "v = UselessCpp \<Longrightarrow> (if e then ct w + 1 else uncount v (ct w + 2)) = ct w + 1" using k by (auto simp: uncount_def)
    note declares[OF s plus_ok[OF r o[of i] o[of j]] this]
    then show ?thesis using SumInit assms(3) by simp
  qed (use assms(4) in simp_all)
qed

lemma step_simulates_rest:
  assumes s: "simulates v c (env, w, out) (vs, out)" and "c + 2 \<le> INT_MAX" "vlegal v x (vs, out)"
    and "case x of Decl \<Rightarrow> False | DeclSized k \<Rightarrow> False | DeclFilled k ch \<Rightarrow> False | CopyInit i \<Rightarrow> False | MoveInit i \<Rightarrow> False | SumInit i j \<Rightarrow> False | _ \<Rightarrow> True"
  shows "\<exists>st. ustep v e junk x (env, w, out) = Inr st \<and> simulates v (c + 2) st (vstep junk x (vs, out))"
proof -
  have r: "room w" using simulates_room[OF s assms(2)] by simp
  have h: "holds_objs env vs (store w)" using s by (simp add: simulates_def)
  have c: "0 \<le> ct w" "ct w \<le> c" using s by (simp_all add: simulates_def)
  note d = holdsD[OF h]
  show ?thesis
  proof (cases x)
    case (Assign i j)
    then have v: "v = Stdmove" "i < length vs" "j < length vs" using assms(3) by simp_all
    show ?thesis
    proof (cases "i = j")
      case True
      then show ?thesis using Assign s by (simp add: Useless_assign_def simulates_def)
    next
      case False
      then have "Useless_assign junk False (env ! i) (env ! j) w =
          Inr (fresh (vs ! j) (store w), w\<lparr>store := alloc (vs ! j) (free (u_pc (env ! i)) (store w))\<rparr>)"
        using v d(6)[of j i] by (intro assign_ok[OF d(3) d(2)[OF v(2)] d(2)[OF v(3)]]) simp
      then show ?thesis using Assign False v c assign_holds[OF h v(2)] by (simp add: simulates_def)
    qed
  next
    case (MoveAssign i j)
    then have v: "v = Stdmove" "i < length vs" "j < length vs" using assms(3) by simp_all
    show ?thesis
    proof (cases "i = j")
      case True
      then show ?thesis using MoveAssign s by (simp add: Useless_move_assign_def simulates_def)
    next
      case False
      then show ?thesis using MoveAssign v c move_assign_ok[OF d(2)[OF v(2)]] move_assign_holds[OF h v(2,3) False]
        by (simp add: simulates_def)
    qed
  next
    case (SumAssign i j k)
    then have v: "v = Stdmove" "i < length vs" "j < length vs" "k < length vs" "int (length (vs ! j @ vs ! k)) \<le> INT_MAX"
      using assms(3) by simp_all
    let ?t = "vs ! j @ vs ! k"
    let ?w = "w\<lparr>ct := (if e then ct w + 1 else ct w + 2), store := alloc ?t (store w)\<rparr>"
    have p: "Useless_plus v e junk (env ! j) (env ! k) w = Inr (fresh ?t (store w), ?w)"
      using plus_ok[OF r d(2)[OF v(3)] d(2)[OF v(4)] v(5)] v(1) by (simp add: uncount_def)
    have o: "obj_ok (store ?w) (env ! i) (vs ! i)" using obj_alloc[OF d(2)[OF v(2)] d(4)[OF v(2)]] by simp
    have m: "Useless_move_assign False (env ! i) (fresh ?t (store w)) ?w =
        Inr (fresh ?t (store w), no_obj, ?w\<lparr>store := free (u_pc (env ! i)) (store ?w)\<rparr>)"
      using o by (rule move_assign_ok)
    have "Useless_dtor v no_obj (?w\<lparr>store := free (u_pc (env ! i)) (store ?w)\<rparr>) = Inr (?w\<lparr>store := free (u_pc (env ! i)) (store ?w)\<rparr>)"
      using v(1) by (simp add: Useless_dtor_def heap_simps)
    then show ?thesis using SumAssign p m sum_assign_holds[OF h v(2), of ?t] v(1) c by (simp add: simulates_def)
  next
    case (Show i)
    then show ?thesis using ShowData_ok[OF d(2), of i] assms(3) s by (simp add: simulates_def)
  next
    case EndOne
    then obtain us t where vs: "vs = us @ [t]" using assms(3) by (cases vs rule: rev_cases) simp_all
    then obtain en u where env: "env = en @ [u]" using d(1) by (cases env rule: rev_cases) simp_all
    have n: "length en = length us" using d(1) vs env by simp
    have o: "obj_ok (store w) u t" using d(2)[of "length us"] vs env by (simp add: nth_append flip: n)
    have "ct w \<le> INT_MAX" using c assms(2) by simp
    then have "Useless_dtor v u w = Inr (w\<lparr>ct := uncount v (ct w), store := free (u_pc u) (store w)\<rparr>)" using o c by (intro dtor_ok)
    then show ?thesis using EndOne end_holds[of en u us t "store w"] h vs env s by (auto simp: simulates_def uncount_def)
  qed (use assms(4) in simp_all)
qed

lemma step_simulates:
  assumes "simulates v c st sp" "c + 2 \<le> INT_MAX" "vlegal v x sp"
  shows "\<exists>st1. ustep v e junk x st = Inr st1 \<and> simulates v (c + 2) st1 (vstep junk x sp)"
proof -
  obtain env w out vs where st: "st = (env, w, out)" "sp = (vs, out)" using assms(1) by (cases st, cases sp) (auto simp: simulates_def)
  show ?thesis using step_simulates_init[of v c env w out vs x e junk] step_simulates_rest[of v c env w out vs x e junk] assms
    unfolding st by (cases x) simp_all
qed

lemma run_simulates:
  "simulates v c st sp \<Longrightarrow> vlegal_run v junk xs sp \<Longrightarrow> c + 2 * int (length xs) \<le> INT_MAX \<Longrightarrow>
   \<exists>st1. urun v e junk xs st = Inr st1 \<and> simulates v (c + 2 * int (length xs)) st1 (vrun junk xs sp)"
proof (induction xs arbitrary: c st sp)
  case (Cons x xs)
  obtain st1 where st1: "ustep v e junk x st = Inr st1" "simulates v (c + 2) st1 (vstep junk x sp)"
    using step_simulates[OF Cons.prems(1), where x = x and e = e and junk = junk] Cons.prems(2,3) by auto
  show ?case using Cons.IH[OF st1(2)] Cons.prems(2,3) st1(1) by (simp add: algebra_simps)
qed simp

section \<open>Properties\<close>

definition no_objects :: ustate where
  "no_objects = ([], \<lparr>ct = 0, store = heap_empty\<rparr>, [])"

text \<open>C16: Every program of declarations, copies, moves, sums, assignments (self-assignments included) and scope ends does on the
  heap what it does on plain strings, whether or not the compiler elides the copy that \<^verbatim>\<open>operator+\<close> returns: it meets no
  error, shows the same lines, every object owns its array alone, nothing else stays allocated, and in \<^verbatim>\<open>useless.cpp\<close> the
  static count is the number of objects.\<close>

theorem useless_refines_values:
  assumes "vlegal_run v junk xs ([], [])" and "2 * int (length xs) \<le> INT_MAX"
  shows "\<exists>env w. urun v e junk xs no_objects = Inr (env, w, snd (vrun junk xs ([], []))) \<and>
    holds_objs env (fst (vrun junk xs ([], []))) (store w) \<and> (v = UselessCpp \<longrightarrow> ct w = int (length env))"
proof -
  have "holds_objs [] [] heap_empty" by (rule holdsI) (simp_all add: live_empty heap_ok_empty)
  then have s: "simulates v 0 no_objects ([], [])" by (simp add: simulates_def no_objects_def)
  obtain st where "urun v e junk xs no_objects = Inr st" "simulates v (0 + 2 * int (length xs)) st (vrun junk xs ([], []))"
    using run_simulates[OF s assms(1), where e = e] assms(2) by auto
  then show ?thesis using holdsD(1) by (cases st, cases "vrun junk xs ([], [])") (auto simp: simulates_def)
qed

text \<open>The two programs, up to their texts.\<close>

definition stdmove_main :: "ustmt list" where
  "stdmove_main = [DeclFilled 10 CHR ''x'', SumInit 0 0, Show 0, Show 1, Decl, Decl, Assign 2 0, Show 2, Show 0, SumAssign 3 0 1, Show 3,
     MoveAssign 3 0, Show 3, Show 0, EndOne, EndOne, EndOne, EndOne]"

definition useless_main :: "ustmt list" where
  "useless_main = [DeclFilled 10 CHR ''x'', CopyInit 0, DeclFilled 20 CHR ''o'', SumInit 0 2, Show 0, Show 1, Show 2, Show 3,
     EndOne, EndOne, EndOne, EndOne]"

lemma ended_empty: "holds_objs env [] h \<Longrightarrow> env = [] \<and> live h = {}"
  by (simp add: holds_objs_def)

theorem useless_refines_values_witness:
  "(\<exists>w. urun Stdmove False (\<lambda>_. CHR ''?'') stdmove_main no_objects = Inr ([], w,
       [CharLine (replicate 10 CHR ''x''), CharLine (replicate 20 CHR ''x''), CharLine (replicate 10 CHR ''x''), CharLine (replicate 10 CHR ''x''),
        CharLine (replicate 30 CHR ''x''), CharLine (replicate 10 CHR ''x''), EmptyLine]) \<and> live (store w) = {}) \<and>
   (\<exists>w. urun UselessCpp True (\<lambda>_. CHR ''?'') useless_main no_objects = Inr ([], w,
       [CharLine (replicate 10 CHR ''x''), CharLine (replicate 10 CHR ''x''), CharLine (replicate 20 CHR ''o''),
        CharLine (replicate 10 CHR ''x'' @ replicate 20 CHR ''o'')]) \<and> ct w = 0)"
proof -
  let ?j = "\<lambda>_ :: nat. CHR ''?''"
  have l: "vlegal_run Stdmove ?j stdmove_main ([], [])" "vlegal_run UselessCpp ?j useless_main ([], [])"
    by (simp_all add: stdmove_main_def useless_main_def INT_MAX_def)
  have v: "vrun ?j stdmove_main ([], []) = ([],
       [CharLine (replicate 10 CHR ''x''), CharLine (replicate 20 CHR ''x''), CharLine (replicate 10 CHR ''x''), CharLine (replicate 10 CHR ''x''),
        CharLine (replicate 30 CHR ''x''), CharLine (replicate 10 CHR ''x''), EmptyLine])"
    "vrun ?j useless_main ([], []) = ([],
       [CharLine (replicate 10 CHR ''x''), CharLine (replicate 10 CHR ''x''), CharLine (replicate 20 CHR ''o''),
        CharLine (replicate 10 CHR ''x'' @ replicate 20 CHR ''o'')])"
    by (simp_all add: stdmove_main_def useless_main_def flip: replicate_add)
  have n: "2 * int (length stdmove_main) \<le> INT_MAX" "2 * int (length useless_main) \<le> INT_MAX"
    by (simp_all add: stdmove_main_def useless_main_def INT_MAX_def)
  from useless_refines_values[OF l(1) n(1), of False] useless_refines_values[OF l(2) n(2), of True] show ?thesis
    unfolding v fst_conv snd_conv using ended_empty by fastforce
qed

text \<open>\<^verbatim>\<open>stdmove.cpp\<close> counts constructions and not objects: its destructor leaves the count alone.\<close>

lemma stdmove_count: "urun Stdmove True (\<lambda>_. CHR ''?'') [Decl, EndOne] no_objects = Inr ([], \<lparr>ct = 1, store = heap_empty\<rparr>, [])"
  by (simp add: no_objects_def declare_obj_def Useless_default_def count_up_def Useless_dtor_def heap_simps in_int_numerals)

end
