(* ===== verification/Param_System.thy ===== *)
theory Param_System
  imports Fifo_Queue "HOL-Library.Sublist"
begin

text \<open>
  The classes \<^verbatim>\<open>AdvancedA\<close> and \<^verbatim>\<open>AdvancedB\<close> of \<^verbatim>\<open>src/other/share_data/multicom.cpp\<close> with the threads of \<^verbatim>\<open>main\<close>: a worker that
  generates parameters for a shared variable, a \<open>ThreadSafeQueue\<close> and a callback, a poller of the variable, a consumer of
  the queue, and the main thread that starts and stops them. Every access to an atomic or under a lock is one step; the
  worker holds \<^verbatim>\<open>mtx_\<close> from the assignment of the parameter to the end of the callback, and a wait with a time-out ends at
  any time. The random parameters are arguments; ghost fields record what was generated, delivered and printed.
\<close>

datatype worker_pc = WIdle | WLoop | WSection | WPush bool | WCallback | WWait | WEnd
datatype poll_pc = PIdle | PLoop | PCheckA | PRead | PEnd
datatype event_pc = EIdle | ELoop | ECheckA | EPop | EEnd
datatype main_pc = MStartA | MStartB | MSleep | MJoinPoll | MJoinEvent | MStopA | MStopQueue | MJoinWorker | MDone

datatype verdict = High | Low | Normal

record params =
  shared_param :: int
  a_running :: bool
  b_running :: bool
  param_queue :: "int ThreadSafeQueue"
  worker :: worker_pc
  param :: int
  poll :: poll_pc
  last_param :: int
  event :: event_pc
  mainp :: main_pc
  generated :: "int list"
  called :: "int list"
  polled :: "int list"
  consumed :: "(int \<times> verdict) list"

definition process_param :: "int \<Rightarrow> verdict" where
  "process_param p = (if p > 80 then High else if p < 20 then Low else Normal)"

section \<open>The worker of A\<close>

text \<open>\<^verbatim>\<open>generateParam\<close>; \<^verbatim>\<open>push\<close> tests the stop flag in one step and puts the parameter in in the next; \<open>r\<close> is what \<^verbatim>\<open>rand() % 100\<close> returns.\<close>

definition worker_step :: "int \<Rightarrow> params \<Rightarrow> params option" where
  "worker_step r s = (case worker s of
     WLoop \<Rightarrow> Some (s\<lparr>worker := if a_running s then WSection else WEnd\<rparr>)
   | WSection \<Rightarrow> Some (s\<lparr>param := r, generated := generated s @ [r], shared_param := r, worker := WPush (\<not> is_stopped (param_queue s))\<rparr>)
   | WPush b \<Rightarrow> Some (s\<lparr>param_queue := (if b then tsq_put (param s) (param_queue s) else param_queue s), worker := WCallback\<rparr>)
   | WCallback \<Rightarrow> Some (s\<lparr>called := called s @ [param s], worker := WWait\<rparr>)
   | WWait \<Rightarrow> Some (s\<lparr>worker := if a_running s then WLoop else WEnd\<rparr>)
   | _ \<Rightarrow> None)"

definition a_locked :: "params \<Rightarrow> bool" where
  "a_locked s \<longleftrightarrow> (case worker s of WPush b \<Rightarrow> True | WCallback \<Rightarrow> True | _ \<Rightarrow> False)"

section \<open>The threads of B\<close>

text \<open>\<^verbatim>\<open>pollingMode\<close>: \<^verbatim>\<open>getSharedParam\<close> needs the lock.\<close>

definition poll_step :: "params \<Rightarrow> params option" where
  "poll_step s = (case poll s of
     PLoop \<Rightarrow> Some (s\<lparr>poll := if b_running s then PCheckA else PEnd\<rparr>)
   | PCheckA \<Rightarrow> Some (s\<lparr>poll := if a_running s then PRead else PEnd\<rparr>)
   | PRead \<Rightarrow> if a_locked s then None
       else Some (if shared_param s \<noteq> last_param s
                  then s\<lparr>polled := polled s @ [shared_param s], last_param := shared_param s, poll := PLoop\<rparr> else s\<lparr>poll := PLoop\<rparr>)
   | _ \<Rightarrow> None)"

text \<open>\<^verbatim>\<open>eventDrivenMode\<close>: the wait of \<^verbatim>\<open>waitForParam\<close> ends with a parameter, with a stop or at its time-out.\<close>

definition event_step :: "params \<Rightarrow> params option" where
  "event_step s = (case event s of
     ELoop \<Rightarrow> Some (s\<lparr>event := if b_running s then ECheckA else EEnd\<rparr>)
   | ECheckA \<Rightarrow> Some (s\<lparr>event := if a_running s then EPop else EEnd\<rparr>)
   | EPop \<Rightarrow> (case wait_and_pop 0 (param_queue s) of (ok, p, q) \<Rightarrow>
       Some (if ok then s\<lparr>param_queue := q, consumed := consumed s @ [(p, process_param p)], event := ELoop\<rparr>
             else s\<lparr>param_queue := q, event := ELoop\<rparr>))
   | _ \<Rightarrow> None)"

section \<open>Main\<close>

text \<open>\<^verbatim>\<open>A::start\<close>, \<^verbatim>\<open>B::start\<close>, the sleep, \<^verbatim>\<open>B::stop\<close> with its two joins, and \<^verbatim>\<open>A::stop\<close>. The destructors then find both stopped.\<close>

definition main_step :: "params \<Rightarrow> params option" where
  "main_step s = (case mainp s of
     MStartA \<Rightarrow> Some (if a_running s then s\<lparr>mainp := MStartB\<rparr> else s\<lparr>a_running := True, worker := WLoop, mainp := MStartB\<rparr>)
   | MStartB \<Rightarrow> Some (if b_running s then s\<lparr>mainp := MSleep\<rparr>
       else s\<lparr>b_running := True, poll := PLoop, last_param := - 1, event := ELoop, mainp := MSleep\<rparr>)
   | MSleep \<Rightarrow> Some (if \<not> b_running s then s\<lparr>mainp := MStopA\<rparr> else s\<lparr>b_running := False, mainp := MJoinPoll\<rparr>)
   | MJoinPoll \<Rightarrow> if poll s = PEnd then Some (s\<lparr>mainp := MJoinEvent\<rparr>) else None
   | MJoinEvent \<Rightarrow> if event s = EEnd then Some (s\<lparr>mainp := MStopA\<rparr>) else None
   | MStopA \<Rightarrow> Some (if \<not> a_running s then s\<lparr>mainp := MDone\<rparr> else s\<lparr>a_running := False, mainp := MStopQueue\<rparr>)
   | MStopQueue \<Rightarrow> Some (s\<lparr>param_queue := tsq_stop (param_queue s), mainp := MJoinWorker\<rparr>)
   | MJoinWorker \<Rightarrow> if worker s = WEnd then Some (s\<lparr>mainp := MDone\<rparr>) else None
   | MDone \<Rightarrow> None)"

definition params_init :: params where
  "params_init = \<lparr>shared_param = 0, a_running = False, b_running = False, param_queue = \<lparr>tsq = [], stop_flag = False\<rparr>, worker = WIdle,
     param = 0, poll = PIdle, last_param = 0, event = EIdle, mainp = MStartA, generated = [], called = [], polled = [], consumed = []\<rparr>"

inductive param_step :: "params \<Rightarrow> params \<Rightarrow> bool" where
  works: "0 \<le> r \<Longrightarrow> r < 100 \<Longrightarrow> worker_step r s = Some t \<Longrightarrow> param_step s t"
| polls: "poll_step s = Some t \<Longrightarrow> param_step s t"
| events: "event_step s = Some t \<Longrightarrow> param_step s t"
| mains: "main_step s = Some t \<Longrightarrow> param_step s t"

section \<open>The flow of parameters\<close>

text \<open>What is consumed, followed by the queue and what is on its way, is what was generated, in order.\<close>

definition in_flight :: "params \<Rightarrow> int list" where
  "in_flight s = (case worker s of WPush b \<Rightarrow> [param s] | _ \<Rightarrow> [])"

definition uncalled :: "params \<Rightarrow> int list" where
  "uncalled s = (case worker s of WPush b \<Rightarrow> [param s] | WCallback \<Rightarrow> [param s] | _ \<Rightarrow> [])"

definition queue_inv :: "params \<Rightarrow> bool" where
  "queue_inv s \<longleftrightarrow>
     (if stop_flag (param_queue s) then prefix (map fst (consumed s) @ tsq (param_queue s)) (generated s) \<and>
        (worker s = WPush True \<longrightarrow> generated s = map fst (consumed s) @ tsq (param_queue s) @ [param s])
      else generated s = map fst (consumed s) @ tsq (param_queue s) @ in_flight s \<and> worker s \<noteq> WPush False)"

definition call_inv :: "params \<Rightarrow> bool" where
  "call_inv s \<longleftrightarrow> generated s = called s @ uncalled s \<and> shared_param s = (if generated s = [] then 0 else last (generated s))"

definition value_inv :: "params \<Rightarrow> bool" where
  "value_inv s \<longleftrightarrow> list_all (\<lambda>x. snd x = process_param (fst x)) (consumed s) \<and> list_all (\<lambda>x. 0 \<le> x \<and> x < 100) (generated s)"

definition poll_inv :: "params \<Rightarrow> bool" where
  "poll_inv s \<longleftrightarrow> set (polled s) \<subseteq> insert 0 (set (generated s))"

definition flow_inv :: "params \<Rightarrow> bool" where
  "flow_inv s \<longleftrightarrow> queue_inv s \<and> call_inv s \<and> value_inv s \<and> poll_inv s"

text \<open>What a step leaves alone.\<close>

lemma poll_frame:
  assumes "poll_step s = Some t"
  shows "\<exists>xs l c. t = s\<lparr>polled := polled s @ xs, last_param := l, poll := c\<rparr> \<and> (xs = [] \<or> xs = [shared_param s])"
proof -
  have "t = s\<lparr>poll := poll t\<rparr> \<or> t = s\<lparr>polled := polled s @ [shared_param s], last_param := shared_param s, poll := PLoop\<rparr>"
    using assms by (cases "poll s") (auto simp: poll_step_def split: if_splits)
  then show ?thesis
  proof
    assume "t = s\<lparr>poll := poll t\<rparr>"
    then show ?thesis by (intro exI[of _ "[]"] exI[of _ "last_param s"] exI[of _ "poll t"]) simp
  next
    assume "t = s\<lparr>polled := polled s @ [shared_param s], last_param := shared_param s, poll := PLoop\<rparr>"
    then show ?thesis by (intro exI[of _ "[shared_param s]"] exI[of _ "shared_param s"] exI[of _ PLoop]) simp
  qed
qed

lemma event_frame:
  assumes "event_step s = Some t"
  shows "(\<exists>c. t = s\<lparr>event := c\<rparr>) \<or>
    (\<exists>x xs. tsq (param_queue s) = x # xs \<and> \<not> stop_flag (param_queue s) \<and>
       t = s\<lparr>param_queue := (param_queue s)\<lparr>tsq := xs\<rparr>, consumed := consumed s @ [(x, process_param x)], event := ELoop\<rparr>)"
proof (cases "event s = EPop")
  case True
  show ?thesis
  proof (cases "stop_flag (param_queue s) \<or> tsq (param_queue s) = []")
    case False
    then obtain x xs where "tsq (param_queue s) = x # xs" by (cases "tsq (param_queue s)") auto
    then show ?thesis using assms True False by (auto simp: event_step_def wait_and_pop_def)
  next
    case stop: True
    then have "t = s\<lparr>param_queue := param_queue s, event := ELoop\<rparr>"
      using assms True by (auto simp: event_step_def wait_and_pop_def split: if_splits)
    then have "t = s\<lparr>event := ELoop\<rparr>" by simp
    then show ?thesis by blast
  qed
next
  case False
  then show ?thesis using assms by (cases "event s") (auto simp: event_step_def split: if_splits)
qed

lemma same_worker: "worker t = worker s \<Longrightarrow> param t = param s \<Longrightarrow> in_flight t = in_flight s \<and> uncalled t = uncalled s"
  by (simp add: in_flight_def uncalled_def cong: worker_pc.case_cong)

lemma queue_inv_cong: "generated t = generated s \<Longrightarrow> consumed t = consumed s \<Longrightarrow> param_queue t = param_queue s \<Longrightarrow>
    worker t = worker s \<Longrightarrow> param t = param s \<Longrightarrow> queue_inv t = queue_inv s"
  using same_worker[of t s] by (simp add: queue_inv_def)

lemma call_inv_cong: "generated t = generated s \<Longrightarrow> called t = called s \<Longrightarrow> shared_param t = shared_param s \<Longrightarrow>
    worker t = worker s \<Longrightarrow> param t = param s \<Longrightarrow> call_inv t = call_inv s"
  using same_worker[of t s] by (simp add: call_inv_def)

lemma flow_poll:
  assumes "poll_step s = Some t" "flow_inv s"
  shows "flow_inv t"
proof -
  obtain xs l c where t: "t = s\<lparr>polled := polled s @ xs, last_param := l, poll := c\<rparr>" "xs = [] \<or> xs = [shared_param s]"
    using poll_frame[OF assms(1)] by blast
  have "shared_param s = (if generated s = [] then 0 else last (generated s))" using assms(2) by (simp add: flow_inv_def call_inv_def)
  then have "shared_param s \<in> insert 0 (set (generated s))" by (cases "generated s = []") simp_all
  then have "poll_inv t" using assms(2) t by (auto simp: flow_inv_def poll_inv_def)
  moreover have "queue_inv t" "call_inv t" "value_inv t"
    using assms(2) queue_inv_cong[of t s] call_inv_cong[of t s] by (simp_all add: flow_inv_def value_inv_def t(1))
  ultimately show ?thesis by (simp add: flow_inv_def)
qed

lemma flow_event:
  assumes "event_step s = Some t" "flow_inv s"
  shows "flow_inv t"
  using event_frame[OF assms(1)]
proof
  assume "\<exists>c. t = s\<lparr>event := c\<rparr>"
  then obtain c where t: "t = s\<lparr>event := c\<rparr>" ..
  show ?thesis using assms(2) queue_inv_cong[of t s] call_inv_cong[of t s] by (simp add: flow_inv_def value_inv_def poll_inv_def t)
next
  assume "\<exists>x xs. tsq (param_queue s) = x # xs \<and> \<not> stop_flag (param_queue s) \<and>
       t = s\<lparr>param_queue := (param_queue s)\<lparr>tsq := xs\<rparr>, consumed := consumed s @ [(x, process_param x)], event := ELoop\<rparr>"
  then obtain x xs where q: "tsq (param_queue s) = x # xs" "\<not> stop_flag (param_queue s)"
    and t: "t = s\<lparr>param_queue := (param_queue s)\<lparr>tsq := xs\<rparr>, consumed := consumed s @ [(x, process_param x)], event := ELoop\<rparr>" by blast
  have "in_flight t = in_flight s" using same_worker[of t s] t by simp
  then have "queue_inv t" using assms(2) q by (simp add: flow_inv_def queue_inv_def t)
  then show ?thesis using assms(2) call_inv_cong[of t s] by (simp add: flow_inv_def value_inv_def poll_inv_def t)
qed

text \<open>The worker between its sections.\<close>

definition outside :: "worker_pc \<Rightarrow> bool" where
  "outside c \<longleftrightarrow> c \<in> {WIdle, WLoop, WSection, WWait, WEnd}"

lemma flow_moved:
  assumes "flow_inv s" "outside (worker s)" "outside c"
  shows "flow_inv (s\<lparr>worker := c\<rparr>)"
proof -
  have o: "in_flight s = []" "uncalled s = []" "in_flight (s\<lparr>worker := c\<rparr>) = []" "uncalled (s\<lparr>worker := c\<rparr>) = []" "c \<noteq> WPush False" "c \<noteq> WPush True"
    using assms(2,3) by (auto simp: outside_def in_flight_def uncalled_def)
  then have "queue_inv (s\<lparr>worker := c\<rparr>)" using assms(1) by (simp add: flow_inv_def queue_inv_def)
  moreover have "call_inv (s\<lparr>worker := c\<rparr>)" using assms(1) o by (simp add: flow_inv_def call_inv_def)
  ultimately show ?thesis using assms(1) by (simp add: flow_inv_def value_inv_def poll_inv_def)
qed

lemma flow_worker:
  assumes "worker_step r s = Some t" "flow_inv s" "0 \<le> r" "r < 100"
  shows "flow_inv t"
proof -
  have i: "queue_inv s" "call_inv s" "value_inv s" "poll_inv s" using assms(2) by (simp_all add: flow_inv_def)
  show ?thesis
  proof (cases "worker s")
    case WSection
    then have t: "t = s\<lparr>param := r, generated := generated s @ [r], shared_param := r, worker := WPush (\<not> is_stopped (param_queue s))\<rparr>"
      using assms(1) by (simp add: worker_step_def)
    have "queue_inv t" using i(1) WSection by (auto simp: queue_inv_def t in_flight_def is_stopped_def intro: prefix_prefix)
    moreover have "call_inv t" using i(2) WSection by (simp add: call_inv_def t uncalled_def)
    moreover have "value_inv t" "poll_inv t" using i(3,4) assms(3,4) by (auto simp: value_inv_def poll_inv_def t)
    ultimately show ?thesis by (simp add: flow_inv_def)
  next
    case (WPush b)
    define q where "q = (if b then tsq_put (param s) (param_queue s) else param_queue s)"
    have t: "t = s\<lparr>param_queue := q, worker := WCallback\<rparr>" using assms(1) WPush by (simp add: worker_step_def q_def)
    have "stop_flag q = stop_flag (param_queue s)" by (simp add: q_def)
    moreover have "tsq q = (if b then tsq (param_queue s) @ [param s] else tsq (param_queue s))"
      by (simp add: q_def)
    ultimately have "queue_inv t" using i(1) WPush by (cases b) (auto simp: queue_inv_def t in_flight_def)
    then show ?thesis using i(2-4) WPush by (simp add: flow_inv_def call_inv_def value_inv_def poll_inv_def t uncalled_def)
  next
    case WCallback
    then have t: "t = s\<lparr>called := called s @ [param s], worker := WWait\<rparr>" using assms(1) by (simp add: worker_step_def)
    have "queue_inv t" using i(1) WCallback by (simp add: queue_inv_def t in_flight_def)
    moreover have "call_inv t" using i(2) WCallback by (simp add: call_inv_def t uncalled_def)
    ultimately show ?thesis using i(3,4) by (simp add: flow_inv_def value_inv_def poll_inv_def t)
  next
    case WLoop
    then show ?thesis using assms(1,2) flow_moved[of s WSection] flow_moved[of s WEnd] by (auto simp: worker_step_def outside_def split: if_splits)
  next
    case WWait
    then show ?thesis using assms(1,2) flow_moved[of s WLoop] flow_moved[of s WEnd] by (auto simp: worker_step_def outside_def split: if_splits)
  qed (use assms(1) in \<open>simp_all add: worker_step_def\<close>)
qed

lemma main_frame:
  assumes "main_step s = Some t"
  shows "generated t = generated s \<and> called t = called s \<and> polled t = polled s \<and> consumed t = consumed s \<and> shared_param t = shared_param s \<and>
      tsq (param_queue t) = tsq (param_queue s) \<and> (stop_flag (param_queue s) \<longrightarrow> stop_flag (param_queue t)) \<and> param t = param s \<and>
      (worker t = worker s \<or> mainp s = MStartA \<and> worker t = WLoop)"
proof (cases "mainp s")
  case MStartA then show ?thesis using assms by (auto simp: main_step_def)
next
  case MStartB then show ?thesis using assms by (auto simp: main_step_def)
next
  case MStopQueue then show ?thesis using assms by (auto simp: main_step_def tsq_stop_def)
qed (use assms in \<open>auto simp: main_step_def split: if_splits\<close>)

lemma flow_main:
  assumes "main_step s = Some t" "flow_inv s" "mainp s = MStartA \<longrightarrow> worker s = WIdle"
  shows "flow_inv t"
proof -
  have i: "queue_inv s" "call_inv s" "value_inv s" "poll_inv s" using assms(2) by (simp_all add: flow_inv_def)
  note f = main_frame[OF assms(1)]
  have w: "in_flight t = in_flight s \<and> uncalled t = uncalled s \<and> (worker t = WPush False \<longrightarrow> worker s = WPush False) \<and>
    (worker t = WPush True \<longrightarrow> worker s = WPush True)"
  proof (cases "worker t = worker s")
    case True
    then show ?thesis using f same_worker[of t s] by simp
  next
    case False
    then have "worker t = WLoop" "worker s = WIdle" using f assms(3) by simp_all
    then show ?thesis by (simp add: in_flight_def uncalled_def)
  qed
  have "queue_inv t"
  proof (cases "stop_flag (param_queue s)")
    case True
    then show ?thesis using i(1) f w by (auto simp add: queue_inv_def)
  next
    case False
    then have "generated s = (map fst (consumed s) @ tsq (param_queue s)) @ in_flight s" "worker s \<noteq> WPush False"
      using i(1) by (simp_all add: queue_inv_def)
    then show ?thesis using f w by (auto simp add: queue_inv_def prefix_def in_flight_def)
  qed
  moreover have "call_inv t" using i(2) f w by (simp add: call_inv_def)
  ultimately show ?thesis using i(3,4) f by (simp add: flow_inv_def value_inv_def poll_inv_def)
qed

section \<open>The phases of main\<close>

definition working :: "params \<Rightarrow> bool" where
  "working s \<longleftrightarrow> worker s \<noteq> WIdle \<and> worker s \<noteq> WEnd"

definition flags_are :: "bool \<Rightarrow> bool \<Rightarrow> bool \<Rightarrow> params \<Rightarrow> bool" where
  "flags_are a b q s \<longleftrightarrow> a_running s = a \<and> b_running s = b \<and> stop_flag (param_queue s) = q"

definition phase_ok :: "params \<Rightarrow> bool" where
  "phase_ok s = (case mainp s of
     MStartA \<Rightarrow> flags_are False False False s \<and> worker s = WIdle \<and> poll s = PIdle \<and> event s = EIdle
   | MStartB \<Rightarrow> flags_are True False False s \<and> working s \<and> poll s = PIdle \<and> event s = EIdle
   | MSleep \<Rightarrow> flags_are True True False s \<and> working s \<and> poll s \<noteq> PIdle \<and> event s \<noteq> EIdle
   | MJoinPoll \<Rightarrow> flags_are True False False s \<and> working s \<and> poll s \<noteq> PIdle \<and> event s \<noteq> EIdle
   | MJoinEvent \<Rightarrow> flags_are True False False s \<and> working s \<and> poll s = PEnd \<and> event s \<noteq> EIdle
   | MStopA \<Rightarrow> flags_are True False False s \<and> working s \<and> poll s = PEnd \<and> event s = EEnd
   | MStopQueue \<Rightarrow> flags_are False False False s \<and> worker s \<noteq> WIdle \<and> poll s = PEnd \<and> event s = EEnd
   | MJoinWorker \<Rightarrow> flags_are False False True s \<and> worker s \<noteq> WIdle \<and> poll s = PEnd \<and> event s = EEnd
   | MDone \<Rightarrow> flags_are False False True s \<and> worker s = WEnd \<and> poll s = PEnd \<and> event s = EEnd)"

lemma worker_frame:
  assumes "worker_step r s = Some t"
  shows "a_running t = a_running s \<and> b_running t = b_running s \<and> stop_flag (param_queue t) = stop_flag (param_queue s) \<and>
    mainp t = mainp s \<and> poll t = poll s \<and> event t = event s \<and> worker s \<noteq> WIdle \<and> worker s \<noteq> WEnd \<and> worker t \<noteq> WIdle \<and>
    (a_running s \<longrightarrow> worker t \<noteq> WEnd)"
  using assms by (cases "worker s") (auto simp: worker_step_def split: if_splits)

lemma phase_worker: "worker_step r s = Some t \<Longrightarrow> phase_ok s \<Longrightarrow> phase_ok t"
  using worker_frame[of r s t] by (cases "mainp s") (simp_all add: phase_ok_def working_def flags_are_def)

lemma phase_poll:
  assumes "poll_step s = Some t" "phase_ok s"
  shows "phase_ok t"
proof -
  obtain xs l c where t: "t = s\<lparr>polled := polled s @ xs, last_param := l, poll := c\<rparr>" using poll_frame[OF assms(1)] by blast
  have "poll s \<noteq> PIdle" "poll s \<noteq> PEnd" "poll t \<noteq> PIdle" using assms(1) by (auto simp: poll_step_def split: poll_pc.splits if_splits)
  then show ?thesis using assms(2) by (cases "mainp s") (simp_all add: phase_ok_def t flags_are_def working_def)
qed

lemma phase_event:
  assumes "event_step s = Some t" "phase_ok s"
  shows "phase_ok t"
proof -
  have f: "a_running t = a_running s" "b_running t = b_running s" "stop_flag (param_queue t) = stop_flag (param_queue s)"
      "worker t = worker s" "poll t = poll s" "mainp t = mainp s"
    using event_frame[OF assms(1)] by auto
  have "event s \<noteq> EIdle" "event s \<noteq> EEnd" "event t \<noteq> EIdle"
    using assms(1) by (auto simp: event_step_def wait_and_pop_def split: event_pc.splits if_splits)
  then show ?thesis using assms(2) f by (cases "mainp s") (simp_all add: phase_ok_def flags_are_def working_def)
qed

lemma phase_main: "main_step s = Some t \<Longrightarrow> phase_ok s \<Longrightarrow> phase_ok t"
  by (cases "mainp s") (auto simp: main_step_def phase_ok_def tsq_stop_def flags_are_def working_def split: if_splits)

lemma phase_start: "phase_ok s \<Longrightarrow> mainp s = MStartA \<longrightarrow> worker s = WIdle"
  by (cases "mainp s") (simp_all add: phase_ok_def)

lemma param_step_inv: "param_step s t \<Longrightarrow> flow_inv s \<and> phase_ok s \<Longrightarrow> flow_inv t \<and> phase_ok t"
proof (induction rule: param_step.induct)
  case (works r s t)
  then show ?case using flow_worker phase_worker by blast
next
  case (polls s t)
  then show ?case using flow_poll phase_poll by blast
next
  case (events s t)
  then show ?case using flow_event phase_event by blast
next
  case (mains s t)
  then show ?case using flow_main[of s t] phase_main[of s t] phase_start by blast
qed

lemma params_init_inv: "flow_inv params_init \<and> phase_ok params_init"
  by (simp add: flow_inv_def queue_inv_def call_inv_def value_inv_def poll_inv_def phase_ok_def params_init_def in_flight_def uncalled_def flags_are_def)

lemma param_reach_inv: "param_step\<^sup>*\<^sup>* params_init s \<Longrightarrow> flow_inv s \<and> phase_ok s"
  by (induction rule: rtranclp_induct) (use params_init_inv param_step_inv in blast)+

section \<open>Stopping\<close>

text \<open>What is left to do before everything has ended.\<close>

primrec main_left :: "main_pc \<Rightarrow> nat" where
  "main_left MStartA = 8" | "main_left MStartB = 7" | "main_left MSleep = 6" | "main_left MJoinPoll = 5" | "main_left MJoinEvent = 4"
| "main_left MStopA = 3" | "main_left MStopQueue = 2" | "main_left MJoinWorker = 1" | "main_left MDone = 0"

primrec poll_left :: "poll_pc \<Rightarrow> nat" where
  "poll_left PIdle = 0" | "poll_left PCheckA = 3" | "poll_left PRead = 2" | "poll_left PLoop = 1" | "poll_left PEnd = 0"

primrec event_left :: "event_pc \<Rightarrow> nat" where
  "event_left EIdle = 0" | "event_left ECheckA = 3" | "event_left EPop = 2" | "event_left ELoop = 1" | "event_left EEnd = 0"

primrec worker_left :: "worker_pc \<Rightarrow> nat" where
  "worker_left WIdle = 0" | "worker_left WSection = 4" | "worker_left (WPush b) = 3" | "worker_left WCallback = 2" | "worker_left WWait = 1"
| "worker_left WLoop = 1" | "worker_left WEnd = 0"

definition stop_left :: "params \<Rightarrow> nat" where
  "stop_left s = main_left (mainp s) + poll_left (poll s) + event_left (event s) + (if a_running s then 4 else worker_left (worker s))"

definition stopping :: "params \<Rightarrow> bool" where
  "stopping s \<longleftrightarrow> main_left (mainp s) \<le> 5"

lemma poll_left_step: "poll_step s = Some t \<Longrightarrow> \<not> b_running s \<Longrightarrow> poll_left (poll t) < poll_left (poll s)"
  by (cases "poll s") (auto simp: poll_step_def split: if_splits)

lemma event_left_step: "event_step s = Some t \<Longrightarrow> \<not> b_running s \<Longrightarrow> event_left (event t) < event_left (event s)"
  by (cases "event s") (auto simp: event_step_def wait_and_pop_def split: if_splits)

lemma worker_left_step: "worker_step r s = Some t \<Longrightarrow> \<not> a_running s \<Longrightarrow> worker_left (worker t) < worker_left (worker s)"
  by (cases "worker s") (auto simp: worker_step_def)

lemma phase_stopping: "phase_ok s \<Longrightarrow> stopping s \<Longrightarrow> \<not> b_running s \<and> (mainp s = MStopA \<longrightarrow> a_running s)"
  by (cases "mainp s") (simp_all add: phase_ok_def stopping_def flags_are_def)

lemma main_left_step:
  assumes "main_step s = Some t" "phase_ok s" "stopping s"
  shows "stop_left t < stop_left s \<and> stopping t"
proof (cases "mainp s")
  case MStopA
  then have "a_running s" using assms(2) by (simp add: phase_ok_def flags_are_def)
  moreover have "worker_left (worker s) \<le> 4" by (cases "worker s") simp_all
  ultimately show ?thesis using assms(1) MStopA by (auto simp: main_step_def stop_left_def stopping_def)
qed (use assms in \<open>auto simp: main_step_def stop_left_def stopping_def split: if_splits\<close>)

text \<open>No step makes it more.\<close>

lemma stop_left_step:
  assumes "param_step s t" "phase_ok s" "stopping s"
  shows "stop_left t \<le> stop_left s \<and> stopping t"
  using assms
proof (induction rule: param_step.induct)
  case (works r s t)
  then show ?case using worker_frame[of r s t] worker_left_step[of r s t] by (auto simp: stop_left_def stopping_def)
next
  case (polls s t)
  obtain xs l c where t: "t = s\<lparr>polled := polled s @ xs, last_param := l, poll := c\<rparr>" using poll_frame[OF polls(1)] by blast
  show ?case using polls poll_left_step[of s t] phase_stopping[of s] by (auto simp: stop_left_def stopping_def t)
next
  case (events s t)
  have "a_running t = a_running s" "worker t = worker s" "poll t = poll s" "mainp t = mainp s" using event_frame[OF events(1)] by auto
  then show ?case using events event_left_step[of s t] phase_stopping[of s] by (auto simp: stop_left_def stopping_def)
next
  case (mains s t)
  then show ?case using main_left_step[of s t] by simp
qed

text \<open>As long as main has not ended, some steps make it less; the poller may have to wait until the worker gives up the lock.\<close>

lemma worker_moves: "worker s \<noteq> WIdle \<Longrightarrow> worker s \<noteq> WEnd \<Longrightarrow> \<exists>t. worker_step 0 s = Some t"
  by (cases "worker s") (simp_all add: worker_step_def)

lemma unlocks_from_callback:
  assumes "worker s = WCallback"
  shows "\<exists>t. param_step s t \<and> \<not> a_locked t \<and> poll t = poll s"
proof -
  have "param_step s (s\<lparr>called := called s @ [param s], worker := WWait\<rparr>)"
    using assms by (intro works[of 0]) (simp_all add: worker_step_def)
  then show ?thesis by (intro exI[of _ "s\<lparr>called := called s @ [param s], worker := WWait\<rparr>"]) (simp add: a_locked_def)
qed

lemma unlocks:
  assumes "a_locked s"
  shows "\<exists>t. param_step\<^sup>*\<^sup>* s t \<and> \<not> a_locked t \<and> poll t = poll s"
proof (cases "worker s")
  case (WPush b)
  let ?u = "s\<lparr>param_queue := (if b then tsq_put (param s) (param_queue s) else param_queue s), worker := WCallback\<rparr>"
  have "param_step s ?u" using WPush by (intro works[of 0]) (simp_all add: worker_step_def)
  moreover obtain t where "param_step ?u t" "\<not> a_locked t" "poll t = poll ?u" using unlocks_from_callback[of ?u] by auto
  ultimately show ?thesis by (intro exI[of _ t]) auto
next
  case WCallback
  then show ?thesis using unlocks_from_callback[of s] by blast
qed (use assms in \<open>simp_all add: a_locked_def\<close>)

lemma poll_moves: "poll s \<noteq> PIdle \<Longrightarrow> poll s \<noteq> PEnd \<Longrightarrow> \<not> a_locked s \<Longrightarrow> \<exists>t. poll_step s = Some t"
  by (cases "poll s") (simp_all add: poll_step_def)

lemma event_moves: "event s \<noteq> EIdle \<Longrightarrow> event s \<noteq> EEnd \<Longrightarrow> \<exists>t. event_step s = Some t"
  by (cases "event s") (simp_all add: event_step_def split: prod.split)

lemma stop_left_run:
  "param_step\<^sup>*\<^sup>* s t \<Longrightarrow> flow_inv s \<and> phase_ok s \<Longrightarrow> stopping s \<Longrightarrow>
   stop_left t \<le> stop_left s \<and> stopping t \<and> flow_inv t \<and> phase_ok t"
proof (induction rule: rtranclp_induct)
  case (step t u)
  then have i: "stop_left t \<le> stop_left s" "stopping t" "flow_inv t \<and> phase_ok t" by simp_all
  then show ?case using stop_left_step[OF step(2)] param_step_inv[OF step(2)] by fastforce
qed simp

lemma stop_progress:
  assumes i: "flow_inv s \<and> phase_ok s" and "stopping s" "mainp s \<noteq> MDone"
  shows "\<exists>t. param_step\<^sup>*\<^sup>* s t \<and> stop_left t < stop_left s"
proof -
  have main: ?thesis if m: "main_step s \<noteq> None"
  proof -
    obtain t where t: "main_step s = Some t" using m by auto
    then show ?thesis using main_left_step[OF t] assms(1,2) mains[OF t] by blast
  qed
  show ?thesis
  proof (cases "mainp s")
    case MJoinPoll
    have p: "poll s \<noteq> PIdle" using i MJoinPoll by (simp add: phase_ok_def)
    show ?thesis
    proof (cases "poll s = PEnd")
      case True
      then show ?thesis using MJoinPoll by (intro main) (simp add: main_step_def)
    next
      case False
      obtain t where t: "param_step\<^sup>*\<^sup>* s t" "\<not> a_locked t" "poll t = poll s" using unlocks[of s] by (cases "a_locked s") auto
      obtain u where u: "poll_step t = Some u" using poll_moves[of t] t p False by auto
      have r: "stop_left t \<le> stop_left s" "stopping t" "phase_ok t" using stop_left_run[OF t(1) i assms(2)] by simp_all
      obtain xs l c where uu: "u = t\<lparr>polled := polled t @ xs, last_param := l, poll := c\<rparr>" using poll_frame[OF u] by blast
      have "stop_left u < stop_left t" using poll_left_step[OF u] phase_stopping[OF r(3,2)] by (simp add: stop_left_def uu)
      then show ?thesis using t(1) polls[OF u] r(1) by (intro exI[of _ u]) (simp add: rtranclp.rtrancl_into_rtrancl)
    qed
  next
    case MJoinEvent
    have p: "event s \<noteq> EIdle" using i MJoinEvent by (simp add: phase_ok_def)
    show ?thesis
    proof (cases "event s = EEnd")
      case True
      then show ?thesis using MJoinEvent by (intro main) (simp add: main_step_def)
    next
      case False
      then obtain u where u: "event_step s = Some u" using event_moves p by blast
      have "a_running u = a_running s" "worker u = worker s" "poll u = poll s" "mainp u = mainp s" using event_frame[OF u] by auto
      then have "stop_left u < stop_left s" using event_left_step[OF u] phase_stopping[of s] i assms(2) by (simp add: stop_left_def)
      then show ?thesis using events[OF u] by blast
    qed
  next
    case MJoinWorker
    show ?thesis
    proof (cases "worker s = WEnd")
      case True
      then show ?thesis using MJoinWorker by (intro main) (simp add: main_step_def)
    next
      case False
      have "worker s \<noteq> WIdle" "\<not> a_running s" using i MJoinWorker by (simp_all add: phase_ok_def flags_are_def)
      then obtain u where u: "worker_step 0 s = Some u" "\<not> a_running s" using worker_moves False by blast
      have "stop_left u < stop_left s" using worker_left_step[OF u] worker_frame[OF u(1)] u(2) by (simp add: stop_left_def)
      then show ?thesis using works[OF _ _ u(1)] by auto
    qed
  qed (use assms(2,3) in \<open>intro main; simp add: main_step_def stopping_def\<close>)+
qed

lemma all_ended: "phase_ok s \<Longrightarrow> mainp s = MDone \<Longrightarrow> worker s = WEnd \<and> poll s = PEnd \<and> event s = EEnd"
  by (simp add: phase_ok_def)

lemma stops: "flow_inv s \<and> phase_ok s \<Longrightarrow> stopping s \<Longrightarrow> \<exists>t. param_step\<^sup>*\<^sup>* s t \<and> mainp t = MDone"
proof (induction "stop_left s" arbitrary: s rule: less_induct)
  case less
  show ?case
  proof (cases "mainp s = MDone")
    case False
    then obtain t where t: "param_step\<^sup>*\<^sup>* s t" "stop_left t < stop_left s" using stop_progress less.prems by blast
    then obtain u where "param_step\<^sup>*\<^sup>* t u" "mainp u = MDone" using less.hyps[of t] stop_left_run[OF t(1) less.prems] by blast
    then show ?thesis using t(1) by (meson rtranclp_trans)
  qed blast
qed

lemma starts: "flow_inv s \<and> phase_ok s \<Longrightarrow> \<not> stopping s \<Longrightarrow> \<exists>t. param_step\<^sup>*\<^sup>* s t \<and> stopping t"
proof (induction "main_left (mainp s)" arbitrary: s rule: less_induct)
  case less
  have "mainp s \<in> {MStartA, MStartB, MSleep}" using less.prems(2) by (cases "mainp s") (simp_all add: stopping_def)
  then obtain t where t: "main_step s = Some t" "main_left (mainp t) < main_left (mainp s)" by (auto simp: main_step_def)
  show ?case
  proof (cases "stopping t")
    case True
    then show ?thesis using mains[OF t(1)] by blast
  next
    case False
    then obtain u where "param_step\<^sup>*\<^sup>* t u" "stopping u" using less.hyps[OF t(2)] param_step_inv[OF mains[OF t(1)] less.prems(1)] by blast
    then show ?thesis using mains[OF t(1)] by (meson converse_rtranclp_into_rtranclp)
  qed
qed

section \<open>Properties\<close>

text \<open>C17: In every interleaving of the worker, the poller, the consumer and main, the parameters that the consumer prints are those
  generated, in order and without gaps, each with its verdict; the callback sees each in order and the last one is the
  shared parameter; the poller prints only generated ones or the initial 0; and at the end the callback has seen all.\<close>

theorem params_in_order:
  assumes "param_step\<^sup>*\<^sup>* params_init s"
  shows "prefix (map fst (consumed s) @ tsq (param_queue s)) (generated s) \<and> prefix (called s) (generated s) \<and>
    list_all (\<lambda>x. snd x = process_param (fst x)) (consumed s) \<and> set (polled s) \<subseteq> insert 0 (set (generated s)) \<and>
    shared_param s = (if generated s = [] then 0 else last (generated s)) \<and> (mainp s = MDone \<longrightarrow> called s = generated s)"
proof -
  have i: "queue_inv s" "call_inv s" "value_inv s" "poll_inv s" "phase_ok s" using param_reach_inv[OF assms] by (simp_all add: flow_inv_def)
  have "called s = generated s" if "mainp s = MDone"
    using all_ended[OF i(5) that] i(2) by (simp add: call_inv_def uncalled_def)
  moreover have "prefix (called s) (generated s)" using i(2) by (simp add: call_inv_def)
  moreover have "shared_param s = (if generated s = [] then 0 else last (generated s))" using i(2) unfolding call_inv_def ..
  moreover have "prefix (map fst (consumed s) @ tsq (param_queue s)) (generated s)"
    using i(1) by (cases "stop_flag (param_queue s)") (auto simp: queue_inv_def prefix_def)
  ultimately show ?thesis using i(3,4) by (simp add: value_inv_def poll_inv_def)
qed

text \<open>C18: The program can always stop: from every reachable state some schedule ends with all three threads at their ends, and once
  \<^verbatim>\<open>stop\<close> has begun no step of any thread adds to what is left to do, so that no thread can undo the progress of another.\<close>

theorem params_stop:
  assumes "param_step\<^sup>*\<^sup>* params_init s"
  shows "(\<exists>t. param_step\<^sup>*\<^sup>* s t \<and> mainp t = MDone \<and> worker t = WEnd \<and> poll t = PEnd \<and> event t = EEnd) \<and>
    (stopping s \<longrightarrow> (\<forall>t. param_step s t \<longrightarrow> stop_left t \<le> stop_left s \<and> stopping t))"
proof
  have i: "flow_inv s \<and> phase_ok s" by (rule param_reach_inv[OF assms])
  have "\<exists>t. param_step\<^sup>*\<^sup>* s t \<and> stopping t" using starts[OF i] by (cases "stopping s") blast+
  then obtain t where t: "param_step\<^sup>*\<^sup>* s t" "stopping t" by blast
  have "flow_inv t \<and> phase_ok t" using param_reach_inv assms t(1) by (meson rtranclp_trans)
  then obtain u where u: "param_step\<^sup>*\<^sup>* t u" "mainp u = MDone" using stops t(2) by blast
  have su: "param_step\<^sup>*\<^sup>* s u" using t(1) u(1) by (rule rtranclp_trans)
  then have "phase_ok u" using param_reach_inv assms by (meson rtranclp_trans)
  then show "\<exists>t. param_step\<^sup>*\<^sup>* s t \<and> mainp t = MDone \<and> worker t = WEnd \<and> poll t = PEnd \<and> event t = EEnd"
    using all_ended[OF _ u(2)] su u(2) by blast
  show "stopping s \<longrightarrow> (\<forall>t. param_step s t \<longrightarrow> stop_left t \<le> stop_left s \<and> stopping t)" using stop_left_step i by blast
qed

text \<open>Schedules, for examples.\<close>

datatype turn = Worker int | Poller | Consumer | Main

fun take_turn :: "turn \<Rightarrow> params \<Rightarrow> params option" where
  "take_turn (Worker r) s = (if 0 \<le> r \<and> r < 100 then worker_step r s else None)"
| "take_turn Poller s = poll_step s"
| "take_turn Consumer s = event_step s"
| "take_turn Main s = main_step s"

fun schedule :: "turn list \<Rightarrow> params \<Rightarrow> params option" where
  "schedule [] s = Some s"
| "schedule (x # xs) s = (case take_turn x s of None \<Rightarrow> None | Some t \<Rightarrow> schedule xs t)"

lemma take_turn_step: "take_turn x s = Some t \<Longrightarrow> param_step s t"
  by (cases x) (auto intro: param_step.intros split: if_splits)

lemma schedule_reach: "schedule xs s = Some t \<Longrightarrow> param_step\<^sup>*\<^sup>* s t"
proof (induction xs arbitrary: s)
  case (Cons x xs)
  then obtain u where "take_turn x s = Some u" "schedule xs u = Some t" by (auto split: option.splits)
  then show ?case using Cons.IH take_turn_step by (meson converse_rtranclp_into_rtranclp)
qed simp

definition example_turns :: "turn list" where
  "example_turns = [Main, Main, Worker 0, Worker 85, Worker 0, Poller, Consumer, Consumer, Consumer, Worker 0, Poller, Poller]"

definition example_state :: params where
  "example_state = the (schedule example_turns params_init)"

lemma example_reached: "param_step\<^sup>*\<^sup>* params_init example_state"
proof -
  have "schedule example_turns params_init \<noteq> None"
    by (simp add: example_turns_def params_init_def main_step_def worker_step_def poll_step_def event_step_def wait_and_pop_def
        is_stopped_def a_locked_def)
  then show ?thesis unfolding example_state_def by (intro schedule_reach[of example_turns]) auto
qed

lemma example_simps: "consumed example_state = [(85, High)]" "generated example_state = [85]" "polled example_state = [85]"
  "called example_state = [85]" "mainp example_state = MSleep" "shared_param example_state = 85" "tsq (param_queue example_state) = []"
  by (simp_all add: example_state_def example_turns_def params_init_def main_step_def worker_step_def poll_step_def event_step_def wait_and_pop_def
      is_stopped_def a_locked_def process_param_def)

lemma params_in_order_witness:
  "prefix (map fst (consumed example_state)) [85] \<and> set (polled example_state) \<subseteq> {0, 85} \<and> consumed example_state = [(85, High)]"
  using params_in_order[OF example_reached] example_simps by simp

lemma params_stop_witness:
  "\<exists>t. param_step\<^sup>*\<^sup>* example_state t \<and> mainp t = MDone \<and> worker t = WEnd \<and> poll t = PEnd \<and> event t = EEnd"
  using params_stop[OF example_reached] by blast

text \<open>The poller can print the initial 0, which was never generated.\<close>

lemma poll_prints_initial:
  "\<exists>s. param_step\<^sup>*\<^sup>* params_init s \<and> polled s = [0] \<and> generated s = []"
proof -
  have "\<exists>s. schedule [Main, Main, Poller, Poller, Poller] params_init = Some s \<and> polled s = [0] \<and> generated s = []"
    by (simp add: params_init_def main_step_def poll_step_def a_locked_def)
  then show ?thesis using schedule_reach by blast
qed

end
