(* ===== verification/Latency_Main.thy ===== *)
theory Latency_Main
  imports Perf_Files Perf_Options Latency_Run
begin

text \<open>
  \<^verbatim>\<open>main\<close> of the latency test from the command line to the exit code, for a test with publisher and subscribers in one process
  and static types: the options of \<open>Perf_Options\<close>, the payloads of \<open>Perf_Files\<close>, \<^verbatim>\<open>init\<close>, \<^verbatim>\<open>destroy_user_entities\<close> and the
  destructors of \<open>Perf_Setup\<close> for the publisher and each subscriber, and the threads of \<open>Latency_System\<close> up to their joins.
  Files, the answers of DDS and the measured overhead are arguments.
\<close>

record latency_env =
  file_of :: "string \<Rightarrow> string option"
  neg_of :: "nat \<Rightarrow> 32 word \<times> bool"
  junk_of :: "nat \<Rightarrow> nat \<Rightarrow> 32 word"
  pub_fails :: "dds_call \<Rightarrow> bool"
  sub_fails :: "nat \<Rightarrow> dds_call \<Rightarrow> bool"
  host_name :: string
  writer_profile :: data_qos
  reader_profile :: data_qos
  default_writer :: data_qos
  default_reader :: data_qos
  clock_overhead :: rat

section \<open>The program\<close>

definition default_sizes :: "32 word list" where
  "default_sizes = [16, 1024, 64512, 1048576]"

definition payloads_of :: "latency_env \<Rightarrow> latency_config \<Rightarrow> 32 word list" where
  "payloads_of e c = (if lo_demands_file c \<noteq> [] then snd (load_payloads (neg_of e) (junk_of e) (file_of e (lo_demands_file c)))
     else default_sizes)"

text \<open>The arguments of both \<^verbatim>\<open>init\<close> functions.\<close>

definition setup_of :: "latency_config \<Rightarrow> setup_options" where
  "setup_of c = \<lparr>opt_reliable = lo_reliable c, opt_pid = lo_seed c, opt_hostname = lo_hostname c, opt_xml = (lo_xml_config_file c \<noteq> []),
     opt_data_sharing = lo_data_sharing c, opt_data_loans = lo_data_loans c, opt_shared_memory = lo_shared_memory c,
     opt_forced_domain = lo_forced_domain c\<rparr>"

definition publisher_of :: "latency_env \<Rightarrow> latency_config \<Rightarrow> LatencyTestPublisher" where
  "publisher_of e c = \<lparr>subscribers = lo_subscribers c, samples = word_of_int (lo_samples c), data_loans = lo_data_loans c,
     overhead_time = clock_overhead e, out_seqnum = 0, start_time = 0, times = [], command_msg_count = 0, data_msg_count = 0,
     received_count = 0\<rparr>"

definition subscriber_of :: "latency_config \<Rightarrow> LatencyTestSubscriber" where
  "subscriber_of c = \<lparr>echo = lo_echo c, sub_loans = lo_data_loans c, sub_command_count = 0, test_status = 0\<rparr>"

definition both_pub_init :: "latency_env \<Rightarrow> latency_config \<Rightarrow> bool \<times> perf_app" where
  "both_pub_init e c = LatencyTestPublisher_init (pub_fails e) (host_name e) (writer_profile e) (reader_profile e) (setup_of c)
     (new_app (default_writer e) (default_reader e))"

definition both_sub_inits :: "latency_env \<Rightarrow> latency_config \<Rightarrow> (bool \<times> perf_app) list" where
  "both_sub_inits e c = map (\<lambda>i. LatencyTestSubscriber_init (sub_fails e i) (host_name e) (writer_profile e) (reader_profile e) (setup_of c)
     (new_app (default_writer e) (default_reader e))) [0..<nat (lo_subscribers c)]"

text \<open>\<^verbatim>\<open>pub_init && sub_init\<close>: every \<^verbatim>\<open>init\<close> is called, whatever the others return.\<close>

definition both_ready :: "latency_env \<Rightarrow> latency_config \<Rightarrow> bool" where
  "both_ready e c \<longleftrightarrow> fst (both_pub_init e c) \<and> list_all fst (both_sub_inits e c)"

definition both_start :: "latency_env \<Rightarrow> latency_config \<Rightarrow> lat_system" where
  "both_start e c = lat_start (payloads_of e c) (publisher_of e c) (replicate (nat (lo_subscribers c)) (subscriber_of c))"

text \<open>All threads have returned from \<^verbatim>\<open>run\<close>.\<close>

definition all_joined :: "lat_system \<Rightarrow> bool" where
  "all_joined = (\<lambda>(p, ss). lp_pc p \<in> {PDone, PFailed} \<and> list_all (\<lambda>s. ls_pc s = SDone) ss)"

fun each_result :: "('a \<Rightarrow> 'a result) \<Rightarrow> 'a list \<Rightarrow> 'a list result" where
  "each_result f [] = Inr []"
| "each_result f (x # xs) = rbind (f x) (\<lambda>y. rbind (each_result f xs) (\<lambda>ys. Inr (y # ys)))"

text \<open>The subscribers go before the publisher.\<close>

definition both_teardown :: "cpp_error option \<Rightarrow> latency_env \<Rightarrow> latency_config \<Rightarrow> perf_app list result" where
  "both_teardown nul e c = (let apps = map snd (both_sub_inits e c @ [both_pub_init e c])
     in if both_ready e c then rbind (each_result (destroy_user_entities nul) apps) (each_result (latency_dtor nul))
        else each_result (latency_dtor nul) apps)"

inductive latency_both :: "cpp_error option \<Rightarrow> latency_env \<Rightarrow> string list \<Rightarrow> program_end \<Rightarrow> bool" for nul e argv where
  options_crash: "latency_main argv = Inl err \<Longrightarrow> latency_both nul e argv (Crashes err)"
| options_end: "latency_main argv = Inr (Returns n) \<Longrightarrow> latency_both nul e argv (Exits n)"
| init_fails: "latency_main argv = Inr (Runs c) \<Longrightarrow> lo_agent c = AgentBoth \<Longrightarrow> \<not> lo_dynamic_types c \<Longrightarrow> \<not> both_ready e c \<Longrightarrow>
    latency_both nul e argv (exit_with 1 (both_teardown nul e c))"
| threads_join: "latency_main argv = Inr (Runs c) \<Longrightarrow> lo_agent c = AgentBoth \<Longrightarrow> \<not> lo_dynamic_types c \<Longrightarrow> both_ready e c \<Longrightarrow>
    (lat_step ^^ n) (both_start e c) z \<Longrightarrow> all_joined z \<Longrightarrow> latency_both nul e argv (exit_with 0 (both_teardown nul e c))"
| run_crashes: "latency_main argv = Inr (Runs c) \<Longrightarrow> lo_agent c = AgentBoth \<Longrightarrow> \<not> lo_dynamic_types c \<Longrightarrow> both_ready e c \<Longrightarrow>
    (lat_step ^^ n) (both_start e c) (p, ss) \<Longrightarrow> lp_pc p = PBroken \<Longrightarrow> finish_test (hd (lp_left p)) (lp p) = Inl err \<Longrightarrow>
    latency_both nul e argv (Crashes err)"

section \<open>Lemmas\<close>

lemma both_start_inv: "0 \<le> lo_subscribers c \<Longrightarrow> lat_inv (both_start e c)"
  unfolding both_start_def by (rule lat_start_inv) (simp_all add: publisher_of_def subscriber_of_def list_all_iff)

lemma both_run:
  assumes "0 \<le> lo_subscribers c" "(lat_step ^^ n) (both_start e c) z"
  shows "lat_inv z" "lat_stats (payloads_of e c) z"
proof -
  note i = both_start_inv[OF assms(1), of e]
  show "lat_inv z" using lat_run[OF assms(2) i] ..
  show "lat_stats (payloads_of e c) z" using lat_run_stats[OF assms(2) i] lat_start_stats by (simp add: both_start_def)
qed

lemma lat_step_length: "lat_step y z \<Longrightarrow> length (snd z) = length (snd y)"
  by (induction rule: lat_step.induct) (simp_all add: broadcast_def)

lemma lat_run_length: "(lat_step ^^ n) y z \<Longrightarrow> length (snd z) = length (snd y)"
  by (induction n arbitrary: z) (auto dest: lat_step_length)

lemma both_length: "(lat_step ^^ n) (both_start e c) (p, ss) \<Longrightarrow> length ss = nat (lo_subscribers c)"
  by (drule lat_run_length) (simp add: both_start_def lat_start_def)

lemma joined_complete:
  assumes "lat_inv (p, ss)" "lat_stats payloads (p, ss)" "all_joined (p, ss)" "ss \<noteq> []"
  shows "lp_pc p = PDone \<and> map bytes_sent (lp_stats p) = map ucast payloads"
proof -
  obtain s where s: "s \<in> set ss" using assms(4) by (cases ss) auto
  then have "ls_pc s = SDone" "in_phase p s" using assms(1,3) by (auto simp: all_joined_def list_all_iff lat_inv_def)
  then have "lp_pc p \<noteq> PFailed" using waiting_stop_pc[of "lp_left p" s] by (auto simp: in_phase_def set_up_def)
  then have d: "lp_pc p = PDone" using assms(3) by (simp add: all_joined_def)
  moreover have "lp_left p = []" using assms(1) d by (simp add: lat_inv_def)
  ultimately show ?thesis using assms(2) by (simp add: lat_stats_def)
qed


lemma both_joined:
  assumes "1 \<le> lo_subscribers c" "(lat_step ^^ n) (both_start e c) (p, ss)" "all_joined (p, ss)"
  shows "lp_pc p = PDone" "list_all (\<lambda>s. ls_pc s = SDone) ss" "map bytes_sent (lp_stats p) = map ucast (payloads_of e c)"
proof -
  have "ss \<noteq> []" using both_length[OF assms(2)] assms(1) by auto
  then show "lp_pc p = PDone" "map bytes_sent (lp_stats p) = map ucast (payloads_of e c)"
    using joined_complete[of p ss "payloads_of e c"] both_run[OF _ assms(2)] assms(1,3) by simp_all
  show "list_all (\<lambda>s. ls_pc s = SDone) ss" using assms(3) by (simp add: all_joined_def)
qed

text \<open>Teardown, one program at a time.\<close>

lemma each_result_bind:
  "(\<And>x. x \<in> set xs \<Longrightarrow> \<exists>y. rbind (f x) g = Inr y \<and> Q y) \<Longrightarrow> \<exists>ys. rbind (each_result f xs) (each_result g) = Inr ys \<and> list_all Q ys"
proof (induction xs)
  case (Cons x xs)
  from Cons.prems[of x] obtain y z where x: "f x = Inr z" "g z = Inr y" "Q y" by (cases "f x") auto
  from Cons obtain ys where "rbind (each_result f xs) (each_result g) = Inr ys" "list_all Q ys" by (meson list.set_intros(2))
  moreover from this(1) obtain zs where "each_result f xs = Inr zs" by (cases "each_result f xs") auto
  ultimately show ?case using x by simp
qed simp

lemma each_result_error:
  "each_result f xs = Inl err \<Longrightarrow> \<exists>x \<in> set xs. f x = Inl err"
proof (induction xs)
  case (Cons x xs)
  then show ?case by (cases "f x"; cases "each_result f xs") auto
qed simp

lemma each_result_ok: "each_result f xs = Inr ys \<Longrightarrow> x \<in> set xs \<Longrightarrow> \<exists>y. f x = Inr y"
proof (induction xs arbitrary: ys)
  case (Cons a xs)
  then show ?case by (cases "f a"; cases "each_result f xs") auto
qed simp

lemma both_inits_made: "r \<in> set (both_sub_inits e c @ [both_pub_init e c]) \<Longrightarrow> made (fst r) (snd r)"
  using init_made(3,4) unfolding both_sub_inits_def both_pub_init_def by (auto simp: after_init_def)

lemma made_ends:
  assumes "made True a"
  shows "\<exists>b. rbind (destroy_user_entities nul a) (latency_dtor nul) = Inr b \<and> clean b"
proof -
  have a: "subscriber a" "participant a \<noteq> None" using assms by (auto simp: made_def)
  from teardown_made[OF assms a(1), of nul] obtain b where b: "command_teardown nul a = Inr b" "no_children b"
    "participant b = participant a" "command_reader b = None" "command_writer b = None" by auto
  then show ?thesis using a(2)
    by (simp add: destroy_user_entities_def latency_dtor_def delete_participant_def via_def clean_def no_children_def)
qed

lemma both_teardown_ready:
  assumes "both_ready e c"
  shows "\<exists>es. both_teardown nul e c = Inr es \<and> list_all clean es"
proof -
  let ?rs = "both_sub_inits e c @ [both_pub_init e c]"
  have "\<exists>b. rbind (destroy_user_entities nul a) (latency_dtor nul) = Inr b \<and> clean b" if at: "a \<in> set (map snd ?rs)" for a
  proof -
    obtain r where r: "r \<in> set ?rs" "a = snd r" using at unfolding set_map by blast
    then have "fst r" using assms by (auto simp: both_ready_def list_all_iff)
    then show ?thesis using both_inits_made[OF r(1)] made_ends r(2) by simp
  qed
  from each_result_bind[OF this, of "map snd ?rs"] show ?thesis using assms unfolding both_teardown_def Let_def by simp
qed

lemma both_teardown_failed:
  assumes "\<not> both_ready e c"
  shows "case both_teardown nul e c of
      Inl err \<Rightarrow> err = NullDeref \<and> (\<exists>r \<in> set (both_sub_inits e c @ [both_pub_init e c]). participant (snd r) = None)
    | Inr es \<Rightarrow> (\<forall>r \<in> set (both_sub_inits e c @ [both_pub_init e c]). participant (snd r) \<noteq> None)"
proof -
  let ?rs = "both_sub_inits e c @ [both_pub_init e c]"
  have t: "both_teardown nul e c = each_result (latency_dtor nul) (map snd ?rs)" using assms by (simp add: both_teardown_def Let_def)
  have d: "latency_dtor nul a = (if participant a = None then Inl NullDeref else Inr (if no_children a then a\<lparr>participant := None\<rparr> else a))" for a
    by (simp add: latency_dtor_def delete_participant_def via_def)
  show ?thesis
  proof (cases "both_teardown nul e c")
    case (Inl err)
    from each_result_error[OF this[unfolded t]] obtain a where a: "a \<in> set (map snd ?rs)" "latency_dtor nul a = Inl err" by blast
    then obtain r where "r \<in> set ?rs" "a = snd r" unfolding set_map by blast
    then show ?thesis using a(2) Inl by (auto simp: d split: if_splits)
  next
    case (Inr es)
    have "participant (snd r) \<noteq> None" if "r \<in> set ?rs" for r
      using each_result_ok[OF Inr[unfolded t], of "snd r"] that d[of "snd r"] by (auto split: if_splits)
    then show ?thesis using Inr by simp
  qed
qed

section \<open>Properties of the program\<close>

definition measured_all :: "latency_env \<Rightarrow> latency_config \<Rightarrow> bool" where
  "measured_all e c \<longleftrightarrow> (\<exists>n p ss. (lat_step ^^ n) (both_start e c) (p, ss) \<and> lp_pc p = PDone \<and>
     list_all (\<lambda>s. ls_pc s = SDone) ss \<and> map bytes_sent (lp_stats p) = map ucast (payloads_of e c))"

definition too_few_echoes :: "latency_env \<Rightarrow> latency_config \<Rightarrow> bool" where
  "too_few_echoes e c \<longleftrightarrow> (\<exists>n p ss. (lat_step ^^ n) (both_start e c) (p, ss) \<and> lp_pc p = PBroken \<and> length (times (lp p)) \<le> 1)"


text \<open>C8: The exit code of the latency test with publisher and subscribers in one process tells the truth. For every command line that
  asks for at least one subscriber and static types: code 0 means that every \<^verbatim>\<open>init\<close> succeeded, all payloads of the file
  were measured in order with all threads finished, and every DDS entity was deleted; code 1 means that an \<^verbatim>\<open>init\<close> failed after its
  participant was made; and the program crashes only where a participant could not be created or fewer than two echoes
  of a payload came back. After a failed write it does not exit at all.\<close>

theorem latency_both_exact:
  assumes "ints_ok [lo_subscribers c, lo_samples c, lo_forced_domain c]" "lo_agent c = AgentBoth" "\<not> lo_dynamic_types c"
    "1 \<le> lo_subscribers c"
    and "latency_both nul e (prog # agent_word (lo_agent c) # write_line latency_usage sp (latency_settings c)) r"
  shows "case r of
      Exits k \<Rightarrow> (if both_ready e c then k = 0 \<and> measured_all e c \<and> (\<exists>es. both_teardown nul e c = Inr es \<and> list_all clean es)
        else k = 1 \<and> list_all (\<lambda>r. participant (snd r) \<noteq> None) (both_sub_inits e c @ [both_pub_init e c]))
    | Crashes err \<Rightarrow> (if both_ready e c then too_few_echoes e c
        else err = NullDeref \<and> list_ex (\<lambda>r. participant (snd r) = None) (both_sub_inits e c @ [both_pub_init e c]))"
proof -
  have m: "latency_main (prog # agent_word (lo_agent c) # write_line latency_usage sp (latency_settings c)) = Inr (Runs c)"
    using latency_options_read[OF assms(1), of prog sp] assms(3) by (simp add: latency_conflict_def)
  show ?thesis using assms(5)
  proof (cases rule: latency_both.cases)
    case (init_fails c1)
    then have "r = exit_with 1 (both_teardown nul e c)" "\<not> both_ready e c" using m by simp_all
    then show ?thesis using both_teardown_failed[of e c nul]
      by (auto simp: exit_with_def list_all_iff list_ex_iff split: sum.splits)
  next
    case (threads_join c1 n z)
    obtain p ss where z: "z = (p, ss)" by fastforce
    from threads_join m z have j: "(lat_step ^^ n) (both_start e c) (p, ss)" "all_joined (p, ss)" "both_ready e c"
      "r = exit_with 0 (both_teardown nul e c)" by simp_all
    have "measured_all e c" unfolding measured_all_def using both_joined[OF assms(4) j(1,2)] j(1) by blast
    then show ?thesis using both_teardown_ready[OF j(3), of nul] j(3,4) by (auto simp: exit_with_def)
  next
    case (run_crashes c1 n p ss err)
    then have "(lat_step ^^ n) (both_start e c) (p, ss)" "both_ready e c" using m by simp_all
    moreover have "length (times (lp p)) \<le> 1" using finish_test_fails run_crashes by blast
    ultimately have "too_few_echoes e c" unfolding too_few_echoes_def using run_crashes by blast
    then show ?thesis using run_crashes \<open>both_ready e c\<close> by simp
  qed (use m in simp_all)
qed

text \<open>A complete run of one subscriber and one payload, with two echoes.\<close>

definition run_config :: latency_config where
  "run_config = (latency_default AgentBoth)\<lparr>lo_samples := 2, lo_demands_file := ''d''\<rparr>"

definition any_qos :: data_qos where
  "any_qos = \<lparr>q_reliable = False, q_short_times = False, q_sharing = NO_SET, q_realloc = False, q_extra_samples = None\<rparr>"

definition run_env :: latency_env where
  "run_env = \<lparr>file_of = (\<lambda>_. Some ''16;''), neg_of = (\<lambda>_. (0, False)), junk_of = (\<lambda>_ _. 0), pub_fails = (\<lambda>_. False),
     sub_fails = (\<lambda>_ _. False), host_name = ''h'', writer_profile = any_qos, reader_profile = any_qos,
     default_writer = any_qos, default_reader = any_qos, clock_overhead = 0\<rparr>"

definition echo_rounds :: "round list" where
  "echo_rounds = [Sent 1000 [(Some \<lparr>seqnum = 1, bounce = 0, body = []\<rparr>, 5000)],
     Sent 6000 [(Some \<lparr>seqnum = 2, bounce = 0, body = []\<rparr>, 9000)], Sent 9000 []]"

definition run_lp :: "int \<Rightarrow> LatencyTestPublisher" where
  "run_lp n = (publisher_of run_env run_config)\<lparr>command_msg_count := n\<rparr>"

definition done_lp :: "int \<Rightarrow> LatencyTestPublisher" where
  "done_lp n = (run_lp n)\<lparr>out_seqnum := 3, start_time := 9000, times := [2, 3 / 2], received_count := 2\<rparr>"

definition run_pub :: "LatencyTestPublisher \<Rightarrow> pub_pc \<Rightarrow> bool \<Rightarrow> lat_pub" where
  "run_pub l c d = \<lparr>lp = l, lp_pc = c, lp_left = [16], lp_data = d, lp_stats = []\<rparr>"

definition end_pub :: "pub_pc \<Rightarrow> lat_pub" where
  "end_pub c = \<lparr>lp = done_lp 0, lp_pc = c, lp_left = [], lp_data = False, lp_stats = [projr (finish_test 16 (done_lp 0))]\<rparr>"

definition run_sub :: "sub_pc \<Rightarrow> 32 word list \<Rightarrow> bool \<Rightarrow> int \<Rightarrow> TESTCOMMAND list \<Rightarrow> TESTCOMMAND list \<Rightarrow> lat_sub" where
  "run_sub c l d n i out = \<lparr>ls = (subscriber_of run_config)\<lparr>sub_command_count := n\<rparr>, ls_pc = c, ls_left = l, ls_data = d, inbox = i, outbox = out\<rparr>"

lemmas run_defs = run_pub_def run_sub_def run_lp_def publisher_of_def subscriber_of_def run_config_def run_env_def latency_default_def

lemma run_prefix_steps:
  "lat_step (run_pub (run_lp 0) PTest False, [run_sub SDiscovery [16] False 0 [] []]) (run_pub (run_lp 0) PTest False, [run_sub STest [16] False 0 [] []])"
  "lat_step (run_pub (run_lp 0) PTest False, [run_sub STest [16] False 0 [] []]) (run_pub (run_lp 0) PDiscovery True, [run_sub STest [16] False 0 [READY] []])"
  "lat_step (run_pub (run_lp 0) PDiscovery True, [run_sub STest [16] False 0 [READY] []]) (run_pub (run_lp 0) PDiscovery True, [run_sub STest [16] False 1 [] []])"
  "lat_step (run_pub (run_lp 0) PDiscovery True, [run_sub STest [16] False 1 [] []]) (run_pub (run_lp 0) PDiscovery True, [run_sub SMatch [16] True 0 [] []])"
  "lat_step (run_pub (run_lp 0) PDiscovery True, [run_sub SMatch [16] True 0 [] []]) (run_pub (run_lp 0) PBegin True, [run_sub SMatch [16] True 0 [] []])"
  "lat_step (run_pub (run_lp 0) PBegin True, [run_sub SMatch [16] True 0 [] []]) (run_pub (run_lp 0) PBegin True, [run_sub SStop [16] True 0 [] [BEGIN]])"
  "lat_step (run_pub (run_lp 0) PBegin True, [run_sub SStop [16] True 0 [] [BEGIN]]) (run_pub (run_lp 1) PBegin True, [run_sub SStop [16] True 0 [] []])"
  "lat_step (run_pub (run_lp 1) PBegin True, [run_sub SStop [16] True 0 [] []]) (run_pub (run_lp 0) PMeasure True, [run_sub SStop [16] True 0 [] []])"
  using sub_found[of 0 "[run_sub SDiscovery [16] False 0 [] []]" "run_sub STest [16] False 0 [] []" "run_pub (run_lp 0) PTest False"]
    ready[of "run_pub (run_lp 0) PTest False" "run_pub (run_lp 0) PDiscovery True" "[READY]" "[run_sub STest [16] False 0 [] []]"]
    sub_hears[of 0 "[run_sub STest [16] False 0 [READY] []]" READY "[]" "run_pub (run_lp 0) PDiscovery True"]
    sub_starts[of 0 "[run_sub STest [16] False 1 [] []]" "run_sub SMatch [16] True 0 [] []" "run_pub (run_lp 0) PDiscovery True"]
    discovered[of "[run_sub SMatch [16] True 0 [] []]" "run_pub (run_lp 0) PDiscovery True" "run_pub (run_lp 0) PBegin True"]
    sub_matches[of 0 "[run_sub SMatch [16] True 0 [] []]" "run_pub (run_lp 0) PBegin True" "run_sub SStop [16] True 0 [] [BEGIN]"]
    pub_hears[of 0 "[run_sub SStop [16] True 0 [] [BEGIN]]" BEGIN "[]" "run_pub (run_lp 0) PBegin True"]
    begun[of "run_pub (run_lp 1) PBegin True" "run_pub (run_lp 0) PMeasure True" "[run_sub SStop [16] True 0 [] []]"]
  by (simp_all add: run_defs sub_discovered_def pub_ready_def broadcast_def
      sub_command_on_data_available_def sub_ready_def clear_sub_def pub_discovered_def sub_matched_def command_on_data_available_def
      pub_begun_def commands_over_def clear_commands_def)

lemma run_measures: "measure_loop 1 echo_rounds (run_lp 0) = (True, done_lp 0)"
  by (simp add: echo_rounds_def echoes_in_def publish_def on_data_available_def roundtrip_def done_lp_def run_defs Let_def)

lemma run_finish: "\<exists>t. finish_test 16 (done_lp 0) = Inr t"
  by (simp add: finish_test_def analyze_times_def done_lp_def Let_def)

lemma run_suffix_steps:
  "lat_step (run_pub (run_lp 0) PMeasure True, [run_sub SStop [16] True 0 [] []]) (run_pub (done_lp 0) PEnd True, [run_sub SStop [16] True 0 [STOP] []])"
  "lat_step (run_pub (done_lp 0) PEnd True, [run_sub SStop [16] True 0 [STOP] []]) (run_pub (done_lp 0) PEnd True, [run_sub SStop [16] True 1 [] []])"
  "lat_step (run_pub (done_lp 0) PEnd True, [run_sub SStop [16] True 1 [] []]) (run_pub (done_lp 0) PEnd True, [run_sub SAck [16] False 0 [] [END]])"
  "lat_step (run_pub (done_lp 0) PEnd True, [run_sub SAck [16] False 0 [] [END]]) (run_pub (done_lp 1) PEnd True, [run_sub SAck [16] False 0 [] []])"
  "lat_step (run_pub (done_lp 1) PEnd True, [run_sub SAck [16] False 0 [] []]) (end_pub PTest, [run_sub SAck [16] False 0 [] []])"
  "lat_step (end_pub PTest, [run_sub SAck [16] False 0 [] []]) (end_pub PTest, [run_sub STest [] False 0 [] []])"
  "lat_step (end_pub PTest, [run_sub STest [] False 0 [] []]) (end_pub PDone, [run_sub STest [] False 0 [] []])"
  "lat_step (end_pub PDone, [run_sub STest [] False 0 [] []]) (end_pub PDone, [run_sub SDone [] False 0 [] []])"
proof -
  show "lat_step (run_pub (run_lp 0) PMeasure True, [run_sub SStop [16] True 0 [] []]) (run_pub (done_lp 0) PEnd True, [run_sub SStop [16] True 0 [STOP] []])"
    using measured[of echo_rounds "run_pub (run_lp 0) PMeasure True" "run_pub (done_lp 0) PEnd True" "[STOP]" "[run_sub SStop [16] True 0 [] []]"]
      run_measures by (simp add: pub_measured_def run_pub_def broadcast_def run_sub_def) (simp add: echo_rounds_def run_lp_def publisher_of_def run_config_def)
  show "lat_step (run_pub (done_lp 0) PEnd True, [run_sub SStop [16] True 0 [STOP] []]) (run_pub (done_lp 0) PEnd True, [run_sub SStop [16] True 1 [] []])"
    using sub_hears[of 0 "[run_sub SStop [16] True 0 [STOP] []]" STOP "[]" "run_pub (done_lp 0) PEnd True"]
    by (simp add: run_sub_def subscriber_of_def sub_command_on_data_available_def)
  show "lat_step (run_pub (done_lp 0) PEnd True, [run_sub SStop [16] True 1 [] []]) (run_pub (done_lp 0) PEnd True, [run_sub SAck [16] False 0 [] [END]])"
    using sub_stops[of 0 "[run_sub SStop [16] True 1 [] []]" "run_sub SAck [16] False 0 [] [END]" "run_pub (done_lp 0) PEnd True"]
    by (simp add: run_sub_def subscriber_of_def sub_stopped_def clear_sub_def)
  show "lat_step (run_pub (done_lp 0) PEnd True, [run_sub SAck [16] False 0 [] [END]]) (run_pub (done_lp 1) PEnd True, [run_sub SAck [16] False 0 [] []])"
    using pub_hears[of 0 "[run_sub SAck [16] False 0 [] [END]]" END "[]" "run_pub (done_lp 0) PEnd True"]
    by (simp add: run_sub_def run_pub_def command_on_data_available_def done_lp_def run_lp_def publisher_of_def)
  show "lat_step (run_pub (done_lp 1) PEnd True, [run_sub SAck [16] False 0 [] []]) (end_pub PTest, [run_sub SAck [16] False 0 [] []])"
  proof (rule ended)
    obtain t where "finish_test 16 (done_lp 0) = Inr t" using run_finish by blast
    moreover have "(done_lp 1)\<lparr>command_msg_count := 0\<rparr> = done_lp 0" "subscribers (done_lp 1) = 1" "command_msg_count (done_lp 1) = 1"
      by (simp_all add: done_lp_def run_defs)
    ultimately show "pub_ended (run_pub (done_lp 1) PEnd True) = Some (end_pub PTest)"
      by (simp add: pub_ended_def commands_over_def clear_commands_def run_pub_def end_pub_def)
  qed
  show "lat_step (end_pub PTest, [run_sub SAck [16] False 0 [] []]) (end_pub PTest, [run_sub STest [] False 0 [] []])"
    using sub_acks[of 0 "[run_sub SAck [16] False 0 [] []]" "run_sub STest [] False 0 [] []" "end_pub PTest"]
    by (simp add: run_sub_def sub_acked_def)
  show "lat_step (end_pub PTest, [run_sub STest [] False 0 [] []]) (end_pub PDone, [run_sub STest [] False 0 [] []])"
    using ready[of "end_pub PTest" "end_pub PDone" "[]" "[run_sub STest [] False 0 [] []]"]
    by (simp add: end_pub_def pub_ready_def broadcast_def)
  show "lat_step (end_pub PDone, [run_sub STest [] False 0 [] []]) (end_pub PDone, [run_sub SDone [] False 0 [] []])"
    using sub_starts[of 0 "[run_sub STest [] False 0 [] []]" "run_sub SDone [] False 0 [] []" "end_pub PDone"]
    by (simp add: run_sub_def sub_ready_def)
qed

lemma run_payloads: "payloads_of run_env run_config = [16]"
proof -
  let ?each = "payload_field (\<lambda>_. (0, False)) (\<lambda>_. 0)"
  have x: "extract_u32 (\<lambda>_. (0, False)) ''16'' old = (16, True)" "extract_u32 (\<lambda>_. (0, False)) [] old = (old, False)" for old
    by (simp_all add: extract_u32_def read_sign_def is_space_def is_digit_def digit_value_def Let_def)
  have "?each st ''16'' s = Inr (16, snd s @ [16])" for st s by (cases s) (simp add: payload_field_def x)
  then have "walk_line ?each (payload_last (\<lambda>_. (0, False))) ''16;'' (0, []) = Inr (16, [16])"
    using walk_line_fields[of "''16''" "[]" "[]" ?each "?each 0"] by (simp add: payload_last_def x)
  then show ?thesis by (simp add: payloads_of_def run_config_def run_env_def load_payloads_def)
qed

lemma run_starts: "both_start run_env run_config = (run_pub (run_lp 0) PTest False, [run_sub SDiscovery [16] False 0 [] []])"
  by (simp add: both_start_def run_payloads lat_start_def) (simp add: run_defs)

lemma run_complete: "(lat_step ^^ 16) (both_start run_env run_config) (end_pub PDone, [run_sub SDone [] False 0 [] []])"
  unfolding run_starts
  using relpowp_Suc_I2[OF run_prefix_steps(1) relpowp_Suc_I2[OF run_prefix_steps(2) relpowp_Suc_I2[OF run_prefix_steps(3)
    relpowp_Suc_I2[OF run_prefix_steps(4) relpowp_Suc_I2[OF run_prefix_steps(5) relpowp_Suc_I2[OF run_prefix_steps(6)
    relpowp_Suc_I2[OF run_prefix_steps(7) relpowp_Suc_I2[OF run_prefix_steps(8) relpowp_Suc_I2[OF run_suffix_steps(1)
    relpowp_Suc_I2[OF run_suffix_steps(2) relpowp_Suc_I2[OF run_suffix_steps(3) relpowp_Suc_I2[OF run_suffix_steps(4)
    relpowp_Suc_I2[OF run_suffix_steps(5) relpowp_Suc_I2[OF run_suffix_steps(6) relpowp_Suc_I2[OF run_suffix_steps(7)
    relpowp_Suc_I2[OF run_suffix_steps(8) relpowp_0_I[of lat_step]]]]]]]]]]]]]]]]]
  by (simp add: eval_nat_numeral del: relpowp.simps)

lemma run_ready: "both_ready run_env run_config"
  by (simp add: both_ready_def both_pub_init_def both_sub_inits_def LatencyTestPublisher_init_def LatencyTestSubscriber_init_def
      run_env_def common_steps_def Perf_Setup.make_def need_profile_def latency_qos_step_def setup_of_def run_config_def latency_default_def)

lemma run_ints: "ints_ok [lo_subscribers run_config, lo_samples run_config, lo_forced_domain run_config]"
  by (simp add: run_config_def latency_default_def ints_ok_def in_int_numerals)

lemma run_line: "latency_main (''p'' # agent_word AgentBoth # write_line latency_usage (\<lambda>_. ShortJoined) (latency_settings run_config)) = Inr (Runs run_config)"
  using latency_options_read[OF run_ints, of "''p''" "\<lambda>_. ShortJoined"] by (simp add: run_config_def latency_default_def latency_conflict_def)

theorem latency_both_exact_witness:
  "latency_both None run_env (''p'' # agent_word AgentBoth # write_line latency_usage (\<lambda>_. ShortJoined) (latency_settings run_config)) (Exits 0) \<and>
   both_ready run_env run_config \<and> measured_all run_env run_config \<and> payloads_of run_env run_config = [16]"
proof -
  let ?line = "''p'' # agent_word AgentBoth # write_line latency_usage (\<lambda>_. ShortJoined) (latency_settings run_config)"
  have a: "lo_agent run_config = AgentBoth" "\<not> lo_dynamic_types run_config" "1 \<le> lo_subscribers run_config"
    by (simp_all add: run_config_def latency_default_def)
  have "all_joined (end_pub PDone, [run_sub SDone [] False 0 [] []])" by (simp add: all_joined_def end_pub_def run_sub_def)
  then have "latency_both None run_env ?line (exit_with 0 (both_teardown None run_env run_config))"
    using threads_join[OF run_line a(1,2) run_ready run_complete] by simp
  moreover obtain es where "both_teardown None run_env run_config = Inr es" using both_teardown_ready[OF run_ready] by blast
  ultimately have r: "latency_both None run_env ?line (Exits 0)" by (simp add: exit_with_def)
  then show ?thesis using latency_both_exact[OF run_ints a, of None run_env "''p''" "\<lambda>_. ShortJoined" "Exits 0"] run_ready run_payloads a(1)
    by simp
qed

text \<open>With no subscribers the first write that fails is reported as success: the exit code does not depend on what \<^verbatim>\<open>run\<close> did.\<close>

lemma no_subscribers_exit_zero:
  assumes "argv = prog # agent_word AgentBoth # write_line latency_usage sp (latency_settings (run_config\<lparr>lo_subscribers := 0\<rparr>))"
  shows "latency_both None run_env argv (Exits 0) \<and>
    (\<exists>n p. (lat_step ^^ n) (both_start run_env (run_config\<lparr>lo_subscribers := 0\<rparr>)) (p, []) \<and> lp_pc p = PFailed \<and> lp_stats p = [])"
proof -
  let ?c = "run_config\<lparr>lo_subscribers := 0\<rparr>"
  let ?l = "(run_lp 0)\<lparr>subscribers := 0\<rparr>"
  have "ints_ok [lo_subscribers ?c, lo_samples ?c, lo_forced_domain ?c]" using run_ints by (simp add: ints_ok_def in_int_numerals)
  from latency_options_read[OF this, of prog sp] have m: "latency_main argv = Inr (Runs ?c)"
    unfolding assms by (simp add: run_config_def latency_default_def latency_conflict_def)
  have p: "payloads_of run_env ?c = [16]" using run_payloads by (simp add: payloads_of_def split: if_splits)
  have st: "both_start run_env ?c = (run_pub ?l PTest False, [])"
    by (simp add: both_start_def p lat_start_def) (simp add: run_defs)
  have s: "lat_step (run_pub ?l PTest False, []) (run_pub ?l PDiscovery True, [])"
    using ready[of "run_pub ?l PTest False" "run_pub ?l PDiscovery True" "[READY]" "[]"] by (simp add: pub_ready_def run_defs broadcast_def)
  have d: "lat_step (run_pub ?l PDiscovery True, []) (run_pub ?l PBegin True, [])"
    using discovered[of "[]" "run_pub ?l PDiscovery True" "run_pub ?l PBegin True"] by (simp add: pub_discovered_def run_defs)
  have b: "lat_step (run_pub ?l PBegin True, []) (run_pub ?l PMeasure True, [])"
    using begun[of "run_pub ?l PBegin True" "run_pub ?l PMeasure True" "[]"] by (simp add: pub_begun_def commands_over_def clear_commands_def run_defs)
  have f: "lat_step (run_pub ?l PMeasure True, []) (run_pub (publish 1 0 ?l) PFailed True, [])"
    using measured[of "[WriteFails 0, NoLoan, NoLoan]" "run_pub ?l PMeasure True" "run_pub (publish 1 0 ?l) PFailed True" "[]" "[]"]
    by (simp add: pub_measured_def broadcast_def run_defs)
  have r: "(lat_step ^^ 4) (both_start run_env ?c) (run_pub (publish 1 0 ?l) PFailed True, [])" unfolding st
    using relpowp_Suc_I2[OF s relpowp_Suc_I2[OF d relpowp_Suc_I2[OF b relpowp_Suc_I2[OF f relpowp_0_I[of lat_step]]]]]
    by (simp add: eval_nat_numeral del: relpowp.simps)
  have y: "both_ready run_env ?c" using run_ready by (simp add: both_ready_def both_pub_init_def both_sub_inits_def setup_of_def)
  have "latency_both None run_env argv (exit_with 0 (both_teardown None run_env ?c))"
    by (rule threads_join[OF m _ _ y r]) (simp_all add: run_config_def latency_default_def all_joined_def run_pub_def)
  moreover obtain es where "both_teardown None run_env ?c = Inr es" using both_teardown_ready[OF y] by blast
  ultimately have "latency_both None run_env argv (Exits 0)" by (simp add: exit_with_def)
  moreover have "lp_pc (run_pub (publish 1 0 ?l) PFailed True) = PFailed" "lp_stats (run_pub (publish 1 0 ?l) PFailed True) = []"
    by (simp_all add: run_pub_def)
  ultimately show ?thesis using r by blast
qed

end
