(* ===== verification/Throughput_Main.thy ===== *)
theory Throughput_Main
  imports Perf_Options Perf_Files
begin

text \<open>
  \<^verbatim>\<open>main\<close> of the throughput test from the command line to the exit code, for publisher and one subscriber in one process
  with static types: the options of \<open>Perf_Options\<close>, \<^verbatim>\<open>init\<close> and the destructors of \<open>Perf_Setup\<close>, the files of \<open>Perf_Files\<close> and
  the two threads of \<open>Throughput_System\<close> up to their joins.
\<close>

record throughput_env =
  tfile_of :: "string \<Rightarrow> string option"
  tneg_of :: "nat \<Rightarrow> 32 word \<times> bool"
  tjunk_of :: "nat \<Rightarrow> 32 word"
  tjunk_input :: int
  tjunk_recovery :: "32 word"
  tpub_fails :: "Perf_Setup.dds_call \<Rightarrow> bool"
  tsub_fails :: "Perf_Setup.dds_call \<Rightarrow> bool"
  thost_name :: string
  twriter_profile :: data_qos
  treader_profile :: data_qos
  tdefault_qos :: "data_qos \<times> data_qos"
  twriter_history :: endpoint_qos
  treader_history :: endpoint_qos
  tjunk_enable :: bool
  tjunk_saved :: "32 word \<times> 32 word \<times> 64 word"

section \<open>The program\<close>

definition tsetup_of :: "throughput_config \<Rightarrow> setup_options" where
  "tsetup_of c = \<lparr>opt_reliable = to_reliable c, opt_pid = to_seed c, opt_hostname = to_hostname c, opt_xml = (to_xml_config_file c \<noteq> []),
     opt_data_sharing = to_data_sharing c, opt_data_loans = to_data_loans c, opt_shared_memory = to_shared_memory c,
     opt_forced_domain = to_forced_domain c\<rparr>"

definition tpub_init :: "throughput_env \<Rightarrow> throughput_config \<Rightarrow> bool \<times> perf_app" where
  "tpub_init e c = ThroughputPublisher_init (tpub_fails e) (thost_name e) (twriter_profile e) (tsetup_of c)
     (new_app (fst (tdefault_qos e)) (snd (tdefault_qos e)))"

definition tsub_init :: "throughput_env \<Rightarrow> throughput_config \<Rightarrow> bool \<times> perf_app" where
  "tsub_init e c = ThroughputSubscriber_init (tsub_fails e) (thost_name e) (treader_profile e) (tsetup_of c)
     (new_app (fst (tdefault_qos e)) (snd (tdefault_qos e)))"

text \<open>What \<^verbatim>\<open>run\<close> reads before it waits.\<close>

definition trun_setup :: "throughput_env \<Rightarrow> throughput_config \<Rightarrow> (32 word \<times> demand_map \<times> 32 word list) option" where
  "trun_setup e c = run_setup (tneg_of e) (tjunk_of e) (tjunk_input e) (tjunk_recovery e) (tfile_of e (to_file_name c))
     (if to_recoveries_file c = [] then None else Some (tfile_of e (to_recoveries_file c)))
     (to_recovery_time_ms c) (to_demand c) (to_msg_size c)"

text \<open>The two threads at their first waits; a publisher that cannot read its files has returned.\<close>

definition tstart :: "throughput_env \<Rightarrow> throughput_config \<Rightarrow> system" where
  "tstart e c = (let start = start_system (to_data_loans c) (twriter_history e) (to_data_loans c) (treader_history e)
       (tjunk_enable e) (tjunk_saved e)
     in case trun_setup e c of
       None \<Rightarrow> (start [] [])\<lparr>P := (P (start [] []))\<lparr>pc := Returned\<rparr>\<rparr>
     | Some (_, szs, rs) \<Rightarrow> start szs rs)"

definition ttime :: "throughput_config \<Rightarrow> int" where
  "ttime c = uint (to_test_time_sec c) * 1000000000"

text \<open>A destructor gives up at once when its program has data endpoints left.\<close>

definition tpub_dtor :: "cpp_error option \<Rightarrow> ThroughputPublisher \<Rightarrow> perf_app \<Rightarrow> perf_app result" where
  "tpub_dtor nul p a = (if throughput_data_type p \<noteq> None \<or> Throughput_Publisher.data_pub_topic p \<or> Throughput_Publisher.data_writer p \<noteq> None
     then Inr a else ThroughputPublisher_dtor nul a)"

definition tsub_dtor :: "cpp_error option \<Rightarrow> ThroughputSubscriber \<Rightarrow> perf_app \<Rightarrow> perf_app result" where
  "tsub_dtor nul s a = (if sub_data_type s \<noteq> None \<or> Throughput_Subscriber.data_sub_topic s \<or> Throughput_Subscriber.data_reader s \<noteq> None
     then Inr a else ThroughputSubscriber_dtor nul a)"

definition tteardown :: "cpp_error option \<Rightarrow> system \<Rightarrow> throughput_env \<Rightarrow> throughput_config \<Rightarrow> (perf_app \<times> perf_app) result" where
  "tteardown nul y e c = rbind (tsub_dtor nul (S y) (snd (tsub_init e c))) (\<lambda>a.
     rbind (tpub_dtor nul (P y) (snd (tpub_init e c))) (\<lambda>b. Inr (a, b)))"

inductive throughput_both :: "cpp_error option \<Rightarrow> throughput_env \<Rightarrow> string list \<Rightarrow> program_end \<Rightarrow> bool" for nul e argv where
  options_crash: "throughput_main argv = Inl err \<Longrightarrow> throughput_both nul e argv (Crashes err)"
| options_end: "throughput_main argv = Inr (Returns n) \<Longrightarrow> throughput_both nul e argv (Exits n)"
| pub_init_fails: "throughput_main argv = Inr (Runs c) \<Longrightarrow> to_agent c = AgentBoth \<Longrightarrow> \<not> to_dynamic_types c \<Longrightarrow>
    \<not> fst (tpub_init e c) \<Longrightarrow> throughput_both nul e argv (exit_with 1 (ThroughputPublisher_dtor nul (snd (tpub_init e c))))"
| sub_init_fails: "throughput_main argv = Inr (Runs c) \<Longrightarrow> to_agent c = AgentBoth \<Longrightarrow> \<not> to_dynamic_types c \<Longrightarrow> to_subscribers c = 1 \<Longrightarrow>
    fst (tpub_init e c) \<Longrightarrow> \<not> fst (tsub_init e c) \<Longrightarrow> throughput_both nul e argv (exit_with 1 (tteardown nul (tstart e c) e c))"
| threads_join: "throughput_main argv = Inr (Runs c) \<Longrightarrow> to_agent c = AgentBoth \<Longrightarrow> \<not> to_dynamic_types c \<Longrightarrow> to_subscribers c = 1 \<Longrightarrow>
    fst (tpub_init e c) \<Longrightarrow> fst (tsub_init e c) \<Longrightarrow> (sys_step (ttime c))\<^sup>*\<^sup>* (tstart e c) y \<Longrightarrow> pc (P y) = Returned \<Longrightarrow> spc (S y) = SubReturned \<Longrightarrow>
    throughput_both nul e argv (exit_with 0 (tteardown nul y e c))"
| run_aborts: "throughput_main argv = Inr (Runs c) \<Longrightarrow> to_agent c = AgentBoth \<Longrightarrow> \<not> to_dynamic_types c \<Longrightarrow> to_subscribers c = 1 \<Longrightarrow>
    fst (tpub_init e c) \<Longrightarrow> fst (tsub_init e c) \<Longrightarrow> (sys_step (ttime c))\<^sup>*\<^sup>* (tstart e c) y \<Longrightarrow> pc (P y) = Aborted \<Longrightarrow>
    throughput_both nul e argv (Crashes StdTerminate)"

section \<open>Lemmas\<close>

lemma tinit_made: "after_init (tpub_fails e) (tsetup_of c) (tpub_init e c)" "after_init (tsub_fails e) (tsetup_of c) (tsub_init e c)"
  unfolding tpub_init_def tsub_init_def by (rule init_made)+

text \<open>How the destructor after an \<^verbatim>\<open>init\<close> crashes: through a null pointer of its own when the \<^verbatim>\<open>init\<close> failed early, and with what
  DDS does with a null argument when it failed later.\<close>

definition init_crashes :: "cpp_error option \<Rightarrow> cpp_error \<Rightarrow> (Perf_Setup.dds_call \<Rightarrow> bool) \<Rightarrow> setup_options \<Rightarrow> bool \<Rightarrow> bool" where
  "init_crashes nul err fails o1 ok \<longleftrightarrow> early fails o1 \<and> err = NullDeref \<or> \<not> early fails o1 \<and> \<not> ok \<and> nul = Some err"

lemma tdtor_cases:
  "case ThroughputPublisher_dtor nul (snd (tpub_init e c)) of
     Inl err \<Rightarrow> init_crashes nul err (tpub_fails e) (tsetup_of c) (fst (tpub_init e c))
   | Inr a \<Rightarrow> \<not> early (tpub_fails e) (tsetup_of c) \<and> (fst (tpub_init e c) \<or> nul = None) \<and> clean a"
  "case ThroughputSubscriber_dtor nul (snd (tsub_init e c)) of
     Inl err \<Rightarrow> init_crashes nul err (tsub_fails e) (tsetup_of c) (fst (tsub_init e c))
   | Inr a \<Rightarrow> \<not> early (tsub_fails e) (tsetup_of c) \<and> (fst (tsub_init e c) \<or> nul = None) \<and> clean a"
  unfolding init_crashes_def ThroughputPublisher_dtor_def ThroughputSubscriber_dtor_def
  using throughput_dtor_made[OF tinit_made(1)[of e c], of perf_app.data_writer perf_app.data_pub_topic nul]
    throughput_dtor_made[OF tinit_made(2)[of e c], of perf_app.data_reader perf_app.data_sub_topic nul]
  by (simp_all add: made_def)

lemma tinit_not_early: "fst (tpub_init e c) \<Longrightarrow> \<not> early (tpub_fails e) (tsetup_of c)" "fst (tsub_init e c) \<Longrightarrow> \<not> early (tsub_fails e) (tsetup_of c)"
  using tinit_made[of e c] by (auto simp: after_init_def made_def)

lemma bare_dtor: "bare_pub p \<Longrightarrow> tpub_dtor nul p a = ThroughputPublisher_dtor nul a" "bare_sub s \<Longrightarrow> tsub_dtor nul s a = ThroughputSubscriber_dtor nul a"
  by (simp_all add: tpub_dtor_def tsub_dtor_def bare_pub_def bare_sub_def)

lemma tstart_bare: "bare_pub (P (tstart e c))" "bare_sub (S (tstart e c))"
  by (auto simp: tstart_def Let_def start_system_def new_publisher_def new_subscriber_def bare_pub_def bare_sub_def split: option.splits)

lemma tstart_fits: "fits (tstart e c)"
  by (simp add: tstart_def Let_def start_system_def fits_def split: option.split)

text \<open>Both programs clean up when their data endpoints are gone.\<close>

lemma tteardown_ready:
  assumes "fst (tpub_init e c)" "fst (tsub_init e c)" "bare_pub (P y)" "bare_sub (S y)"
  shows "\<exists>a b. tteardown nul y e c = Inr (a, b) \<and> clean a \<and> clean b"
proof -
  obtain b where "ThroughputPublisher_dtor nul (snd (tpub_init e c)) = Inr b" "clean b"
    using tdtor_cases(1)[of nul e c] tinit_not_early(1) assms(1) by (auto simp: init_crashes_def split: sum.splits)
  moreover obtain a where "ThroughputSubscriber_dtor nul (snd (tsub_init e c)) = Inr a" "clean a"
    using tdtor_cases(2)[of nul e c] tinit_not_early(2) assms(2) by (auto simp: init_crashes_def split: sum.splits)
  ultimately show ?thesis using assms(3,4) by (simp add: tteardown_def bare_dtor)
qed

lemma tteardown_sub_failed:
  assumes "fst (tpub_init e c)" "\<not> fst (tsub_init e c)"
  shows "case tteardown nul (tstart e c) e c of Inl err \<Rightarrow> init_crashes nul err (tsub_fails e) (tsetup_of c) False
    | Inr (a, b) \<Rightarrow> \<not> early (tsub_fails e) (tsetup_of c) \<and> nul = None \<and> clean a \<and> clean b"
proof -
  obtain b where "ThroughputPublisher_dtor nul (snd (tpub_init e c)) = Inr b" "clean b"
    using tdtor_cases(1)[of nul e c] tinit_not_early(1) assms(1) by (auto simp: init_crashes_def split: sum.splits)
  then show ?thesis using tdtor_cases(2)[of nul e c] assms(2)
    by (auto simp: tteardown_def bare_dtor tstart_bare split: sum.splits)
qed

text \<open>A complete run of the two threads.\<close>

lemma tstart_some: "trun_setup e c = Some (p, szs, rs) \<Longrightarrow> tstart e c = start_system (to_data_loans c) (twriter_history e) (to_data_loans c)
    (treader_history e) (tjunk_enable e) (tjunk_saved e) szs rs"
  by (simp add: tstart_def Let_def)

lemma trun_inv:
  assumes "trun_setup e c = Some (p, szs, rs)" "sizes_ok szs" "rs \<noteq> []" "(sys_step T)\<^sup>*\<^sup>* (tstart e c) y"
  shows "inv (all_tests szs rs) y"
  using inv_steps[OF assms(4)[unfolded tstart_some[OF assms(1)]] inv_start[OF assms(2,3)]] .

lemma trun_done:
  assumes "inv plan y" "pc (P y) = Returned" "spc (S y) = SubReturned"
  shows "bare_pub (P y) \<and> bare_sub (S y) \<and> map result_key (results (P y)) = plan \<and> (fits y \<longrightarrow> list_all result_ok (results (P y)))"
  using assms by (auto simp: inv_def waking_def)

lemma trun_aborts: "inv plan y \<Longrightarrow> pc (P y) = Aborted \<Longrightarrow> \<not> fits y"
  by (auto simp: inv_def)

text \<open>With files that cannot be read the publisher has returned and the subscriber waits for commands for ever.\<close>

definition abandoned :: "system \<Rightarrow> bool" where
  "abandoned y \<longleftrightarrow> pc (P y) = Returned \<and> pub2sub y = [] \<and> sub2pub y = [] \<and> spc (S y) \<in> {SubDiscovery, Poll} \<and> Throughput_Subscriber.data_reader (S y) = None"

lemma abandoned_step: "sys_step T y z \<Longrightarrow> abandoned y \<Longrightarrow> abandoned z"
  by (induction rule: sys_step.induct)
    (auto simp: abandoned_def pub_internal_def pub_take_def pub_acked_def sub_wait_commands_def matched_data_def Let_def split: if_splits)

lemma abandoned_run: "(sys_step T)\<^sup>*\<^sup>* y z \<Longrightarrow> abandoned y \<Longrightarrow> abandoned z"
  by (induction rule: rtranclp_induct) (simp_all add: abandoned_step)

lemma unreadable_abandons: "trun_setup e c = None \<Longrightarrow> abandoned (tstart e c)"
  by (simp add: abandoned_def tstart_def Let_def start_system_def new_publisher_def new_subscriber_def)

section \<open>Properties of the program\<close>

text \<open>The payloads and demands of a file: each payload once, in increasing order, with the demands of all its lines.\<close>

definition describes :: "(32 word \<times> 32 word list) list \<Rightarrow> demand_map \<Rightarrow> bool" where
  "describes es m \<longleftrightarrow> sorted_wrt (<) (map fst m) \<and>
     (\<forall>k. map_of m k = (let ds = concat (map (\<lambda>(p, ds). if p - 4 = k then ds else []) es) in if ds = [] then None else Some ds))"

text \<open>A complete run: its results are those that the files ask for, and when no test sent \<open>2 ^ 32 - 1\<close> samples or more, received and lost
  samples of each add up to those sent; afterwards every entity can be and is deleted.\<close>

definition files_measured :: "cpp_error option \<Rightarrow> throughput_env \<Rightarrow> throughput_config \<Rightarrow> (32 word \<times> 32 word list) list \<Rightarrow> 32 word list list \<Rightarrow> bool" where
  "files_measured nul e c es ls \<longleftrightarrow> (\<exists>m y a b. describes es m \<and> (sys_step (ttime c))\<^sup>*\<^sup>* (tstart e c) y \<and>
     map result_key (results (P y)) = all_tests m (rev (remdups (rev (concat ls)))) \<and>
     (fits y \<longrightarrow> list_all (\<lambda>r. unat (recv_samples r) + unat (res_lost_samples r) = unat (send_samples r)) (results (P y))) \<and>
     tteardown nul y e c = Inr (a, b) \<and> clean a \<and> clean b)"

definition files_written :: "throughput_env \<Rightarrow> throughput_config \<Rightarrow> (32 word \<times> 32 word list) list \<Rightarrow> 32 word list list \<Rightarrow> bool" where
  "files_written e c es ls \<longleftrightarrow> to_file_name c \<noteq> [] \<and> to_recoveries_file c \<noteq> [] \<and>
     tfile_of e (to_file_name c) = Some (show_file (map (\<lambda>(p, ds). p # ds) es)) \<and> (\<forall>(p, ds) \<in> set es. 4 \<le> p \<and> ds \<noteq> [] \<and> demands_ok ds) \<and>
     tfile_of e (to_recoveries_file c) = Some (show_file ls) \<and> ls \<noteq> [] \<and> (\<forall>ws \<in> set ls. ws \<noteq> [] \<and> (\<forall>w \<in> set ws. unat w < 2147483648))"

lemma files_written_setup:
  assumes "files_written e c es ls"
  shows "\<exists>p m. trun_setup e (throughput_file_wins c) = Some (p, m, rev (remdups (rev (concat ls)))) \<and> describes es m \<and> sizes_ok m \<and>
    rev (remdups (rev (concat ls))) \<noteq> []"
proof -
  note f = assms[unfolded files_written_def]
  then have "concat ls \<noteq> []" by (cases ls) auto
  then have "rev (remdups (rev (concat ls))) \<noteq> []" by simp
  moreover have "\<exists>p m. trun_setup e (throughput_file_wins c) = Some (p, m, rev (remdups (rev (concat ls)))) \<and> describes es m \<and> sizes_ok m"
    using throughput_files_load[of es ls "tneg_of e" "tjunk_of e" "tjunk_input e" "tjunk_recovery e" "to_recovery_time_ms c" 0] f
    by (simp add: trun_setup_def throughput_file_wins_def describes_def)
  ultimately show ?thesis by blast
qed

lemma files_run:
  assumes "files_written e c es ls" "c1 = throughput_file_wins c" "(sys_step T)\<^sup>*\<^sup>* (tstart e c1) y"
  shows "\<exists>m. describes es m \<and> inv (all_tests m (rev (remdups (rev (concat ls))))) y"
  using files_written_setup[OF assms(1)] trun_inv[of e c1] assms(2,3) by blast

text \<open>A run in which the publisher's assertion failed: a test of it had sent \<open>2 ^ 32 - 1\<close> samples or more.\<close>

definition count_aborts :: "throughput_env \<Rightarrow> throughput_config \<Rightarrow> bool" where
  "count_aborts e c \<longleftrightarrow> (\<exists>y. (sys_step (ttime c))\<^sup>*\<^sup>* (tstart e c) y \<and> pc (P y) = Aborted \<and> \<not> fits y)"

text \<open>C6: The throughput test in one process does what its command line and files say, up to the exit code, provided that during
  the run calls succeed and acknowledgments and answers come in time; \<open>nul\<close> is what DDS does when it is asked to delete a null
  pointer (nothing, or an error). With a demands file and a recoveries file and one subscriber: code 0 means that every payload
  of the file was tested with each of its demands and each recovery time, in order, that received and lost samples add up to
  those sent if no test sent \<open>2 ^ 32 - 1\<close> samples or more, and that every DDS entity was deleted; code 1 means that an \<^verbatim>\<open>init\<close>
  failed late enough to be cleaned up after, and that deleting a null pointer did no harm. The program crashes only when an
  \<^verbatim>\<open>init\<close> failed before it had a subscriber, when one failed later and deleting a null pointer does harm, or, with both set
  up, by a failed assertion after a test of at least \<open>2 ^ 32 - 1\<close> samples.\<close>

theorem throughput_both_exact:
  assumes "ints_ok [to_demand c, to_forced_domain c]" "sp DEMAND \<in> {LongJoined, LongApart}"
    and "to_agent c = AgentBoth" "\<not> to_dynamic_types c" "to_subscribers c = 1" "files_written e c es ls"
    and "throughput_both nul e (prog # agent_word (to_agent c) # write_line throughput_usage sp (throughput_settings c)) r"
    and "c1 = throughput_file_wins c"
  shows "case r of
      Exits k \<Rightarrow> (if fst (tpub_init e c1) \<and> fst (tsub_init e c1) then k = 0 \<and> files_measured nul e c1 es ls
        else k = 1 \<and> nul = None \<and> \<not> early (tpub_fails e) (tsetup_of c1) \<and> \<not> (fst (tpub_init e c1) \<and> early (tsub_fails e) (tsetup_of c1)))
    | Crashes err \<Rightarrow> (if fst (tpub_init e c1) \<and> fst (tsub_init e c1) then err = StdTerminate \<and> count_aborts e c1
        else if fst (tpub_init e c1) then init_crashes nul err (tsub_fails e) (tsetup_of c1) False
        else init_crashes nul err (tpub_fails e) (tsetup_of c1) False)"
proof -
  have m: "throughput_main (prog # agent_word (to_agent c) # write_line throughput_usage sp (throughput_settings c)) = Inr (Runs c1)"
    using throughput_options_read[where c = c and sp = sp and prog = prog, OF assms(1,2)] assms(4,8) by (simp add: throughput_conflict_def)
  show ?thesis using assms(7)
  proof (cases rule: throughput_both.cases)
    case (pub_init_fails c2)
    then have "r = exit_with 1 (ThroughputPublisher_dtor nul (snd (tpub_init e c1)))" "\<not> fst (tpub_init e c1)" using m by simp_all
    then show ?thesis using tdtor_cases(1)[of nul e c1] by (auto simp: exit_with_def split: sum.splits)
  next
    case (sub_init_fails c2)
    then have "r = exit_with 1 (tteardown nul (tstart e c1) e c1)" "fst (tpub_init e c1)" "\<not> fst (tsub_init e c1)" using m by simp_all
    then show ?thesis using tteardown_sub_failed[of e c1 nul] tinit_not_early(1)[of e c1] by (auto simp: exit_with_def split: sum.splits)
  next
    case (threads_join c2 y)
    with m have y: "r = exit_with 0 (tteardown nul y e c1)" "fst (tpub_init e c1)" "fst (tsub_init e c1)" "(sys_step (ttime c1))\<^sup>*\<^sup>* (tstart e c1) y"
      "pc (P y) = Returned" "spc (S y) = SubReturned" by simp_all
    from files_run[OF assms(6,8) y(4)] obtain d where d: "describes es d" "inv (all_tests d (rev (remdups (rev (concat ls))))) y" by blast
    note t = trun_done[OF d(2) y(5,6)]
    then obtain a b where "tteardown nul y e c1 = Inr (a, b)" "clean a" "clean b" using tteardown_ready[OF y(2,3)] by blast
    then show ?thesis using d(1) t y(1-4) unfolding files_measured_def by (auto simp: exit_with_def result_ok_def[abs_def])
  next
    case (run_aborts c2 y)
    with m have y: "r = Crashes StdTerminate" "fst (tpub_init e c1)" "fst (tsub_init e c1)" "(sys_step (ttime c1))\<^sup>*\<^sup>* (tstart e c1) y"
      "pc (P y) = Aborted" by simp_all
    then have "count_aborts e c1" using files_run[OF assms(6,8) y(4)] trun_aborts unfolding count_aborts_def by blast
    then show ?thesis using y(1-3) by simp
  qed (use m in simp_all)
qed

definition run_qos :: data_qos where
  "run_qos = \<lparr>q_reliable = False, q_short_times = False, q_sharing = NO_SET, q_realloc = False, q_extra_samples = None\<rparr>"

definition run_tconfig :: throughput_config where
  "run_tconfig = (throughput_default AgentBoth)\<lparr>to_file_name := ''d'', to_recoveries_file := ''r''\<rparr>"

definition run_tenv :: throughput_env where
  "run_tenv = \<lparr>tfile_of = (\<lambda>n. if n = ''d'' then Some (show_file [[32, 100], [16, 50, 60]]) else Some (show_file [[5, 9]])),
     tneg_of = (\<lambda>_. (0, False)), tjunk_of = (\<lambda>_. 7), tjunk_input = 3, tjunk_recovery = 4, tpub_fails = (\<lambda>_. False), tsub_fails = (\<lambda>_. False),
     thost_name = ''h'', twriter_profile = run_qos, treader_profile = run_qos, tdefault_qos = (run_qos, run_qos),
     twriter_history = example_qos, treader_history = example_qos, tjunk_enable = False, tjunk_saved = (0, 0, 0)\<rparr>"

lemma run_tready: "fst (tpub_init run_tenv c)" "fst (tsub_init run_tenv c)"
  by (simp_all add: tpub_init_def tsub_init_def ThroughputPublisher_init_def ThroughputSubscriber_init_def run_tenv_def
      common_steps_def Perf_Setup.make_def need_profile_def)

lemma run_tfiles: "files_written run_tenv run_tconfig [(32, [100]), (16, [50, 60])] [[5, 9]]"
  by (simp add: files_written_def run_tenv_def run_tconfig_def throughput_default_def demands_ok_def)

theorem throughput_both_exact_witness:
  "throughput_both (Some NullDeref) run_tenv (''p'' # agent_word AgentBoth # write_line throughput_usage (\<lambda>_. LongJoined) (throughput_settings run_tconfig)) (Exits 0) \<and>
   files_measured (Some NullDeref) run_tenv (throughput_file_wins run_tconfig) [(32, [100]), (16, [50, 60])] [[5, 9]]"
proof -
  let ?c1 = "throughput_file_wins run_tconfig"
  let ?line = "''p'' # agent_word AgentBoth # write_line throughput_usage (\<lambda>_. LongJoined) (throughput_settings run_tconfig)"
  have a: "to_agent run_tconfig = AgentBoth" "\<not> to_dynamic_types run_tconfig" "to_subscribers run_tconfig = 1"
    by (simp_all add: run_tconfig_def throughput_default_def)
  have a1: "to_agent ?c1 = AgentBoth" "\<not> to_dynamic_types ?c1" "to_subscribers ?c1 = 1"
    by (simp_all add: run_tconfig_def throughput_default_def throughput_file_wins_def)
  have h: "ints_ok [to_demand run_tconfig, to_forced_domain run_tconfig]" "(\<lambda>_. LongJoined) DEMAND \<in> {LongJoined, LongApart}"
    by (simp_all add: run_tconfig_def throughput_default_def ints_ok_def in_int_numerals)
  have m: "throughput_main ?line = Inr (Runs ?c1)"
    using throughput_options_read[where c = run_tconfig and sp = "\<lambda>_. LongJoined" and prog = "''p''", OF h] a
    by (simp add: throughput_conflict_def)
  obtain d where i: "describes [(32, [100]), (16, [50, 60])] d" "inv (all_tests d (rev (remdups (rev (concat [[5, 9]]))))) (tstart run_tenv ?c1)"
    using files_run[OF run_tfiles refl rtranclp.rtrancl_refl] by blast
  from inv_reaches_end[OF i(2)] tstart_fits obtain y where
    y: "(sys_step (ttime ?c1))\<^sup>*\<^sup>* (tstart run_tenv ?c1) y" "\<nexists>z. sys_step (ttime ?c1) y z" "fits y" by blast
  have e: "pc (P y) = Returned" "spc (S y) = SubReturned" using inv_final[OF inv_steps[OF y(1) i(2)] y(2)] y(3) by blast+
  have "throughput_both (Some NullDeref) run_tenv ?line (exit_with 0 (tteardown (Some NullDeref) y run_tenv ?c1))"
    by (rule threads_join[OF m a1 run_tready y(1) e])
  moreover obtain u v where "tteardown (Some NullDeref) y run_tenv ?c1 = Inr (u, v)"
    using tteardown_ready[OF run_tready] trun_done[OF inv_steps[OF y(1) i(2)] e] by blast
  ultimately have r: "throughput_both (Some NullDeref) run_tenv ?line (Exits 0)" by (simp add: exit_with_def)
  then show ?thesis
    using throughput_both_exact[where sp = "\<lambda>_. LongJoined" and prog = "''p''" and r = "Exits 0", OF h a run_tfiles _ refl] a(1)
    by (simp add: run_tready)
qed

text \<open>A demands file that cannot be read leaves the process hanging: the publisher has returned and the subscriber waits for
  commands, and no run ends.\<close>

lemma unreadable_never_returns:
  assumes "trun_setup e c = None" "(sys_step T)\<^sup>*\<^sup>* (tstart e c) y"
  shows "pc (P y) = Returned \<and> spc (S y) \<noteq> SubReturned \<and> pub2sub y = []"
  using abandoned_run[OF assms(2) unreadable_abandons[OF assms(1)]] by (auto simp: abandoned_def)

lemma unreadable_files_hang:
  assumes "throughput_main argv = Inr (Runs c)" "fst (tpub_init e c)" "fst (tsub_init e c)" "trun_setup e c = None"
  shows "\<not> throughput_both nul e argv r"
proof
  assume "throughput_both nul e argv r"
  then show False
    by (cases rule: throughput_both.cases) (use assms unreadable_never_returns[OF assms(4)] in force)+
qed

end
