(* ===== verification/Word_Game.thy ===== *)
theory Word_Game
  imports Prelude
begin

text \<open>
  The word game of \<^verbatim>\<open>src/primer_plus/chap16/16.1/hangman.cpp\<close>: one round of guessing with \<^verbatim>\<open>string::find\<close> as an explicit search,
  and the loop over games. The input is the list of characters that are not white space; when it is used up a game waits.
  The values of \<^verbatim>\<open>rand\<close> are arguments.
\<close>

definition worldlist :: "string list" where
  "worldlist = [''apiary'', ''beetle'', ''cereal'', ''danger'', ''ensign'', ''florid'', ''garage'', ''health'', ''insult'',
     ''jackal'', ''keeper'', ''loaner'', ''manage'', ''nonce'', ''onset'', ''plaid'', ''quilt'', ''remote'', ''stolid'', ''train'',
     ''useful'', ''valid'', ''whence'', ''xenon'', ''yearn'', ''zippy'']"

record game =
  target :: string
  attempt :: string
  badchars :: string
  guesses :: int

definition new_game :: "string \<Rightarrow> game" where
  "new_game t = \<lparr>target = t, attempt = replicate (length t) (CHR ''-''), badchars = [], guesses = 6\<rparr>"

text \<open>\<^verbatim>\<open>s.find(c, from)\<close>.\<close>

fun find_char :: "char \<Rightarrow> string \<Rightarrow> nat option" where
  "find_char c [] = None"
| "find_char c (x # xs) = (if x = c then Some 0 else map_option Suc (find_char c xs))"

definition find_after :: "string \<Rightarrow> char \<Rightarrow> nat \<Rightarrow> nat option" where
  "find_after s c start = map_option ((+) start) (find_char c (drop start s))"

lemma find_char_Some: "find_char c s = Some i \<Longrightarrow> i < length s \<and> s ! i = c \<and> (\<forall>j < i. s ! j \<noteq> c)"
proof (induction s arbitrary: i)
  case (Cons x xs)
  show ?case
  proof (cases "x = c")
    case False
    then obtain k where k: "find_char c xs = Some k" "i = Suc k" using Cons.prems by auto
    note f = Cons.IH[OF k(1)]
    have "(x # xs) ! j \<noteq> c" if "j < i" for j using that k(2) f False by (cases j) auto
    then show ?thesis using f k(2) by auto
  qed (use Cons.prems in auto)
qed simp

lemma find_char_None: "find_char c s = None \<longleftrightarrow> c \<notin> set s"
  by (induction s) auto

lemma find_after_Some: "find_after s c start = Some i \<Longrightarrow> start \<le> i \<and> i < length s \<and> s ! i = c \<and> (\<forall>j. start \<le> j \<and> j < i \<longrightarrow> s ! j \<noteq> c)"
proof -
  assume "find_after s c start = Some i"
  then obtain k where k: "find_char c (drop start s) = Some k" "i = start + k" by (auto simp: find_after_def)
  note f = find_char_Some[OF k(1)]
  have "s ! j \<noteq> c" if j: "start \<le> j" "j < i" for j
  proof -
    have "j - start < k" "start + (j - start) = j" using j k(2) by simp_all
    then show ?thesis using f by (metis length_drop less_imp_le_nat nth_drop order_less_trans zero_less_diff less_nat_zero_code diff_is_0_eq linorder_not_le)
  qed
  then show ?thesis using f k(2) by auto
qed

text \<open>The loop that fills in every occurrence of the letter.\<close>

function reveal :: "string \<Rightarrow> char \<Rightarrow> nat option \<Rightarrow> string \<Rightarrow> string result" where
  "reveal t c loc a = (case loc of None \<Rightarrow> Inr a
     | Some i \<Rightarrow> if length a \<le> i then Inl OutOfBounds else reveal t c (find_after t c (Suc i)) (a[i := c]))"
  by pat_completeness auto
termination
  by (relation "measure (\<lambda>(t, c, loc, a). case loc of None \<Rightarrow> 0 | Some i \<Rightarrow> Suc (length a) - i)")
    (auto split: option.splits dest!: find_after_Some)

declare reveal.simps [simp del]

definition guess :: "char \<Rightarrow> game \<Rightarrow> game result" where
  "guess c g = (if c \<in> set (badchars g) \<or> c \<in> set (attempt g) then Inr g
     else case find_after (target g) c 0 of
       None \<Rightarrow> Inr (g\<lparr>guesses := guesses g - 1, badchars := badchars g @ [c]\<rparr>)
     | Some i \<Rightarrow> rbind (reveal (target g) c (Some i) (attempt g)) (\<lambda>a. Inr (g\<lparr>attempt := a\<rparr>)))"

text \<open>One game: what is left of the input and whether the game is over.\<close>

fun play :: "game \<Rightarrow> string \<Rightarrow> (game \<times> string \<times> bool) result" where
  "play g input = (if \<not> (0 < guesses g \<and> attempt g \<noteq> target g) then Inr (g, input, True)
     else case input of [] \<Rightarrow> Inr (g, [], False) | c # cs \<Rightarrow> rbind (guess c g) (\<lambda>g1. play g1 cs))"

declare play.simps [simp del]

definition to_lower :: "char \<Rightarrow> char" where
  "to_lower c = (if 65 \<le> (of_char c :: nat) \<and> (of_char c :: nat) \<le> 90 then char_of ((of_char c :: nat) + 32) else c)"

text \<open>The games of \<^verbatim>\<open>main\<close>; \<open>True\<close>: the user has stopped, \<open>False\<close>: the input is used up.\<close>

fun games :: "nat list \<Rightarrow> string \<Rightarrow> (game list \<times> bool) result" where
  "games rands [] = Inr ([], False)"
| "games [] (q # input) = Inr ([], to_lower q \<noteq> CHR ''y'')"
| "games (r # rands) (q # input) = (if to_lower q \<noteq> CHR ''y'' then Inr ([], True)
     else rbind (play (new_game (worldlist ! (r mod 26))) input) (\<lambda>(g, rest, over).
       if over then rbind (games rands rest) (\<lambda>(gs, b). Inr (g # gs, b)) else Inr ([g], False)))"

section \<open>What the game should be\<close>

text \<open>The wrong letters, in the order in which they were first guessed, and what is known of the word.\<close>

fun wrong :: "string \<Rightarrow> string \<Rightarrow> string" where
  "wrong t [] = []"
| "wrong t (c # cs) = wrong t cs @ (if c \<in> set t \<or> c = CHR ''-'' \<or> c \<in> set cs then [] else [c])"

definition shown :: "string \<Rightarrow> char set \<Rightarrow> string" where
  "shown t A = map (\<lambda>c. if c \<in> A then c else CHR ''-'') t"

text \<open>\<open>cs\<close> are the letters so far, the last one first.\<close>

definition game_of :: "string \<Rightarrow> string \<Rightarrow> game" where
  "game_of t cs = \<lparr>target = t, attempt = shown t (set cs), badchars = wrong t cs, guesses = 6 - int (length (wrong t cs))\<rparr>"

definition decided :: "string \<Rightarrow> string \<Rightarrow> bool" where
  "decided t cs \<longleftrightarrow> set t \<subseteq> set cs \<or> 6 \<le> length (wrong t cs)"

text \<open>The letters up to the first one that decides the game.\<close>

fun used :: "string \<Rightarrow> string \<Rightarrow> string \<Rightarrow> string \<times> string" where
  "used t cs [] = (cs, [])"
| "used t cs (c # input) = (if decided t cs then (cs, c # input) else used t (c # cs) input)"

section \<open>Lemmas\<close>

lemma reveal_all:
  assumes "length a = length t" "loc = find_after t c start" "\<forall>j < start. j < length t \<longrightarrow> (t ! j = c \<longrightarrow> a ! j = c)"
  shows "reveal t c loc a = Inr (map2 (\<lambda>x y. if x = c then c else y) t a)"
  using assms
proof (induction t c loc a arbitrary: start rule: reveal.induct)
  case (1 t c loc a)
  show ?case
  proof (cases loc)
    case None
    then have n: "c \<notin> set (drop start t)" using "1.prems"(2) by (simp add: find_after_def find_char_None)
    have "map2 (\<lambda>x y. if x = c then c else y) t a = a"
    proof (rule nth_equalityI)
      fix i assume i: "i < length (map2 (\<lambda>x y. if x = c then c else y) t a)"
      have "t ! i = c \<Longrightarrow> a ! i = c"
      proof (cases "i < start")
        case False
        moreover have "i < length t" using i "1.prems"(1) by simp
        ultimately have "t ! i \<in> set (drop start t)" using nth_mem[of "i - start" "drop start t"] by simp
        then show "t ! i = c \<Longrightarrow> a ! i = c" using n by auto
      qed (use "1.prems" i in auto)
      then show "map2 (\<lambda>x y. if x = c then c else y) t a ! i = a ! i" using i by simp
    qed (use "1.prems" in simp)
    then show ?thesis by (subst reveal.simps) (simp add: None)
  next
    case (Some i)
    note f = find_after_Some[OF "1.prems"(2)[symmetric, unfolded Some]]
    have "reveal t c (find_after t c (Suc i)) (a[i := c]) = Inr (map2 (\<lambda>x y. if x = c then c else y) t (a[i := c]))"
    proof (rule "1.IH"[OF Some _ _ refl])
      show "\<forall>j < Suc i. j < length t \<longrightarrow> t ! j = c \<longrightarrow> a[i := c] ! j = c"
        using f "1.prems" by (auto simp: nth_list_update less_Suc_eq) (metis linorder_not_less)
    qed (use f "1.prems" in auto)
    moreover have "map2 (\<lambda>x y. if x = c then c else y) t (a[i := c]) = map2 (\<lambda>x y. if x = c then c else y) t a"
      by (rule nth_equalityI) (use f "1.prems" in \<open>auto simp: nth_list_update\<close>)
    ultimately show ?thesis using f "1.prems"(1) by (subst reveal.simps) (simp add: Some)
  qed
qed

lemma reveal_shown: "reveal t c (find_after t c 0) (shown t A) = Inr (shown t (insert c A))"
proof -
  have "map2 (\<lambda>x y. if x = c then c else y) t (shown t A) = shown t (insert c A)"
    by (rule nth_equalityI) (auto simp: shown_def)
  then show ?thesis using reveal_all[of "shown t A" t "find_after t c 0" c 0] by (simp add: shown_def)
qed

lemma shown_eq: "CHR ''-'' \<notin> set t \<Longrightarrow> shown t A = t \<longleftrightarrow> set t \<subseteq> A"
  by (induction t) (auto simp: shown_def)

lemma set_shown: "CHR ''-'' \<notin> set t \<Longrightarrow> c \<noteq> CHR ''-'' \<Longrightarrow> c \<in> set (shown t A) \<longleftrightarrow> c \<in> set t \<and> c \<in> A"
  by (auto simp: shown_def)

lemma set_wrong: "set (wrong t cs) = {c \<in> set cs. c \<notin> set t \<and> c \<noteq> CHR ''-''}"
  by (induction cs) auto

lemma new_game_of: "new_game t = game_of t []"
  by (simp add: new_game_def game_of_def shown_def map_replicate_const)

lemma guess_game_of:
  assumes "CHR ''-'' \<notin> set t" "\<not> decided t cs"
  shows "guess c (game_of t cs) = Inr (game_of t (c # cs))"
proof (cases "c = CHR ''-''")
  case True
  have "CHR ''-'' \<in> set (shown t (set cs))" using assms by (auto simp: decided_def shown_def)
  moreover have "shown t (insert c (set cs)) = shown t (set cs)" using True assms(1) by (auto simp: shown_def)
  ultimately show ?thesis using True by (simp add: guess_def game_of_def)
next
  case nd: False
  show ?thesis
  proof (cases "c \<in> set cs")
    case True
    then have "c \<in> set (wrong t cs) \<or> c \<in> set (shown t (set cs))" using nd assms(1) by (auto simp: set_wrong set_shown)
    moreover have "insert c (set cs) = set cs" using True by auto
    ultimately show ?thesis using True by (auto simp: guess_def game_of_def)
  next
    case False
    then have n: "c \<notin> set (wrong t cs)" "c \<notin> set (shown t (set cs))" using nd assms(1) by (auto simp: set_wrong set_shown)
    show ?thesis
    proof (cases "find_after t c 0")
      case None
      then have "c \<notin> set t" by (simp add: find_after_def find_char_None)
      then show ?thesis using None n False nd by (auto simp: guess_def game_of_def shown_def)
    next
      case (Some i)
      then have "c \<in> set t" using find_after_Some[OF Some] by (auto simp: in_set_conv_nth)
      then show ?thesis using Some n reveal_shown[of t c "set cs"] by (simp add: guess_def game_of_def)
    qed
  qed
qed

lemma over_decided: "CHR ''-'' \<notin> set t \<Longrightarrow> (0 < guesses (game_of t cs) \<and> attempt (game_of t cs) \<noteq> target (game_of t cs)) \<longleftrightarrow> \<not> decided t cs"
  by (auto simp: game_of_def decided_def shown_eq)

lemma play_game_of:
  assumes "CHR ''-'' \<notin> set t"
  shows "play (game_of t cs) input = (case used t cs input of (ds, rest) \<Rightarrow> Inr (game_of t ds, rest, decided t ds))"
proof (induction input arbitrary: cs)
  case Nil
  then show ?case using over_decided[OF assms, of cs] by (subst play.simps) auto
next
  case (Cons c input)
  show ?case using over_decided[OF assms, of cs] guess_game_of[OF assms, of cs c] Cons[of "c # cs"]
    by (subst play.simps) auto
qed

text \<open>The games as they should be.\<close>

fun fair_games :: "nat list \<Rightarrow> string \<Rightarrow> game list \<times> bool" where
  "fair_games rands [] = ([], False)"
| "fair_games [] (q # input) = ([], to_lower q \<noteq> CHR ''y'')"
| "fair_games (r # rands) (q # input) = (if to_lower q \<noteq> CHR ''y'' then ([], True)
     else let t = worldlist ! (r mod 26); (ds, rest) = used t [] input
       in if decided t ds then (let (gs, b) = fair_games rands rest in (game_of t ds # gs, b)) else ([game_of t ds], False))"

lemma worldlist_plain: "\<forall>t \<in> set worldlist. CHR ''-'' \<notin> set t"
  by (simp add: worldlist_def)

lemma worldlist_length: "length worldlist = 26"
  by (simp add: worldlist_def)

lemma worldlist_nth: "CHR ''-'' \<notin> set (worldlist ! (r mod 26))"
  using worldlist_plain nth_mem[of "r mod 26" worldlist] by (simp add: worldlist_length)

text \<open>No game asks for more letters than it needs: eleven different ones decide it.\<close>

lemma wrong_distinct: "distinct (wrong t cs)"
  by (induction cs) (auto simp: set_wrong)

lemma worldlist_letters: "\<forall>t \<in> set worldlist. card (set t) \<le> 6"
proof
  fix t assume "t \<in> set worldlist"
  then have "length t \<le> 6" by (auto simp: worldlist_def)
  then show "card (set t) \<le> 6" using card_length[of t] by simp
qed

lemma eleven_letters_decide:
  assumes "t \<in> set worldlist" "11 \<le> card (set cs - {CHR ''-''})"
  shows "decided t cs"
proof (rule ccontr)
  assume n: "\<not> decided t cs"
  then have w: "card (set (wrong t cs)) \<le> 5" by (simp add: decided_def distinct_card[OF wrong_distinct])
  from n obtain c where c: "c \<in> set t" "c \<notin> set cs" by (auto simp: decided_def)
  have "set cs - {CHR ''-''} \<subseteq> (set t - {c}) \<union> set (wrong t cs)" using c by (auto simp: set_wrong)
  then have "card (set cs - {CHR ''-''}) \<le> card ((set t - {c}) \<union> set (wrong t cs))" by (intro card_mono) auto
  also have "\<dots> \<le> card (set t - {c}) + card (set (wrong t cs))" by (rule card_Un_le)
  also have "\<dots> \<le> 5 + 5" using w c(1) worldlist_letters assms(1) by (intro add_mono) (auto simp: card_Diff_singleton)
  finally show False using assms(2) by simp
qed

section \<open>Properties\<close>

text \<open>C28: The word game is fair. Whatever is typed, every game shows exactly the guessed letters of its word, lists each
  wrong letter once in the order of the guesses, counts them down from six, ignores repeated letters and dashes, and is
  over after the first letter that completes the word or is the sixth different wrong one; the next answer is read after
  it, and the search never leaves the word.\<close>

theorem games_fair: "games rands input = Inr (fair_games rands input)"
proof (induction rands input rule: games.induct)
  case (3 r rands q input)
  show ?case
  proof (cases "to_lower q = CHR ''y''")
    case True
    obtain ds rest where u: "used (worldlist ! (r mod 26)) [] input = (ds, rest)" by fastforce
    have "play (new_game (worldlist ! (r mod 26))) input = Inr (game_of (worldlist ! (r mod 26)) ds, rest, decided (worldlist ! (r mod 26)) ds)"
      using play_game_of[OF worldlist_nth[of r], of "[]" input] u by (simp add: new_game_of)
    then show ?thesis using 3 True u by (auto simp: Let_def split: prod.splits)
  qed simp
qed simp_all

end
