(* ===== verification/Cycle_Task.thy ===== *)
theory Cycle_Task
  imports Prelude
begin

text \<open>
  The periodic schedulers of \<^verbatim>\<open>src/other/cycle_task\<close>: \<^verbatim>\<open>SingleThreadScheduler\<close> (\<^verbatim>\<open>cycle_task.cpp\<close>), which compares the time since the
  last run in whole milliseconds, and \<^verbatim>\<open>PeriodicScheduler\<close> (\<^verbatim>\<open>cycle_task_a.cpp\<close>), which keeps the time of the next run. A
  clock reading is a number of nanoseconds; \<^verbatim>\<open>start\<close> is a round per reading, until \<^verbatim>\<open>stop\<close> ends the list. Both loops are
  instances of the locale \<open>cyclic\<close>.
\<close>

record PeriodicTask =
  period :: int
  last_run :: int

record Task =
  interval :: int
  next_execution :: int

section \<open>The schedulers\<close>

text \<open>\<^verbatim>\<open>duration_cast<milliseconds>\<close> rounds towards zero.\<close>

definition whole_ms :: "int \<Rightarrow> int" where
  "whole_ms d = (if d < 0 then - (- d div 1000000) else d div 1000000)"

definition single_add :: "int \<Rightarrow> int \<Rightarrow> PeriodicTask list \<Rightarrow> PeriodicTask list" where
  "single_add period_ms now tasks = tasks @ [\<lparr>period = period_ms, last_run = now\<rparr>]"

text \<open>The body of the inner loop: the task afterwards, and whether it was executed.\<close>

definition single_task :: "int \<Rightarrow> PeriodicTask \<Rightarrow> PeriodicTask \<times> bool" where
  "single_task now t = (if period t \<le> whole_ms (now - last_run t) then (t\<lparr>last_run := now\<rparr>, True) else (t, False))"

definition periodic_add :: "int \<Rightarrow> int \<Rightarrow> Task list \<Rightarrow> Task list" where
  "periodic_add interval_ms now tasks = tasks @ [\<lparr>interval = interval_ms, next_execution = now + interval_ms * 1000000\<rparr>]"

definition periodic_task :: "int \<Rightarrow> Task \<Rightarrow> Task \<times> bool" where
  "periodic_task now t = (if next_execution t \<le> now then (t\<lparr>next_execution := now + interval t * 1000000\<rparr>, True) else (t, False))"

text \<open>The loop of \<^verbatim>\<open>start\<close>: for every reading, which tasks were executed.\<close>

fun loop_rounds :: "(int \<Rightarrow> 't \<Rightarrow> 't \<times> bool) \<Rightarrow> int list \<Rightarrow> 't list \<Rightarrow> (int \<times> bool list) list" where
  "loop_rounds body [] tasks = []"
| "loop_rounds body (now # nows) tasks = (let done = map (body now) tasks
     in (now, map snd done) # loop_rounds body nows (map fst done))"

definition single_start :: "int list \<Rightarrow> PeriodicTask list \<Rightarrow> (int \<times> bool list) list" where
  "single_start = loop_rounds single_task"

definition periodic_start :: "int list \<Rightarrow> Task list \<Rightarrow> (int \<times> bool list) list" where
  "periodic_start = loop_rounds periodic_task"

section \<open>What a scheduler promises\<close>

text \<open>When a task with a period of \<open>p\<close> nanoseconds that last ran at \<open>l\<close> is due.\<close>

fun due_times :: "int \<Rightarrow> int \<Rightarrow> int list \<Rightarrow> int list" where
  "due_times p l [] = []"
| "due_times p l (t # ts) = (if p \<le> t - l then t # due_times p t ts else due_times p l ts)"

definition runs_of :: "nat \<Rightarrow> (int \<times> bool list) list \<Rightarrow> int list" where
  "runs_of k log = map fst (filter (\<lambda>(t, ran). ran ! k) log)"

definition paced :: "int \<Rightarrow> int list \<Rightarrow> bool" where
  "paced d = successively (\<lambda>s t. s \<le> t \<and> t \<le> s + d)"

definition spaced :: "int \<Rightarrow> int \<Rightarrow> int list \<Rightarrow> bool" where
  "spaced p d = successively (\<lambda>s t. p \<le> t - s \<and> t - s < p + d)"

lemma due_times_spaced:
  assumes "paced d (u # ts)" "l \<le> u" "0 < p" "u - l < p" "0 < d"
  shows "spaced p d (l # due_times p l ts)"
  using assms
proof (induction ts arbitrary: l u)
  case (Cons t ts)
  have t: "u \<le> t" "t \<le> u + d" "paced d (t # ts)" using Cons.prems(1) by (simp_all add: paced_def)
  show ?case
  proof (cases "p \<le> t - l")
    case True
    have "spaced p d (t # due_times p t ts)" using Cons.IH[OF t(3), of t] Cons.prems(3,5) by simp
    then show ?thesis using True t Cons.prems(4) by (simp add: spaced_def)
  next
    case False
    then show ?thesis using Cons.IH[OF t(3), of l] t(1) Cons.prems by simp
  qed
qed (simp add: spaced_def)

lemma due_times_last:
  assumes "sorted (l # ts)" "0 < p"
  shows "last (l # ts) - last (l # due_times p l ts) < p"
  using assms
proof (induction ts arbitrary: l)
  case (Cons t ts)
  show ?case
  proof (cases "p \<le> t - l")
    case True
    then show ?thesis using Cons.IH[of t] Cons.prems by simp
  next
    case False
    show ?thesis
    proof (cases ts)
      case Nil
      then show ?thesis using False by simp
    next
      case (Cons t1 ts1)
      then show ?thesis using False Cons.IH[of l] Cons.prems by simp
    qed
  qed
qed simp

locale cyclic =
  fixes body :: "int \<Rightarrow> 't \<Rightarrow> 't \<times> bool" and gap :: "'t \<Rightarrow> int" and ran :: "'t \<Rightarrow> int"
  assumes due: "ran t \<le> now \<Longrightarrow> 0 < gap t \<Longrightarrow> snd (body now t) \<longleftrightarrow> gap t \<le> now - ran t"
    and keeps_gap: "gap (fst (body now t)) = gap t"
    and marks: "ran (fst (body now t)) = (if snd (body now t) then now else ran t)"
begin

lemma runs_due:
  assumes "k < length tasks" "0 < gap (tasks ! k)" "sorted (ran (tasks ! k) # nows)"
  shows "runs_of k (loop_rounds body nows tasks) = due_times (gap (tasks ! k)) (ran (tasks ! k)) nows"
  using assms
proof (induction nows arbitrary: tasks)
  case (Cons t ts)
  let ?tasks = "map (\<lambda>x. fst (body t x)) tasks"
  have d: "snd (body t (tasks ! k)) \<longleftrightarrow> gap (tasks ! k) \<le> t - ran (tasks ! k)" using due Cons.prems by simp
  have g: "gap (?tasks ! k) = gap (tasks ! k)" "ran (?tasks ! k) = (if snd (body t (tasks ! k)) then t else ran (tasks ! k))"
    using Cons.prems(1) by (simp_all add: keeps_gap marks)
  have "runs_of k (loop_rounds body ts ?tasks) = due_times (gap (?tasks ! k)) (ran (?tasks ! k)) ts"
    by (rule Cons.IH) (use Cons.prems in \<open>simp_all add: keeps_gap marks\<close>)
  then show ?case using d Cons.prems(1) g by (auto simp: runs_of_def Let_def comp_def)
qed (simp add: runs_of_def)

end

lemma whole_ms_reaches: "0 < p \<Longrightarrow> 0 \<le> d \<Longrightarrow> p \<le> whole_ms d \<longleftrightarrow> p * 1000000 \<le> d"
  using div_mult_mod_eq[of d 1000000] pos_mod_bound[of 1000000 d] pos_mod_sign[of 1000000 d] unfolding whole_ms_def by (simp, linarith)

interpretation single: cyclic single_task "\<lambda>t. period t * 1000000" last_run
  by unfold_locales (auto simp: single_task_def whole_ms_reaches split: if_splits)

interpretation periodic: cyclic periodic_task "\<lambda>t. interval t * 1000000" "\<lambda>t. next_execution t - interval t * 1000000"
  by unfold_locales (auto simp: periodic_task_def split: if_splits)

text \<open>The tasks that a sequence of \<^verbatim>\<open>addTask\<close> calls leaves: periods and clock readings.\<close>

definition single_tasks :: "(int \<times> int) list \<Rightarrow> PeriodicTask list" where
  "single_tasks adds = fold (\<lambda>(p, now). single_add p now) adds []"

definition periodic_tasks :: "(int \<times> int) list \<Rightarrow> Task list" where
  "periodic_tasks adds = fold (\<lambda>(p, now). periodic_add p now) adds []"

lemma tasks_added:
  "single_tasks adds = map (\<lambda>(p, now). \<lparr>period = p, last_run = now\<rparr>) adds"
  "periodic_tasks adds = map (\<lambda>(p, now). \<lparr>interval = p, next_execution = now + p * 1000000\<rparr>) adds"
proof -
  have "fold (\<lambda>(p, now). single_add p now) adds ts = ts @ map (\<lambda>(p, now). \<lparr>period = p, last_run = now\<rparr>) adds" for ts
    by (induction adds arbitrary: ts) (auto simp: single_add_def)
  then show "single_tasks adds = map (\<lambda>(p, now). \<lparr>period = p, last_run = now\<rparr>) adds" by (simp add: single_tasks_def)
  have "fold (\<lambda>(p, now). periodic_add p now) adds ts = ts @ map (\<lambda>(p, now). \<lparr>interval = p, next_execution = now + p * 1000000\<rparr>) adds" for ts
    by (induction adds arbitrary: ts) (auto simp: periodic_add_def)
  then show "periodic_tasks adds = map (\<lambda>(p, now). \<lparr>interval = p, next_execution = now + p * 1000000\<rparr>) adds" by (simp add: periodic_tasks_def)
qed

lemma paced_sorted: "paced d ts \<Longrightarrow> sorted ts"
  unfolding paced_def by (induction ts rule: induct_list012) auto

section \<open>Properties\<close>

text \<open>C29: Both schedulers keep the rate of every task. Whatever tasks are added, when no two clock readings are more than
  \<open>d\<close> nanoseconds apart: a task with a positive period runs in both at the same readings; two runs in a row, or the call of
  \<^verbatim>\<open>addTask\<close> and the first run, are at least a period and less than a period and \<open>d\<close> apart; and less than a period has
  passed since the last run.\<close>

theorem schedulers_keep_rate:
  assumes "k < length adds" "adds ! k = (p, added)" "0 < p" "0 < d" "paced d (added # nows)"
  shows "runs_of k (single_start nows (single_tasks adds)) = runs_of k (periodic_start nows (periodic_tasks adds)) \<and>
    spaced (p * 1000000) d (added # runs_of k (single_start nows (single_tasks adds))) \<and>
    last (added # nows) - last (added # runs_of k (single_start nows (single_tasks adds))) < p * 1000000"
proof -
  have s: "sorted (added # nows)" by (rule paced_sorted[OF assms(5)])
  have "runs_of k (single_start nows (single_tasks adds)) = due_times (p * 1000000) added nows"
    using single.runs_due[of k "single_tasks adds" nows] assms(1-3) s by (simp add: single_start_def tasks_added)
  moreover have "runs_of k (periodic_start nows (periodic_tasks adds)) = due_times (p * 1000000) added nows"
    using periodic.runs_due[of k "periodic_tasks adds" nows] assms(1-3) s by (simp add: periodic_start_def tasks_added)
  ultimately show ?thesis using due_times_spaced[OF assms(5), of added "p * 1000000"] due_times_last[OF s, of "p * 1000000"] assms(3,4)
    by simp
qed

theorem schedulers_keep_rate_witness:
  "runs_of (Suc 0) (single_start [40000000, 90000000, 130000000, 170000000] (single_tasks [(50, 0), (70, 1000000)])) = [90000000, 170000000] \<and>
   spaced 70000000 50000000 (1000000 # runs_of (Suc 0) (single_start [40000000, 90000000, 130000000, 170000000] (single_tasks [(50, 0), (70, 1000000)])))"
proof -
  have "runs_of (Suc 0) (single_start [40000000, 90000000, 130000000, 170000000] (single_tasks [(50, 0), (70, 1000000)])) = [90000000, 170000000]"
    by (simp add: tasks_added single_start_def single_task_def whole_ms_def runs_of_def)
  moreover have "spaced (70 * 1000000) 50000000 (1000000 # runs_of (Suc 0) (single_start [40000000, 90000000, 130000000, 170000000] (single_tasks [(50, 0), (70, 1000000)])))"
    by (rule schedulers_keep_rate[THEN conjunct2, THEN conjunct1]) (simp_all add: paced_def)
  ultimately show ?thesis by simp
qed

end
