(* ===== verification/Calc_Setup.thy ===== *)
theory Calc_Setup
  imports Calc_Client
begin

text \<open>
  The participants of the request/reply service: the settings that \<^verbatim>\<open>create_participant\<close> of \<^verbatim>\<open>ServerApp.cpp\<close> and \<^verbatim>\<open>ClientApp.cpp\<close>
  (\<^verbatim>\<open>src/other/pubsub/dds/request-response\<close>) hand to DDS, and how each side recognises the other. The initial settings
  and what a default profile makes of them come from the library and are arguments.
\<close>

record tcp_locator =
  ipv4 :: string
  physical_port :: nat
  logical_port :: nat

record participant_qos =
  builtin_transports :: bool
  listener_ports :: "nat list list"
  metatraffic_unicast :: "tcp_locator list"
  default_unicast :: "tcp_locator list"
  initial_peers :: "tcp_locator list"
  user_data :: "nat list"

definition server_locator :: tcp_locator where
  "server_locator = \<lparr>ipv4 = ''172.16.30.49'', physical_port = 5100, logical_port = 5100\<rparr>"

definition entity_byte :: "EntityKind \<Rightarrow> nat" where
  "entity_byte k = (case k of SERVER \<Rightarrow> 0 | CLIENT \<Rightarrow> 1 | UNDEFINED \<Rightarrow> 2)"

definition server_qos :: "(participant_qos \<Rightarrow> participant_qos) \<Rightarrow> participant_qos \<Rightarrow> participant_qos" where
  "server_qos profile q =
     (let q1 = profile (q\<lparr>listener_ports := listener_ports q @ [[5100]], builtin_transports := False,
            metatraffic_unicast := metatraffic_unicast q @ [server_locator], default_unicast := default_unicast q @ [server_locator]\<rparr>)
      in q1\<lparr>user_data := user_data q1 @ [entity_byte SERVER]\<rparr>)"

definition client_qos :: "(participant_qos \<Rightarrow> participant_qos) \<Rightarrow> participant_qos \<Rightarrow> participant_qos" where
  "client_qos profile q =
     (let q1 = profile (q\<lparr>listener_ports := listener_ports q @ [[]], builtin_transports := False,
            initial_peers := initial_peers q @ [server_locator]\<rparr>)
      in q1\<lparr>user_data := user_data q1 @ [entity_byte CLIENT]\<rparr>)"

definition reaches :: "participant_qos \<Rightarrow> participant_qos \<Rightarrow> bool" where
  "reaches c s \<longleftrightarrow> builtin_transports c = builtin_transports s \<and>
     (\<exists>l \<in> set (initial_peers c). l \<in> set (metatraffic_unicast s) \<and> l \<in> set (default_unicast s) \<and>
        (\<exists>ports \<in> set (listener_ports s). physical_port l \<in> set ports))"

lemma entity_kind_byte: "entity_kind (entity_byte k) = k"
  by (cases k) (simp_all add: entity_kind_def entity_byte_def)

text \<open>Without a profile client and server find and accept each other, and participants of the same kind are ignored.\<close>

lemma calc_participants_meet:
  assumes "user_data q = []"
  shows "reaches (client_qos id q) (server_qos id q) \<and> \<not> fst (on_participant_discovery st (user_data (client_qos id q)) g s) \<and>
    \<not> client_on_participant_discovery (user_data (server_qos id q)) \<and>
    fst (on_participant_discovery st (user_data (server_qos id q)) g s) \<and> client_on_participant_discovery (user_data (client_qos id q))"
  using assms by (simp add: reaches_def client_qos_def server_qos_def server_locator_def on_participant_discovery_def
      client_on_participant_discovery_def entity_kind_byte)

text \<open>A default profile with user data of its own makes both sides ignore each other.\<close>

lemma profile_data_ignored:
  assumes "\<And>q. user_data (profile q) \<noteq> []"
  shows "fst (on_participant_discovery st (user_data (client_qos profile q)) g s) \<and>
    client_on_participant_discovery (user_data (server_qos profile q))"
  using assms by (simp add: client_qos_def server_qos_def on_participant_discovery_def client_on_participant_discovery_def Let_def)

end
