(* ===== verification/Clock_Time.thy ===== *)
theory Clock_Time
  imports Prelude
begin

text \<open>
  The class \<^verbatim>\<open>Time\<close> of \<^verbatim>\<open>src/primer_plus/chap11\<close> in its four versions (\<^verbatim>\<open>mytime0\<close> to \<^verbatim>\<open>mytime3\<close>), which differ in \<^verbatim>\<open>AddHr\<close>. The members
  are \<^verbatim>\<open>int\<close>, division rounds towards zero, and overflow is an error. The multiplication by a \<^verbatim>\<open>double\<close> and the printing are left out.
\<close>

record clock =
  hours :: int
  minutes :: int

definition Time_default :: clock where
  "Time_default = \<lparr>hours = 0, minutes = 0\<rparr>"

text \<open>Carrying minutes over into hours, as every operation does.\<close>

definition carry :: "int \<Rightarrow> int \<Rightarrow> clock result" where
  "carry h m = rbind (c_div m 60) (\<lambda>q. rbind (chk_int (h + q)) (\<lambda>h1. rbind (c_mod m 60) (\<lambda>m1. Inr \<lparr>hours = h1, minutes = m1\<rparr>)))"

definition AddMin :: "int \<Rightarrow> clock \<Rightarrow> clock result" where
  "AddMin m t = rbind (chk_int (minutes t + m)) (carry (hours t))"

definition AddHr :: "int \<Rightarrow> clock \<Rightarrow> clock result" where
  "AddHr h t = rbind (chk_int (hours t + h)) (\<lambda>h1. Inr (t\<lparr>hours := h1\<rparr>))"

definition AddHr_first :: "int \<Rightarrow> clock \<Rightarrow> clock result" where
  "AddHr_first h t = Inr (t\<lparr>hours := h\<rparr>)"

definition Reset_clock :: "int \<Rightarrow> int \<Rightarrow> clock \<Rightarrow> clock" where
  "Reset_clock h m t = t\<lparr>hours := h, minutes := m\<rparr>"

definition plus_clock :: "clock \<Rightarrow> clock \<Rightarrow> clock result" where
  "plus_clock a b = rbind (chk_int (minutes a + minutes b)) (\<lambda>m. rbind (chk_int (hours a + hours b)) (\<lambda>h. carry h m))"

definition minutes_of :: "clock \<Rightarrow> int result" where
  "minutes_of t = rbind (chk_int (60 * hours t)) (\<lambda>x. chk_int (minutes t + x))"

definition minus_clock :: "clock \<Rightarrow> clock \<Rightarrow> clock result" where
  "minus_clock a b = rbind (minutes_of b) (\<lambda>t1. rbind (minutes_of a) (\<lambda>t2. rbind (chk_int (t2 - t1)) (carry 0)))"

section \<open>Lemmas\<close>

definition total_minutes :: "clock \<Rightarrow> int" where
  "total_minutes t = 60 * hours t + minutes t"

definition proper_clock :: "clock \<Rightarrow> bool" where
  "proper_clock t \<longleftrightarrow> 0 \<le> hours t \<and> 0 \<le> minutes t \<and> minutes t < 60"

lemma carry_total: "carry h m = Inr t \<Longrightarrow> total_minutes t = 60 * h + m"
  using sdiv_mult_smod_eq[of m 60] by (auto simp: carry_def c_div_def c_mod_def rbind_eq_Inr_iff total_minutes_def)

lemma sdiv_60_nonneg: "0 \<le> (m::int) \<Longrightarrow> 0 \<le> m sdiv 60"
  by (cases "m = 0") (simp_all add: signed_divide_int_def sgn_mult pos_imp_zdiv_nonneg_iff)

lemma carry_proper: "carry h m = Inr t \<Longrightarrow> 0 \<le> h \<Longrightarrow> 0 \<le> m \<Longrightarrow> proper_clock t"
  using sdiv_60_nonneg[of m] by (auto simp: carry_def c_div_def c_mod_def rbind_eq_Inr_iff proper_clock_def smod_mod_positive)

text \<open>Addition and subtraction are those of minutes, whenever they do not overflow.\<close>

lemma plus_clock_total: "plus_clock a b = Inr t \<Longrightarrow> total_minutes t = total_minutes a + total_minutes b"
  by (auto simp: plus_clock_def rbind_eq_Inr_iff total_minutes_def dest!: carry_total)

lemma minus_clock_total: "minus_clock a b = Inr t \<Longrightarrow> total_minutes t = total_minutes a - total_minutes b"
  by (auto simp: minus_clock_def minutes_of_def rbind_eq_Inr_iff total_minutes_def dest!: carry_total)

lemma AddMin_total: "AddMin m t = Inr u \<Longrightarrow> total_minutes u = total_minutes t + m"
  by (auto simp: AddMin_def rbind_eq_Inr_iff total_minutes_def dest!: carry_total)

lemma proper_unique: "proper_clock a \<Longrightarrow> proper_clock b \<Longrightarrow> total_minutes a = total_minutes b \<Longrightarrow> a = b"
proof -
  assume p: "proper_clock a" "proper_clock b" and t: "total_minutes a = total_minutes b"
  have "hours a = hours b" using p t unfolding proper_clock_def total_minutes_def by linarith
  then show "a = b" using t by (simp add: total_minutes_def)
qed

text \<open>Proper times that do not overflow have a sum, and it is proper.\<close>

lemma plus_clock_returns:
  assumes "proper_clock a" "proper_clock b" "hours a + hours b + 1 < 2 ^ 31"
  shows "\<exists>c. plus_clock a b = Inr c \<and> proper_clock c"
proof -
  let ?m = "minutes a + minutes b" and ?h = "hours a + hours b"
  have m: "0 \<le> ?m" "?m < 120" "0 \<le> ?h" using assms by (auto simp: proper_clock_def)
  have q: "0 \<le> ?m div 60" "?m div 60 \<le> 1" using m by linarith+
  have i: "in_int ?m" "in_int ?h" "in_int (?h + ?m div 60)" using m q assms(3) by (auto simp: in_int_numerals)
  have "plus_clock a b = Inr \<lparr>hours = ?h + ?m div 60, minutes = ?m mod 60\<rparr>"
    using m i by (simp add: plus_clock_def carry_def chk_int_def c_div_nonneg c_mod_nonneg)
  then show ?thesis using m q by (simp add: proper_clock_def)
qed

text \<open>Subtracting what was added gives the time back.\<close>

lemma plus_minus_clock:
  assumes "proper_clock a" "proper_clock b" "plus_clock a b = Inr c" "minus_clock c b = Inr d"
  shows "d = a"
proof (rule proper_unique)
  have t: "total_minutes d = total_minutes a" using plus_clock_total[OF assms(3)] minus_clock_total[OF assms(4)] by simp
  then show "total_minutes d = total_minutes a" .
  obtain m where m: "carry 0 m = Inr d" using assms(4) by (auto simp: minus_clock_def rbind_eq_Inr_iff)
  then have "0 \<le> m" using carry_total[OF m] t assms(1) by (simp add: total_minutes_def proper_clock_def)
  then show "proper_clock d" using carry_proper[OF m] by simp
qed (use assms in simp)

text \<open>The first versions replace the hours instead of adding to them.\<close>

lemma AddHr_first_differs: "AddHr_first 2 \<lparr>hours = 3, minutes = 0\<rparr> = Inr \<lparr>hours = 2, minutes = 0\<rparr> \<and>
   AddHr 2 \<lparr>hours = 3, minutes = 0\<rparr> = Inr \<lparr>hours = 5, minutes = 0\<rparr>"
  by (simp add: AddHr_first_def AddHr_def in_int_numerals)

end
