(* ===== verification/Spec2Isabelle.thy ===== *)
theory Spec2Isabelle
  imports Bounded_Stack Original_Timer Stop_Race Wheel_Timer Periodic_Timer
    Gear_Monitor Power_State Can_Signal Calc_Service Fifo_Queue Heap_String Recharge Delivery_App
    Throughput_System Latency_Run Async_Timer JT_List Perf_Files Instruction Perf_Setup Perf_Options
    Composite_Tree Flag_Handoff Move_Semantics Param_System Latency_Main Throughput_Main Word_Game Cycle_Task Calc_Setup Clock_Time
begin

text \<open>
  \<^bold>\<open>A verification development for the programs of this repository.\<close>

  The repository is a collection of C++ programs: in-vehicle timers and signal monitors
  (\<^verbatim>\<open>src/other/timer\<close>), publish/subscribe and request/reply applications over DDS (\<^verbatim>\<open>src/other/pubsub\<close>), the
  containers and classes of \<^verbatim>\<open>src/primer_plus\<close>, and design pattern programs (\<^verbatim>\<open>src/design_mode\<close>). The
  development models the parts with state and logic of their own. Each part is translated function by
  function; what the language does on an error (undefined behaviour, an exception, \<^verbatim>\<open>std::terminate\<close>) is an
  error value, so that a theorem \<open>f x = Inr y\<close> says that none of it happens.

  \<^bold>\<open>Foundations.\<close>
  \<^item> \<open>Prelude\<close>: the errors (\<open>cpp_error\<close>), results and their composition (\<open>rbind\<close>), 32-bit signed arithmetic with
    overflow as an error (\<open>chk_int\<close>, \<open>c_div\<close>, \<open>c_mod\<close>), checked arrays, word counters.
  \<^item> \<open>Heap\<close>: separately allocated objects with \<^verbatim>\<open>new\<close>, \<^verbatim>\<open>delete\<close>, use after free and double free.
  \<^item> \<open>Prio_Queue\<close>: \<^verbatim>\<open>std::priority_queue\<close> ordered by expiry time.
  \<^item> \<open>Decimal\<close>: \<^verbatim>\<open>std::stoi\<close> and decimal printing, with their round trip.
  \<^item> \<open>Bytes\<close>: little-endian words in byte buffers, with checked \<^verbatim>\<open>memcpy\<close>.

  \<^bold>\<open>Containers and classes.\<close> \<open>Bounded_Stack\<close>: the array stacks of \<^verbatim>\<open>chap10/stack.cpp\<close>, \<^verbatim>\<open>chap14/14_4/stacktp.h\<close> and the heap stack of
  \<^verbatim>\<open>chap14/14_4/14_4_3/stcktp1.h\<close> all satisfy the locale \<open>bounded_lifo\<close>; the driver \<^verbatim>\<open>stkoptr1.cpp\<close> is proved in that
  locale to process every folder exactly once, whatever the random choices, and a copied heap stack shares
  nothing with its original. \<open>Fifo_Queue\<close>: the linked queue of \<^verbatim>\<open>chap15/15.2/queuetp.h\<close> with its nodes on the heap and the
  stoppable queue of \<^verbatim>\<open>share_data/multicom.cpp\<close>, both interpretations of the locale \<open>fifo\<close>; no sequence of operations leaks
  a node. \<open>JT_List\<close>: the linked list and iterator of \<^verbatim>\<open>design_mode/iterator\<close> refine lists of integers, with the one
  operation that is an invalid access named. \<open>Heap_String\<close>: the string classes of \<^verbatim>\<open>chap12\<close>, deep copies and the
  class that lacks them. \<open>Instruction\<close>: the interpreter of \<^verbatim>\<open>design_mode/interpreter_Pattern\<close>, exact on texts of up to ten
  words. \<open>Recharge\<close>: the search for the least recharge amount of \<^verbatim>\<open>statistics/countoff.cpp\<close> against subset sums.
  \<open>Composite_Tree\<close> (\<^verbatim>\<open>design_mode/component\<close>): trees of components on the heap refine forests as long as each component
  has one parent. \<open>Move_Semantics\<close> (\<^verbatim>\<open>chap18\<close>): copies and moves of \<^verbatim>\<open>Useless\<close> objects refine values. \<open>Clock_Time\<close>
  (\<^verbatim>\<open>chap11\<close>, the \<^verbatim>\<open>Time\<close> classes): addition and subtraction are those of minutes. \<open>Word_Game\<close>
  (\<^verbatim>\<open>chap16/16.1/hangman.cpp\<close>): every game equals the game described by the set of its letters.

  \<^bold>\<open>Threads that exchange data.\<close> \<open>Flag_Handoff\<close> (\<^verbatim>\<open>producer_consumer.cpp\<close>): two threads, two flags and a condition
  variable. \<open>Param_System\<close> (\<^verbatim>\<open>share_data/multicom.cpp\<close>): worker, poller, consumer and main thread around the thread-safe
  queue; parameters are processed in order in every interleaving, and the program can stop from every state.

  \<^bold>\<open>Timers.\<close> \<open>Timer_Contract\<close> states what a timer manager promises (locale \<open>timer_impl\<close>): adds, cancels and manager
  rounds in any order. It is interpreted on \<^verbatim>\<open>DualModeTimer\<close> (\<open>Dual_Timer\<close>, from \<^verbatim>\<open>dualtimer.cc\<close>), its first version
  (\<open>Original_Timer\<close>, from \<^verbatim>\<open>originalTimer.cc\<close>) and \<^verbatim>\<open>GracefulTimer\<close> (\<open>Graceful_Timer\<close>, from \<^verbatim>\<open>timer_demo.cpp\<close>); each is a
  record of the class members with one definition per method and one per round of the manager thread, given
  the clock reading. Shown: no timer fires twice, early or after it was cancelled; due timers fire in
  expiry order within as many rounds as are queued; \<^verbatim>\<open>stop\<close> leaves nothing behind. \<open>Stop_Race\<close> interleaves
  \<^verbatim>\<open>stop()\<close> with the manager thread access by access: \<^verbatim>\<open>DualModeTimer\<close> can lose the wake-up and hang,
  \<^verbatim>\<open>GracefulTimer\<close> cannot. \<open>Wheel_Timer\<close> (\<^verbatim>\<open>timeWheel.cpp\<close>) shows in which round a callback of the time wheel runs,
  on time below one turn and early beyond it; \<open>Periodic_Timer\<close> (\<^verbatim>\<open>singleThreadPriQueue.cpp\<close>) that one-shot tasks
  run once and periodic ones a thousand times too soon. \<open>Async_Timer\<close> (\<^verbatim>\<open>testtimer/Timer.hpp\<close>): timers with promises, one
  thread each; every promise is kept when nothing is cancelled, and cancelling ends in an invalid access. \<open>Cycle_Task\<close>
  (\<^verbatim>\<open>src/other/cycle_task\<close>): two periodic schedulers, both interpretations of the locale \<open>cyclic\<close>, from which the rate of every
  task follows.

  \<^bold>\<open>Monitors.\<close> \<open>Gear_Monitor\<close> (\<^verbatim>\<open>pstate.cpp\<close>, \<^verbatim>\<open>pState.cpp\<close>): neither monitor restarts its timer on a change of gear, the
  first because its reset has no effect, the second because it joins a thread that needs the lock it holds.
  \<open>Power_State\<close> (\<^verbatim>\<open>state_check.cpp\<close>): when the sleep flag is raised, over all interleavings. \<open>Can_Signal\<close>
  (\<^verbatim>\<open>state.cpp\<close>): bit extraction with sign on 8-bit words equals the addressed bits of the frame, a frame that is too
  short reads as if zero bytes followed, and the reported jumps are the right pairs.

  \<^bold>\<open>Request/reply service\<close> (\<^verbatim>\<open>src/other/pubsub/dds/request-response\<close>): \<open>Matched_Status\<close> (\<^verbatim>\<open>app_utils.hpp\<close>, locale
  \<open>endpoint_pair\<close>), \<open>Calc_Server\<close> (\<^verbatim>\<open>ServerApp.cpp\<close>), \<open>Calc_Client\<close> (\<^verbatim>\<open>ClientApp.cpp\<close>), \<open>Calc_Cli\<close> (\<^verbatim>\<open>CLIParser.hpp\<close>), \<open>Calc_Setup\<close> (the participants) and
  \<open>Calc_Service\<close>, where they meet. DDS is a parameter: samples that arrive, identities and success of a write,
  and the calls that fail are arguments. Shown: each request is answered with its own result when requests
  come one per callback, and with the last one's when they come together; the client stops exactly when all
  four requests are answered; the whole exchange yields the four results, and never ends for a zero divisor.

  \<^bold>\<open>Delivery mechanisms\<close> (\<^verbatim>\<open>src/other/pubsub/dds/delivery_mechanisms\<close>): \<open>Delivery_Cli\<close> (the options, exact on every printed
  configuration), \<open>Delivery_Setup\<close> (transports and quality of service per mechanism, and that the same options connect)
  and \<open>Delivery_App\<close> (publisher, subscriber and the combined application, with the loans, the accepted writes and the samples
  that arrive as input).

  \<^bold>\<open>Performance tests\<close> (\<^verbatim>\<open>src/other/pubsub/dds/performance\<close>). Throughput: \<open>Throughput_Types\<close> (samples and commands on the
  wire), \<open>Throughput_Listener\<close> (counting samples, locale \<open>sample_counter\<close>), \<open>Throughput_Publisher\<close> and
  \<open>Throughput_Subscriber\<close> (both \<^verbatim>\<open>run\<close> functions cut at their waits) and \<open>Throughput_System\<close>, which runs them against each
  other over reliable command channels and a lossy data channel, with calls that succeed and answers that come in time: an
  invariant per pair of program counters, from which every test is reported once, in order, and with numbers that add up as
  long as no 32-bit count wraps (\<open>fits\<close>), and a measure (\<open>shrinks\<close>) under which every run ends.
  Latency: \<open>Latency_Types\<close> and \<open>Latency_Test\<close> (round trips, echoes, percentiles), \<open>Latency_System\<close> (publisher and any
  number of subscribers as a step relation, with an invariant that relates every subscriber to the place of the publisher) and
  \<open>Latency_Run\<close> (every run ends, and how). \<open>Perf_Files\<close>: the files of payloads, demands
  and recovery times. \<open>Perf_Setup\<close>: \<^verbatim>\<open>init\<close> and teardown of the four programs under every pattern of failing DDS
  calls, with what DDS does when it is asked to delete a null pointer as a parameter. \<open>Option_Parser\<close>: the parser of \<^verbatim>\<open>optionparser.h\<close> over a table of options, whose second pass stays within the
  buffers that its first pass measured; \<open>Perf_Options\<close>: the tables and switches of both \<^verbatim>\<open>main\<close> functions.
  \<open>Latency_Main\<close> and \<open>Throughput_Main\<close> put these parts together: \<^verbatim>\<open>main\<close> from the argument vector to the exit code, with
  publisher and subscribers in one process, and what each exit code means for every command line, every content of
  the files, every pattern of calls that fail in \<^verbatim>\<open>init\<close> and every interleaving of the threads.
  All of it with static types; dynamic types are left out.

  \<^bold>\<open>Bounds and fuel.\<close> Timer ids are \<^verbatim>\<open>int\<close> counters: histories shorter than \<open>2 ^ 31 - 1\<close> calls. The polling loops of
  \<open>Graceful_Timer\<close> take fuel; \<open>d / 100 + 2\<close> rounds and 101 rounds are proved to be enough when the clock advances
  with the sleeps. Loops along linked lists take fuel for the nodes they visit; the length of the list is enough. The
  throughput properties take demands below \<open>2 ^ 32 - 1\<close>; a test may send any number of samples, and what is shown of its counts
  holds below \<open>2 ^ 32 - 1\<close> samples, where the code's own counters do not wrap. The basket driver and the bit extraction terminate by a measure.

  The latency protocol ends within a number of steps that is linear in the payloads and the subscribers; its properties
  need no bound on either. A throughput program has one subscriber.

  \<^bold>\<open>Not modelled.\<close> In the throughput run, time-outs, failed acknowledgments and failed calls other than loans and writes of data;
  the definitions of its steps have them, the composed system does not take them. The headers of the installed DDS library other than its option parser, and the types that its
  generator writes: their behaviour is an argument or a hypothesis. Programs whose logic is a call of the
  operating system or of a missing SDK (cameras, sockets, shared memory, the event clients and services), which would leave
  nothing but parameters. Demonstrations of a language feature that print their results, without state of their own.
  Two older programs of the publish/subscribe part: the request/reply program whose callbacks are those of the one modelled, and a
  throughput program that is unfinished. Dynamic types, help texts, console output, floating-point statistics other than order and mean,
  and data races of code without locks, which the step models take as atomic.
\<close>

end
